(* ===== verification/Prelude.thy ===== *)
theory Prelude
  imports Main "HOL-Library.Word" "HOL-Library.Sublist" "HOL-Library.Char_ord"
    "HOL-Library.List_Lexorder" "HOL-Library.Product_Lexorder" "HOL-Library.Option_ord"
    "HOL-Library.Code_Target_Nat"
begin

text \<open>
  What the components share: Rust strings and byte slices, results, machine-width
  counters, the ordered collections of the standard library, and the automation
  collections.

  A Rust \<open>&str\<close>, \<open>String\<close>, \<open>&[u8]\<close> or \<open>Vec<u8>\<close> is a list of bytes (\<open>char\<close> is an
  8-bit byte in HOL): a string is its UTF-8 encoding, so lengths and offsets are byte
  lengths and byte offsets, and the derived order of \<open>str\<close> and \<open>[u8]\<close> is the
  lexicographic order of \<open>List_Lexorder\<close>. A \<open>Result<T, E>\<close> is \<open>'e + 'a\<close> with \<open>Inl\<close> for
  \<open>Err\<close>. A \<open>u64\<close> or a (64-bit) \<open>usize\<close> counter is a \<open>nat\<close> with its width written out in
  the checked operations; hash words are \<open>32 word\<close> and \<open>64 word\<close>. A \<open>BTreeMap\<close> is the
  list of its entries in key order, a \<open>BTreeSet\<close> the list of its elements in order.
\<close>

type_synonym str = string
type_synonym bytes = "char list"
type_synonym u8 = "8 word"
type_synonym u32 = "32 word"
type_synonym u64 = "64 word"

named_theorems res_simps \<open>rewriting of results\<close>
named_theorems map_simps \<open>rewriting of ordered maps\<close>

section \<open>Results\<close>

fun res_bind :: "'e + 'a \<Rightarrow> ('a \<Rightarrow> 'e + 'b) \<Rightarrow> 'e + 'b" where
  "res_bind (Inl e) f = Inl e"
| "res_bind (Inr x) f = f x"

definition ok_or :: "'e \<Rightarrow> 'a option \<Rightarrow> 'e + 'a" where
  "ok_or e x = (case x of None \<Rightarrow> Inl e | Some y \<Rightarrow> Inr y)"

text \<open>\<open>iter().map(f).collect::<Result<Vec<_>, _>>()\<close>: the first error stops it.\<close>

fun res_map :: "('a \<Rightarrow> 'e + 'b) \<Rightarrow> 'a list \<Rightarrow> 'e + 'b list" where
  "res_map f [] = Inr []"
| "res_map f (x # xs) = res_bind (f x) (\<lambda>y. res_bind (res_map f xs) (\<lambda>ys. Inr (y # ys)))"

definition is_ok :: "'e + 'a \<Rightarrow> bool" where
  "is_ok r = (case r of Inl _ \<Rightarrow> False | Inr _ \<Rightarrow> True)"

lemma res_bind_Inr [res_simps]:
  "res_bind m f = Inr y \<longleftrightarrow> (\<exists>x. m = Inr x \<and> f x = Inr y)"
  by (cases m) auto

lemma res_bind_Inl [res_simps]:
  "res_bind m f = Inl e \<longleftrightarrow> m = Inl e \<or> (\<exists>x. m = Inr x \<and> f x = Inl e)"
  by (cases m) auto

text \<open>Early returns in front of the rest of a function.\<close>

lemma res_guard:
  "(if b then Inl e else r) = Inr y \<longleftrightarrow> \<not> b \<and> r = Inr y"
  "(case x of Some e \<Rightarrow> Inl e | None \<Rightarrow> r) = Inr y \<longleftrightarrow> x = None \<and> r = Inr y"
  by (auto split: option.split)

lemma ok_or_simps [simp]: "ok_or e None = Inl e" "ok_or e (Some x) = Inr x"
  by (simp_all add: ok_or_def)

lemma ok_or_Inr [res_simps]: "ok_or e x = Inr y \<longleftrightarrow> x = Some y"
  by (cases x) auto

lemma is_ok_simps [simp]: "is_ok (Inr x)" "\<not> is_ok (Inl e)"
  by (simp_all add: is_ok_def)

lemma is_ok_iff: "is_ok r \<longleftrightarrow> (\<exists>x. r = Inr x)"
  by (cases r) auto

lemma res_map_Inr_length: "res_map f xs = Inr ys \<Longrightarrow> length ys = length xs"
  by (induction xs arbitrary: ys) (auto simp: res_simps)

lemma res_map_Inr_map: "(\<And>x. x \<in> set xs \<Longrightarrow> f x = Inr (g x)) \<Longrightarrow> res_map f xs = Inr (map g xs)"
  by (induction xs) auto

section \<open>Machine-width counters\<close>

definition u64_max :: nat where
  "u64_max = 18446744073709551615"

definition checked_add_u64 :: "nat \<Rightarrow> nat \<Rightarrow> nat option" where
  "checked_add_u64 a b = (if a + b \<le> u64_max then Some (a + b) else None)"

definition checked_sub :: "nat \<Rightarrow> nat \<Rightarrow> nat option" where
  "checked_sub a b = (if b \<le> a then Some (a - b) else None)"

text \<open>\<open>saturating_sub\<close> on an unsigned type is the truncated subtraction of \<open>nat\<close>.\<close>

definition saturating_sub :: "nat \<Rightarrow> nat \<Rightarrow> nat" where
  "saturating_sub a b = a - b"

lemma checked_sub_Some [simp]: "checked_sub a b = Some c \<longleftrightarrow> b \<le> a \<and> c = a - b"
  by (auto simp: checked_sub_def)

lemma checked_sub_None [simp]: "checked_sub a b = None \<longleftrightarrow> a < b"
  by (auto simp: checked_sub_def)

lemma checked_add_u64_Some [simp]:
  "checked_add_u64 a b = Some c \<longleftrightarrow> a + b \<le> u64_max \<and> c = a + b"
  by (auto simp: checked_add_u64_def)

section \<open>Bytes\<close>

definition code :: "char \<Rightarrow> nat" where
  "code c = of_char c"

definition is_ascii_digit :: "char \<Rightarrow> bool" where
  "is_ascii_digit c \<longleftrightarrow> 48 \<le> code c \<and> code c \<le> 57"

definition is_ascii_lowercase :: "char \<Rightarrow> bool" where
  "is_ascii_lowercase c \<longleftrightarrow> 97 \<le> code c \<and> code c \<le> 122"

definition is_ascii_uppercase :: "char \<Rightarrow> bool" where
  "is_ascii_uppercase c \<longleftrightarrow> 65 \<le> code c \<and> code c \<le> 90"

definition is_ascii_alphabetic :: "char \<Rightarrow> bool" where
  "is_ascii_alphabetic c \<longleftrightarrow> is_ascii_lowercase c \<or> is_ascii_uppercase c"

definition is_ascii_alphanumeric :: "char \<Rightarrow> bool" where
  "is_ascii_alphanumeric c \<longleftrightarrow> is_ascii_alphabetic c \<or> is_ascii_digit c"

definition is_ascii_hexdigit :: "char \<Rightarrow> bool" where
  "is_ascii_hexdigit c \<longleftrightarrow>
     is_ascii_digit c \<or> (65 \<le> code c \<and> code c \<le> 70) \<or> (97 \<le> code c \<and> code c \<le> 102)"

definition is_ascii_graphic :: "char \<Rightarrow> bool" where
  "is_ascii_graphic c \<longleftrightarrow> 33 \<le> code c \<and> code c \<le> 126"

definition lower_byte :: "char \<Rightarrow> char" where
  "lower_byte c = (if is_ascii_uppercase c then char_of (code c + 32) else c)"

definition to_ascii_lowercase :: "str \<Rightarrow> str" where
  "to_ascii_lowercase s = map lower_byte s"

lemma code_less_256 [simp]: "code c < 256"
  by (simp add: code_def)

lemma code_inject [simp]: "code c = code d \<longleftrightarrow> c = d"
  by (simp add: code_def)

lemma char_of_code [simp]: "char_of (code c) = c"
  by (simp add: code_def)

lemma code_char_of: "n < 256 \<Longrightarrow> code (char_of n) = n"
  by (simp add: code_def)

section \<open>Strings\<close>

definition strip_prefix :: "str \<Rightarrow> str \<Rightarrow> str option" where
  "strip_prefix p s = (if prefix p s then Some (drop (length p) s) else None)"

definition strip_suffix :: "str \<Rightarrow> str \<Rightarrow> str option" where
  "strip_suffix p s = (if suffix p s then Some (take (length s - length p) s) else None)"

text \<open>\<open>str::find\<close> of a string: the byte offset of its first occurrence.\<close>

fun find_str :: "str \<Rightarrow> str \<Rightarrow> nat option" where
  "find_str p [] = (if p = [] then Some 0 else None)"
| "find_str p (c # s) = (if prefix p (c # s) then Some 0 else map_option Suc (find_str p s))"

definition contains :: "str \<Rightarrow> str \<Rightarrow> bool" where
  "contains s p = (find_str p s \<noteq> None)"

text \<open>\<open>split\<close> on one ASCII character: always at least one piece.\<close>

fun split_on :: "char \<Rightarrow> str \<Rightarrow> str list" where
  "split_on d [] = [[]]"
| "split_on d (c # s) =
     (if c = d then [] # split_on d s
      else (case split_on d s of [] \<Rightarrow> [[c]] | w # ws \<Rightarrow> (c # w) # ws))"

text \<open>\<open>split_once\<close> on one ASCII character.\<close>

fun split_once :: "char \<Rightarrow> str \<Rightarrow> (str \<times> str) option" where
  "split_once d [] = None"
| "split_once d (c # s) =
     (if c = d then Some ([], s) else map_option (\<lambda>(a, b). (c # a, b)) (split_once d s))"

text \<open>\<open>join\<close> of a list of strings with a separator.\<close>

fun join :: "str \<Rightarrow> str list \<Rightarrow> str" where
  "join sep [] = []"
| "join sep [x] = x"
| "join sep (x # y # xs) = x @ sep @ join sep (y # xs)"

text \<open>
  \<open>str::lines\<close>: pieces ended by a newline, each without its newline and without one
  carriage return before it; a last piece without newline is kept as it is, and an
  empty last piece is no line.
\<close>

definition strip_cr :: "str \<Rightarrow> str" where
  "strip_cr s = (if s \<noteq> [] \<and> last s = CHR 0x0D then butlast s else s)"

fun lines_acc :: "str \<Rightarrow> str \<Rightarrow> str list" where
  "lines_acc acc [] = (if acc = [] then [] else [rev acc])"
| "lines_acc acc (c # s) =
     (if c = CHR 0x0A then strip_cr (rev acc) # lines_acc [] s else lines_acc (c # acc) s)"

definition str_lines :: "str \<Rightarrow> str list" where
  "str_lines s = lines_acc [] s"

text \<open>
  The UTF-8 encodings of the characters with the Unicode property \<open>White_Space\<close>, which
  \<open>trim\<close> removes. In valid UTF-8 a character is whitespace exactly when one of these
  byte sequences stands at its place.
\<close>

definition ws_seqs :: "str list" where
  "ws_seqs =
     [[CHR 0x20], [CHR 0x09], [CHR 0x0A], [CHR 0x0B], [CHR 0x0C], [CHR 0x0D],
      [CHR 0xC2, CHR 0x85], [CHR 0xC2, CHR 0xA0], [CHR 0xE1, CHR 0x9A, CHR 0x80],
      [CHR 0xE2, CHR 0x80, CHR 0x80], [CHR 0xE2, CHR 0x80, CHR 0x81],
      [CHR 0xE2, CHR 0x80, CHR 0x82], [CHR 0xE2, CHR 0x80, CHR 0x83],
      [CHR 0xE2, CHR 0x80, CHR 0x84], [CHR 0xE2, CHR 0x80, CHR 0x85],
      [CHR 0xE2, CHR 0x80, CHR 0x86], [CHR 0xE2, CHR 0x80, CHR 0x87],
      [CHR 0xE2, CHR 0x80, CHR 0x88], [CHR 0xE2, CHR 0x80, CHR 0x89],
      [CHR 0xE2, CHR 0x80, CHR 0x8A], [CHR 0xE2, CHR 0x80, CHR 0xA8],
      [CHR 0xE2, CHR 0x80, CHR 0xA9], [CHR 0xE2, CHR 0x80, CHR 0xAF],
      [CHR 0xE2, CHR 0x81, CHR 0x9F], [CHR 0xE3, CHR 0x80, CHR 0x80]]"

definition ws_len :: "str \<Rightarrow> nat" where
  "ws_len s = (case find (\<lambda>w. prefix w s) ws_seqs of None \<Rightarrow> 0 | Some w \<Rightarrow> length w)"

definition ws_len_end :: "str \<Rightarrow> nat" where
  "ws_len_end s = (case find (\<lambda>w. suffix w s) ws_seqs of None \<Rightarrow> 0 | Some w \<Rightarrow> length w)"

function trim_start :: "str \<Rightarrow> str" where
  "trim_start s = (if s = [] \<or> ws_len s = 0 then s else trim_start (drop (ws_len s) s))"
  by pat_completeness auto
termination
  by (relation "measure length") auto

function trim_end :: "str \<Rightarrow> str" where
  "trim_end s =
     (if s = [] \<or> ws_len_end s = 0 then s else trim_end (take (length s - ws_len_end s) s))"
  by pat_completeness auto
termination
  by (relation "measure length") auto

declare trim_start.simps [simp del] trim_end.simps [simp del]

definition trim :: "str \<Rightarrow> str" where
  "trim s = trim_end (trim_start s)"

definition trim_end_matches :: "char \<Rightarrow> str \<Rightarrow> str" where
  "trim_end_matches c s = rev (dropWhile (\<lambda>d. d = c) (rev s))"

definition trim_start_matches :: "char \<Rightarrow> str \<Rightarrow> str" where
  "trim_start_matches c s = dropWhile (\<lambda>d. d = c) s"

lemma split_on_line: "d \<notin> set b \<Longrightarrow> split_on d b = [b]"
  by (induction b) auto

lemma split_on_nonempty: "split_on d s \<noteq> []"
  by (induction d s rule: split_on.induct) (auto split: list.split)

lemma split_on_append: "split_on d (a @ d # b) = split_on d a @ split_on d b"
proof (induction a)
  case (Cons c a)
  show ?case
    using Cons split_on_nonempty [of d a] by (cases "split_on d a") simp_all
qed simp

lemma split_once_Some: "split_once d s = Some (a, b) \<Longrightarrow> s = a @ d # b \<and> d \<notin> set a"
  by (induction s arbitrary: a) (auto split: if_splits)

lemma split_once_intro: "d \<notin> set n \<Longrightarrow> split_once d (n @ d # s) = Some (n, s)"
  by (induction n) auto

lemma split_once_iff:
  "split_once d s = None \<longleftrightarrow> d \<notin> set s"
  "split_once d s = Some (a, b) \<longleftrightarrow> s = a @ d # b \<and> d \<notin> set a"
proof -
  show "split_once d s = None \<longleftrightarrow> d \<notin> set s" by (induction s) auto
  show "split_once d s = Some (a, b) \<longleftrightarrow> s = a @ d # b \<and> d \<notin> set a"
    using split_once_Some split_once_intro by blast
qed

lemma join_append:
  "as \<noteq> [] \<Longrightarrow> bs \<noteq> [] \<Longrightarrow> join sep (as @ bs) = join sep as @ sep @ join sep bs"
proof (induction as)
  case (Cons a as)
  then show ?case by (cases as; cases bs) auto
qed simp

lemma join_Cons: "join sep (x # xs) = (if xs = [] then x else x @ sep @ join sep xs)"
  by (cases xs) auto

lemma join_split: "join [d] (split_on d s) = s"
proof (induction s)
  case (Cons c s)
  then show ?case
    using split_on_nonempty [of d s] by (cases "split_on d s") (auto simp: join_Cons)
qed simp

section \<open>Formatting and parsing numbers\<close>

definition hex_digit :: "nat \<Rightarrow> char" where
  "hex_digit n = (if n < 10 then char_of (48 + n) else char_of (87 + n))"

text \<open>\<open>hex_pad k n\<close> is the last \<open>k\<close> lowercase hexadecimal digits of \<open>n\<close>: \<open>{:02x}\<close> of
  a byte with \<open>k = 2\<close>, \<open>{:016x}\<close> of a 64-bit word with \<open>k = 16\<close>.\<close>

fun hex_pad :: "nat \<Rightarrow> nat \<Rightarrow> str" where
  "hex_pad 0 n = []"
| "hex_pad (Suc k) n = hex_pad k (n div 16) @ [hex_digit (n mod 16)]"

text \<open>Decimal \<open>Display\<close> of an unsigned integer.\<close>

fun dec :: "nat \<Rightarrow> str" where
  "dec n = (if n < 10 then [char_of (48 + n)] else dec (n div 10) @ [char_of (48 + n mod 10)])"

declare dec.simps [simp del]

fun digits_value :: "nat \<Rightarrow> str \<Rightarrow> nat" where
  "digits_value acc [] = acc"
| "digits_value acc (c # s) = digits_value (10 * acc + (code c - 48)) s"

text \<open>\<open>str::parse\<close> of an unsigned integer type with the given maximum: an optional plus
  sign, then at least one digit, and no overflow.\<close>

definition parse_uint :: "nat \<Rightarrow> str \<Rightarrow> nat option" where
  "parse_uint m s =
     (let d = (case s of [] \<Rightarrow> [] | c # t \<Rightarrow> if c = CHR ''+'' then t else s)
      in if d \<noteq> [] \<and> list_all is_ascii_digit d \<and> digits_value 0 d \<le> m
         then Some (digits_value 0 d) else None)"

section \<open>UTF-8 validity\<close>

definition byte_in :: "nat \<Rightarrow> nat \<Rightarrow> char \<Rightarrow> bool" where
  "byte_in lo hi c \<longleftrightarrow> lo \<le> code c \<and> code c \<le> hi"

text \<open>\<open>std::str::from_utf8\<close> accepts exactly these byte sequences.\<close>

fun valid_utf8 :: "bytes \<Rightarrow> bool" where
  "valid_utf8 [] = True"
| "valid_utf8 (a # s) =
     (if code a < 128 then valid_utf8 s
      else if byte_in 194 223 a then
        (case s of b # t \<Rightarrow> byte_in 128 191 b \<and> valid_utf8 t | _ \<Rightarrow> False)
      else if byte_in 224 239 a then
        (case s of
           b # c # t \<Rightarrow>
             byte_in (if code a = 224 then 160 else 128) (if code a = 237 then 159 else 191) b
             \<and> byte_in 128 191 c \<and> valid_utf8 t
         | _ \<Rightarrow> False)
      else if byte_in 240 244 a then
        (case s of
           b # c # d # t \<Rightarrow>
             byte_in (if code a = 240 then 144 else 128) (if code a = 244 then 143 else 191) b
             \<and> byte_in 128 191 c \<and> byte_in 128 191 d \<and> valid_utf8 t
         | _ \<Rightarrow> False)
      else False)"

section \<open>Ordered collections\<close>

type_synonym ('k, 'v) omap = "('k \<times> 'v) list"

fun om_put :: "'k::linorder \<Rightarrow> 'v \<Rightarrow> ('k, 'v) omap \<Rightarrow> ('k, 'v) omap" where
  "om_put k v [] = [(k, v)]"
| "om_put k v ((a, b) # m) =
     (if k < a then (k, v) # (a, b) # m
      else if k = a then (k, v) # m
      else (a, b) # om_put k v m)"

fun om_del :: "'k::linorder \<Rightarrow> ('k, 'v) omap \<Rightarrow> ('k, 'v) omap" where
  "om_del k [] = []"
| "om_del k ((a, b) # m) = (if k = a then m else (a, b) # om_del k m)"

definition om_get :: "('k::linorder, 'v) omap \<Rightarrow> 'k \<Rightarrow> 'v option" where
  "om_get m k = map_of m k"

definition om_keys :: "('k::linorder, 'v) omap \<Rightarrow> 'k list" where
  "om_keys m = map fst m"

definition om_inv :: "('k::linorder, 'v) omap \<Rightarrow> bool" where
  "om_inv m = sorted_wrt (<) (map fst m)"

definition om_of_list :: "('k::linorder \<times> 'v) list \<Rightarrow> ('k, 'v) omap" where
  "om_of_list kvs = foldl (\<lambda>m (k, v). om_put k v m) [] kvs"

definition btree_set :: "'a::linorder list \<Rightarrow> 'a list" where
  "btree_set xs = sort (remdups xs)"

text \<open>\<open>Vec::dedup\<close> drops repeats of the element just kept.\<close>

definition dedup :: "'a list \<Rightarrow> 'a list" where
  "dedup xs = remdups_adj xs"

lemma om_inv_Cons [map_simps]:
  "om_inv ((a, b) # m) \<longleftrightarrow> (\<forall>k \<in> fst ` set m. a < k) \<and> om_inv m"
  by (auto simp: om_inv_def)

lemma om_inv_Nil [simp]: "om_inv []"
  by (simp add: om_inv_def)

lemma om_put_keys [map_simps]: "fst ` set (om_put k v m) = insert k (fst ` set m)"
  by (induction m) (force split: if_splits)+

lemma om_put_inv: "om_inv m \<Longrightarrow> om_inv (om_put k v m)"
proof (induction m)
  case (Cons p m)
  obtain a b where p: "p = (a, b)" by (cases p)
  from Cons p have m: "\<forall>j \<in> fst ` set m. a < j" "om_inv m" "om_inv (om_put k v m)"
    by (auto simp: map_simps)
  consider "k < a" | "k = a" | "a < k" by (rule linorder_cases)
  then show ?case
    by cases (use m p in \<open>auto simp: map_simps ball_Un\<close>)
qed (simp add: map_simps)

lemma om_del_subset: "set (om_del k m) \<subseteq> set m"
  by (induction m) (auto split: if_splits)

lemma om_del_inv: "om_inv m \<Longrightarrow> om_inv (om_del k m)"
proof (induction m)
  case (Cons p m)
  obtain a b where p: "p = (a, b)" by (cases p)
  have "\<forall>q \<in> set (om_del k m). q \<in> set m"
    using om_del_subset [of k m] by blast
  with Cons p show ?case by (auto simp: map_simps)
qed simp

lemma om_get_Nil [simp]: "om_get [] k = None"
  by (simp add: om_get_def)

lemma om_get_Cons: "om_get ((a, b) # m) k = (if k = a then Some b else om_get m k)"
  by (simp add: om_get_def)

lemma om_get_put: "om_get (om_put k v m) j = (if j = k then Some v else om_get m j)"
  by (induction m) (auto simp: om_get_Cons)

lemma om_get_notin: "k \<notin> fst ` set m \<Longrightarrow> om_get m k = None"
  by (induction m) (auto simp: om_get_Cons)

lemma om_get_del: "om_inv m \<Longrightarrow> om_get (om_del k m) j = (if j = k then None else om_get m j)"
proof (induction m)
  case (Cons p m)
  obtain a b where p: "p = (a, b)" by (cases p)
  from Cons.prems p have "a \<notin> fst ` set m" by (auto simp: map_simps)
  then have "om_get m a = None" by (rule om_get_notin)
  with Cons p show ?case by (auto simp: om_get_Cons map_simps)
qed simp

lemma om_get_Some_iff: "om_inv m \<Longrightarrow> om_get m k = Some v \<longleftrightarrow> (k, v) \<in> set m"
  unfolding om_get_def om_inv_def
  by (rule map_of_eq_Some_iff) (simp add: strict_sorted_iff)

lemma om_keys_get: "set (om_keys m) = {k. om_get m k \<noteq> None}"
  by (induction m) (auto simp: om_keys_def om_get_Cons)

lemma om_keys_sorted: "om_inv m \<Longrightarrow> sorted_wrt (<) (om_keys m)"
  by (simp add: om_inv_def om_keys_def)

lemma om_of_list_inv: "om_inv (om_of_list kvs)"
proof -
  have "om_inv m \<Longrightarrow> om_inv (foldl (\<lambda>m (k, v). om_put k v m) m kvs)" for m
    by (induction kvs arbitrary: m) (auto simp: om_put_inv)
  then show ?thesis by (simp add: om_of_list_def)
qed

lemma om_del_filter: "om_inv m \<Longrightarrow> om_del k m = filter (\<lambda>p. fst p \<noteq> k) m"
proof (induction m)
  case (Cons p m)
  obtain a b where p: "p = (a, b)" by (cases p)
  from Cons.prems p have "a \<notin> fst ` set m" by (auto simp: map_simps)
  then have "filter (\<lambda>p. fst p \<noteq> a) m = m" by (auto simp: filter_id_conv)
  with Cons p show ?case by (auto simp: map_simps)
qed simp

lemma om_put_set:
  "om_inv m \<Longrightarrow> set (om_put k v m) = insert (k, v) {p \<in> set m. fst p \<noteq> k}"
proof (induction m)
  case (Cons p m)
  obtain a b where p: "p = (a, b)" by (cases p)
  from Cons p have "\<forall>q \<in> set m. a < fst q"
    "set (om_put k v m) = insert (k, v) {p \<in> set m. fst p \<noteq> k}"
    by (auto simp: map_simps)
  with p show ?case by (auto split: if_splits)
qed simp

lemma om_put_sum_new:
  "k \<notin> fst ` set m \<Longrightarrow> sum_list (map f (om_put k v m)) = f (k, v) + sum_list (map f m)"
  for f :: "'k::linorder \<times> 'v \<Rightarrow> nat"
  by (induction m) auto

lemma om_put_length_new: "k \<notin> fst ` set m \<Longrightarrow> length (om_put k v m) = Suc (length m)"
  by (induction m) auto

lemma om_del_sum:
  "om_inv m \<Longrightarrow> (k, v) \<in> set m \<Longrightarrow> f (k, v) + sum_list (map f (om_del k m)) = sum_list (map f m)"
  for f :: "'k::linorder \<times> 'v \<Rightarrow> nat"
  by (induction m) (force simp: map_simps)+

lemma om_del_length: "(k, v) \<in> set m \<Longrightarrow> Suc (length (om_del k m)) = length m"
  by (induction m) auto

lemma btree_set_simps [simp]:
  "set (btree_set xs) = set xs" "distinct (btree_set xs)" "sorted (btree_set xs)"
  by (simp_all add: btree_set_def)

lemma btree_set_eqI: "set xs = set ys \<Longrightarrow> btree_set xs = btree_set ys"
  by (metis btree_set_simps sorted_distinct_set_unique)

section \<open>The interface of an ordered dictionary\<close>

text \<open>
  What the components rely on when they keep a \<open>BTreeMap\<close>: lookups after insertion and
  removal, and iteration in key order. The model's ordered lists provide it.
\<close>

locale ordered_dict =
  fixes empty :: "'m"
    and get :: "'m \<Rightarrow> 'k::linorder \<Rightarrow> 'v option"
    and put :: "'k \<Rightarrow> 'v \<Rightarrow> 'm \<Rightarrow> 'm"
    and del :: "'k \<Rightarrow> 'm \<Rightarrow> 'm"
    and keys :: "'m \<Rightarrow> 'k list"
    and ok :: "'m \<Rightarrow> bool"
  assumes ok_empty: "ok empty"
    and ok_put: "ok m \<Longrightarrow> ok (put k v m)"
    and ok_del: "ok m \<Longrightarrow> ok (del k m)"
    and get_empty: "get empty k = None"
    and get_put: "ok m \<Longrightarrow> get (put k v m) j = (if j = k then Some v else get m j)"
    and get_del: "ok m \<Longrightarrow> get (del k m) j = (if j = k then None else get m j)"
    and keys_get: "ok m \<Longrightarrow> set (keys m) = {k. get m k \<noteq> None}"
    and keys_sorted: "ok m \<Longrightarrow> sorted_wrt (<) (keys m)"
begin

lemma keys_empty: "keys empty = []"
  using keys_get [OF ok_empty] by (simp add: get_empty)

lemma keys_put: "ok m \<Longrightarrow> set (keys (put k v m)) = insert k (set (keys m))"
  by (auto simp: keys_get ok_put get_put)

lemma keys_del: "ok m \<Longrightarrow> set (keys (del k m)) = set (keys m) - {k}"
  by (auto simp: keys_get ok_del get_del)

lemma keys_cong:
  assumes "ok m" "ok n" "\<And>k. get m k = get n k"
  shows "keys m = keys n"
  using assms keys_sorted [of m] keys_sorted [of n] keys_get [of m] keys_get [of n]
  by (simp add: strict_sorted_equal)

lemma keys_put_commute:
  assumes "ok m" "j \<noteq> k"
  shows "keys (put j v (put k w m)) = keys (put k w (put j v m))"
  by (rule keys_cong) (simp_all add: assms ok_put get_put)

end

interpretation om: ordered_dict "[]" om_get om_put om_del om_keys om_inv
  by unfold_locales
    (simp_all add: om_put_inv om_del_inv om_get_put om_get_del om_keys_get om_keys_sorted)

end
