(* ===== verification/Content_Identity.thy ===== *)
theory Content_Identity
  imports Prelude
begin

unbundle bit_operations_syntax

text \<open>
  \<open>scan/digest.rs\<close>: the weak content identity of the scanner. \<open>ContentIdentity::from_bytes\<close>
  is the loop over the bytes with its three 64-bit lanes; \<open>compare\<close> is the conservative
  comparison. The lemmas show what the weak identity does detect: every step of each lane
  is injective in the lane and in the byte, so two inputs of the same length that differ
  in exactly one byte never compare as ambiguous, and neither do inputs of different
  lengths.
\<close>

record content_identity =
  byte_len :: nat
  lanes :: "u64 \<times> u64 \<times> u64"

datatype identity_comparison = Different | AmbiguousReparse

definition byte_word :: "char \<Rightarrow> u64" where
  "byte_word c = word_of_nat (code c)"

definition lane0_step :: "nat \<Rightarrow> char \<Rightarrow> u64 \<Rightarrow> u64" where
  "lane0_step i c l = l * 0x100000001b3 + (byte_word c XOR word_rotl 17 (word_of_nat i))"

definition lane1_step :: "nat \<Rightarrow> char \<Rightarrow> u64 \<Rightarrow> u64" where
  "lane1_step i c l =
     word_rotl 13 (l XOR (byte_word c + word_of_nat i)) * 0x9e3779b185ebca87"

definition lane2_step :: "nat \<Rightarrow> char \<Rightarrow> u64 \<Rightarrow> u64" where
  "lane2_step i c l =
     word_rotl 29 (l + byte_word c * 0x1000000001b3)
       XOR (word_of_nat i * 0xbf58476d1ce4e5b9)"

fun from_bytes_loop :: "nat \<Rightarrow> bytes \<Rightarrow> u64 \<times> u64 \<times> u64 \<Rightarrow> u64 \<times> u64 \<times> u64" where
  "from_bytes_loop i [] ls = ls"
| "from_bytes_loop i (c # s) (l0, l1, l2) =
     from_bytes_loop (Suc i) s (lane0_step i c l0, lane1_step i c l1, lane2_step i c l2)"

definition from_bytes :: "bytes \<Rightarrow> content_identity" where
  "from_bytes bs =
     \<lparr>byte_len = length bs,
      lanes = from_bytes_loop 0 bs
        (0xcbf29ce484222325, 0x9e3779b97f4a7c15, 0xd6e8feb86659fd93)\<rparr>"

definition compare_identity :: "content_identity \<Rightarrow> content_identity \<Rightarrow> identity_comparison" where
  "compare_identity a b = (if a = b then AmbiguousReparse else Different)"

section \<open>What the weak identity detects\<close>

lemma word_mult_cancel: "p * q = 1 \<Longrightarrow> x * p = y * p \<Longrightarrow> x = y" for x y p q :: "'a::len word"
  by (metis mult.assoc mult.right_neutral)

lemma word_xor_cancel: "x XOR z = y XOR z \<Longrightarrow> x = y" for x y z :: "'a::len word"
  by (metis xor.assoc xor.right_neutral xor_self_eq)

lemma word_rotl_cancel: "word_rotl n x = word_rotl n y \<Longrightarrow> x = y" for x y :: "'a::len word"
  by (metis word_rot_lr)

lemma byte_word_inj: "byte_word c = byte_word d \<Longrightarrow> c = d"
proof -
  assume "byte_word c = byte_word d"
  then have "unat (word_of_nat (code c) :: u64) = unat (word_of_nat (code d) :: u64)"
    by (simp add: byte_word_def)
  then have "code c mod 2 ^ 64 = code d mod 2 ^ 64"
    by (simp add: unat_of_nat)
  moreover have "code x < 2 ^ 64" for x
    by (rule less_le_trans [OF code_less_256]) simp
  ultimately show "c = d" by simp
qed

text \<open>The odd multipliers are units modulo \<open>2 ^ 64\<close>; the inverses are given.\<close>

lemma lane_units:
  "(0x100000001b3 :: u64) * 0xce965057aff6957b = 1"
  "(0x9e3779b185ebca87 :: u64) * 0x887493432badb37 = 1"
  "(0x1000000001b3 :: u64) * 0xb46dd957aff6957b = 1"
  by simp_all

lemma lane0_inj_lane: "lane0_step i c l = lane0_step i c m \<Longrightarrow> l = m"
  unfolding lane0_step_def by (rule word_mult_cancel [OF lane_units(1)]) simp

lemma lane0_inj_byte: "lane0_step i c l = lane0_step i d l \<Longrightarrow> c = d"
  unfolding lane0_step_def by (auto dest: word_xor_cancel byte_word_inj)

lemma lane1_inj_lane: "lane1_step i c l = lane1_step i c m \<Longrightarrow> l = m"
  unfolding lane1_step_def
  by (drule word_mult_cancel [OF lane_units(2)], drule word_rotl_cancel, drule word_xor_cancel)

lemma lane1_inj_byte: "lane1_step i c l = lane1_step i d l \<Longrightarrow> c = d"
  unfolding lane1_step_def
  by (drule word_mult_cancel [OF lane_units(2)], drule word_rotl_cancel)
    (metis add_right_cancel byte_word_inj word_xor_cancel xor.commute)

lemma lane2_inj_lane: "lane2_step i c l = lane2_step i c m \<Longrightarrow> l = m"
  unfolding lane2_step_def by (drule word_xor_cancel, drule word_rotl_cancel) simp

lemma lane2_inj_byte: "lane2_step i c l = lane2_step i d l \<Longrightarrow> c = d"
  unfolding lane2_step_def
  by (drule word_xor_cancel, drule word_rotl_cancel)
    (metis add_left_cancel byte_word_inj lane_units(3) word_mult_cancel)

lemma loop_append:
  "from_bytes_loop i (s @ t) ls = from_bytes_loop (i + length s) t (from_bytes_loop i s ls)"
  by (induction i s ls rule: from_bytes_loop.induct) simp_all

text \<open>Lanes that differ stay different, each on its own.\<close>

lemma loop_keeps_difference:
  assumes "l0 \<noteq> m0" "l1 \<noteq> m1" "l2 \<noteq> m2"
    and "from_bytes_loop i s (l0, l1, l2) = (a0, a1, a2)"
    and "from_bytes_loop i s (m0, m1, m2) = (b0, b1, b2)"
  shows "a0 \<noteq> b0 \<and> a1 \<noteq> b1 \<and> a2 \<noteq> b2"
  using assms
proof (induction s arbitrary: i l0 l1 l2 m0 m1 m2)
  case (Cons c s)
  show ?case
  proof (rule Cons.IH)
    show "lane0_step i c l0 \<noteq> lane0_step i c m0" "lane1_step i c l1 \<noteq> lane1_step i c m1"
      "lane2_step i c l2 \<noteq> lane2_step i c m2"
      using Cons.prems(1-3) lane0_inj_lane lane1_inj_lane lane2_inj_lane by metis+
  qed (use Cons.prems in simp_all)
qed simp

lemma single_byte_lanes:
  assumes "c \<noteq> d"
    and "lanes (from_bytes (s @ c # t)) = (a0, a1, a2)"
    and "lanes (from_bytes (s @ d # t)) = (b0, b1, b2)"
  shows "a0 \<noteq> b0 \<and> a1 \<noteq> b1 \<and> a2 \<noteq> b2"
proof -
  obtain l0 l1 l2 where l: "from_bytes_loop 0 s
      (0xcbf29ce484222325, 0x9e3779b97f4a7c15, 0xd6e8feb86659fd93) = (l0, l1, l2)"
    by (metis prod_cases3)
  show ?thesis
  proof (rule loop_keeps_difference)
    show "lane0_step (length s) c l0 \<noteq> lane0_step (length s) d l0"
      "lane1_step (length s) c l1 \<noteq> lane1_step (length s) d l1"
      "lane2_step (length s) c l2 \<noteq> lane2_step (length s) d l2"
      using assms(1) lane0_inj_byte lane1_inj_byte lane2_inj_byte by metis+
  qed (use assms(2,3) l in \<open>simp_all add: from_bytes_def loop_append\<close>)
qed

text \<open>
  The weak content identity detects every one-byte edit: when two inputs of the same
  length differ in exactly one byte, each of the three lanes differs, so
  \<open>ContentIdentity::compare\<close> answers \<open>Different\<close> and no reparse is asked for.
\<close>

theorem one_byte_edit_detected:
  assumes "c \<noteq> d"
    and "lanes (from_bytes (s @ c # t)) = (a0, a1, a2)"
    and "lanes (from_bytes (s @ d # t)) = (b0, b1, b2)"
  shows "a0 \<noteq> b0 \<and> a1 \<noteq> b1 \<and> a2 \<noteq> b2
    \<and> compare_identity (from_bytes (s @ c # t)) (from_bytes (s @ d # t)) = Different"
  using single_byte_lanes [OF assms] assms(2,3) by (auto simp: compare_identity_def)

theorem one_byte_edit_detected_witness:
  "compare_identity (from_bytes ''abc'') (from_bytes ''abd'') = Different"
proof -
  obtain a0 a1 a2 b0 b1 b2 where
    "lanes (from_bytes (''ab'' @ CHR ''c'' # [])) = (a0, a1, a2)"
    "lanes (from_bytes (''ab'' @ CHR ''d'' # [])) = (b0, b1, b2)"
    by (metis prod_cases3)
  from one_byte_edit_detected [OF _ this] show ?thesis by simp
qed

lemma from_bytes_abc:
  "from_bytes ''abc'' =
     \<lparr>byte_len = 3,
      lanes = (15895202102097602857, 6490303507832621451, 12186565456274453438)\<rparr>"
  by code_simp

text \<open>Equal identities have equal lengths, so inputs of different lengths differ.\<close>

lemma compare_length: "length s \<noteq> length t \<Longrightarrow> compare_identity (from_bytes s) (from_bytes t) = Different"
  by (auto simp: compare_identity_def from_bytes_def)

lemma compare_refl [simp]: "compare_identity a a = AmbiguousReparse"
  by (simp add: compare_identity_def)

end
