(* ===== verification/Result_Id.thy ===== *)
theory Result_Id
  imports Sha256
begin

text \<open>
  \<open>agent/result_store.rs\<close>, the identifiers: \<open>ResultIdAlgorithm\<close>, \<open>ResultId\<close> with its
  derived order, \<open>ResultId::sha256\<close>, \<open>Display\<close> and \<open>parse\<close>, and the content-free errors
  of the store. The lemmas show that text and identifier round-trip in both directions
  and that the identifier determines the digest.
\<close>

datatype result_id_algorithm = Sha256Alg

datatype result_id = ResultId (id_algorithm: result_id_algorithm) (id_value: str)

datatype result_store_error =
    InvalidLimits
  | InvalidId
  | Unavailable
  | Corrupt
  | EmptyInput
  | ItemTooLarge
  | NotFound
  | ContentIdCollision
  | ArithmeticOverflow
  | BatchCapacityExceeded

text \<open>The derived order compares the fields in turn; there is one algorithm.\<close>

instantiation result_id :: linorder
begin

definition less_eq_result_id :: "result_id \<Rightarrow> result_id \<Rightarrow> bool" where
  "less_eq_result_id a b = (id_value a \<le> id_value b)"

definition less_result_id :: "result_id \<Rightarrow> result_id \<Rightarrow> bool" where
  "less_result_id a b = (id_value a < id_value b)"

instance
proof
  fix a b c :: result_id
  have alg: "id_algorithm x = id_algorithm y" for x y
    by (metis result_id_algorithm.exhaust)
  show "(a < b) = (a \<le> b \<and> \<not> b \<le> a)"
    by (auto simp: less_eq_result_id_def less_result_id_def)
  show "a \<le> a" by (simp add: less_eq_result_id_def)
  show "a \<le> b \<Longrightarrow> b \<le> c \<Longrightarrow> a \<le> c" by (auto simp: less_eq_result_id_def)
  show "a \<le> b \<Longrightarrow> b \<le> a \<Longrightarrow> a = b"
    using alg [of a b] by (simp add: less_eq_result_id_def result_id.expand)
  show "a \<le> b \<or> b \<le> a" by (auto simp: less_eq_result_id_def)
qed

end

definition algorithm_as_str :: "result_id_algorithm \<Rightarrow> str" where
  "algorithm_as_str a = ''sha256''"

definition hex_of_bytes :: "bytes \<Rightarrow> str" where
  "hex_of_bytes bs = concat (map (\<lambda>b. hex_pad 2 (code b)) bs)"

definition id_sha256 :: "bytes \<Rightarrow> result_id" where
  "id_sha256 bs = ResultId Sha256Alg (hex_of_bytes (sha256 bs))"

definition id_display :: "result_id \<Rightarrow> str" where
  "id_display i = algorithm_as_str (id_algorithm i) @ '':'' @ id_value i"

definition lower_hex :: "char \<Rightarrow> bool" where
  "lower_hex c \<longleftrightarrow> is_ascii_hexdigit c \<and> \<not> is_ascii_uppercase c"

definition id_parse :: "str \<Rightarrow> result_store_error + result_id" where
  "id_parse value =
     (case strip_prefix ''sha256:'' value of
        None \<Rightarrow> Inl InvalidId
      | Some digest \<Rightarrow>
          if length digest \<noteq> 64 \<or> \<not> list_all lower_hex digest then Inl InvalidId
          else Inr (ResultId Sha256Alg digest))"

text \<open>The identifiers the rest of the program can hold: 64 lowercase hex digits.\<close>

definition id_ok :: "result_id \<Rightarrow> bool" where
  "id_ok i \<longleftrightarrow> length (id_value i) = 64 \<and> list_all lower_hex (id_value i)"

lemma hex_digit_lower: "n < 16 \<Longrightarrow> lower_hex (hex_digit n)"
  by (auto simp: hex_digit_def lower_hex_def is_ascii_hexdigit_def is_ascii_digit_def
      is_ascii_uppercase_def code_char_of)

lemma hex_digit_inj: "m < 16 \<Longrightarrow> n < 16 \<Longrightarrow> hex_digit m = hex_digit n \<Longrightarrow> m = n"
proof -
  assume "m < 16" "n < 16" "hex_digit m = hex_digit n"
  then have "code (hex_digit m) = code (hex_digit n)" by simp
  with \<open>m < 16\<close> \<open>n < 16\<close> show "m = n"
    by (auto simp: hex_digit_def code_char_of split: if_splits)
qed

lemma hex_pad_length [simp]: "length (hex_pad k n) = k"
  by (induction k arbitrary: n) simp_all

lemma hex_pad_lower: "list_all lower_hex (hex_pad k n)"
  by (induction k arbitrary: n) (simp_all add: hex_digit_lower)

lemma hex_pad_inj: "m < 16 ^ k \<Longrightarrow> n < 16 ^ k \<Longrightarrow> hex_pad k m = hex_pad k n \<Longrightarrow> m = n"
proof (induction k arbitrary: m n)
  case (Suc k)
  from Suc.prems(3) have "hex_pad k (m div 16) = hex_pad k (n div 16)"
    "hex_digit (m mod 16) = hex_digit (n mod 16)" by simp_all
  moreover have "m div 16 < 16 ^ k" "n div 16 < 16 ^ k"
    using Suc.prems(1,2) by (simp_all add: less_mult_imp_div_less mult.commute)
  ultimately have "m div 16 = n div 16" "m mod 16 = n mod 16"
    using Suc.IH hex_digit_inj by simp_all
  then show ?case by (metis div_mult_mod_eq)
qed simp

lemma hex_of_bytes_length: "length (hex_of_bytes bs) = 2 * length bs"
  by (induction bs) (simp_all add: hex_of_bytes_def)

lemma hex_of_bytes_lower: "list_all lower_hex (hex_of_bytes bs)"
  by (induction bs) (simp_all add: hex_of_bytes_def hex_pad_lower)

lemma hex_of_bytes_inj: "hex_of_bytes as = hex_of_bytes bs \<Longrightarrow> as = bs"
proof (induction as arbitrary: bs)
  case Nil
  then have "length (hex_of_bytes bs) = 0" by (simp add: hex_of_bytes_def)
  then show ?case by (simp add: hex_of_bytes_length)
next
  case (Cons a as)
  then obtain b bs' where bs: "bs = b # bs'"
    using hex_of_bytes_length [of "a # as"] hex_of_bytes_length [of bs] by (cases bs) auto
  with Cons.prems have "hex_pad 2 (code a) @ hex_of_bytes as = hex_pad 2 (code b) @ hex_of_bytes bs'"
    by (simp add: hex_of_bytes_def)
  then have "hex_pad 2 (code a) = hex_pad 2 (code b)" "hex_of_bytes as = hex_of_bytes bs'"
    by simp_all
  then show ?case
    using bs Cons.IH hex_pad_inj [of "code a" 2 "code b"] by (simp add: power2_eq_square)
qed

lemma id_sha256_ok [simp]: "id_ok (id_sha256 bs)"
  by (simp add: id_ok_def id_sha256_def hex_of_bytes_length hex_of_bytes_lower)

lemma id_sha256_eq: "id_sha256 as = id_sha256 bs \<longleftrightarrow> sha256 as = sha256 bs"
  by (auto simp: id_sha256_def dest: hex_of_bytes_inj)

lemma strip_prefix_append [simp]: "strip_prefix p (p @ s) = Some s"
  by (simp add: strip_prefix_def)

lemma strip_prefix_Some: "strip_prefix p s = Some t \<longleftrightarrow> s = p @ t"
  by (auto simp: strip_prefix_def prefix_def split: if_splits)

lemma id_parse_display: "id_ok i \<Longrightarrow> id_parse (id_display i) = Inr i"
  by (cases i, cases "id_algorithm i")
    (simp add: id_parse_def id_display_def id_ok_def algorithm_as_str_def
      strip_prefix_append [of "''sha256:''", simplified])

lemma id_parse_Inr: "id_parse s = Inr i \<Longrightarrow> id_ok i \<and> id_display i = s"
  by (auto simp: id_parse_def id_ok_def id_display_def algorithm_as_str_def strip_prefix_Some
      split: option.splits if_splits)

text \<open>
  Result identifiers and their text round-trip: the text of the identifier of any
  content parses back to that identifier, and whatever text \<open>ResultId::parse\<close> accepts is
  exactly the text of the identifier it returns (no second spelling is accepted), which
  has 64 lowercase hexadecimal digits.
\<close>

theorem result_id_roundtrip:
  "id_parse (id_display (id_sha256 bs)) = Inr (id_sha256 bs)
   \<and> (case id_parse s of Inl e \<Rightarrow> e = InvalidId | Inr i \<Rightarrow> id_display i = s \<and> id_ok i)"
  using id_parse_Inr [of s]
  by (auto simp: id_parse_display split: sum.split) (auto simp: id_parse_def split: option.splits if_splits)

end
