(* ===== verification/Result_Store.thy ===== *)
theory Result_Store
  imports Result_Id
begin

text \<open>
  \<open>agent/result_store.rs\<close>, the store: \<open>ResultStoreLimits\<close>, \<open>MemoryResultStore\<close> and its
  operations. A store is a record of its two \<open>BTreeMap\<close>s (the entries, and the index
  ordered by creation tick, insertion order and identifier), its running byte total and
  its next insertion order. An operation on \<open>&mut self\<close> returns its result and the new
  store. The eviction loop of \<open>evict_expired\<close> ends only because the index and the entries
  agree, so it and the operations that run it are of type \<open>option\<close>, where \<open>None\<close> is a
  loop that never ends; the invariant \<open>store_inv\<close> excludes it.
\<close>

section \<open>State\<close>

record result_store_limits =
  max_entries :: nat
  max_total_bytes :: nat
  max_item_bytes :: nat
  max_age_ticks :: nat

record mem_entry =
  e_bytes :: bytes
  e_created_tick :: nat
  e_order :: nat

record result_store_receipt =
  r_entry_count :: nat
  r_total_bytes :: nat

record put_result =
  p_id :: result_id
  p_receipt :: result_store_receipt

record mem_store =
  s_limits :: result_store_limits
  s_entries :: "(result_id, mem_entry) omap"
  s_age_order :: "(nat \<times> nat \<times> result_id, unit) omap"
  s_total_bytes :: nat
  s_next_order :: nat

definition limits_bad :: "result_store_limits \<Rightarrow> bool" where
  "limits_bad l \<longleftrightarrow> max_entries l = 0 \<or> max_total_bytes l = 0 \<or> max_item_bytes l = 0
     \<or> max_age_ticks l = 0 \<or> max_item_bytes l > max_total_bytes l"

definition limits_new ::
  "nat \<Rightarrow> nat \<Rightarrow> nat \<Rightarrow> nat \<Rightarrow> result_store_error + result_store_limits" where
  "limits_new me mt mi ma =
     (let l = \<lparr>max_entries = me, max_total_bytes = mt, max_item_bytes = mi, max_age_ticks = ma\<rparr>
      in if limits_bad l then Inl InvalidLimits else Inr l)"

definition with_limits :: "result_store_limits \<Rightarrow> result_store_error + mem_store" where
  "with_limits l =
     (if limits_bad l then Inl InvalidLimits
      else Inr \<lparr>s_limits = l, s_entries = [], s_age_order = [], s_total_bytes = 0,
                s_next_order = 0\<rparr>)"

definition store_new :: "nat \<Rightarrow> nat \<Rightarrow> nat \<Rightarrow> nat \<Rightarrow> result_store_error + mem_store" where
  "store_new me mt mi ma = res_bind (limits_new me mt mi ma) with_limits"

section \<open>Operations\<close>

definition store_receipt :: "mem_store \<Rightarrow> result_store_receipt" where
  "store_receipt s =
     \<lparr>r_entry_count = length (s_entries s), r_total_bytes = s_total_bytes s\<rparr>"

definition remove_id :: "mem_store \<Rightarrow> result_id \<Rightarrow> nat option \<times> mem_store" where
  "remove_id s i =
     (case om_get (s_entries s) i of
        None \<Rightarrow> (None, s)
      | Some e \<Rightarrow>
          (let s1 = s\<lparr>s_entries := om_del i (s_entries s),
                      s_age_order := om_del (e_created_tick e, e_order e, i) (s_age_order s)\<rparr>
           in case checked_sub (s_total_bytes s1) (length (e_bytes e)) of
                None \<Rightarrow> (None, s1)
              | Some t \<Rightarrow> (Some (length (e_bytes e)), s1\<lparr>s_total_bytes := t\<rparr>)))"

definition remove_oldest :: "mem_store \<Rightarrow> (result_id \<times> nat) option \<times> mem_store" where
  "remove_oldest s =
     (case s_age_order s of
        [] \<Rightarrow> (None, s)
      | ((_, _, i), _) # _ \<Rightarrow>
          (case remove_id s i of
             (None, s') \<Rightarrow> (None, s')
           | (Some n, s') \<Rightarrow> (Some (i, n), s')))"

partial_function (option) evict_loop ::
  "nat \<Rightarrow> mem_store \<Rightarrow> nat \<Rightarrow> nat \<Rightarrow> ((nat \<times> nat) \<times> mem_store) option" where
  "evict_loop now s entries bytes =
     (case s_age_order s of
        [] \<Rightarrow> Some ((entries, bytes), s)
      | ((created, _, i), _) # _ \<Rightarrow>
          if saturating_sub now created < max_age_ticks (s_limits s)
          then Some ((entries, bytes), s)
          else (case remove_id s i of
                  (None, s') \<Rightarrow> evict_loop now s' entries bytes
                | (Some removed, s') \<Rightarrow> evict_loop now s' (entries + 1) (bytes + removed)))"

definition evict_expired :: "mem_store \<Rightarrow> nat \<Rightarrow> ((nat \<times> nat) \<times> mem_store) option" where
  "evict_expired s now = evict_loop now s 0 0"

definition no_room :: "mem_store \<Rightarrow> nat \<Rightarrow> bool" where
  "no_room s n \<longleftrightarrow> length (s_entries s) \<ge> max_entries (s_limits s)
     \<or> n > saturating_sub (max_total_bytes (s_limits s)) (s_total_bytes s)"

lemma remove_oldest_smaller:
  "remove_oldest s = (Some x, s') \<Longrightarrow> length (s_entries s') < length (s_entries s)"
  unfolding remove_oldest_def remove_id_def
  by (auto simp: Let_def om_get_def dest!: map_of_SomeD dest: om_del_length
      split: list.splits option.splits) (metis lessI om_del_length)

text \<open>The loop of \<open>put\<close> that makes room for \<open>n\<close> bytes.\<close>

function make_room :: "mem_store \<Rightarrow> nat \<Rightarrow> (result_store_error + unit) \<times> mem_store" where
  "make_room s n =
     (if no_room s n then
        (case remove_oldest s of
           (None, s') \<Rightarrow> (Inl ArithmeticOverflow, s')
         | (Some _, s') \<Rightarrow> make_room s' n)
      else (Inr (), s))"
  by pat_completeness auto
termination
  by (relation "measure (\<lambda>(s, n). length (s_entries s))")
    (auto dest: sym remove_oldest_smaller)

declare make_room.simps [simp del]

definition insert_new ::
  "mem_store \<Rightarrow> result_id \<Rightarrow> bytes \<Rightarrow> nat \<Rightarrow> (result_store_error + put_result) \<times> mem_store" where
  "insert_new s i bytes now =
     (let order = s_next_order s in
      case checked_add_u64 (s_next_order s) 1 of
        None \<Rightarrow> (Inl ArithmeticOverflow, s)
      | Some next \<Rightarrow>
          (let s1 = s\<lparr>s_next_order := next\<rparr> in
           case checked_add_u64 (s_total_bytes s1) (length bytes) of
             None \<Rightarrow> (Inl ArithmeticOverflow, s1)
           | Some new_total \<Rightarrow>
               (let s2 = s1\<lparr>s_total_bytes := new_total,
                            s_age_order := om_put (now, order, i) () (s_age_order s1),
                            s_entries := om_put i \<lparr>e_bytes = bytes, e_created_tick = now,
                              e_order = order\<rparr> (s_entries s1)\<rparr>
                in (Inr \<lparr>p_id = i, p_receipt = store_receipt s2\<rparr>, s2))))"

definition put ::
  "mem_store \<Rightarrow> bytes \<Rightarrow> nat \<Rightarrow> ((result_store_error + put_result) \<times> mem_store) option" where
  "put s bytes now =
     (if bytes = [] then Some (Inl EmptyInput, s)
      else if length bytes > max_item_bytes (s_limits s) then Some (Inl ItemTooLarge, s)
      else
        (case evict_expired s now of
           None \<Rightarrow> None
         | Some (_, s1) \<Rightarrow>
             (let i = id_sha256 bytes in
              case om_get (s_entries s1) i of
                Some existing \<Rightarrow>
                  if e_bytes existing \<noteq> bytes then Some (Inl ContentIdCollision, s1)
                  else Some (Inr \<lparr>p_id = i, p_receipt = store_receipt s1\<rparr>, s1)
              | None \<Rightarrow>
                  (case make_room s1 (length bytes) of
                     (Inl e, s2) \<Rightarrow> Some (Inl e, s2)
                   | (Inr _, s2) \<Rightarrow> Some (insert_new s2 i bytes now)))))"

text \<open>The loop of \<open>put_batch\<close> on the trial clone.\<close>

fun put_all ::
  "mem_store \<Rightarrow> bytes list \<Rightarrow> nat \<Rightarrow> ((result_store_error + result_id list) \<times> mem_store) option" where
  "put_all trial [] now = Some (Inr [], trial)"
| "put_all trial (payload # ps) now =
     (case put trial payload now of
        None \<Rightarrow> None
      | Some (Inl e, trial1) \<Rightarrow> Some (Inl e, trial1)
      | Some (Inr r, trial1) \<Rightarrow>
          (case put_all trial1 ps now of
             None \<Rightarrow> None
           | Some (Inl e, trial2) \<Rightarrow> Some (Inl e, trial2)
           | Some (Inr ids, trial2) \<Rightarrow> Some (Inr (p_id r # ids), trial2)))"

definition put_batch ::
  "mem_store \<Rightarrow> bytes list \<Rightarrow> nat \<Rightarrow> ((result_store_error + result_id list) \<times> mem_store) option" where
  "put_batch s payloads now =
     (case put_all s payloads now of
        None \<Rightarrow> None
      | Some (Inl e, _) \<Rightarrow> Some (Inl e, s)
      | Some (Inr ids, trial) \<Rightarrow>
          if ids = [] then Some (Inl EmptyInput, s)
          else if \<exists>i \<in> set ids. om_get (s_entries trial) i = None
          then Some (Inl BatchCapacityExceeded, s)
          else Some (Inr ids, trial))"

definition get ::
  "mem_store \<Rightarrow> result_id \<Rightarrow> nat \<Rightarrow> ((result_store_error + bytes) \<times> mem_store) option" where
  "get s i now =
     (case evict_expired s now of
        None \<Rightarrow> None
      | Some (_, s1) \<Rightarrow> Some (ok_or NotFound (map_option e_bytes (om_get (s_entries s1) i)), s1))"

definition remove ::
  "mem_store \<Rightarrow> result_id \<Rightarrow> (result_store_error + result_store_receipt) \<times> mem_store" where
  "remove s i =
     (case remove_id s i of
        (None, s') \<Rightarrow> (Inl NotFound, s')
      | (Some _, s') \<Rightarrow> (Inr (store_receipt s'), s'))"

definition clear :: "mem_store \<Rightarrow> result_store_receipt \<times> mem_store" where
  "clear s =
     (let s' = s\<lparr>s_entries := [], s_age_order := [], s_total_bytes := 0\<rparr>
      in (store_receipt s', s'))"

section \<open>The invariant\<close>

definition age_key :: "result_id \<times> mem_entry \<Rightarrow> nat \<times> nat \<times> result_id" where
  "age_key p = (e_created_tick (snd p), e_order (snd p), fst p)"

definition entry_len :: "result_id \<times> mem_entry \<Rightarrow> nat" where
  "entry_len p = length (e_bytes (snd p))"

text \<open>The index and the byte total agree with the entries.\<close>

definition synced :: "mem_store \<Rightarrow> bool" where
  "synced s \<longleftrightarrow> om_inv (s_entries s) \<and> om_inv (s_age_order s)
     \<and> fst ` set (s_age_order s) = age_key ` set (s_entries s)
     \<and> s_total_bytes s = sum_list (map entry_len (s_entries s))"

definition entry_ok :: "mem_store \<Rightarrow> result_id \<times> mem_entry \<Rightarrow> bool" where
  "entry_ok s p \<longleftrightarrow> e_bytes (snd p) \<noteq> [] \<and> entry_len p \<le> max_item_bytes (s_limits s)
     \<and> fst p = id_sha256 (e_bytes (snd p)) \<and> e_order (snd p) < s_next_order s"

definition store_inv :: "mem_store \<Rightarrow> bool" where
  "store_inv s \<longleftrightarrow> synced s \<and> \<not> limits_bad (s_limits s)
     \<and> max_total_bytes (s_limits s) \<le> u64_max \<and> s_next_order s \<le> u64_max
     \<and> length (s_entries s) \<le> max_entries (s_limits s)
     \<and> s_total_bytes s \<le> max_total_bytes (s_limits s)
     \<and> (\<forall>p \<in> set (s_entries s). entry_ok s p)"

lemma age_key_simp [simp]: "age_key (i, e) = (e_created_tick e, e_order e, i)"
  by (simp add: age_key_def)

lemma entry_len_simp [simp]: "entry_len (i, e) = length (e_bytes e)"
  by (simp add: entry_len_def)

lemma age_key_inj: "age_key p = age_key q \<Longrightarrow> om_inv m \<Longrightarrow> p \<in> set m \<Longrightarrow> q \<in> set m \<Longrightarrow> p = q"
  by (metis age_key_def om_get_Some_iff option.inject prod.collapse prod.inject)

text \<open>What \<open>remove_id\<close> does when index and entries agree: every field, the error branch
  of the byte total being unreachable.\<close>

lemma remove_id_synced:
  assumes "synced s" "om_get (s_entries s) i = Some e"
  shows "remove_id s i = (Some (length (e_bytes e)),
      s\<lparr>s_entries := om_del i (s_entries s),
        s_age_order := om_del (age_key (i, e)) (s_age_order s),
        s_total_bytes := s_total_bytes s - length (e_bytes e)\<rparr>)"
    and "length (e_bytes e) \<le> s_total_bytes s"
proof -
  have "(i, e) \<in> set (s_entries s)" "om_inv (s_entries s)"
    using assms by (auto simp: synced_def om_get_Some_iff)
  from om_del_sum [OF this(2,1), of entry_len]
  show le: "length (e_bytes e) \<le> s_total_bytes s"
    using assms(1) by (simp add: synced_def)
  show "remove_id s i = (Some (length (e_bytes e)),
      s\<lparr>s_entries := om_del i (s_entries s),
        s_age_order := om_del (age_key (i, e)) (s_age_order s),
        s_total_bytes := s_total_bytes s - length (e_bytes e)\<rparr>)"
    using le by (simp add: remove_id_def assms(2) Let_def checked_sub_def)
qed

lemma remove_id_keeps_synced:
  assumes "synced s" "om_get (s_entries s) i = Some e"
  shows "synced (snd (remove_id s i))"
proof -
  have inv: "om_inv (s_entries s)" "om_inv (s_age_order s)"
    "fst ` set (s_age_order s) = age_key ` set (s_entries s)"
    "s_total_bytes s = sum_list (map entry_len (s_entries s))"
    using assms(1) by (simp_all add: synced_def)
  have mem: "(i, e) \<in> set (s_entries s)" using assms inv(1) by (simp add: om_get_Some_iff)
  have "fst ` set (om_del (age_key (i, e)) (s_age_order s))
      = fst ` set (s_age_order s) - {age_key (i, e)}"
    by (auto simp: om_del_filter [OF inv(2)])
  also have "\<dots> = age_key ` {p \<in> set (s_entries s). p \<noteq> (i, e)}"
    unfolding inv(3) using age_key_inj [OF _ inv(1) _ mem] by auto
  also have "{p \<in> set (s_entries s). p \<noteq> (i, e)} = {p \<in> set (s_entries s). fst p \<noteq> i}"
    using assms(2) inv(1) by (auto simp: om_get_Some_iff [symmetric])
  finally have keys: "fst ` set (om_del (age_key (i, e)) (s_age_order s))
      = age_key ` set (om_del i (s_entries s))"
    by (simp add: om_del_filter [OF inv(1)])
  have "s_total_bytes s - length (e_bytes e) = sum_list (map entry_len (om_del i (s_entries s)))"
    using om_del_sum [OF inv(1) mem, of entry_len] inv(4) by simp
  then show ?thesis
    unfolding remove_id_synced(1) [OF assms]
    using keys inv by (simp add: synced_def om_del_inv)
qed

text \<open>The first key of the index names an entry.\<close>

lemma oldest_entry:
  assumes "synced s" "s_age_order s = ((c, ord, i), u) # rest"
  obtains e where "om_get (s_entries s) i = Some e" "e_created_tick e = c" "e_order e = ord"
    "\<forall>p \<in> set (s_entries s). (c, ord, i) \<le> age_key p"
proof -
  have inv: "om_inv (s_entries s)" "om_inv (s_age_order s)"
    "fst ` set (s_age_order s) = age_key ` set (s_entries s)"
    using assms(1) by (simp_all add: synced_def)
  have "(c, ord, i) \<in> age_key ` set (s_entries s)"
    unfolding inv(3) [symmetric] by (simp add: assms(2))
  then obtain j e where "(j, e) \<in> set (s_entries s)" "age_key (j, e) = (c, ord, i)"
    by (metis imageE prod.collapse)
  then have e: "om_get (s_entries s) i = Some e" "e_created_tick e = c" "e_order e = ord"
    using inv(1) by (auto simp: om_get_Some_iff)
  have "\<forall>k \<in> fst ` set (s_age_order s). (c, ord, i) \<le> k"
    using inv(2) unfolding assms(2) by (auto simp: map_simps order_less_imp_le)
  then have "\<forall>p \<in> set (s_entries s). (c, ord, i) \<le> age_key p"
    unfolding inv(3) by blast
  with e that show thesis by blast
qed

lemma synced_index_empty: "synced s \<Longrightarrow> s_age_order s = [] \<Longrightarrow> s_entries s = []"
  by (simp add: synced_def)

section \<open>Expiry\<close>

definition fresh :: "nat \<Rightarrow> mem_store \<Rightarrow> result_id \<times> mem_entry \<Rightarrow> bool" where
  "fresh now s p \<longleftrightarrow> now - e_created_tick (snd p) < max_age_ticks (s_limits s)"

text \<open>The loop returns, and keeps exactly the entries younger than the age limit.\<close>

lemma evict_loop_spec:
  assumes "synced s"
  shows "\<exists>n b s'. evict_loop now s n0 b0 = Some ((n, b), s') \<and> synced s'
    \<and> s_entries s' = filter (fresh now s) (s_entries s)
    \<and> s_limits s' = s_limits s \<and> s_next_order s' = s_next_order s
    \<and> n + length (s_entries s') = n0 + length (s_entries s)
    \<and> b + s_total_bytes s' = b0 + s_total_bytes s"
  using assms
proof (induction "length (s_entries s)" arbitrary: s n0 b0 rule: less_induct)
  case less
  show ?case
  proof (cases "s_age_order s")
    case Nil
    with less.prems show ?thesis
      by (subst evict_loop.simps) (simp add: synced_index_empty)
  next
    case (Cons x rest)
    obtain c ord i u where x: "x = ((c, ord, i), u)" by (metis prod.collapse)
    note age = Cons [unfolded x]
    obtain e where e: "om_get (s_entries s) i = Some e" "e_created_tick e = c" "e_order e = ord"
      and min: "\<forall>p \<in> set (s_entries s). (c, ord, i) \<le> age_key p"
      using oldest_entry [OF less.prems age] by blast
    show ?thesis
    proof (cases "now - c < max_age_ticks (s_limits s)")
      case True
      have "\<forall>p \<in> set (s_entries s). fresh now s p"
      proof
        fix p assume "p \<in> set (s_entries s)"
        then have "c \<le> e_created_tick (snd p)"
          using min by (auto simp: age_key_def less_eq_prod_def)
        then show "fresh now s p" using True by (simp add: fresh_def)
      qed
      then show ?thesis
        using True less.prems age
        by (subst evict_loop.simps) (simp add: saturating_sub_def)
    next
      case False
      define s1 where "s1 = snd (remove_id s i)"
      note r = remove_id_synced [OF less.prems e(1)]
      have inv: "om_inv (s_entries s)" and mem: "(i, e) \<in> set (s_entries s)"
        using less.prems e(1) by (auto simp: synced_def om_get_Some_iff)
      have s1: "synced s1" "s_limits s1 = s_limits s" "s_next_order s1 = s_next_order s"
        "s_entries s1 = om_del i (s_entries s)"
        "s_total_bytes s1 + length (e_bytes e) = s_total_bytes s"
        "remove_id s i = (Some (length (e_bytes e)), s1)"
        using remove_id_keeps_synced [OF less.prems e(1)] r by (simp_all add: s1_def)
      have len: "Suc (length (s_entries s1)) = length (s_entries s)"
        using om_del_length [OF mem] s1(4) by simp
      have "filter (fresh now s1) (s_entries s1) = filter (fresh now s) (s_entries s)"
        unfolding s1(4) om_del_filter [OF inv] filter_filter
      proof (rule filter_cong)
        fix p assume p: "p \<in> set (s_entries s)"
        have "fst p = i \<Longrightarrow> snd p = e"
          using p mem inv by (metis om_get_Some_iff option.inject prod.collapse)
        then show "(fst p \<noteq> i \<and> fresh now s1 p) = fresh now s p"
          using False e(2) s1(2) by (auto simp: fresh_def)
      qed simp
      moreover obtain n b s' where "evict_loop now s1 (n0 + 1) (b0 + length (e_bytes e))
          = Some ((n, b), s')" "synced s'" "s_entries s' = filter (fresh now s1) (s_entries s1)"
        "s_limits s' = s_limits s1" "s_next_order s' = s_next_order s1"
        "n + length (s_entries s') = n0 + 1 + length (s_entries s1)"
        "b + s_total_bytes s' = b0 + length (e_bytes e) + s_total_bytes s1"
        using less.hyps [of s1 "n0 + 1" "b0 + length (e_bytes e)"] len s1(1) by auto
      moreover have "evict_loop now s n0 b0 = evict_loop now s1 (n0 + 1) (b0 + length (e_bytes e))"
        using False age s1(6) by (subst evict_loop.simps) (simp add: saturating_sub_def)
      ultimately show ?thesis using s1 len by simp
    qed
  qed
qed

lemma evict_expired_spec:
  assumes "synced s"
  obtains n b s' where "evict_expired s now = Some ((n, b), s')" "synced s'"
    "s_entries s' = filter (fresh now s) (s_entries s)" "s_limits s' = s_limits s"
    "s_next_order s' = s_next_order s" "n + length (s_entries s') = length (s_entries s)"
    "b + s_total_bytes s' = s_total_bytes s"
  using evict_loop_spec [OF assms, of now 0 0] unfolding evict_expired_def by auto

text \<open>A store with a subset of the entries of a good store, synced again, is good.\<close>

lemma store_inv_subset:
  assumes "store_inv s" "synced s'" "set (s_entries s') \<subseteq> set (s_entries s)"
    "s_limits s' = s_limits s" "s_next_order s' = s_next_order s"
    "length (s_entries s') \<le> length (s_entries s)" "s_total_bytes s' \<le> s_total_bytes s"
  shows "store_inv s'"
  using assms unfolding store_inv_def entry_ok_def by auto

lemma evict_expired_inv:
  assumes "store_inv s"
  obtains n b s' where "evict_expired s now = Some ((n, b), s')" "store_inv s'"
    "s_entries s' = filter (fresh now s) (s_entries s)" "s_limits s' = s_limits s"
    "s_next_order s' = s_next_order s"
proof -
  have "synced s" using assms by (simp add: store_inv_def)
  then obtain n b s' where s': "evict_expired s now = Some ((n, b), s')" "synced s'"
    "s_entries s' = filter (fresh now s) (s_entries s)" "s_limits s' = s_limits s"
    "s_next_order s' = s_next_order s" "n + length (s_entries s') = length (s_entries s)"
    "b + s_total_bytes s' = s_total_bytes s"
    by (rule evict_expired_spec)
  have "store_inv s'"
    using s' by (intro store_inv_subset [OF assms]) auto
  with s' that show thesis by blast
qed

text \<open>Eviction at the same tick twice does nothing the second time.\<close>

lemma evict_expired_idem:
  assumes "synced s" "\<forall>p \<in> set (s_entries s). fresh now s p"
  shows "\<exists>n b. evict_expired s now = Some ((n, b), s)"
proof (cases "s_age_order s")
  case Nil
  then show ?thesis unfolding evict_expired_def by (subst evict_loop.simps) simp
next
  case (Cons x rest)
  obtain c ord i u where x: "x = ((c, ord, i), u)" by (metis prod.collapse)
  obtain e where "om_get (s_entries s) i = Some e" "e_created_tick e = c"
    using oldest_entry [OF assms(1) Cons [unfolded x]] by blast
  moreover from this have "(i, e) \<in> set (s_entries s)"
    using assms(1) by (simp add: synced_def om_get_Some_iff)
  ultimately have "now - c < max_age_ticks (s_limits s)"
    using assms(2) by (auto simp: fresh_def)
  then show ?thesis
    unfolding evict_expired_def Cons x
    by (subst evict_loop.simps) (simp add: Cons x saturating_sub_def)
qed

section \<open>Making room\<close>

text \<open>
  The loop of \<open>put\<close> never fails: when there is no room the store is not empty. It drops
  entries oldest first, in the order (tick, insertion order, identifier), and none when
  there is room already.
\<close>

definition older_removed :: "mem_store \<Rightarrow> mem_store \<Rightarrow> bool" where
  "older_removed s s' \<longleftrightarrow> set (s_entries s') \<subseteq> set (s_entries s)
     \<and> (\<forall>p \<in> set (s_entries s) - set (s_entries s'). \<forall>q \<in> set (s_entries s').
          age_key p < age_key q)"

lemma make_room_spec:
  assumes "synced s" "\<not> limits_bad (s_limits s)" "n \<le> max_total_bytes (s_limits s)"
  shows "\<exists>s'. make_room s n = (Inr (), s') \<and> synced s' \<and> \<not> no_room s' n
    \<and> older_removed s s' \<and> s_limits s' = s_limits s \<and> s_next_order s' = s_next_order s
    \<and> length (s_entries s') \<le> length (s_entries s) \<and> s_total_bytes s' \<le> s_total_bytes s"
  using assms
proof (induction "length (s_entries s)" arbitrary: s rule: less_induct)
  case less
  show ?case
  proof (cases "no_room s n")
    case False
    with less.prems show ?thesis
      by (subst make_room.simps) (simp add: older_removed_def)
  next
    case True
    have "s_entries s \<noteq> []"
      using True less.prems
      by (auto simp: no_room_def saturating_sub_def limits_bad_def synced_def)
    then have "s_age_order s \<noteq> []"
      using synced_index_empty [OF less.prems(1)] by blast
    then obtain c ord i u rest where age: "s_age_order s = ((c, ord, i), u) # rest"
      by (metis list.exhaust prod.collapse)
    obtain e where e: "om_get (s_entries s) i = Some e" "e_created_tick e = c" "e_order e = ord"
      and min: "\<forall>p \<in> set (s_entries s). (c, ord, i) \<le> age_key p"
      using oldest_entry [OF less.prems(1) age] by blast
    define s1 where "s1 = snd (remove_id s i)"
    note r = remove_id_synced [OF less.prems(1) e(1)]
    have inv: "om_inv (s_entries s)" and mem: "(i, e) \<in> set (s_entries s)"
      using less.prems(1) e(1) by (auto simp: synced_def om_get_Some_iff)
    have s1: "synced s1" "s_limits s1 = s_limits s" "s_next_order s1 = s_next_order s"
      "s_entries s1 = om_del i (s_entries s)" "s_total_bytes s1 \<le> s_total_bytes s"
      "remove_oldest s = (Some (i, length (e_bytes e)), s1)"
      using remove_id_keeps_synced [OF less.prems(1) e(1)] r age
      by (simp_all add: s1_def remove_oldest_def)
    have len: "length (s_entries s1) < length (s_entries s)"
      using remove_oldest_smaller [OF s1(6)] .
    obtain s' where s': "make_room s1 n = (Inr (), s')" "synced s'" "\<not> no_room s' n"
      "older_removed s1 s'" "s_limits s' = s_limits s1" "s_next_order s' = s_next_order s1"
      "length (s_entries s') \<le> length (s_entries s1)" "s_total_bytes s' \<le> s_total_bytes s1"
      using less.hyps [OF len s1(1)] less.prems(2,3) s1(2) by auto
    have "older_removed s s'"
      unfolding older_removed_def
    proof (intro conjI ballI)
      show sub: "set (s_entries s') \<subseteq> set (s_entries s)"
        using s'(4) s1(4) om_del_subset unfolding older_removed_def by fastforce
      fix p q assume p: "p \<in> set (s_entries s) - set (s_entries s')" and q: "q \<in> set (s_entries s')"
      show "age_key p < age_key q"
      proof (cases "p \<in> set (s_entries s1)")
        case True
        with p q s'(4) show ?thesis by (auto simp: older_removed_def)
      next
        case False
        with p have "fst p = i" by (auto simp: s1(4) om_del_filter [OF inv])
        with p have "p = (i, e)"
          using e(1) inv by (metis DiffD1 om_get_Some_iff option.inject prod.collapse)
        moreover have "q \<in> set (s_entries s1)" using q s'(4) by (auto simp: older_removed_def)
        then have "fst q \<noteq> i" "q \<in> set (s_entries s)"
          by (auto simp: s1(4) om_del_filter [OF inv])
        ultimately show ?thesis using min e(2,3) by (force simp: age_key_def order_less_le)
      qed
    qed
    moreover have "make_room s n = make_room s1 n"
      using True s1(6) by (subst make_room.simps) simp
    ultimately show ?thesis using s' s1(2,3,5) len by auto
  qed
qed

section \<open>Insertion\<close>

lemma insert_new_spec:
  assumes inv: "store_inv s" and room: "\<not> no_room s (length bs)"
    and new: "om_get (s_entries s) (id_sha256 bs) = None"
    and b: "bs \<noteq> []" "length bs \<le> max_item_bytes (s_limits s)"
  shows "(s_next_order s = u64_max \<and> insert_new s (id_sha256 bs) bs now = (Inl ArithmeticOverflow, s))
    \<or> (\<exists>s' r. insert_new s (id_sha256 bs) bs now = (Inr r, s') \<and> p_id r = id_sha256 bs
        \<and> p_receipt r = store_receipt s' \<and> store_inv s' \<and> s_limits s' = s_limits s
        \<and> s_next_order s' = Suc (s_next_order s)
        \<and> set (s_entries s') = insert (id_sha256 bs, \<lparr>e_bytes = bs, e_created_tick = now,
             e_order = s_next_order s\<rparr>) (set (s_entries s)))"
proof (cases "s_next_order s = u64_max")
  case True
  then show ?thesis by (simp add: insert_new_def checked_add_u64_def)
next
  case False
  let ?i = "id_sha256 bs" and ?e = "\<lparr>e_bytes = bs, e_created_tick = now, e_order = s_next_order s\<rparr>"
  have sy: "om_inv (s_entries s)" "om_inv (s_age_order s)"
    "fst ` set (s_age_order s) = age_key ` set (s_entries s)"
    "s_total_bytes s = sum_list (map entry_len (s_entries s))"
    and le: "s_next_order s \<le> u64_max" "s_total_bytes s \<le> max_total_bytes (s_limits s)"
      "max_total_bytes (s_limits s) \<le> u64_max" "\<forall>p \<in> set (s_entries s). entry_ok s p"
      "\<not> limits_bad (s_limits s)"
    using inv by (simp_all add: store_inv_def synced_def)
  have fit: "length (s_entries s) < max_entries (s_limits s)"
    "s_total_bytes s + length bs \<le> max_total_bytes (s_limits s)"
    using room le(2) by (auto simp: no_room_def saturating_sub_def)
  define s' where "s' = s\<lparr>s_next_order := Suc (s_next_order s),
      s_total_bytes := s_total_bytes s + length bs,
      s_age_order := om_put (age_key (?i, ?e)) () (s_age_order s),
      s_entries := om_put ?i ?e (s_entries s)\<rparr>"
  have ins: "insert_new s ?i bs now = (Inr \<lparr>p_id = ?i, p_receipt = store_receipt s'\<rparr>, s')"
    using False le fit by (simp add: insert_new_def checked_add_u64_def Let_def s'_def)
  have nk: "?i \<notin> fst ` set (s_entries s)"
    using new sy(1) by (metis (no_types, lifting) imageE om_get_Some_iff option.distinct(1) prod.collapse)
  then have keep: "{p \<in> set (s_entries s). fst p \<noteq> ?i} = set (s_entries s)"
    by (force simp: image_iff)
  have set': "set (s_entries s') = insert (?i, ?e) (set (s_entries s))"
    using om_put_set [OF sy(1), of ?i ?e] keep by (simp add: s'_def)
  have "synced s'"
    unfolding synced_def
  proof (intro conjI)
    show "om_inv (s_entries s')" "om_inv (s_age_order s')"
      using sy(1,2) by (simp_all add: s'_def om_put_inv)
    show "fst ` set (s_age_order s') = age_key ` set (s_entries s')"
      unfolding set' by (simp add: s'_def om_put_keys sy(3))
    show "s_total_bytes s' = sum_list (map entry_len (s_entries s'))"
      using om_put_sum_new [OF nk, of entry_len] sy(4) by (simp add: s'_def)
  qed
  moreover have "length (s_entries s') = Suc (length (s_entries s))"
    using om_put_length_new [OF nk] by (simp add: s'_def)
  moreover have "entry_ok s' p" if p: "p \<in> set (s_entries s')" for p
  proof (cases "p = (?i, ?e)")
    case True
    then show ?thesis using b by (simp add: entry_ok_def s'_def)
  next
    case False
    with p set' have "entry_ok s p" using le(4) by auto
    then show ?thesis by (auto simp: entry_ok_def s'_def)
  qed
  ultimately have "store_inv s'"
    using le fit False by (auto simp: store_inv_def s'_def)
  moreover have "s_limits s' = s_limits s" "s_next_order s' = Suc (s_next_order s)"
    by (simp_all add: s'_def)
  ultimately show ?thesis
    using ins set' by fastforce
qed

text \<open>
  \<open>put\<close>, branch by branch: the input checks leave the store alone; otherwise expired
  entries go first, a known content is acknowledged and not refreshed, and new content
  is inserted after the oldest entries made room. The loop always ends, and the only
  late errors are a hash collision and the exhaustion of the 64-bit insertion counter.
\<close>

lemma put_cases:
  assumes inv: "store_inv s"
  obtains
    (empty) "bs = []" "put s bs now = Some (Inl EmptyInput, s)"
  | (large) "bs \<noteq> []" "length bs > max_item_bytes (s_limits s)"
      "put s bs now = Some (Inl ItemTooLarge, s)"
  | (late) n b s1 r s' where "bs \<noteq> []" "length bs \<le> max_item_bytes (s_limits s)"
      "evict_expired s now = Some ((n, b), s1)" "store_inv s1"
      "s_entries s1 = filter (fresh now s) (s_entries s)" "s_limits s1 = s_limits s"
      "put s bs now = Some (r, s')" "store_inv s'" "s_limits s' = s_limits s"
      "(\<exists>e. om_get (s_entries s1) (id_sha256 bs) = Some e \<and> s' = s1
          \<and> (if e_bytes e = bs
             then r = Inr \<lparr>p_id = id_sha256 bs, p_receipt = store_receipt s'\<rparr>
             else r = Inl ContentIdCollision))
       \<or> (om_get (s_entries s1) (id_sha256 bs) = None
          \<and> (\<exists>s2. make_room s1 (length bs) = (Inr (), s2) \<and> older_removed s1 s2
               \<and> (s_next_order s = u64_max \<and> r = Inl ArithmeticOverflow \<and> s' = s2
                 \<or> (\<exists>e. e_bytes e = bs \<and> e_created_tick e = now
                     \<and> set (s_entries s') = insert (id_sha256 bs, e) (set (s_entries s2)))
                   \<and> r = Inr \<lparr>p_id = id_sha256 bs, p_receipt = store_receipt s'\<rparr>)))"
proof (cases "bs = [] \<or> length bs > max_item_bytes (s_limits s)")
  case True
  then show thesis using empty large by (auto simp: put_def)
next
  case False
  let ?i = "id_sha256 bs"
  obtain n b s1 where s1: "evict_expired s now = Some ((n, b), s1)" "store_inv s1"
    "s_entries s1 = filter (fresh now s) (s_entries s)" "s_limits s1 = s_limits s"
    "s_next_order s1 = s_next_order s"
    using evict_expired_inv [OF inv] by blast
  have ok: "bs \<noteq> []" "length bs \<le> max_item_bytes (s_limits s)" using False by auto
  show thesis
  proof (cases "om_get (s_entries s1) ?i")
    case (Some e)
    show thesis
      by (rule late [of n b s1 "if e_bytes e = bs
          then Inr \<lparr>p_id = ?i, p_receipt = store_receipt s1\<rparr> else Inl ContentIdCollision" s1])
        (use ok s1 Some in \<open>auto simp: put_def\<close>)
  next
    case None
    have "length bs \<le> max_total_bytes (s_limits s1)"
      using s1(2,4) ok by (auto simp: store_inv_def limits_bad_def)
    then obtain s2 where s2: "make_room s1 (length bs) = (Inr (), s2)" "synced s2"
      "\<not> no_room s2 (length bs)" "older_removed s1 s2" "s_limits s2 = s_limits s1"
      "s_next_order s2 = s_next_order s1" "length (s_entries s2) \<le> length (s_entries s1)"
      "s_total_bytes s2 \<le> s_total_bytes s1"
      using make_room_spec [of s1 "length bs"] s1(2) by (auto simp: store_inv_def)
    have inv2: "store_inv s2"
      using s2 by (intro store_inv_subset [OF s1(2)]) (auto simp: older_removed_def)
    have none2: "om_get (s_entries s2) ?i = None"
    proof (rule ccontr)
      assume "om_get (s_entries s2) ?i \<noteq> None"
      then obtain e where "(?i, e) \<in> set (s_entries s2)"
        using s2(2) by (auto simp: synced_def om_get_Some_iff)
      then have "(?i, e) \<in> set (s_entries s1)" using s2(4) by (auto simp: older_removed_def)
      then show False using None s1(2) by (simp add: store_inv_def synced_def om_get_Some_iff [symmetric])
    qed
    have put: "put s bs now = Some (insert_new s2 ?i bs now)"
      using ok s1(1) None s2(1) by (simp add: put_def Let_def)
    have lim: "length bs \<le> max_item_bytes (s_limits s2)" using ok(2) s1(4) s2(5) by simp
    from insert_new_spec [OF inv2 s2(3) none2 ok(1) lim, of now]
    show thesis
    proof (elim disjE exE conjE)
      assume "s_next_order s2 = u64_max" "insert_new s2 ?i bs now = (Inl ArithmeticOverflow, s2)"
      then show thesis
        by (intro late [of n b s1 "Inl ArithmeticOverflow" s2])
          (use ok s1 None s2 inv2 put in simp_all)
    next
      fix s' r
      assume i: "insert_new s2 ?i bs now = (Inr r, s')" "p_id r = ?i" "p_receipt r = store_receipt s'"
        "store_inv s'" "s_limits s' = s_limits s2"
        "set (s_entries s') = insert (?i, \<lparr>e_bytes = bs, e_created_tick = now,
             e_order = s_next_order s2\<rparr>) (set (s_entries s2))"
      have "r = \<lparr>p_id = ?i, p_receipt = store_receipt s'\<rparr>" using i(2,3) by simp
      moreover have "\<exists>e. e_bytes e = bs \<and> e_created_tick e = now
          \<and> set (s_entries s') = insert (?i, e) (set (s_entries s2))"
        using i(6) by (metis mem_entry.select_convs(1,2))
      ultimately show thesis
        by (intro late [of n b s1 "Inr r" s']) (use ok s1 None s2 i put in simp_all)
    qed
  qed
qed

section \<open>The port \<open>ResultStore\<close>\<close>

text \<open>
  The trait \<open>ResultStore\<close> as an interface: \<open>view s now\<close> is the content a store shows at a
  tick. Its contract is the one its documentation states: identifiers are SHA-256 over
  the stored bytes, a batch is published as a whole or not at all, and reads apply the
  age limit.
\<close>

locale result_store_port =
  fixes batch :: "'s \<Rightarrow> bytes list \<Rightarrow> nat \<Rightarrow> ((result_store_error + result_id list) \<times> 's) option"
    and fetch :: "'s \<Rightarrow> result_id \<Rightarrow> nat \<Rightarrow> ((result_store_error + bytes) \<times> 's) option"
    and view :: "'s \<Rightarrow> nat \<Rightarrow> result_id \<Rightarrow> bytes option"
    and ok :: "'s \<Rightarrow> bool"
  assumes fetch_view: "ok s \<Longrightarrow> \<exists>s'. fetch s i now = Some (ok_or NotFound (view s now i), s')
      \<and> ok s' \<and> view s' now = view s now"
    and batch_returns: "ok s \<Longrightarrow> \<exists>r s'. batch s ps now = Some (r, s') \<and> ok s'"
    and batch_error: "ok s \<Longrightarrow> batch s ps now = Some (Inl e, s') \<Longrightarrow> s' = s"
    and batch_ids: "ok s \<Longrightarrow> batch s ps now = Some (Inr ids, s') \<Longrightarrow> ids = map id_sha256 ps"
    and batch_view: "ok s \<Longrightarrow> batch s ps now = Some (Inr ids, s') \<Longrightarrow> i \<in> set ids
      \<Longrightarrow> view s' now i \<noteq> None"
    and view_content: "ok s \<Longrightarrow> view s now i = Some b \<Longrightarrow> id_sha256 b = i"
begin

lemma batch_then_fetch:
  assumes "ok s" "batch s ps now = Some (Inr ids, s')" "k < length ps"
  shows "\<exists>b s''. fetch s' (ids ! k) now = Some (Inr b, s'') \<and> id_sha256 b = id_sha256 (ps ! k)"
proof -
  have ok': "ok s'" using batch_returns [OF assms(1), of ps now] assms(2) by auto
  have ids: "ids = map id_sha256 ps" by (rule batch_ids [OF assms(1,2)])
  then have "ids ! k \<in> set ids" using assms(3) by simp
  then obtain b where b: "view s' now (ids ! k) = Some b"
    using batch_view [OF assms(1,2)] by blast
  with fetch_view [OF ok', of "ids ! k" now] obtain s'' where
    "fetch s' (ids ! k) now = Some (Inr b, s'')" by auto
  moreover have "id_sha256 b = id_sha256 (ps ! k)"
    using view_content [OF ok' b] ids assms(3) by simp
  ultimately show ?thesis by blast
qed

lemma fetch_twice:
  assumes "ok s" "fetch s i now = Some (r, s')"
  shows "\<exists>s''. fetch s' j now = Some (ok_or NotFound (view s now j), s'')"
  using fetch_view [OF assms(1), of i now] fetch_view [of s' j now] assms(2) by auto

end

definition mem_view :: "mem_store \<Rightarrow> nat \<Rightarrow> result_id \<Rightarrow> bytes option" where
  "mem_view s now i =
     (case om_get (s_entries s) i of
        None \<Rightarrow> None
      | Some e \<Rightarrow> if fresh now s (i, e) then Some (e_bytes e) else None)"

lemma om_get_filter:
  "om_inv m \<Longrightarrow> om_get (filter P m) k
     = (case om_get m k of None \<Rightarrow> None | Some v \<Rightarrow> if P (k, v) then Some v else None)"
proof (induction m)
  case (Cons p m)
  obtain a b where p: "p = (a, b)" by (cases p)
  from Cons.prems p have "a \<notin> fst ` set m" by (auto simp: map_simps)
  then have "om_get m a = None" by (rule om_get_notin)
  with Cons p show ?case by (auto simp: om_get_Cons map_simps)
qed simp

lemma get_view:
  assumes "store_inv s"
  shows "\<exists>s'. get s i now = Some (ok_or NotFound (mem_view s now i), s')
    \<and> store_inv s' \<and> s_entries s' = filter (fresh now s) (s_entries s) \<and> s_limits s' = s_limits s"
proof -
  obtain n b s' where s': "evict_expired s now = Some ((n, b), s')" "store_inv s'"
    "s_entries s' = filter (fresh now s) (s_entries s)" "s_limits s' = s_limits s"
    using evict_expired_inv [OF assms] by blast
  have "om_inv (s_entries s)" using assms by (simp add: store_inv_def synced_def)
  then have "map_option e_bytes (om_get (s_entries s') i) = mem_view s now i"
    by (simp add: s'(3) om_get_filter mem_view_def split: option.split)
  then show ?thesis using s' by (simp add: get_def)
qed

lemma fresh_limits: "s_limits s' = s_limits s \<Longrightarrow> fresh now s' = fresh now s"
  by (simp add: fresh_def fun_eq_iff)

lemma mem_view_filter:
  assumes "store_inv s" "s_entries s' = filter (fresh now s) (s_entries s)" "s_limits s' = s_limits s"
  shows "mem_view s' now = mem_view s now"
proof
  fix i
  have "om_inv (s_entries s)" using assms(1) by (simp add: store_inv_def synced_def)
  then show "mem_view s' now i = mem_view s now i"
    using fresh_limits [OF assms(3), of now]
    by (auto simp: mem_view_def assms(2) om_get_filter split: option.splits)
qed

text \<open>After a successful \<open>put\<close> the content is there, and every entry is still fresh.\<close>

lemma put_Inr:
  assumes "store_inv s" "put s bs now = Some (Inr r, s')"
  shows "store_inv s' \<and> s_limits s' = s_limits s \<and> p_id r = id_sha256 bs
    \<and> p_receipt r = store_receipt s'
    \<and> (\<exists>e. om_get (s_entries s') (id_sha256 bs) = Some e \<and> e_bytes e = bs)
    \<and> (0 < max_age_ticks (s_limits s) \<longrightarrow> (\<forall>p \<in> set (s_entries s'). fresh now s p))"
  using assms(1)
proof (cases rule: put_cases [of s bs now])
  case (late n b s1 r' s'')
  then have eq: "r' = Inr r" "s'' = s'" using assms(2) by simp_all
  have inv': "om_inv (s_entries s')" using late(8) eq by (simp add: store_inv_def synced_def)
  have f1: "\<forall>p \<in> set (s_entries s1). fresh now s p" using late(5) by simp
  from late(10) show ?thesis
  proof (elim disjE exE conjE)
    fix e assume "om_get (s_entries s1) (id_sha256 bs) = Some e" "s'' = s1"
      "if e_bytes e = bs then r' = Inr \<lparr>p_id = id_sha256 bs, p_receipt = store_receipt s''\<rparr>
       else r' = Inl ContentIdCollision"
    then show ?thesis using late(8,9) eq f1 by (auto split: if_splits)
  next
    fix s2 assume "r' = Inl ArithmeticOverflow"
    then show ?thesis using eq by simp
  next
    fix s2 e assume a: "older_removed s1 s2" "e_bytes e = bs" "e_created_tick e = now"
      "set (s_entries s'') = insert (id_sha256 bs, e) (set (s_entries s2))"
      "r' = Inr \<lparr>p_id = id_sha256 bs, p_receipt = store_receipt s''\<rparr>"
    have "om_get (s_entries s') (id_sha256 bs) = Some e"
      using a(4) eq inv' by (simp add: om_get_Some_iff)
    moreover have "0 < max_age_ticks (s_limits s) \<longrightarrow> (\<forall>p \<in> set (s_entries s'). fresh now s p)"
      using a f1 eq by (auto simp: older_removed_def fresh_def)
    ultimately show ?thesis using late(8,9) eq a by auto
  qed
qed (use assms(2) in simp_all)

lemma put_returns:
  assumes "store_inv s"
  shows "\<exists>r s'. put s bs now = Some (r, s') \<and> store_inv s'"
  using assms by (cases rule: put_cases [of s bs now]) (use assms in auto)

lemma put_all_spec:
  assumes "store_inv s"
  shows "\<exists>r s'. put_all s ps now = Some (r, s') \<and> store_inv s' \<and> s_limits s' = s_limits s
    \<and> (\<forall>ids. r = Inr ids \<longrightarrow> ids = map id_sha256 ps
         \<and> (ps \<noteq> [] \<longrightarrow> (\<forall>p \<in> set (s_entries s'). fresh now s p)))"
  using assms
proof (induction ps arbitrary: s)
  case (Cons p ps)
  from put_returns [OF Cons.prems, of p now] obtain r s1 where
    r: "put s p now = Some (r, s1)" "store_inv s1" by blast
  show ?case
  proof (cases r)
    case (Inl e)
    have "s_limits s1 = s_limits s"
      using Cons.prems by (cases rule: put_cases [of s p now]) (use r(1) in auto)
    with Inl r show ?thesis by simp
  next
    case (Inr v)
    note v = put_Inr [OF Cons.prems r(1) [unfolded Inr]]
    have pos: "0 < max_age_ticks (s_limits s)"
      using Cons.prems by (simp add: store_inv_def limits_bad_def)
    from Cons.IH [OF r(2)] obtain r2 s2 where s2: "put_all s1 ps now = Some (r2, s2)" "store_inv s2"
      "s_limits s2 = s_limits s1"
      "\<forall>ids. r2 = Inr ids \<longrightarrow> ids = map id_sha256 ps
         \<and> (ps \<noteq> [] \<longrightarrow> (\<forall>p \<in> set (s_entries s2). fresh now s1 p))" by blast
    have fr: "fresh now s1 = fresh now s" using v fresh_limits by blast
    have "ps = [] \<Longrightarrow> s2 = s1" using s2(1) by simp
    with Inr r s2 v pos fr show ?thesis by (cases r2) auto
  qed
qed simp

lemma put_batch_Inr:
  assumes "store_inv s" "put_batch s ps now = Some (Inr ids, s')"
  shows "store_inv s' \<and> ids = map id_sha256 ps \<and> s_limits s' = s_limits s
    \<and> (\<forall>i \<in> set ids. om_get (s_entries s') i \<noteq> None) \<and> (\<forall>p \<in> set (s_entries s'). fresh now s p)"
proof -
  obtain r t where t: "put_all s ps now = Some (r, t)" "store_inv t" "s_limits t = s_limits s"
    "\<forall>ids. r = Inr ids \<longrightarrow> ids = map id_sha256 ps
         \<and> (ps \<noteq> [] \<longrightarrow> (\<forall>p \<in> set (s_entries t). fresh now s p))"
    using put_all_spec [OF assms(1), of ps now] by blast
  then show ?thesis
    using assms(2) by (cases r) (auto simp: put_batch_def split: if_splits)
qed

interpretation mem: result_store_port put_batch get mem_view store_inv
proof
  fix s i now assume inv: "store_inv s"
  show "\<exists>s'. get s i now = Some (ok_or NotFound (mem_view s now i), s') \<and> store_inv s'
      \<and> mem_view s' now = mem_view s now"
    using get_view [OF inv, of i now] mem_view_filter [OF inv, of _ now] by blast
next
  fix s ps now assume inv: "store_inv s"
  obtain r t where "put_all s ps now = Some (r, t)" "store_inv t"
    using put_all_spec [OF inv, of ps now] by blast
  then show "\<exists>r s'. put_batch s ps now = Some (r, s') \<and> store_inv s'"
    using inv by (cases r) (auto simp: put_batch_def)
next
  fix s ps now e s' assume "store_inv s" "put_batch s ps now = Some (Inl e, s')"
  then show "s' = s"
    by (auto simp: put_batch_def split: option.splits sum.splits if_splits)
next
  fix s ps now ids s' assume "store_inv s" "put_batch s ps now = Some (Inr ids, s')"
  then show "ids = map id_sha256 ps" using put_batch_Inr by blast
next
  fix s ps now ids s' i
  assume a: "store_inv s" "put_batch s ps now = Some (Inr ids, s')" "i \<in> set ids"
  note b = put_batch_Inr [OF a(1,2)]
  then obtain e where e: "om_get (s_entries s') i = Some e" using a(3) by blast
  then have "(i, e) \<in> set (s_entries s')"
    using b by (simp add: store_inv_def synced_def om_get_Some_iff)
  then have "fresh now s' (i, e)" using b fresh_limits by (metis (no_types, lifting))
  with e show "mem_view s' now i \<noteq> None" by (simp add: mem_view_def)
next
  fix s now i b assume "store_inv s" "mem_view s now i = Some b"
  then show "id_sha256 b = i"
    by (force simp: mem_view_def store_inv_def synced_def entry_ok_def om_get_Some_iff
        split: option.splits if_splits)
qed

section \<open>Properties\<close>

lemma remove_inv:
  assumes inv: "store_inv s"
  shows "store_inv (snd (remove s i))"
proof (cases "om_get (s_entries s) i")
  case None
  with inv show ?thesis by (simp add: remove_def remove_id_def)
next
  case (Some e)
  from inv have sy: "synced s" by (simp add: store_inv_def)
  note r = remove_id_synced [OF sy Some] and k = remove_id_keeps_synced [OF sy Some]
  have "om_inv (s_entries s)" using sy by (simp add: synced_def)
  then have "store_inv (snd (remove_id s i))"
    using r(1) by (intro store_inv_subset [OF inv k]) (simp_all add: om_del_filter)
  then show ?thesis using r(1) by (simp add: remove_def)
qed

lemma clear_inv: "store_inv s \<Longrightarrow> store_inv (snd (clear s))"
  by (simp add: clear_def Let_def store_inv_def synced_def)

lemma with_limits_inv:
  "with_limits l = Inr s \<Longrightarrow> max_total_bytes l \<le> u64_max \<Longrightarrow> store_inv s"
  by (auto simp: with_limits_def store_inv_def synced_def split: if_splits)

text \<open>
  C23. The store's invariant: a new store has it, and every public operation, error or
  not, ends (no eviction loop runs forever) and keeps it. The invariant says that index
  and entries agree one to one, that the byte total is the sum of the stored lengths,
  that no limit is exceeded and that every entry's key is the SHA-256 of its bytes.
\<close>

theorem store_inv_preserved:
  assumes "with_limits l = Inr s0" "max_total_bytes l \<le> u64_max" "store_inv s"
  shows "store_inv s0
    \<and> (\<exists>r s'. put s bs now = Some (r, s') \<and> store_inv s')
    \<and> (\<exists>r s'. put_batch s ps now = Some (r, s') \<and> store_inv s')
    \<and> (\<exists>r s'. get s i now = Some (r, s') \<and> store_inv s')
    \<and> store_inv (snd (remove s i)) \<and> store_inv (snd (clear s))"
  using with_limits_inv [OF assms(1,2)] put_returns [OF assms(3), of bs now]
    mem.batch_returns [OF assms(3), of ps now] mem.fetch_view [OF assms(3), of i now]
    remove_inv [OF assms(3), of i] clear_inv [OF assms(3)]
  by blast

definition demo_limits :: result_store_limits where
  "demo_limits = \<lparr>max_entries = 2, max_total_bytes = 8, max_item_bytes = 4, max_age_ticks = 10\<rparr>"

definition demo_store :: mem_store where
  "demo_store = \<lparr>s_limits = demo_limits, s_entries = [], s_age_order = [], s_total_bytes = 0,
     s_next_order = 0\<rparr>"

lemma demo_store_new: "with_limits demo_limits = Inr demo_store"
  by (simp add: with_limits_def limits_bad_def demo_limits_def demo_store_def)

lemma demo_store_inv [simp]: "store_inv demo_store"
  by (rule with_limits_inv [OF demo_store_new]) (simp add: demo_limits_def u64_max_def)

theorem store_inv_preserved_witness:
  "store_inv (snd (remove demo_store (id_sha256 ''ab''))) \<and> store_inv demo_store"
proof -
  have "max_total_bytes demo_limits \<le> u64_max" by (simp add: demo_limits_def u64_max_def)
  from store_inv_preserved [OF demo_store_new this demo_store_inv] show ?thesis by blast
qed

lemma put_view:
  assumes "store_inv s" "put s bs now = Some (Inr r, s')"
  shows "mem_view s' now (id_sha256 bs) = Some bs"
proof -
  note p = put_Inr [OF assms]
  then obtain e where e: "om_get (s_entries s') (id_sha256 bs) = Some e" "e_bytes e = bs" by blast
  have "(id_sha256 bs, e) \<in> set (s_entries s')"
    using p e(1) by (simp add: store_inv_def synced_def om_get_Some_iff)
  moreover have "0 < max_age_ticks (s_limits s)"
    using assms(1) by (simp add: store_inv_def limits_bad_def)
  ultimately have "fresh now s' (id_sha256 bs, e)"
    using p fresh_limits by (metis (no_types, lifting))
  with e show ?thesis by (simp add: mem_view_def)
qed

text \<open>
  Content put into the store comes back: after a successful \<open>put\<close> the identifier is
  the SHA-256 of the bytes and \<open>get\<close> at the same tick returns exactly these bytes,
  whatever had to be evicted.
\<close>

theorem put_then_get:
  assumes "store_inv s" "put s bs now = Some (Inr r, s')"
  shows "p_id r = id_sha256 bs \<and> (\<exists>s''. get s' (p_id r) now = Some (Inr bs, s''))"
  using put_Inr [OF assms] put_view [OF assms] get_view [of s' "p_id r" now] by auto

lemma demo_put:
  "put demo_store ''ab'' 3 = Some (insert_new demo_store (id_sha256 ''ab'') ''ab'' 3)"
proof -
  have "evict_expired demo_store 3 = Some ((0, 0), demo_store)"
    unfolding evict_expired_def by (subst evict_loop.simps) (simp add: demo_store_def)
  moreover have "make_room demo_store (Suc (Suc 0)) = (Inr (), demo_store)"
    by (subst make_room.simps)
      (simp add: no_room_def demo_store_def demo_limits_def saturating_sub_def)
  ultimately show ?thesis
    by (simp add: put_def Let_def demo_store_def demo_limits_def)
qed

text \<open>The first content of an empty store.\<close>

lemma first_put:
  assumes "s_entries s = []" "s_age_order s = []" "s_total_bytes s = 0" "s_next_order s = 0"
    "\<not> limits_bad (s_limits s)" "max_total_bytes (s_limits s) \<le> u64_max"
    "bs \<noteq> []" "length bs \<le> max_item_bytes (s_limits s)"
  shows "\<exists>r s'. put s bs now = Some (Inr r, s')"
proof -
  have e: "evict_expired s now = Some ((0, 0), s)"
    unfolding evict_expired_def by (subst evict_loop.simps) (simp add: assms)
  have l: "length bs \<le> max_total_bytes (s_limits s)" "0 < max_entries (s_limits s)"
    using assms(5,8) by (auto simp: limits_bad_def)
  then have "make_room s (length bs) = (Inr (), s)"
    by (subst make_room.simps) (auto simp: no_room_def assms saturating_sub_def)
  moreover have "length bs \<le> u64_max" using l(1) assms(6) by simp
  ultimately show ?thesis using e assms(7,8)
    by (simp add: put_def Let_def assms insert_new_def checked_add_u64_def u64_max_def not_less)
qed

lemma demo_put_ok: "\<exists>r s'. put demo_store ''ab'' 3 = Some (Inr r, s')"
  unfolding demo_put
  by (simp add: insert_new_def Let_def checked_add_u64_def u64_max_def demo_store_def)

theorem put_then_get_witness:
  "\<exists>r s' s''. put demo_store ''ab'' 3 = Some (Inr r, s')
     \<and> get s' (id_sha256 ''ab'') 3 = Some (Inr ''ab'', s'')"
  using demo_put_ok put_then_get [OF demo_store_inv] by metis

text \<open>
  C22. A batch is atomic: when \<open>put_batch\<close> fails, for whatever reason and at whatever
  payload, the store is the one before the call; when it succeeds, the identifiers are
  the SHA-256 identifiers of the payloads in order, and \<open>get\<close> at the same tick returns
  for each of them content with that identifier.
\<close>

theorem put_batch_atomic:
  assumes "store_inv s"
  shows "\<exists>r s'. put_batch s ps now = Some (r, s') \<and> store_inv s' \<and>
    (case r of
       Inl e \<Rightarrow> s' = s
     | Inr ids \<Rightarrow> ids = map id_sha256 ps \<and> ps \<noteq> [] \<and>
         (\<forall>k < length ps. \<exists>b s''. get s' (ids ! k) now = Some (Inr b, s'')
            \<and> id_sha256 b = id_sha256 (ps ! k)))"
proof -
  obtain r s' where r: "put_batch s ps now = Some (r, s')" "store_inv s'"
    using mem.batch_returns [OF assms, of ps now] by blast
  have "ps \<noteq> []" if "r = Inr ids" for ids
    using r(1) that by (auto simp: put_batch_def)
  with r show ?thesis
    using mem.batch_error [OF assms] mem.batch_ids [OF assms] mem.batch_then_fetch [OF assms]
    by (intro exI [of _ r] exI [of _ s']) (auto split: sum.split)
qed

theorem put_batch_atomic_witness: "\<exists>r s'. put_batch demo_store [''ab'', ''cd''] 3 = Some (r, s')"
  using put_batch_atomic [OF demo_store_inv] by blast

lemma put_evicts_one:
  assumes "store_inv s" "put s bs now = Some (r, s')"
    and "p \<in> set (s_entries s)" "fresh now s p" "p \<notin> set (s_entries s')"
  shows "(\<forall>q \<in> set (s_entries s) \<inter> set (s_entries s'). age_key p < age_key q)
    \<and> (\<exists>b s1. evict_expired s now = Some (b, s1) \<and> no_room s1 (length bs))"
  using assms(1)
proof (cases rule: put_cases [of s bs now])
  case (late n b s1 r' s'')
  have eq: "s'' = s'" using late(7) assms(2) by simp
  have p1: "p \<in> set (s_entries s1)" using assms(3,4) late(5) by simp
  from late(10) obtain s2 where s2: "make_room s1 (length bs) = (Inr (), s2)" "older_removed s1 s2"
    and nk: "om_get (s_entries s1) (id_sha256 bs) = None"
    and ins: "s'' = s2 \<or> (\<exists>e. e_created_tick e = now
      \<and> set (s_entries s'') = insert (id_sha256 bs, e) (set (s_entries s2)))"
    using p1 assms(5) eq by auto
  have p2: "p \<notin> set (s_entries s2)" using ins assms(5) eq by auto
  have "age_key p < age_key q" if q: "q \<in> set (s_entries s)" "q \<in> set (s_entries s')" for q
  proof -
    have "q \<in> set (s_entries s2)"
    proof (rule ccontr)
      assume "q \<notin> set (s_entries s2)"
      then obtain e where e: "q = (id_sha256 bs, e)" "e_created_tick e = now"
        using ins q(2) eq by auto
      then have "fresh now s q"
        using assms(1) by (simp add: fresh_def store_inv_def limits_bad_def)
      then have "q \<in> set (s_entries s1)" using q(1) late(5) by simp
      then show False
        using e(1) nk late(4) by (simp add: store_inv_def synced_def om_get_Some_iff [symmetric])
    qed
    then show ?thesis using s2(2) p1 p2 by (auto simp: older_removed_def)
  qed
  moreover have "no_room s1 (length bs)"
    using s2(1) p1 p2 by (subst (asm) make_room.simps) (auto split: if_splits)
  ultimately show ?thesis using late(3) by blast
qed (use assms in auto)

text \<open>
  Eviction is oldest first and never gratuitous: an unexpired entry that a \<open>put\<close>
  drops is older (by tick, then insertion order) than every earlier entry it keeps, and
  an entry is only dropped when the new content did not fit beside the unexpired ones.
\<close>

theorem put_evicts_oldest_first:
  assumes "store_inv s" "put s bs now = Some (r, s')"
  shows "\<forall>p \<in> set (s_entries s) - set (s_entries s'). fresh now s p \<longrightarrow>
    (\<forall>q \<in> set (s_entries s) \<inter> set (s_entries s'). age_key p < age_key q)
    \<and> (\<exists>b s1. evict_expired s now = Some (b, s1) \<and> no_room s1 (length bs))"
  using put_evicts_one [OF assms] by blast

theorem put_evicts_oldest_first_witness:
  "\<exists>r s'. put demo_store ''ab'' 3 = Some (r, s') \<and>
     (\<forall>p \<in> set (s_entries demo_store) - set (s_entries s'). fresh 3 demo_store p \<longrightarrow>
       (\<exists>b s1. evict_expired demo_store 3 = Some (b, s1) \<and> no_room s1 (length ''ab'')))"
proof -
  obtain r s' where e: "put demo_store ''ab'' 3 = Some (Inr r, s')" using demo_put_ok by blast
  from put_evicts_oldest_first [OF demo_store_inv e] e show ?thesis by blast
qed

text \<open>
  The errors of \<open>put\<close>: an empty or an oversized input is refused with the store
  untouched, and for any other input the result is an error in two situations only: an
  unexpired entry with the same SHA-256 but other bytes, or the insertion counter at its
  64-bit maximum.
\<close>

theorem put_errors:
  assumes "store_inv s" "put s bs now = Some (Inl e, s')"
  shows "(e = EmptyInput \<and> bs = [] \<and> s' = s)
    \<or> (e = ItemTooLarge \<and> length bs > max_item_bytes (s_limits s) \<and> s' = s)
    \<or> (e = ContentIdCollision \<and> (\<exists>c. mem_view s now (id_sha256 bs) = Some c \<and> c \<noteq> bs))
    \<or> (e = ArithmeticOverflow \<and> s_next_order s = u64_max)"
  using assms(1)
proof (cases rule: put_cases [of s bs now])
  case (late n b s1 r s'')
  have inv: "om_inv (s_entries s)" using assms(1) by (simp add: store_inv_def synced_def)
  have view: "om_get (s_entries s1) (id_sha256 bs) = Some x \<Longrightarrow>
      mem_view s now (id_sha256 bs) = Some (e_bytes x)" for x
    using inv late(5) by (auto simp: om_get_filter mem_view_def split: option.splits if_splits)
  from late(7,10) assms(2) view show ?thesis by (auto split: if_splits)
qed (use assms in auto)

theorem put_errors_witness: "put demo_store [] 3 = Some (Inl EmptyInput, demo_store)"
proof -
  have "put demo_store [] 3 = Some (Inl EmptyInput, demo_store)" by (simp add: put_def)
  from put_errors [OF demo_store_inv this] this show ?thesis by blast
qed

end
