(* ===== verification/Sql_Gate.thy ===== *)
theory Sql_Gate
  imports Result_Id
begin

text \<open>
  \<open>database/sql.rs\<close>: the deterministic gate every SQL text passes before an engine sees
  it. The lexer \<open>tokenize\<close>, the checks of \<open>gate_as\<close> in their order (size, forbidden words,
  one \<open>SELECT\<close> in first place, parentheses, relations, \<open>ORDER BY\<close>), the public entry
  points \<open>gate\<close> and \<open>project\<close>. The lexer and the relation scan walk an index over a slice;
  here they walk the remaining suffix, and \<open>None\<close> of \<open>get(index)\<close> is the empty suffix.
  The lemmas show what an accepted query is guaranteed to satisfy and that the normalized
  text is a fixed point of the gate.
\<close>

section \<open>Names, rejections, queries\<close>

datatype relation_name = RelationName (rn_schema: str) (rn_relation: str)

text \<open>The derived order: schema first, then relation.\<close>

instantiation relation_name :: linorder
begin

definition less_eq_relation_name :: "relation_name \<Rightarrow> relation_name \<Rightarrow> bool" where
  "less_eq_relation_name a b = ((rn_schema a, rn_relation a) \<le> (rn_schema b, rn_relation b))"

definition less_relation_name :: "relation_name \<Rightarrow> relation_name \<Rightarrow> bool" where
  "less_relation_name a b = ((rn_schema a, rn_relation a) < (rn_schema b, rn_relation b))"

instance
proof
  fix a b c :: relation_name
  show "(a < b) = (a \<le> b \<and> \<not> b \<le> a)"
    unfolding less_eq_relation_name_def less_relation_name_def by (rule less_le_not_le)
  show "a \<le> a" unfolding less_eq_relation_name_def by (rule order_refl)
  show "a \<le> b \<Longrightarrow> b \<le> c \<Longrightarrow> a \<le> c"
    unfolding less_eq_relation_name_def by (rule order_trans)
  show "a \<le> b \<Longrightarrow> b \<le> a \<Longrightarrow> a = b"
    unfolding less_eq_relation_name_def
    by (drule (1) order_antisym) (simp add: relation_name.expand)
  show "a \<le> b \<or> b \<le> a" unfolding less_eq_relation_name_def by (rule linear)
qed

end

definition valid_part :: "str \<Rightarrow> bool" where
  "valid_part part \<longleftrightarrow> part \<noteq> [] \<and> length part \<le> 63
     \<and> (is_ascii_lowercase (hd part) \<or> hd part = CHR ''_'')
     \<and> list_all (\<lambda>b. is_ascii_lowercase b \<or> is_ascii_digit b \<or> b = CHR ''_'') part"

definition relation_parse :: "str \<Rightarrow> relation_name option" where
  "relation_parse value =
     (case split_once (CHR ''.'') value of
        None \<Rightarrow> None
      | Some (schema, relation) \<Rightarrow>
          if valid_part schema \<and> valid_part relation then Some (RelationName schema relation)
          else None)"

definition relation_display :: "relation_name \<Rightarrow> str" where
  "relation_display r = rn_schema r @ ''.'' @ rn_relation r"

datatype sql_rejection =
    Empty
  | TooLarge
  | Malformed
  | Comment
  | MultiStatement
  | UnsupportedCharacter
  | UnterminatedLiteral
  | NotSelect
  | WriteOrDdl
  | SessionMutation
  | ProcedureCall
  | ExternalReference
  | Compound
  | UnsafeFunction
  | UnqualifiedRelation
  | RelationNotAllowed
  | Unordered
  | InvalidProjection

fun rejection_display :: "sql_rejection \<Rightarrow> str" where
  "rejection_display Empty = ''empty SQL''"
| "rejection_display TooLarge = ''SQL exceeds the size limit''"
| "rejection_display Malformed = ''SQL shape is not supported''"
| "rejection_display Comment = ''SQL comments are not accepted''"
| "rejection_display MultiStatement = ''only one statement is accepted''"
| "rejection_display UnsupportedCharacter = ''SQL contains an unsupported character''"
| "rejection_display UnterminatedLiteral = ''SQL literal is not terminated''"
| "rejection_display NotSelect = ''only SELECT is accepted''"
| "rejection_display WriteOrDdl = ''write or DDL keyword''"
| "rejection_display SessionMutation = ''session or transaction keyword''"
| "rejection_display ProcedureCall = ''procedure execution''"
| "rejection_display ExternalReference = ''external database reference''"
| "rejection_display Compound = ''compound or nested query''"
| "rejection_display UnsafeFunction = ''function is not allowlisted''"
| "rejection_display UnqualifiedRelation = ''relation must be schema-qualified''"
| "rejection_display RelationNotAllowed = ''relation is not allowlisted''"
| "rejection_display Unordered = ''row query needs ORDER BY''"
| "rejection_display InvalidProjection = ''projection columns are invalid''"

datatype query_derivation = Projection | Query

fun derivation_as_str :: "query_derivation \<Rightarrow> str" where
  "derivation_as_str Projection = ''projection''"
| "derivation_as_str Query = ''query''"

record gated_query =
  gq_sql :: str
  gq_digest :: str
  gq_relations :: "relation_name list"
  gq_derivation :: query_derivation

section \<open>Word tables\<close>

definition MAX_SQL_BYTES :: nat where
  "MAX_SQL_BYTES = 8 * 1024"

definition MAX_SQL_TOKENS :: nat where
  "MAX_SQL_TOKENS = 1024"

definition ALLOWED_FUNCTIONS :: "str list" where
  "ALLOWED_FUNCTIONS = [''abs'', ''avg'', ''coalesce'', ''count'', ''length'', ''lower'', ''max'',
     ''min'', ''round'', ''sum'', ''upper'']"

definition EXTERNAL :: "str list" where
  "EXTERNAL = [''attach'', ''detach'', ''load'', ''import'', ''openrowset'', ''openquery'',
     ''opendatasource'', ''dblink'', ''dblink_exec'', ''dblink_connect'']"

definition WRITE :: "str list" where
  "WRITE = [''insert'', ''update'', ''delete'', ''merge'', ''replace'', ''upsert'', ''create'',
     ''drop'', ''alter'', ''truncate'', ''grant'', ''revoke'', ''copy'', ''into'', ''returning'',
     ''vacuum'', ''reindex'', ''analyze'', ''comment'', ''rename'', ''cluster'', ''refresh'']"

definition SESSION :: "str list" where
  "SESSION = [''set'', ''reset'', ''pragma'', ''begin'', ''commit'', ''rollback'', ''savepoint'',
     ''release'', ''start'', ''transaction'', ''lock'', ''for'', ''listen'', ''notify'',
     ''unlisten'', ''discard'', ''use'', ''declare'', ''fetch'', ''close'', ''prepare'',
     ''deallocate'', ''checkpoint'']"

definition PROCEDURE :: "str list" where
  "PROCEDURE = [''call'', ''exec'', ''execute'', ''do'']"

definition COMPOUND :: "str list" where
  "COMPOUND = [''union'', ''intersect'', ''except'']"

definition GRAMMAR :: "str list" where
  "GRAMMAR = [''select'', ''distinct'', ''all'', ''from'', ''where'', ''and'', ''or'', ''not'',
     ''as'', ''join'', ''inner'', ''left'', ''outer'', ''cross'', ''on'', ''group'', ''by'',
     ''order'', ''asc'', ''desc'', ''limit'', ''offset'', ''having'', ''is'', ''null'', ''in'',
     ''between'', ''like'', ''true'', ''false'', ''nulls'', ''first'', ''last'']"

definition EXPRESSION_OPENERS :: "str list" where
  "EXPRESSION_OPENERS = [''select'', ''distinct'', ''where'', ''and'', ''or'', ''not'', ''in'',
     ''on'', ''having'', ''by'', ''between'', ''limit'', ''offset'']"

definition OPERATORS :: "str list" where
  "OPERATORS = [''('', '','', ''='', ''<'', ''>'', ''<='', ''>='', ''<>'', ''!='', ''+'', ''-'',
     ''*'', ''/'', ''%'', ''||'']"

definition FROM_END :: "str list" where
  "FROM_END = [''where'', ''group'', ''order'', ''having'', ''limit'', ''offset'']"

definition RELATION_FOLLOWERS :: "str list" where
  "RELATION_FOLLOWERS = [''join'', ''inner'', ''left'', ''outer'', ''cross'', ''on'', ''where'',
     ''group'', ''order'', ''having'', ''limit'', ''offset'']"

definition SYMBOLS :: "str list" where
  "SYMBOLS = [''<='', ''>='', ''<>'', ''!='', ''||'', ''('', '')'', '','', ''.'', ''*'', ''='',
     ''<'', ''>'', ''+'', ''-'', ''/'', ''%'']"

section \<open>Tokens\<close>

datatype token = Word str | Quoted str | Literal str | Param str | Symbol str

definition is_word :: "token \<Rightarrow> str \<Rightarrow> bool" where
  "is_word t w \<longleftrightarrow> t = Word w"

fun token_name :: "token \<Rightarrow> str option" where
  "token_name (Word w) = (if w \<notin> set GRAMMAR then Some w else None)"
| "token_name (Quoted n) = Some n"
| "token_name _ = None"

fun token_text :: "token \<Rightarrow> str" where
  "token_text (Word t) = t"
| "token_text (Literal t) = t"
| "token_text (Param t) = t"
| "token_text (Quoted n) = CHR 0x22 # n @ [CHR 0x22]"
| "token_text (Symbol s) = s"

section \<open>The lexer\<close>

text \<open>The inner loop on a string literal, from after the opening quote: what it consumes,
  closing quote included, and the rest.\<close>

fun scan_literal :: "str \<Rightarrow> sql_rejection + str \<times> str" where
  "scan_literal [] = Inl UnterminatedLiteral"
| "scan_literal (c # s) =
     (if code c = 0 then Inl UnsupportedCharacter
      else if c = CHR 0x27 then
        (case s of
           d # t \<Rightarrow>
             if d = CHR 0x27 then res_bind (scan_literal t) (\<lambda>(a, r). Inr (c # d # a, r))
             else Inr ([c], s)
         | [] \<Rightarrow> Inr ([c], s))
      else res_bind (scan_literal s) (\<lambda>(a, r). Inr (c # a, r)))"

definition quoted_byte :: "char \<Rightarrow> bool" where
  "quoted_byte b \<longleftrightarrow> is_ascii_graphic b \<or> b = CHR '' ''"

definition lex_quoted :: "str \<Rightarrow> sql_rejection + token \<times> str" where
  "lex_quoted s =
     (case split_once (CHR 0x22) s of
        None \<Rightarrow> Inl UnterminatedLiteral
      | Some (name, rest) \<Rightarrow>
          if name = [] \<or> length name > 63 \<or> \<not> list_all quoted_byte name
          then Inl UnsupportedCharacter
          else Inr (Quoted name, rest))"

definition lex_param :: "str \<Rightarrow> sql_rejection + token \<times> str" where
  "lex_param s =
     (let ds = takeWhile is_ascii_digit s
      in if ds = [] then Inl UnsupportedCharacter
         else Inr (Param (CHR ''$'' # ds), dropWhile is_ascii_digit s))"

definition word_start :: "char \<Rightarrow> bool" where
  "word_start b \<longleftrightarrow> is_ascii_alphabetic b \<or> b = CHR ''_''"

definition word_byte :: "char \<Rightarrow> bool" where
  "word_byte b \<longleftrightarrow> is_ascii_alphanumeric b \<or> b = CHR ''_''"

text \<open>A number: digits, then a fraction if a digit follows the point; a letter right after
  it is an error.\<close>

definition lex_number :: "str \<Rightarrow> sql_rejection + token \<times> str" where
  "lex_number s =
     (let ds = takeWhile is_ascii_digit s; r = dropWhile is_ascii_digit s;
          (num, rest) =
            (case r of
               p # d # _ \<Rightarrow>
                 if p = CHR ''.'' \<and> is_ascii_digit d
                 then (ds @ p # takeWhile is_ascii_digit (tl r), dropWhile is_ascii_digit (tl r))
                 else (ds, r)
             | _ \<Rightarrow> (ds, r))
      in if rest \<noteq> [] \<and> word_start (hd rest) then Inl Malformed
         else Inr (Literal num, rest))"

definition lex_word :: "str \<Rightarrow> sql_rejection + token \<times> str" where
  "lex_word s = Inr (Word (to_ascii_lowercase (takeWhile word_byte s)), dropWhile word_byte s)"

definition lex_symbol :: "str \<Rightarrow> sql_rejection + token \<times> str" where
  "lex_symbol s =
     (case find (\<lambda>symb. prefix symb s) SYMBOLS of
        None \<Rightarrow> Inl UnsupportedCharacter
      | Some symb \<Rightarrow> Inr (Symbol symb, drop (length symb) s))"

definition sql_space :: "char \<Rightarrow> bool" where
  "sql_space c \<longleftrightarrow> c = CHR '' '' \<or> c = CHR 0x09 \<or> c = CHR 0x0A \<or> c = CHR 0x0D"

text \<open>One token at a byte \<open>c\<close> that is not white space; \<open>s\<close> is what follows it.\<close>

definition lex_one :: "char \<Rightarrow> str \<Rightarrow> sql_rejection + token \<times> str" where
  "lex_one c s =
     (if c = CHR ''-'' \<and> s \<noteq> [] \<and> hd s = CHR ''-'' then Inl Comment
      else if c = CHR ''/'' \<and> s \<noteq> [] \<and> hd s = CHR ''*'' then Inl Comment
      else if c = CHR '';'' then Inl MultiStatement
      else if c = CHR ''@'' then Inl ExternalReference
      else if c = CHR 0x27 then
        res_bind (scan_literal s) (\<lambda>(a, r). Inr (Literal (c # a), r))
      else if c = CHR 0x22 then lex_quoted s
      else if c = CHR ''?'' then Inr (Param ''?'', s)
      else if c = CHR ''$'' then lex_param s
      else if is_ascii_digit c then lex_number (c # s)
      else if word_start c then lex_word (c # s)
      else lex_symbol (c # s))"

lemma scan_literal_length: "scan_literal s = Inr (a, r) \<Longrightarrow> length a + length r = length s"
  by (induction s arbitrary: a r rule: scan_literal.induct)
    (auto simp: res_simps split: if_splits list.splits)

text \<open>Which branch produced a token.\<close>

lemma lex_one_cases:
  assumes "lex_one c s = Inr (t, r)"
  obtains (lit) a where "c = CHR 0x27" "scan_literal s = Inr (a, r)" "t = Literal (c # a)"
  | (quo) "c = CHR 0x22" "lex_quoted s = Inr (t, r)"
  | (mark) "c = CHR ''?''" "t = Param ''?''" "r = s"
  | (par) "c = CHR ''$''" "lex_param s = Inr (t, r)"
  | (num) "is_ascii_digit c" "lex_number (c # s) = Inr (t, r)"
  | (word) "word_start c" "lex_word (c # s) = Inr (t, r)"
  | (symb) "lex_symbol (c # s) = Inr (t, r)"
proof -
  note a = assms [unfolded lex_one_def]
  consider "c = CHR 0x27" | "c = CHR 0x22" | "c = CHR ''?''" | "c = CHR ''$''"
    | "c \<noteq> CHR 0x27 \<and> c \<noteq> CHR 0x22 \<and> c \<noteq> CHR ''?'' \<and> c \<noteq> CHR ''$''" by blast
  then show thesis
  proof cases
    case 1
    then have "res_bind (scan_literal s) (\<lambda>(a, r). Inr (Literal (c # a), r)) = Inr (t, r)"
      using a by simp
    then show thesis using lit 1 by (auto simp: res_bind_Inr)
  next
    case 5
    with a show thesis using num word symb by (simp split: if_splits)
  qed (use a quo mark par in simp_all)
qed

lemma lex_number_shorter:
  assumes "lex_number s = Inr (t, r)"
  shows "length r \<le> length (dropWhile is_ascii_digit s)"
proof (cases "dropWhile is_ascii_digit s")
  case (Cons p w)
  show ?thesis
    using assms length_dropWhile_le [of is_ascii_digit w]
    unfolding lex_number_def Let_def Cons by (auto split: list.splits if_splits)
next
  case Nil
  show ?thesis using assms unfolding lex_number_def Let_def Nil by (auto split: if_splits)
qed

lemma lex_one_shorter: "lex_one c s = Inr (t, r) \<Longrightarrow> length r \<le> length s"
proof -
  assume a: "lex_one c s = Inr (t, r)"
  have dw: "length (dropWhile P xs) \<le> length xs" for P and xs :: str
    by (rule length_dropWhile_le)
  have q: "lex_quoted s = Inr (t, r) \<Longrightarrow> length r \<le> length s"
    by (auto simp: lex_quoted_def split: option.splits if_splits dest: split_once_Some)
  have n: "is_ascii_digit c \<Longrightarrow> lex_number (c # s) = Inr (t, r) \<Longrightarrow> length r \<le> length s"
    using lex_number_shorter [of "c # s" t r] dw [of is_ascii_digit s] by auto
  have w: "word_start c \<Longrightarrow> lex_word (c # s) = Inr (t, r) \<Longrightarrow> length r \<le> length s"
    using dw [of word_byte s]
    by (auto simp: lex_word_def word_start_def word_byte_def is_ascii_alphanumeric_def split: if_splits)
  have y: "lex_symbol (c # s) = Inr (t, r) \<Longrightarrow> length r \<le> length s"
  proof -
    assume "lex_symbol (c # s) = Inr (t, r)"
    then obtain symb where "find (\<lambda>symb. prefix symb (c # s)) SYMBOLS = Some symb"
      and r: "r = drop (length symb) (c # s)"
      by (auto simp: lex_symbol_def split: option.splits)
    then have "symb \<in> set SYMBOLS" by (auto simp: find_Some_iff)
    then have "symb \<noteq> []" by (auto simp: SYMBOLS_def)
    then show ?thesis using r by (cases symb) simp_all
  qed
  have p: "lex_param s = Inr (t, r) \<Longrightarrow> length r \<le> length s"
    using dw [of is_ascii_digit s] by (auto simp: lex_param_def Let_def split: if_splits)
  from a show ?thesis
    by (cases rule: lex_one_cases) (use q n w y p in \<open>auto dest: scan_literal_length\<close>)
qed

function lex_loop :: "str \<Rightarrow> token list \<Rightarrow> sql_rejection + token list" where
  "lex_loop [] acc = Inr (rev acc)"
| "lex_loop (c # s) acc =
     (if sql_space c then lex_loop s acc
      else (case lex_one c s of
              Inl e \<Rightarrow> Inl e
            | Inr (t, r) \<Rightarrow>
                if length (t # acc) > MAX_SQL_TOKENS then Inl TooLarge
                else lex_loop r (t # acc)))"
  by pat_completeness auto
termination
  by (relation "measure (\<lambda>(s, acc). length s)") (auto dest: sym lex_one_shorter simp: less_Suc_eq_le)

declare lex_loop.simps [simp del]

definition sql_tokenize :: "str \<Rightarrow> sql_rejection + token list" where
  "sql_tokenize sql = (if CHR 0x5C \<in> set sql then Inl UnsupportedCharacter else lex_loop sql [])"

section \<open>The checks\<close>

definition forbidden :: "str \<Rightarrow> sql_rejection option" where
  "forbidden word =
     map_option snd (find (\<lambda>(words, _). word \<in> set words)
       [(EXTERNAL, ExternalReference), (WRITE, WriteOrDdl), (SESSION, SessionMutation),
        (PROCEDURE, ProcedureCall), (COMPOUND, Compound)])"

fun first_forbidden :: "token list \<Rightarrow> sql_rejection option" where
  "first_forbidden [] = None"
| "first_forbidden (Word w # ts) =
     (case forbidden w of None \<Rightarrow> first_forbidden ts | Some r \<Rightarrow> Some r)"
| "first_forbidden (_ # ts) = first_forbidden ts"

text \<open>May \<open>(\<close> follow the token \<open>t\<close>, itself after \<open>prev\<close>?\<close>

definition paren_permitted :: "token option \<Rightarrow> token \<Rightarrow> bool" where
  "paren_permitted prev t =
     (case t of
        Word w \<Rightarrow> if w \<in> set ALLOWED_FUNCTIONS then prev \<noteq> Some (Symbol ''.'')
                 else w \<in> set EXPRESSION_OPENERS
      | Symbol s \<Rightarrow> s \<in> set OPERATORS
      | _ \<Rightarrow> False)"

text \<open>The loop over \<open>windows(2)\<close>: \<open>prev\<close> is the token before the pair.\<close>

fun check_parens :: "token option \<Rightarrow> token list \<Rightarrow> sql_rejection option" where
  "check_parens prev (t # u # ts) =
     (if u \<noteq> Symbol ''('' then
        (if is_word t ''in'' then Some Malformed else check_parens (Some t) (u # ts))
      else if \<not> paren_permitted prev t then Some UnsafeFunction
      else check_parens (Some t) (u # ts))"
| "check_parens prev _ = None"

text \<open>\<open>chain(tokens, start)\<close>: the parts of a dotted name and what follows it.\<close>

definition chain_part :: "bool \<Rightarrow> token \<Rightarrow> str option" where
  "chain_part first t =
     (case token_name t of
        Some n \<Rightarrow> Some n
      | None \<Rightarrow> if \<not> first \<and> t = Symbol ''*'' then Some ''*'' else None)"

fun chain_from :: "bool \<Rightarrow> token list \<Rightarrow> str list \<times> token list" where
  "chain_from first [] = ([], [])"
| "chain_from first (t # ts) =
     (case chain_part first t of
        None \<Rightarrow> ([], t # ts)
      | Some p \<Rightarrow>
          (case ts of
             u # us \<Rightarrow>
               if u = Symbol ''.'' then (let (ps, r) = chain_from False us in (p # ps, r))
               else ([p], ts)
           | [] \<Rightarrow> ([p], [])))"

definition chain :: "token list \<Rightarrow> str list \<times> token list" where
  "chain ts = chain_from True ts"

lemma chain_from_length: "length (snd (chain_from first ts)) \<le> length ts"
proof (induction first ts rule: chain_from.induct)
  case (2 first t ts)
  show ?case
  proof (cases "chain_part first t")
    case (Some p)
    then show ?thesis
      using 2 by (cases ts) (auto simp: Let_def le_SucI split: prod.split)
  qed simp
qed simp

definition starts_relation :: "nat \<Rightarrow> bool \<Rightarrow> token \<Rightarrow> bool" where
  "starts_relation depth in_from t \<longleftrightarrow> depth = 0 \<and>
     (is_word t ''from'' \<or> in_from \<and> (is_word t ''join'' \<or> t = Symbol '',''))"

text \<open>Parenthesis depth and the \<open>in_from\<close> flag at the top of an iteration.\<close>

definition scan_step :: "nat \<Rightarrow> bool \<Rightarrow> token \<Rightarrow> sql_rejection + nat \<times> bool" where
  "scan_step depth in_from t =
     (if t = Symbol ''('' then Inr (depth + 1, in_from)
      else if t = Symbol '')'' then
        (case checked_sub depth 1 of None \<Rightarrow> Inl Malformed | Some d \<Rightarrow> Inr (d, in_from))
      else if (\<exists>w \<in> set FROM_END. is_word t w) \<and> depth = 0 then Inr (depth, False)
      else Inr (depth, in_from))"

definition the_relation ::
  "relation_name list \<Rightarrow> str list \<Rightarrow> sql_rejection + relation_name" where
  "the_relation allowed parts =
     (case parts of
        [] \<Rightarrow> Inl Malformed
      | [_] \<Rightarrow> Inl UnqualifiedRelation
      | [schema, relation] \<Rightarrow>
          ok_or RelationNotAllowed
            (case relation_parse (schema @ ''.'' @ relation) of
               None \<Rightarrow> None
             | Some r \<Rightarrow> if r \<in> set allowed then Some r else None)
      | _ \<Rightarrow> Inl ExternalReference)"

text \<open>After a relation: an alias, with or without \<open>AS\<close>.\<close>

definition skip_alias :: "token list \<Rightarrow> sql_rejection + token list" where
  "skip_alias ts =
     (case ts of
        [] \<Rightarrow> Inr ts
      | t # us \<Rightarrow>
          if is_word t ''as'' then
            (case us of
               u # vs \<Rightarrow> if token_name u = None then Inl Malformed else Inr vs
             | [] \<Rightarrow> Inl Malformed)
          else if token_name t \<noteq> None then Inr us
          else Inr ts)"

text \<open>Only a comma, a join, \<open>ON\<close> or a clause keyword may follow.\<close>

definition follower_ok :: "token list \<Rightarrow> bool" where
  "follower_ok ts =
     (case ts of
        [] \<Rightarrow> True
      | t # _ \<Rightarrow> t = Symbol '','' \<or> (\<exists>w \<in> set RELATION_FOLLOWERS. is_word t w))"

lemma skip_alias_length: "skip_alias ts = Inr us \<Longrightarrow> length us \<le> length ts"
  by (auto simp: skip_alias_def split: list.splits if_splits)

function relations_loop ::
  "relation_name list \<Rightarrow> token list \<Rightarrow> nat \<Rightarrow> bool \<Rightarrow> relation_name list
    \<Rightarrow> sql_rejection + relation_name list" where
  "relations_loop allowed [] depth in_from found =
     (if depth \<noteq> 0 then Inl Malformed else Inr (btree_set found))"
| "relations_loop allowed (t # ts) depth in_from found =
     (case scan_step depth in_from t of
        Inl e \<Rightarrow> Inl e
      | Inr (d, f) \<Rightarrow>
          if \<not> starts_relation d f t then
            (let (parts, rest) = chain (t # ts) in
             if length parts > 3 then Inl ExternalReference
             else relations_loop allowed (if length rest \<le> length ts then rest else ts) d f found)
          else
            (case chain ts of
               (parts, next) \<Rightarrow>
                 (case the_relation allowed parts of
                    Inl e \<Rightarrow> Inl e
                  | Inr r \<Rightarrow>
                      (case skip_alias next of
                         Inl e \<Rightarrow> Inl e
                       | Inr next' \<Rightarrow>
                           if \<not> follower_ok next' then Inl Malformed
                           else relations_loop allowed next' d True (r # found)))))"
  by pat_completeness auto
termination
proof (relation "measure (\<lambda>(allowed, ts, d, f, found). length ts)", goal_cases)
  case (3 allowed t ts depth in_from found x a b parts rest r next')
  then have "length rest \<le> length ts"
    using chain_from_length [of True ts] unfolding chain_def by (metis snd_conv)
  with 3 show ?case using skip_alias_length [of rest next'] by auto
qed auto

declare relations_loop.simps [simp del]

definition relations :: "token list \<Rightarrow> relation_name list \<Rightarrow> sql_rejection + relation_name list" where
  "relations tokens allowed = relations_loop allowed tokens 0 False []"

definition has_order_by :: "token list \<Rightarrow> bool" where
  "has_order_by ts = list_ex (\<lambda>(a, b). is_word a ''order'' \<and> is_word b ''by'') (zip ts (tl ts))"

definition gate_as ::
  "str \<Rightarrow> relation_name list \<Rightarrow> query_derivation \<Rightarrow> sql_rejection + gated_query" where
  "gate_as sql allowed derivation =
     (if length sql > MAX_SQL_BYTES then Inl TooLarge
      else
        (case sql_tokenize sql of
           Inl e \<Rightarrow> Inl e
         | Inr tokens \<Rightarrow>
             if tokens = [] then Inl Empty
             else
               (case first_forbidden tokens of
                  Some r \<Rightarrow> Inl r
                | None \<Rightarrow>
                    if length (filter (\<lambda>t. is_word t ''select'') tokens) > 1 then Inl Compound
                    else if \<not> is_word (hd tokens) ''select'' then Inl NotSelect
                    else
                      (case check_parens None tokens of
                         Some r \<Rightarrow> Inl r
                       | None \<Rightarrow>
                           (case relations tokens allowed of
                              Inl e \<Rightarrow> Inl e
                            | Inr rs \<Rightarrow>
                                if \<not> has_order_by tokens then Inl Unordered
                                else
                                  (let text = join '' '' (map token_text tokens)
                                   in Inr \<lparr>gq_sql = text,
                                           gq_digest = id_display (id_sha256 text),
                                           gq_relations = rs,
                                           gq_derivation = derivation\<rparr>))))))"

definition gate :: "str \<Rightarrow> relation_name list \<Rightarrow> sql_rejection + gated_query" where
  "gate sql allowed = gate_as sql allowed Query"

definition quote_ident :: "str \<Rightarrow> str" where
  "quote_ident s = CHR 0x22 # s @ [CHR 0x22]"

definition projection_sql :: "relation_name \<Rightarrow> str list \<Rightarrow> str" where
  "projection_sql r columns =
     ''SELECT '' @ join '', '' (map quote_ident columns) @ '' FROM '' @ quote_ident (rn_schema r)
       @ ''.'' @ quote_ident (rn_relation r) @ '' ORDER BY ''
       @ join '', '' (map dec [1..<length columns + 1])"

definition project ::
  "relation_name \<Rightarrow> str list \<Rightarrow> relation_name list \<Rightarrow> sql_rejection + gated_query" where
  "project r columns allowed =
     (if columns = [] \<or> length columns > 256
         \<or> length (btree_set columns) \<noteq> length columns
         \<or> \<not> list_all valid_part columns
      then Inl InvalidProjection
      else gate_as (projection_sql r columns) allowed Projection)"

section \<open>Lexed tokens lex to themselves\<close>

definition no_backslash :: "str \<Rightarrow> bool" where
  "no_backslash s \<longleftrightarrow> CHR 0x5C \<notin> set s"

definition digits :: "str \<Rightarrow> bool" where
  "digits s \<longleftrightarrow> s \<noteq> [] \<and> list_all is_ascii_digit s"

text \<open>The tokens the lexer produces, by the shape of their text.\<close>

fun token_lexed :: "token \<Rightarrow> bool" where
  "token_lexed (Word w) \<longleftrightarrow> w \<noteq> [] \<and> word_start (hd w) \<and> list_all word_byte w
     \<and> to_ascii_lowercase w = w"
| "token_lexed (Quoted n) \<longleftrightarrow> n \<noteq> [] \<and> length n \<le> 63 \<and> list_all quoted_byte n
     \<and> CHR 0x22 \<notin> set n"
| "token_lexed (Literal l) \<longleftrightarrow>
     (\<exists>a. l = CHR 0x27 # a \<and> scan_literal a = Inr (a, [])) \<or> digits l
     \<or> (\<exists>ds fr. l = ds @ CHR ''.'' # fr \<and> digits ds \<and> digits fr)"
| "token_lexed (Param p) \<longleftrightarrow> p = ''?'' \<or> (\<exists>ds. p = CHR ''$'' # ds \<and> digits ds)"
| "token_lexed (Symbol s) \<longleftrightarrow> s \<in> set SYMBOLS"

lemmas byte_class_defs = is_ascii_graphic_def is_ascii_alphanumeric_def is_ascii_alphabetic_def
  is_ascii_lowercase_def is_ascii_uppercase_def is_ascii_digit_def word_start_def word_byte_def
  quoted_byte_def sql_space_def

lemma code_char [simp]: "code (Char b0 b1 b2 b3 b4 b5 b6 b7) = of_char (Char b0 b1 b2 b3 b4 b5 b6 b7)"
  by (simp add: code_def)

text \<open>A string literal is scanned the same way in front of anything but a quote.\<close>

lemma scan_literal_again:
  "scan_literal s = Inr (a, r) \<Longrightarrow> s' = [] \<or> hd s' \<noteq> CHR 0x27 \<Longrightarrow> scan_literal (a @ s') = Inr (a, s')"
proof (induction s arbitrary: a r rule: scan_literal.induct)
  case (2 c s)
  show ?case
  proof (cases "code c = 0 \<or> c \<noteq> CHR 0x27")
    case True
    then show ?thesis using 2 by (auto simp: res_simps split: if_splits)
  next
    case False
    then have c: "c = CHR 0x27" "code c \<noteq> 0" by auto
    show ?thesis
    proof (cases s)
      case Nil
      then show ?thesis using 2 c by (cases s') auto
    next
      case (Cons d t)
      show ?thesis
      proof (cases "d = CHR 0x27")
        case True
        then obtain a' where "scan_literal t = Inr (a', r)" "a = c # d # a'"
          using "2.prems"(1) c Cons by (auto simp: res_bind_Inr)
        moreover from this have "scan_literal (a' @ s') = Inr (a', s')"
          using "2.IH"(1) [OF c(2) c(1) Cons True] "2.prems"(2) by blast
        ultimately show ?thesis using c True by simp
      next
        case False
        then have "a = [c]" using "2.prems"(1) c Cons by simp
        then show ?thesis using "2.prems"(2) c by (cases s') auto
      qed
    qed
  qed
qed simp

lemma scan_literal_parts: "scan_literal s = Inr (a, r) \<Longrightarrow> s = a @ r"
  by (induction s arbitrary: a r rule: scan_literal.induct)
    (auto simp: res_simps split: if_splits list.splits)

lemma lower_byte_idem: "lower_byte (lower_byte c) = lower_byte c"
  by (auto simp: lower_byte_def is_ascii_uppercase_def code_char_of)

lemma lower_byte_class:
  "word_byte c \<Longrightarrow> word_byte (lower_byte c)" "word_start c \<Longrightarrow> word_start (lower_byte c)"
  by (auto simp: lower_byte_def byte_class_defs code_char_of)

lemma lower_backslash: "lower_byte c = CHR 0x5C \<longleftrightarrow> c = CHR 0x5C"
proof (cases "is_ascii_uppercase c")
  case True
  then have "code (lower_byte c) = code c + 32" "c \<noteq> CHR 0x5C"
    by (auto simp: lower_byte_def is_ascii_uppercase_def code_char_of)
  moreover have "code (CHR 0x5C) = 92" by simp
  ultimately show ?thesis using True unfolding is_ascii_uppercase_def by force
qed (simp add: lower_byte_def)

text \<open>What a token consumes spells its text, up to ASCII case.\<close>

lemma lex_one_text:
  assumes "lex_one c s = Inr (t, r)"
  shows "\<exists>x. c # s = x @ r \<and> map lower_byte (token_text t) = map lower_byte x"
proof -
  have Tnum: "lex_number u = Inr (t, r) \<Longrightarrow> u = token_text t @ r" for u
  proof -
    assume a: "lex_number u = Inr (t, r)"
    note split = takeWhile_dropWhile_id [of is_ascii_digit u]
    show "u = token_text t @ r"
    proof (cases "\<exists>d w. dropWhile is_ascii_digit u = CHR ''.'' # d # w \<and> is_ascii_digit d")
      case True
      then obtain d w where r: "dropWhile is_ascii_digit u = CHR ''.'' # d # w" and "is_ascii_digit d"
        by blast
      then show ?thesis
        using a split takeWhile_dropWhile_id [of is_ascii_digit w]
        unfolding lex_number_def Let_def r by (auto split: if_splits)
    next
      case False
      then show ?thesis
        using a split unfolding lex_number_def Let_def
        by (auto split: list.splits if_splits)
    qed
  qed
  have Tword: "lex_word u = Inr (t, r) \<Longrightarrow>
      u = takeWhile word_byte u @ r \<and> token_text t = map lower_byte (takeWhile word_byte u)" for u
    by (auto simp: lex_word_def to_ascii_lowercase_def)
  have Tsymb: "lex_symbol u = Inr (t, r) \<Longrightarrow> u = token_text t @ r" for u
    by (auto simp: lex_symbol_def find_Some_iff prefix_def split: option.splits)
  have Tquo: "lex_quoted s = Inr (t, r) \<Longrightarrow> CHR 0x22 # s = token_text t @ r"
    by (auto simp: lex_quoted_def split: option.splits if_splits dest!: split_once_Some)
  have Tpar: "lex_param s = Inr (t, r) \<Longrightarrow> CHR ''$'' # s = token_text t @ r"
    by (auto simp: lex_param_def Let_def split: if_splits)
  from assms show ?thesis
  proof (cases rule: lex_one_cases)
    case (lit a)
    then show ?thesis using scan_literal_parts [of s a r] by (intro exI [of _ "c # a"]) simp
  next
    case word
    then show ?thesis
      using Tword [of "c # s"] lower_byte_idem
      by (metis (no_types, lifting) comp_apply list.map_comp map_eq_conv)
  qed (use Tnum Tsymb Tquo Tpar in \<open>(intro exI [of _ "token_text t"], simp)+\<close>)
qed

lemma no_backslash_lower: "no_backslash s \<longleftrightarrow> CHR 0x5C \<notin> set (map lower_byte s)"
  unfolding no_backslash_def set_map by (metis imageE image_eqI lower_backslash)

lemma lex_one_no_backslash:
  assumes "lex_one c s = Inr (t, r)" "no_backslash (c # s)"
  shows "no_backslash (token_text t)" "no_backslash r"
proof -
  obtain x where x: "c # s = x @ r" "map lower_byte (token_text t) = map lower_byte x"
    using lex_one_text [OF assms(1)] by blast
  then show "no_backslash r" "no_backslash (token_text t)"
    using assms(2) by (simp_all add: no_backslash_lower)
qed

lemma takeWhile_all: "list_all P (takeWhile P xs)"
  by (induction xs) auto

lemma lex_word_lexed: "word_start c \<Longrightarrow> lex_word (c # s) = Inr (t, r) \<Longrightarrow> token_lexed t"
proof -
  assume a: "word_start c" "lex_word (c # s) = Inr (t, r)"
  then have c: "word_byte c" by (auto simp: word_start_def word_byte_def is_ascii_alphanumeric_def)
  have "list_all word_byte (map lower_byte (takeWhile word_byte s))"
    using takeWhile_all [of word_byte s] by (auto simp: list_all_iff lower_byte_class)
  then show ?thesis
    using a c lower_byte_class by (auto simp: lex_word_def to_ascii_lowercase_def lower_byte_idem)
qed

lemma lex_number_lexed: "is_ascii_digit c \<Longrightarrow> lex_number (c # s) = Inr (t, r) \<Longrightarrow> token_lexed t"
proof -
  assume c: "is_ascii_digit c" and a: "lex_number (c # s) = Inr (t, r)"
  let ?ds = "c # takeWhile is_ascii_digit s"
  have tw: "takeWhile is_ascii_digit (c # s) = ?ds"
    "dropWhile is_ascii_digit (c # s) = dropWhile is_ascii_digit s" using c by simp_all
  have ds: "digits ?ds" using c by (simp add: digits_def takeWhile_all)
  show ?thesis
  proof (cases "\<exists>d u. dropWhile is_ascii_digit s = CHR ''.'' # d # u \<and> is_ascii_digit d")
    case True
    then obtain d u where r: "dropWhile is_ascii_digit s = CHR ''.'' # d # u" and d: "is_ascii_digit d"
      by blast
    have "digits (takeWhile is_ascii_digit (d # u))" using d by (simp add: digits_def takeWhile_all)
    moreover have "t = Literal (?ds @ CHR ''.'' # takeWhile is_ascii_digit (d # u))"
      using a d unfolding lex_number_def Let_def tw r by (auto split: if_splits)
    ultimately show ?thesis using ds by auto
  next
    case False
    then have "t = Literal ?ds"
      using a unfolding lex_number_def Let_def tw by (auto split: list.splits if_splits)
    then show ?thesis using ds by simp
  qed
qed

lemma lex_one_lexed:
  assumes "lex_one c s = Inr (t, r)"
  shows "token_lexed t"
  using assms
proof (cases rule: lex_one_cases)
  case (lit a)
  then show ?thesis using scan_literal_again [of s a r "[]"] by auto
next
  case quo
  then obtain n where n: "split_once (CHR 0x22) s = Some (n, r)" "t = Quoted n" "n \<noteq> []"
    "length n \<le> 63" "list_all quoted_byte n"
    by (auto simp: lex_quoted_def split: option.splits if_splits)
  then show ?thesis using split_once_Some [OF n(1)] by simp
next
  case par
  then show ?thesis
    using takeWhile_all [of is_ascii_digit s]
    by (auto simp: lex_param_def Let_def digits_def split: if_splits)
next
  case symb
  then show ?thesis by (auto simp: lex_symbol_def find_Some_iff split: option.splits)
qed (auto dest: lex_number_lexed lex_word_lexed)

text \<open>A lexed token is found again in front of a space or the end.\<close>

definition delimited :: "str \<Rightarrow> bool" where
  "delimited s \<longleftrightarrow> s = [] \<or> hd s = CHR '' ''"

lemma delimited_class:
  assumes "delimited s" "s \<noteq> []"
  shows "\<not> word_byte (hd s)" "\<not> is_ascii_digit (hd s)" "\<not> word_start (hd s)" "hd s \<noteq> CHR ''.''"
    "hd s \<noteq> CHR 0x27" "sql_space (hd s)"
  using assms by (auto simp: delimited_def byte_class_defs)

lemma span_delimited:
  assumes "list_all P w" "s \<noteq> [] \<Longrightarrow> \<not> P (hd s)"
  shows "takeWhile P (w @ s) = w" "dropWhile P (w @ s) = s"
  using assms by (induction w) (cases s; simp)+

lemma lex_one_digit: "is_ascii_digit c \<Longrightarrow> lex_one c s = lex_number (c # s)"
proof -
  assume c: "is_ascii_digit c"
  then have "c \<noteq> CHR ''-''" "c \<noteq> CHR ''/''" "c \<noteq> CHR '';''" "c \<noteq> CHR ''@''" "c \<noteq> CHR 0x27"
    "c \<noteq> CHR 0x22" "c \<noteq> CHR ''?''" "c \<noteq> CHR ''$''"
    by (auto simp: is_ascii_digit_def)
  with c show ?thesis by (simp add: lex_one_def)
qed

lemma lex_one_word: "word_start c \<Longrightarrow> lex_one c s = lex_word (c # s)"
proof -
  assume c: "word_start c"
  then have "c \<noteq> CHR ''-''" "c \<noteq> CHR ''/''" "c \<noteq> CHR '';''" "c \<noteq> CHR ''@''" "c \<noteq> CHR 0x27"
    "c \<noteq> CHR 0x22" "c \<noteq> CHR ''?''" "c \<noteq> CHR ''$''"
    by (auto simp: byte_class_defs)
  moreover from c have "\<not> is_ascii_digit c" by (auto simp: byte_class_defs)
  ultimately show ?thesis using c by (simp add: lex_one_def)
qed

lemma digits_again:
  assumes "digits ds" "delimited s"
  shows "\<exists>c w. ds = c # w \<and> is_ascii_digit c \<and> lex_number (ds @ s) = Inr (Literal ds, s)"
proof -
  obtain c w where cw: "ds = c # w" "is_ascii_digit c" using assms(1) by (cases ds) (auto simp: digits_def)
  note sp = span_delimited [of is_ascii_digit ds s] delimited_class [OF assms(2)]
  have a: "takeWhile is_ascii_digit (ds @ s) = ds" "dropWhile is_ascii_digit (ds @ s) = s"
    using sp assms(1) by (auto simp: digits_def)
  have "lex_number (ds @ s) = Inr (Literal ds, s)"
    using sp unfolding lex_number_def Let_def a by (cases s) (auto split: list.split)
  then show ?thesis using cw by blast
qed

lemma fraction_again:
  assumes "digits ds" "digits fr" "delimited s"
  shows "lex_number (ds @ CHR ''.'' # fr @ s) = Inr (Literal (ds @ CHR ''.'' # fr), s)"
proof -
  have p: "\<not> is_ascii_digit (CHR ''.'')" by (simp add: is_ascii_digit_def)
  obtain d w where fr: "fr = d # w" "is_ascii_digit d" using assms(2) by (cases fr) (auto simp: digits_def)
  have a: "takeWhile is_ascii_digit (ds @ CHR ''.'' # fr @ s) = ds"
    "dropWhile is_ascii_digit (ds @ CHR ''.'' # fr @ s) = CHR ''.'' # fr @ s"
    using span_delimited [of is_ascii_digit ds "CHR ''.'' # fr @ s"] p assms(1) by (auto simp: digits_def)
  have b: "takeWhile is_ascii_digit (fr @ s) = fr" "dropWhile is_ascii_digit (fr @ s) = s"
    using span_delimited [of is_ascii_digit fr s] delimited_class [OF assms(3)] assms(2)
    by (auto simp: digits_def)
  show ?thesis
    using fr b delimited_class [OF assms(3)]
    unfolding lex_number_def Let_def a by (auto split: if_splits)
qed

lemma symbol_again:
  assumes "y \<in> set SYMBOLS" "delimited s"
  shows "\<exists>c w. y = c # w \<and> \<not> sql_space c \<and> lex_one c (w @ s) = Inr (Symbol y, s)"
proof -
  have one: "c \<noteq> CHR '';'' \<and> c \<noteq> CHR ''@'' \<and> c \<noteq> CHR 0x27 \<and> c \<noteq> CHR 0x22 \<and> c \<noteq> CHR ''?''
      \<and> c \<noteq> CHR ''$'' \<and> \<not> is_ascii_digit c \<and> \<not> word_start c \<Longrightarrow>
      \<not> (c = CHR ''-'' \<and> u \<noteq> [] \<and> hd u = CHR ''-'') \<and> \<not> (c = CHR ''/'' \<and> u \<noteq> [] \<and> hd u = CHR ''*'') \<Longrightarrow>
      find (\<lambda>symb. prefix symb (c # u)) SYMBOLS = Some y \<Longrightarrow> c # u = y @ s \<Longrightarrow>
      lex_one c u = Inr (Symbol y, s)" for c u
    by (simp add: lex_one_def lex_symbol_def)
  have "list_all (\<lambda>y. find (\<lambda>symb. prefix symb (y @ s)) SYMBOLS = Some y) SYMBOLS"
  proof (cases s)
    case Nil
    then show ?thesis by (simp add: SYMBOLS_def)
  next
    case (Cons d u)
    then have "s = CHR '' '' # u" using assms(2) by (simp add: delimited_def)
    then show ?thesis by (simp add: SYMBOLS_def)
  qed
  then have found: "find (\<lambda>symb. prefix symb (y @ s)) SYMBOLS = Some y"
    using assms(1) by (simp add: list_all_iff)
  have shape: "list_all (\<lambda>y. y \<noteq> [] \<and> \<not> sql_space (hd y) \<and> hd y \<noteq> CHR '';'' \<and> hd y \<noteq> CHR ''@''
      \<and> hd y \<noteq> CHR 0x27 \<and> hd y \<noteq> CHR 0x22 \<and> hd y \<noteq> CHR ''?'' \<and> hd y \<noteq> CHR ''$''
      \<and> \<not> is_ascii_digit (hd y) \<and> \<not> word_start (hd y)
      \<and> (hd y = CHR ''-'' \<or> hd y = CHR ''/'' \<longrightarrow> tl y = [])) SYMBOLS"
    by code_simp
  note at_y = bspec [OF shape [unfolded list_all_iff] assms(1)]
  then obtain c w where y: "y = c # w" by (meson list.exhaust)
  have c: "\<not> sql_space c" "c \<noteq> CHR '';'' \<and> c \<noteq> CHR ''@'' \<and> c \<noteq> CHR 0x27 \<and> c \<noteq> CHR 0x22 \<and> c \<noteq> CHR ''?''
      \<and> c \<noteq> CHR ''$'' \<and> \<not> is_ascii_digit c \<and> \<not> word_start c" "c = CHR ''-'' \<or> c = CHR ''/'' \<longrightarrow> w = []"
    using at_y unfolding y by simp_all
  have "\<not> (c = CHR ''-'' \<and> w @ s \<noteq> [] \<and> hd (w @ s) = CHR ''-'')
      \<and> \<not> (c = CHR ''/'' \<and> w @ s \<noteq> [] \<and> hd (w @ s) = CHR ''*'')"
    using c(3) assms(2) by (auto simp: delimited_def)
  then have "lex_one c (w @ s) = Inr (Symbol y, s)"
    using one [OF c(2)] found y by simp
  then show ?thesis using y c(1) by blast
qed

lemma token_again:
  assumes "token_lexed t" "delimited s"
  shows "\<exists>c w. token_text t = c # w \<and> \<not> sql_space c \<and> lex_one c (w @ s) = Inr (t, s)"
proof (cases t)
  case (Word w)
  then obtain c v where w: "w = c # v" "word_start c" using assms(1) by (cases w) auto
  have "\<not> sql_space c" using w(2) by (auto simp: byte_class_defs)
  moreover have "lex_word (w @ s) = Inr (t, s)"
    using span_delimited [of word_byte w s] delimited_class(1) [OF assms(2)] assms(1) Word
    by (auto simp: lex_word_def)
  ultimately show ?thesis using w Word by (simp add: lex_one_word)
next
  case (Quoted n)
  then have "lex_quoted (n @ CHR 0x22 # s) = Inr (t, s)"
    using assms(1) by (auto simp: lex_quoted_def split_once_intro)
  then show ?thesis using Quoted by (auto simp: lex_one_def byte_class_defs)
next
  case (Literal l)
  with assms(1) consider (str) a where "l = CHR 0x27 # a" "scan_literal a = Inr (a, [])"
    | (int) "digits l" | (frac) ds fr where "l = ds @ CHR ''.'' # fr" "digits ds" "digits fr" by auto
  then show ?thesis
  proof cases
    case str
    have "scan_literal (a @ s) = Inr (a, s)"
      using scan_literal_again [OF str(2)] delimited_class(5) [OF assms(2)] by blast
    then show ?thesis using str Literal by (auto simp: lex_one_def byte_class_defs)
  next
    case int
    then show ?thesis
      using digits_again [OF int assms(2)] Literal lex_one_digit
      by (auto simp: sql_space_def is_ascii_digit_def)
  next
    case frac
    obtain c w where c: "ds = c # w" "is_ascii_digit c" using frac(2) by (cases ds) (auto simp: digits_def)
    then have "\<not> sql_space c" by (auto simp: byte_class_defs)
    then show ?thesis
      using fraction_again [OF frac(2,3) assms(2)] c frac(1) Literal by (simp add: lex_one_digit)
  qed
next
  case (Param p)
  with assms(1) consider "p = ''?''" | ds where "p = CHR ''$'' # ds" "digits ds" by auto
  then show ?thesis
  proof cases
    case 2
    then have "lex_param (ds @ s) = Inr (t, s)"
      using span_delimited [of is_ascii_digit ds s] delimited_class(2) [OF assms(2)] Param
      by (auto simp: lex_param_def Let_def digits_def)
    then show ?thesis using 2 Param by (auto simp: lex_one_def byte_class_defs)
  qed (use Param in \<open>auto simp: lex_one_def byte_class_defs\<close>)
next
  case (Symbol y)
  then show ?thesis using assms symbol_again by simp
qed

section \<open>The normal form\<close>

lemma lex_loop_lexed:
  "lex_loop s acc = Inr ts \<Longrightarrow> no_backslash s \<Longrightarrow> length acc \<le> MAX_SQL_TOKENS \<Longrightarrow>
    \<exists>us. ts = rev acc @ us \<and> list_all token_lexed us
      \<and> list_all (\<lambda>t. no_backslash (token_text t)) us \<and> length ts \<le> MAX_SQL_TOKENS"
proof (induction s acc arbitrary: ts rule: lex_loop.induct)
  case (1 acc)
  then have "ts = rev acc" by (simp add: lex_loop.simps)
  with 1 show ?case by simp
next
  case (2 c s acc)
  show ?case
  proof (cases "sql_space c")
    case True
    then show ?thesis using 2 by (simp add: lex_loop.simps no_backslash_def)
  next
    case False
    then obtain t r where t: "lex_one c s = Inr (t, r)" "length (t # acc) \<le> MAX_SQL_TOKENS"
      "lex_loop r (t # acc) = Inr ts"
      using "2.prems"(1) by (auto simp: lex_loop.simps split: sum.splits if_splits)
    note nb = lex_one_no_backslash [OF t(1) "2.prems"(2)]
    have "\<not> length (t # acc) > MAX_SQL_TOKENS" using t(2) by simp
    from "2.IH"(2) [OF False t(1) refl this t(3) nb(2) t(2)] obtain us where
      "ts = rev (t # acc) @ us" "list_all token_lexed us"
      "list_all (\<lambda>t. no_backslash (token_text t)) us" "length ts \<le> MAX_SQL_TOKENS" by blast
    then show ?thesis using lex_one_lexed [OF t(1)] nb(1) by (intro exI [of _ "t # us"]) simp
  qed
qed

lemma lex_loop_again:
  "list_all token_lexed ts \<Longrightarrow> length acc + length ts \<le> MAX_SQL_TOKENS \<Longrightarrow>
    lex_loop (join '' '' (map token_text ts)) acc = Inr (rev acc @ ts)"
proof (induction ts arbitrary: acc)
  case Nil
  then show ?case by (simp add: lex_loop.simps)
next
  case (Cons t ts)
  define s where "s = (if ts = [] then [] else CHR '' '' # join '' '' (map token_text ts))"
  have joined: "join '' '' (map token_text (t # ts)) = token_text t @ s"
    by (cases ts) (simp_all add: s_def)
  have "delimited s" by (simp add: delimited_def s_def)
  then obtain c w where c: "token_text t = c # w" "\<not> sql_space c" "lex_one c (w @ s) = Inr (t, s)"
    using token_again Cons.prems(1) by (metis list.pred_inject(2))
  have "lex_loop (token_text t @ s) acc = lex_loop s (t # acc)"
    using c Cons.prems(2) by (simp add: lex_loop.simps)
  also have "\<dots> = lex_loop (join '' '' (map token_text ts)) (t # acc)"
    by (simp add: s_def lex_loop.simps sql_space_def)
  also have "\<dots> = Inr (rev (t # acc) @ ts)"
    using Cons by simp
  finally show ?case unfolding joined by simp
qed

lemma join_no_backslash:
  "list_all (\<lambda>t. no_backslash (token_text t)) ts \<Longrightarrow> no_backslash (join '' '' (map token_text ts))"
proof (induction ts)
  case (Cons t ts)
  then show ?case by (cases ts) (auto simp: no_backslash_def)
qed (simp add: no_backslash_def)

lemma tokenize_normal_form:
  assumes "sql_tokenize sql = Inr ts"
  shows "sql_tokenize (join '' '' (map token_text ts)) = Inr ts \<and> length ts \<le> MAX_SQL_TOKENS"
proof -
  have "no_backslash sql" "lex_loop sql [] = Inr ts"
    using assms by (auto simp: sql_tokenize_def no_backslash_def split: if_splits)
  then have l: "list_all token_lexed ts" "list_all (\<lambda>t. no_backslash (token_text t)) ts"
    "length ts \<le> MAX_SQL_TOKENS"
    using lex_loop_lexed [of sql "[]" ts] by (auto simp: MAX_SQL_TOKENS_def)
  then show ?thesis
    using lex_loop_again [of ts "[]"] join_no_backslash [OF l(2)]
    by (simp add: sql_tokenize_def no_backslash_def)
qed

lemma gate_as_Inr:
  assumes "gate_as sql allowed d = Inr q"
  obtains ts rs where "length sql \<le> MAX_SQL_BYTES" "sql_tokenize sql = Inr ts" "ts \<noteq> []"
    "first_forbidden ts = None" "length (filter (\<lambda>t. is_word t ''select'') ts) \<le> 1"
    "is_word (hd ts) ''select''" "check_parens None ts = None" "relations ts allowed = Inr rs"
    "has_order_by ts"
    "q = \<lparr>gq_sql = join '' '' (map token_text ts),
          gq_digest = id_display (id_sha256 (join '' '' (map token_text ts))),
          gq_relations = rs, gq_derivation = d\<rparr>"
  using assms unfolding gate_as_def Let_def
  by (auto split: if_splits sum.splits option.splits)

text \<open>A small accepted query, which the witnesses use.\<close>

definition sample_sql :: str where
  "sample_sql = ''Select a  FROM s.t AS x order by a''"

definition sample_tokens :: "token list" where
  "sample_tokens = map Word [''select'', ''a'', ''from'', ''s''] @ Symbol ''.''
     # map Word [''t'', ''as'', ''x'', ''order'', ''by'', ''a'']"

lemma sample_lexed: "sql_tokenize sample_sql = Inr sample_tokens"
  by code_simp

lemma sample_gated: "\<exists>q. gate_as sample_sql [RelationName ''s'' ''t''] Query = Inr q"
proof -
  have "length sample_sql \<le> MAX_SQL_BYTES" "sample_tokens \<noteq> []" by code_simp+
  moreover have "first_forbidden sample_tokens = None" by code_simp
  moreover have "length (filter (\<lambda>t. is_word t ''select'') sample_tokens) \<le> 1" by code_simp
  moreover have "is_word (hd sample_tokens) ''select''" by code_simp
  moreover have "check_parens None sample_tokens = None" by code_simp
  moreover have "relations sample_tokens [RelationName ''s'' ''t''] = Inr [RelationName ''s'' ''t'']" by code_simp
  moreover have "has_order_by sample_tokens" by code_simp
  ultimately show ?thesis
    using sample_lexed unfolding gate_as_def Let_def by (simp del: One_nat_def)
qed

text \<open>
  C31. The normalized SQL is a fixed point of the gate: when a text is accepted, its
  normalized form lexes to the very same tokens, and gating that form again (if its
  spaces keep it within the size limit) gives the same query, relations and digest. So
  the digest identifies the query independently of the spelling it came in.
\<close>

theorem gate_normal_form:
  assumes "gate_as sql allowed d = Inr q"
  shows "sql_tokenize (gq_sql q) = sql_tokenize sql
    \<and> gate_as (gq_sql q) allowed d =
        (if length (gq_sql q) \<le> MAX_SQL_BYTES then Inr q else Inl TooLarge)"
proof -
  from assms obtain ts rs where g: "length sql \<le> MAX_SQL_BYTES" "sql_tokenize sql = Inr ts" "ts \<noteq> []"
    "first_forbidden ts = None" "length (filter (\<lambda>t. is_word t ''select'') ts) \<le> 1"
    "is_word (hd ts) ''select''" "check_parens None ts = None" "relations ts allowed = Inr rs"
    "has_order_by ts"
    and q: "q = \<lparr>gq_sql = join '' '' (map token_text ts),
          gq_digest = id_display (id_sha256 (join '' '' (map token_text ts))),
          gq_relations = rs, gq_derivation = d\<rparr>"
    by (rule gate_as_Inr)
  have t: "sql_tokenize (gq_sql q) = Inr ts"
    using tokenize_normal_form [OF g(2)] q by simp
  then show ?thesis
    using g q by (simp add: gate_as_def Let_def)
qed


lemma gate_normal_form_witness:
  "\<exists>q. gate_as sample_sql [RelationName ''s'' ''t''] Query = Inr q
    \<and> sql_tokenize (gq_sql q) = Inr sample_tokens
    \<and> gate_as (gq_sql q) [RelationName ''s'' ''t''] Query
        = (if length (gq_sql q) \<le> MAX_SQL_BYTES then Inr q else Inl TooLarge)"
  using sample_gated gate_normal_form sample_lexed by metis

end
