(* ===== verification/Sql_Safety.thy ===== *)
theory Sql_Safety
  imports Sql_Gate
begin

text \<open>
  What a query accepted by \<open>database/sql.rs\<close> is guaranteed to satisfy: the relation scan,
  which skips whole name chains and aliases, sees every relation a plain scan of the tokens
  sees; each is an allowed two-part name; the text is one ordered \<open>SELECT\<close> without a word
  of the refused tables and with parentheses only where the gate permits them. The last
  section measures which column counts \<open>project\<close> can gate at all.
\<close>

section \<open>The relation scan misses no relation\<close>

text \<open>
  The specification looks at every token in turn, without skipping any: after each token
  that introduces a relation, the tokens that follow it.
\<close>

fun relation_reads :: "nat \<Rightarrow> bool \<Rightarrow> token list \<Rightarrow> token list list" where
  "relation_reads depth in_from [] = []"
| "relation_reads depth in_from (t # ts) =
     (case scan_step depth in_from t of
        Inl _ \<Rightarrow> []
      | Inr (d, f) \<Rightarrow>
          if starts_relation d f t then ts # relation_reads d True ts
          else relation_reads d f ts)"

text \<open>Tokens the scan may skip: they neither introduce a relation nor change its state.\<close>

definition inert :: "token \<Rightarrow> bool" where
  "inert t \<longleftrightarrow> (\<forall>d f. scan_step d f t = Inr (d, f) \<and> \<not> starts_relation d f t)"

lemma name_inert: "token_name t = Some n \<Longrightarrow> inert t"
  by (cases t)
    (auto simp: inert_def scan_step_def starts_relation_def is_word_def FROM_END_def GRAMMAR_def
      split: if_splits)

lemma symbol_inert: "y \<notin> {''('', '')'', '',''} \<Longrightarrow> inert (Symbol y)"
  by (auto simp: inert_def scan_step_def starts_relation_def is_word_def)

lemma as_inert: "inert (Word ''as'')"
  by (auto simp: inert_def scan_step_def starts_relation_def is_word_def FROM_END_def)

lemma chain_part_inert: "chain_part first t = Some p \<Longrightarrow> inert t"
  by (auto simp: chain_part_def intro: name_inert symbol_inert split: option.splits if_splits)

lemma chain_from_inert:
  "\<exists>us. ts = us @ snd (chain_from first ts) \<and> list_all inert us"
proof (induction first ts rule: chain_from.induct)
  case (2 first t ts)
  show ?case
  proof (cases "chain_part first t")
    case (Some p)
    note t = chain_part_inert [OF Some]
    have dot: "inert (Symbol ''.'')" by (rule symbol_inert) simp
    show ?thesis
    proof (cases ts)
      case (Cons u vs)
      show ?thesis
      proof (cases "u = Symbol ''.''")
        case True
        from "2.IH" [OF Some Cons True] obtain ws where
          "vs = ws @ snd (chain_from False vs)" "list_all inert ws" by blast
        then show ?thesis
          using t dot Some Cons True
          by (intro exI [of _ "t # u # ws"]) (cases "chain_from False vs", simp)
      qed (use t Some Cons in \<open>auto intro: exI [of _ "[t]"]\<close>)
    qed (use t Some in \<open>auto intro: exI [of _ "[t]"]\<close>)
  qed (auto intro: exI [of _ "[]"])
qed simp

lemma skip_alias_inert:
  assumes "skip_alias ts = Inr r"
  shows "\<exists>us. ts = us @ r \<and> list_all inert us"
proof (cases ts)
  case (Cons t vs)
  consider "is_word t ''as''" | "\<not> is_word t ''as''" "token_name t \<noteq> None"
    | "\<not> is_word t ''as''" "token_name t = None" by blast
  then show ?thesis
  proof cases
    case 1
    then obtain u where "vs = u # r" "token_name u \<noteq> None"
      using assms Cons by (auto simp: skip_alias_def split: list.splits if_splits)
    then show ?thesis
      using 1 Cons as_inert name_inert
      by (intro exI [of _ "[t, u]"]) (auto simp: is_word_def)
  next
    case 2
    then show ?thesis
      using assms Cons name_inert by (intro exI [of _ "[t]"]) (auto simp: skip_alias_def)
  next
    case 3
    then show ?thesis using assms Cons by (auto simp: skip_alias_def)
  qed
qed (use assms in \<open>auto simp: skip_alias_def\<close>)

lemma reads_inert:
  "list_all inert us \<Longrightarrow> relation_reads d f (us @ ts) = relation_reads d f ts"
  by (induction us) (auto simp: inert_def)

lemma relation_parse_parts:
  assumes "relation_parse (schema @ CHR ''.'' # relation) = Some r"
  shows "schema = rn_schema r \<and> relation = rn_relation r \<and> valid_part schema \<and> valid_part relation"
proof -
  obtain a b where ab: "split_once (CHR ''.'') (schema @ CHR ''.'' # relation) = Some (a, b)"
    "valid_part a" "valid_part b" "r = RelationName a b"
    using assms by (auto simp: relation_parse_def split: option.splits if_splits)
  have no: "CHR ''.'' \<notin> set w" if "valid_part w" for w
    using that by (auto simp: valid_part_def list_all_iff is_ascii_lowercase_def is_ascii_digit_def)
  from split_once_Some [OF ab(1)] have "schema @ CHR ''.'' # relation = a @ CHR ''.'' # b" by blast
  then have "schema = a \<and> relation = b"
    using no [OF ab(2)] no [OF ab(3)]
    by (auto simp: append_eq_append_conv2 Cons_eq_append_conv append_eq_Cons_conv)
  then show ?thesis using ab by simp
qed

text \<open>What one successful read of a relation means.\<close>

definition read_is :: "relation_name list \<Rightarrow> token list \<Rightarrow> relation_name \<Rightarrow> bool" where
  "read_is allowed ts r \<longleftrightarrow> fst (chain ts) = [rn_schema r, rn_relation r] \<and> r \<in> set allowed
     \<and> valid_part (rn_schema r) \<and> valid_part (rn_relation r)"

lemma the_relation_Inr: "the_relation allowed (fst (chain ts)) = Inr r \<Longrightarrow> read_is allowed ts r"
  by (auto simp: the_relation_def read_is_def ok_or_Inr split: list.splits option.splits if_splits
      dest: relation_parse_parts)

lemma relations_loop_reads:
  "relations_loop allowed ts d f found = Inr rs \<Longrightarrow>
    \<exists>xs. list_all2 (read_is allowed) (relation_reads d f ts) xs \<and> rs = btree_set (rev xs @ found)"
proof (induction allowed ts d f found arbitrary: rs rule: relations_loop.induct)
  case (1 allowed depth in_from found)
  then show ?case by (simp add: relations_loop.simps split: if_splits)
next
  case (2 allowed t ts depth in_from found)
  obtain d f where s: "scan_step depth in_from t = Inr (d, f)"
    using "2.prems" by (auto simp: relations_loop.simps split: sum.splits)
  show ?case
  proof (cases "starts_relation d f t")
    case False
    obtain parts rest where c: "chain (t # ts) = (parts, rest)" by (cases "chain (t # ts)")
    let ?next = "if length rest \<le> length ts then rest else ts"
    have p: "\<not> length parts > 3" "relations_loop allowed ?next d f found = Inr rs"
      using "2.prems" s False c by (auto simp: relations_loop.simps Let_def split: if_splits)
    have "relation_reads d f ?next = relation_reads d f ts"
    proof (cases "length rest \<le> length ts")
      case True
      obtain us where us: "t # ts = us @ rest" "list_all inert us"
        using chain_from_inert [of "t # ts" True] c by (auto simp: chain_def)
      then obtain vs where "us = t # vs" using True by (cases us) auto
      then show ?thesis using us True by (simp add: reads_inert)
    qed simp
    then show ?thesis
      using "2.IH"(1) [OF s refl False c [symmetric] refl p] s False by simp
  next
    case True
    obtain parts rest where c: "chain ts = (parts, rest)" by (cases "chain ts")
    obtain r nxt where r: "the_relation allowed parts = Inr r" "skip_alias rest = Inr nxt"
      "\<not> \<not> follower_ok nxt" "relations_loop allowed nxt d True (r # found) = Inr rs"
      using "2.prems" s True c
      by (auto simp: relations_loop.simps split: sum.splits if_splits)
    obtain us vs where "ts = us @ rest" "list_all inert us" "rest = vs @ nxt" "list_all inert vs"
      using chain_from_inert [of ts True] skip_alias_inert [OF r(2)] c by (auto simp: chain_def)
    then have "relation_reads d True ts = relation_reads d True nxt" by (simp add: reads_inert)
    moreover obtain xs where "list_all2 (read_is allowed) (relation_reads d True nxt) xs"
      "rs = btree_set (rev xs @ r # found)"
      using "2.IH"(2) [OF s refl not_not [THEN iffD2, OF True] c [symmetric] r(1) r(2) r(3) r(4)]
      by blast
    ultimately show ?thesis
      using s True the_relation_Inr r(1) c by (intro exI [of _ "r # xs"]) simp
  qed
qed


text \<open>
  C14. Every relation an accepted query reads is on the allowlist. After each token that
  introduces a relation in a plain left-to-right scan of its tokens (\<open>FROM\<close>, and inside
  the \<open>FROM\<close> list every comma and \<open>JOIN\<close>) stands exactly a two-part name of an allowed
  relation, and the reported relations are exactly these, sorted and without repeats:
  skipping name chains and aliases never hides a relation.
\<close>

theorem accepted_relations_complete:
  assumes "gate_as sql allowed d = Inr q" and "sql_tokenize sql = Inr ts"
  shows "\<exists>xs. list_all2 (read_is allowed) (relation_reads 0 False ts) xs
    \<and> set (gq_relations q) = set xs \<and> set xs \<subseteq> set allowed
    \<and> sorted (gq_relations q) \<and> distinct (gq_relations q)"
proof -
  obtain ts' rs where "sql_tokenize sql = Inr ts'" "relations ts' allowed = Inr rs"
    "gq_relations q = rs"
    using assms(1) by (rule gate_as_Inr) simp
  then have "relations_loop allowed ts 0 False [] = Inr (gq_relations q)"
    using assms(2) by (simp add: relations_def)
  then obtain xs where xs: "list_all2 (read_is allowed) (relation_reads 0 False ts) xs"
    "gq_relations q = btree_set (rev xs @ [])"
    by (blast dest: relations_loop_reads)
  moreover have "set xs \<subseteq> set allowed"
    using xs(1) by (auto simp: list_all2_conv_all_nth in_set_conv_nth read_is_def)
  ultimately show ?thesis by auto
qed

lemma accepted_relations_complete_witness:
  "\<exists>q xs. gate_as sample_sql [RelationName ''s'' ''t''] Query = Inr q
    \<and> list_all2 (read_is [RelationName ''s'' ''t'']) (relation_reads 0 False sample_tokens) xs
    \<and> set (gq_relations q) = set xs"
  using sample_gated accepted_relations_complete sample_lexed by blast

section \<open>What an accepted text looks like\<close>

lemma forbidden_None:
  "forbidden w = None \<longleftrightarrow> w \<notin> set EXTERNAL \<union> set WRITE \<union> set SESSION \<union> set PROCEDURE \<union> set COMPOUND"
  by (auto simp: forbidden_def find_None_iff)

lemma first_forbidden_None: "first_forbidden ts = None \<longleftrightarrow> (\<forall>w. Word w \<in> set ts \<longrightarrow> forbidden w = None)"
  by (induction ts rule: first_forbidden.induct) (auto split: option.splits)

definition before :: "token option \<Rightarrow> token list \<Rightarrow> nat \<Rightarrow> token option" where
  "before prev ts i = (if i = 0 then prev else Some (ts ! (i - 1)))"

lemma check_parens_None:
  assumes "check_parens prev ts = None" "Suc i < length ts"
  shows "(ts ! Suc i = Symbol ''('' \<longrightarrow> paren_permitted (before prev ts i) (ts ! i))
    \<and> (ts ! Suc i \<noteq> Symbol ''('' \<longrightarrow> \<not> is_word (ts ! i) ''in'')"
  using assms
proof (induction prev ts arbitrary: i rule: check_parens.induct)
  case (1 prev t u ts)
  show ?case
  proof (cases i)
    case 0
    then show ?thesis using 1 by (simp add: before_def split: if_splits)
  next
    case (Suc j)
    then have j: "Suc j < length (u # ts)" using "1.prems"(2) by simp
    have "((u # ts) ! Suc j = Symbol ''('' \<longrightarrow> paren_permitted (before (Some t) (u # ts) j) ((u # ts) ! j))
      \<and> ((u # ts) ! Suc j \<noteq> Symbol ''('' \<longrightarrow> \<not> is_word ((u # ts) ! j) ''in'')"
    proof (cases "u = Symbol ''(''")
      case True
      then have "\<not> \<not> paren_permitted prev t" "check_parens (Some t) (u # ts) = None"
        using "1.prems"(1) by (simp_all split: if_splits)
      with "1.IH"(2) True j show ?thesis by blast
    next
      case False
      then have "\<not> is_word t ''in''" "check_parens (Some t) (u # ts) = None"
        using "1.prems"(1) by (simp_all split: if_splits)
      with "1.IH"(1) False j show ?thesis by blast
    qed
    moreover have "before (Some t) (u # ts) j = before prev (t # u # ts) (Suc j)"
      by (cases j) (simp_all add: before_def)
    ultimately show ?thesis using Suc by simp
  qed
qed simp_all

lemma has_order_by_nth:
  "has_order_by ts \<longleftrightarrow> (\<exists>i. Suc i < length ts \<and> is_word (ts ! i) ''order'' \<and> is_word (ts ! Suc i) ''by'')"
proof -
  have "(a, b) \<in> set (zip ts (tl ts)) \<longleftrightarrow> (\<exists>i. Suc i < length ts \<and> a = ts ! i \<and> b = ts ! Suc i)" for a b
    by (force simp: in_set_zip nth_tl)
  then show ?thesis by (auto simp: has_order_by_def list_ex_iff)
qed

text \<open>
  C24. What every accepted query is: at most 1024 tokens, the first of them its only
  \<open>SELECT\<close>; no word of the external, write, session, procedure and compound tables
  anywhere; an open parenthesis only after an allowlisted unqualified function, an
  expression keyword or an operator, and always after \<open>IN\<close>; an \<open>ORDER BY\<close>; a digest that
  is the SHA-256 identifier of the normalized text.
\<close>

theorem accepted_query_shape:
  assumes "gate_as sql allowed d = Inr q"
  shows "\<exists>ts. sql_tokenize (gq_sql q) = Inr (Word ''select'' # ts)
    \<and> length ts < MAX_SQL_TOKENS \<and> Word ''select'' \<notin> set ts
    \<and> (\<forall>w. Word w \<in> set ts \<longrightarrow>
         w \<notin> set EXTERNAL \<union> set WRITE \<union> set SESSION \<union> set PROCEDURE \<union> set COMPOUND)
    \<and> (\<forall>i. Suc i < length ts \<longrightarrow>
         (if ts ! Suc i = Symbol ''(''
          then paren_permitted (Some ((Word ''select'' # ts) ! i)) (ts ! i)
          else ts ! i \<noteq> Word ''in''))
    \<and> (\<exists>i. Suc i < length ts \<and> ts ! i = Word ''order'' \<and> ts ! Suc i = Word ''by'')
    \<and> gq_digest q = id_display (id_sha256 (gq_sql q)) \<and> gq_derivation q = d"
proof -
  from assms obtain us rs where g: "sql_tokenize sql = Inr us" "us \<noteq> []"
    "first_forbidden us = None" "length (filter (\<lambda>t. is_word t ''select'') us) \<le> 1"
    "is_word (hd us) ''select''" "check_parens None us = None" "has_order_by us"
    and q: "q = \<lparr>gq_sql = join '' '' (map token_text us),
          gq_digest = id_display (id_sha256 (join '' '' (map token_text us))),
          gq_relations = rs, gq_derivation = d\<rparr>"
    by (rule gate_as_Inr)
  from g(2,5) obtain ts where us: "us = Word ''select'' # ts" by (cases us) (auto simp: is_word_def)
  have t: "sql_tokenize (gq_sql q) = Inr us" "length us \<le> MAX_SQL_TOKENS"
    using tokenize_normal_form [OF g(1)] q by simp_all
  have "Word ''select'' \<notin> set ts"
    using g(4) us by (auto simp: is_word_def filter_empty_conv)
  moreover have "\<forall>w. Word w \<in> set ts \<longrightarrow>
      w \<notin> set EXTERNAL \<union> set WRITE \<union> set SESSION \<union> set PROCEDURE \<union> set COMPOUND"
    using g(3) us unfolding first_forbidden_None forbidden_None by simp
  moreover have "\<forall>i. Suc i < length ts \<longrightarrow>
         (if ts ! Suc i = Symbol ''(''
          then paren_permitted (Some ((Word ''select'' # ts) ! i)) (ts ! i)
          else ts ! i \<noteq> Word ''in'')"
  proof (intro allI impI)
    fix i assume "Suc i < length ts"
    then show "if ts ! Suc i = Symbol ''(''
          then paren_permitted (Some ((Word ''select'' # ts) ! i)) (ts ! i)
          else ts ! i \<noteq> Word ''in''"
      using check_parens_None [OF g(6), of "Suc i"] us by (simp add: before_def is_word_def)
  qed
  moreover have "\<exists>i. Suc i < length ts \<and> ts ! i = Word ''order'' \<and> ts ! Suc i = Word ''by''"
  proof -
    obtain j where "Suc j < length us" "us ! j = Word ''order''" "us ! Suc j = Word ''by''"
      using g(7) by (auto simp: has_order_by_nth is_word_def)
    then show ?thesis using us by (cases j) auto
  qed
  ultimately show ?thesis using t us q by auto
qed


lemma accepted_query_shape_witness:
  "\<exists>q ts. gate_as sample_sql [RelationName ''s'' ''t''] Query = Inr q
    \<and> sql_tokenize (gq_sql q) = Inr (Word ''select'' # ts) \<and> Word ''select'' \<notin> set ts"
  using sample_gated accepted_query_shape by blast

section \<open>Which projections pass the gate\<close>

text \<open>\<open>s\<close> lexes to \<open>us\<close> in front of \<open>r\<close>, whatever came before, within the token limit.\<close>

definition lexes :: "str \<Rightarrow> token list \<Rightarrow> str \<Rightarrow> bool" where
  "lexes s us r \<longleftrightarrow> (\<forall>acc. length acc \<le> MAX_SQL_TOKENS \<longrightarrow>
     lex_loop (s @ r) acc =
       (if length acc + length us \<le> MAX_SQL_TOKENS then lex_loop r (rev us @ acc) else Inl TooLarge))"

lemma lexes_append:
  assumes "lexes s us (s' @ r)" "lexes s' us' r"
  shows "lexes (s @ s') (us @ us') r"
  using assms unfolding lexes_def by auto

lemma lexes_token:
  assumes "\<not> sql_space c" "lex_one c (w @ r) = Inr (t, r)"
  shows "lexes (c # w) [t] r"
  using assms by (auto simp: lexes_def lex_loop.simps)

lemma lexes_space: "sql_space c \<Longrightarrow> lexes s us r \<Longrightarrow> lexes (c # s) us r"
  by (simp add: lexes_def lex_loop.simps)

lemma space_space [simp]: "sql_space (CHR '' '')"
  by (simp add: sql_space_def)

lemma lexes_word:
  assumes "w \<noteq> []" "word_start (hd w)" "list_all word_byte w" "r \<noteq> [] \<Longrightarrow> \<not> word_byte (hd r)"
  shows "lexes w [Word (to_ascii_lowercase w)] r"
proof -
  obtain c v where w: "w = c # v" using assms(1) by (cases w) auto
  have "\<not> sql_space c" using assms(2) w by (auto simp: byte_class_defs)
  moreover have "lex_one c (v @ r) = Inr (Word (to_ascii_lowercase w), r)"
    using lex_one_word [of c "v @ r"] span_delimited [of word_byte w r] assms w
    by (simp add: lex_word_def)
  ultimately show ?thesis using lexes_token w by blast
qed

lemma valid_part_bytes:
  assumes "valid_part p"
  shows "p \<noteq> []" "length p \<le> 63" "list_all quoted_byte p" "CHR 0x22 \<notin> set p"
  using assms
  by (auto simp: valid_part_def list_all_iff quoted_byte_def is_ascii_graphic_def
      is_ascii_lowercase_def is_ascii_digit_def)

lemma lexes_ident:
  assumes "valid_part p"
  shows "lexes (quote_ident p) [Quoted p] r"
proof -
  have "lex_one (CHR 0x22) ((p @ [CHR 0x22]) @ r) = Inr (Quoted p, r)"
    using valid_part_bytes [OF assms]
    by (simp add: lex_one_def lex_quoted_def split_once_intro)
  then show ?thesis
    unfolding quote_ident_def by (intro lexes_token) (simp_all add: sql_space_def)
qed

lemma lexes_comma: "lexes '','' [Symbol '',''] r"
  by (rule lexes_token) (simp_all add: sql_space_def lex_one_def lex_symbol_def SYMBOLS_def byte_class_defs)

lemma lexes_dot: "lexes ''.'' [Symbol ''.''] r"
  by (rule lexes_token) (simp_all add: sql_space_def lex_one_def lex_symbol_def SYMBOLS_def byte_class_defs)

lemma dec_digits: "digits (dec n)"
proof (induction n rule: dec.induct)
  case (1 n)
  have d: "is_ascii_digit (char_of (48 + m))" if "m < 10" for m :: nat
    using that by (simp add: is_ascii_digit_def code_char_of)
  show ?case
    using 1 d [of n] d [of "n mod 10"] by (subst dec.simps) (simp add: digits_def)
qed

lemma lexes_dec:
  assumes "r = [] \<or> hd r = CHR '',''"
  shows "lexes (dec n) [Literal (dec n)] r"
proof -
  obtain c w where cw: "dec n = c # w" "is_ascii_digit c"
    using dec_digits [of n] by (cases "dec n") (auto simp: digits_def)
  have s: "\<not> is_ascii_digit (CHR '','')" "\<not> word_start (CHR '','')"
    by (simp_all add: byte_class_defs)
  have a: "takeWhile is_ascii_digit (dec n @ r) = dec n" "dropWhile is_ascii_digit (dec n @ r) = r"
    using span_delimited [of is_ascii_digit "dec n" r] dec_digits [of n] assms s
    by (auto simp: digits_def)
  have "lex_number (dec n @ r) = Inr (Literal (dec n), r)"
    using assms s unfolding lex_number_def Let_def a by (cases r) (auto split: list.split)
  then have "lex_one c (w @ r) = Inr (Literal (dec n), r)"
    using cw by (simp add: lex_one_digit)
  moreover have "\<not> sql_space c" using cw(2) by (auto simp: sql_space_def is_ascii_digit_def)
  ultimately show ?thesis using lexes_token cw(1) by metis
qed

fun between :: "'a \<Rightarrow> 'a list \<Rightarrow> 'a list" where
  "between s [] = []"
| "between s [x] = [x]"
| "between s (x # y # xs) = x # s # between s (y # xs)"

lemma between_length: "xs \<noteq> [] \<Longrightarrow> length (between s xs) = 2 * length xs - 1"
  by (induction s xs rule: between.induct) auto

lemma lexes_join:
  assumes "xs \<noteq> []"
    and "\<And>x r'. x \<in> set xs \<Longrightarrow> r' = r \<or> r' \<noteq> [] \<and> hd r' = CHR '','' \<Longrightarrow> lexes (f x) [t x] r'"
  shows "lexes (join '', '' (map f xs)) (between (Symbol '','') (map t xs)) r"
  using assms
proof (induction xs)
  case (Cons x xs)
  show ?case
  proof (cases xs)
    case Nil
    then show ?thesis using Cons.prems(2) [of x r] by simp
  next
    case (Cons y ys)
    let ?j = "join '', '' (map f xs)" and ?b = "between (Symbol '','') (map t xs)"
    have "lexes ?j ?b r" using Cons.IH Cons.prems(2) Cons by simp
    then have "lexes (CHR '' '' # ?j) ?b r" by (simp add: lexes_space)
    then have "lexes ('','' @ CHR '' '' # ?j) ([Symbol '',''] @ ?b) r"
      by (rule lexes_append [OF lexes_comma])
    then have "lexes (f x @ '','' @ CHR '' '' # ?j) ([t x] @ [Symbol '',''] @ ?b) r"
      by (rule lexes_append [rotated]) (rule Cons.prems(2), simp_all)
    then show ?thesis using Cons by simp
  qed
qed simp

definition projection_tokens :: "relation_name \<Rightarrow> str list \<Rightarrow> token list" where
  "projection_tokens r columns =
     [Word ''select''] @ between (Symbol '','') (map Quoted columns)
       @ [Word ''from'', Quoted (rn_schema r), Symbol ''.'', Quoted (rn_relation r), Word ''order'',
          Word ''by'']
       @ between (Symbol '','') (map (\<lambda>n. Literal (dec n)) [1..<length columns + 1])"

lemma projection_tokens_length:
  assumes "columns \<noteq> []"
  shows "length (projection_tokens r columns) = 4 * length columns + 5"
proof -
  have "[1..<length columns + 1] \<noteq> []" using assms by (cases columns) auto
  then show ?thesis
    using assms unfolding projection_tokens_def
    by (cases columns) (simp_all add: between_length del: upt_Suc)
qed

lemma lexes_step:
  assumes "lexes s' us' r" "lexes s us (CHR '' '' # s' @ r)"
  shows "lexes (s @ CHR '' '' # s') (us @ us') r"
  using lexes_append [of s us "CHR '' '' # s'" r us'] assms lexes_space by simp

lemma lexes_projection:
  assumes "columns \<noteq> []" "list_all valid_part columns" "valid_part (rn_schema r)" "valid_part (rn_relation r)"
  shows "lexes (projection_sql r columns) (projection_tokens r columns) []"
proof -
  have w: "lexes w [Word (to_ascii_lowercase w)] (CHR '' '' # s @ [])"
    if "w \<in> {''SELECT'', ''FROM'', ''ORDER'', ''BY''}" for w s
    using that by (intro lexes_word) (auto simp: byte_class_defs)
  have "[1..<length columns + 1] \<noteq> []" using assms(1) by (cases columns) auto
  then have "lexes (join '', '' (map dec [1..<length columns + 1]))
      (between (Symbol '','') (map (\<lambda>n. Literal (dec n)) [1..<length columns + 1])) []"
    by (intro lexes_join) (auto intro: lexes_dec)
  note lexes_step [OF this w [of "''BY''"]]
  note lexes_step [OF this w [of "''ORDER''"]]
  note lexes_step [OF this lexes_ident [OF assms(4)]]
  note lexes_append [OF lexes_dot this]
  note lexes_append [OF lexes_ident [OF assms(3)] this]
  note lexes_step [OF this w [of "''FROM''"]]
  note from_on = this
  have "lexes (join '', '' (map quote_ident columns)) (between (Symbol '','') (map Quoted columns)) s" for s
    using assms(2) by (intro lexes_join [OF assms(1)] lexes_ident) (simp add: list_all_iff)
  note lexes_step [OF from_on this]
  note lexes_step [OF this w [of "''SELECT''"]]
  moreover have "to_ascii_lowercase ''SELECT'' = ''select''" "to_ascii_lowercase ''FROM'' = ''from''"
    "to_ascii_lowercase ''ORDER'' = ''order''" "to_ascii_lowercase ''BY'' = ''by''" by code_simp+
  ultimately show ?thesis
    by (simp add: projection_sql_def projection_tokens_def del: upt_Suc)
qed


lemma tokenize_projection:
  assumes "columns \<noteq> []" "list_all valid_part columns" "valid_part (rn_schema r)" "valid_part (rn_relation r)"
  shows "sql_tokenize (projection_sql r columns) =
    (if length columns \<le> 254 then Inr (projection_tokens r columns) else Inl TooLarge)"
proof -
  have plain: "CHR 0x5C \<notin> set p" if "valid_part p" for p
    using that by (auto simp: valid_part_def list_all_iff is_ascii_lowercase_def is_ascii_digit_def)
  have digit: "CHR 0x5C \<notin> set (dec n)" for n
    using dec_digits [of n] by (auto simp: digits_def list_all_iff is_ascii_digit_def)
  have join: "CHR 0x5C \<notin> set (join '', '' xs)" if "\<forall>x \<in> set xs. CHR 0x5C \<notin> set x" for xs
    using that by (induction "'', ''" xs rule: join.induct) auto
  have "CHR 0x5C \<notin> set (projection_sql r columns)"
    using assms plain digit
    by (auto simp: projection_sql_def quote_ident_def list_all_iff dest!: join [THEN notE, rotated])
  moreover have "MAX_SQL_TOKENS = 1024" by (simp add: MAX_SQL_TOKENS_def)
  ultimately show ?thesis
    using lexes_projection [OF assms] projection_tokens_length [OF assms(1), of r]
    by (auto simp: sql_tokenize_def lexes_def lex_loop.simps)
qed

lemma between_set: "set (between s xs) \<subseteq> insert s (set xs)"
  by (induction s xs rule: between.induct) auto

text \<open>Tokens outside every \<open>FROM\<close> list over which the scan steps one by one.\<close>

definition quiet :: "token \<Rightarrow> bool" where
  "quiet t \<longleftrightarrow> scan_step 0 False t = Inr (0, False) \<and> \<not> starts_relation 0 False t
     \<and> chain_part True t = None"

lemma loop_quiet:
  "list_all quiet us \<Longrightarrow>
    relations_loop allowed (us @ ts) 0 False found = relations_loop allowed ts 0 False found"
  by (induction us) (auto simp: quiet_def chain_def relations_loop.simps)

lemma quiet_tokens:
  "quiet (Symbol '','')" "quiet (Literal l)" "quiet (Word ''select'')" "quiet (Word ''by'')"
  by (auto simp: quiet_def starts_relation_def scan_step_def is_word_def chain_part_def FROM_END_def
      GRAMMAR_def)

lemma loop_column:
  assumes "u \<noteq> Symbol ''.''"
  shows "relations_loop allowed (Quoted x # u # ts) 0 False found
    = relations_loop allowed (u # ts) 0 False found"
proof -
  have "inert (Quoted x)" by (rule name_inert) simp
  then show ?thesis
    using assms by (simp add: relations_loop.simps(2) [of _ "Quoted x"] inert_def chain_def
        chain_part_def Let_def)
qed

lemma loop_columns:
  assumes "xs \<noteq> []" "t \<noteq> Symbol ''.''"
  shows "relations_loop allowed (between (Symbol '','') (map Quoted xs) @ t # ts) 0 False found
    = relations_loop allowed (t # ts) 0 False found"
  using assms(1)
proof (induction xs)
  case (Cons x xs)
  have "list_all quiet [Symbol '','']" by (simp add: quiet_tokens)
  note comma = loop_quiet [OF this, simplified]
  show ?case
    using Cons.IH assms(2) comma by (cases xs) (simp_all add: loop_column)
qed simp

lemma projection_relations:
  assumes "columns \<noteq> []" "valid_part (rn_schema r)" "valid_part (rn_relation r)" "r \<in> set allowed"
  shows "relations (projection_tokens r columns) allowed = Inr [r]"
proof -
  let ?n = "between (Symbol '','') (map (\<lambda>n. Literal (dec n)) [1..<length columns + 1])"
  have tail: "list_all quiet (Word ''by'' # ?n)"
    using between_set [of "Symbol '',''" "map (\<lambda>n. Literal (dec n)) [1..<length columns + 1]"]
    by (auto simp: list_all_iff quiet_tokens)
  have dot: "CHR ''.'' \<notin> set (rn_schema r)"
    using assms(2) by (auto simp: valid_part_def list_all_iff is_ascii_lowercase_def is_ascii_digit_def)
  have "relation_parse (rn_schema r @ CHR ''.'' # rn_relation r) = Some r"
    using assms(2,3) by (simp add: relation_parse_def split_once_intro [OF dot])
  then have read: "the_relation allowed [rn_schema r, rn_relation r] = Inr r"
    using assms(4) by (simp add: the_relation_def)
  have order: "relations_loop allowed (Word ''order'' # us) 0 f found
      = relations_loop allowed us 0 False found" for us f found
    by (simp add: relations_loop.simps scan_step_def starts_relation_def is_word_def FROM_END_def
        chain_def chain_part_def GRAMMAR_def)
  have from_on: "relations_loop allowed
      (Word ''from'' # Quoted (rn_schema r) # Symbol ''.'' # Quoted (rn_relation r) # Word ''order'' # us)
      0 False [] = relations_loop allowed (Word ''order'' # us) 0 True [r]" for us
    using read
    by (simp add: relations_loop.simps(2) [of _ "Word ''from''"] scan_step_def starts_relation_def
        is_word_def FROM_END_def chain_def chain_part_def skip_alias_def follower_ok_def
        RELATION_FOLLOWERS_def GRAMMAR_def)
  have "relations (projection_tokens r columns) allowed = relations_loop allowed (Word ''by'' # ?n) 0 False [r]"
    using loop_quiet [of "[Word ''select'']"] loop_columns [OF assms(1)]
    by (simp add: relations_def projection_tokens_def quiet_tokens from_on order)
  also have "\<dots> = Inr [r]"
    using loop_quiet [OF tail, of allowed "[]"] by (simp add: relations_loop.simps btree_set_def)
  finally show ?thesis .
qed

lemma check_parens_quiet:
  "\<forall>t \<in> set ts. t \<noteq> Symbol ''('' \<and> \<not> is_word t ''in'' \<Longrightarrow> check_parens prev ts = None"
  by (induction prev ts rule: check_parens.induct) auto

lemma has_order_by_append: "has_order_by (us @ Word ''order'' # Word ''by'' # ts)"
  unfolding has_order_by_nth
  by (intro exI [of _ "length us"]) (simp add: is_word_def nth_append)

lemma projection_token_set:
  "set (projection_tokens r columns) \<subseteq> {Word ''select'', Word ''from'', Word ''order'', Word ''by'',
     Symbol '','', Symbol ''.''} \<union> range Quoted \<union> range Literal"
  using between_set [of "Symbol '',''" "map Quoted columns"]
    between_set [of "Symbol '',''" "map (\<lambda>n. Literal (dec n)) [1..<length columns + 1]"]
  by (auto simp: projection_tokens_def)

lemma projection_one_select:
  "length (filter (\<lambda>t. is_word t ''select'') (projection_tokens r columns)) = 1"
proof -
  have none: "filter (\<lambda>t. is_word t ''select'') (between (Symbol '','') xs) = []"
    if "\<forall>x \<in> set xs. x \<noteq> Word ''select''" for xs
    using between_set [of "Symbol '',''" xs] that by (auto simp: is_word_def filter_empty_conv)
  have "filter (\<lambda>t. is_word t ''select'') (between (Symbol '','') (map Quoted columns)) = []"
    "filter (\<lambda>t. is_word t ''select'')
      (between (Symbol '','') (map (\<lambda>n. Literal (dec n)) [1..<length columns + 1])) = []"
    by (rule none; auto)+
  then show ?thesis by (simp add: projection_tokens_def is_word_def)
qed

lemma distinct_btree_set: "length (btree_set xs) = length xs \<longleftrightarrow> distinct xs"
  by (simp add: btree_set_def length_remdups_eq)

text \<open>
  C37. A projection of an allowed relation is always gated, and never rejected by the
  gate's own rules, when its columns are distinct identifiers, at most 254 of them and
  short enough for the size limit: its tokens, its one relation and its digest are the
  expected ones. With 255 or 256 columns, which the column check still lets through, the
  generated text has more than 1024 tokens and every such projection is \<open>TooLarge\<close>.
\<close>

theorem project_gates:
  assumes "valid_part (rn_schema r)" "valid_part (rn_relation r)" "r \<in> set allowed"
  shows "project r columns allowed =
    (if columns = [] \<or> 256 < length columns \<or> \<not> distinct columns \<or> \<not> list_all valid_part columns
     then Inl InvalidProjection
     else if MAX_SQL_BYTES < length (projection_sql r columns) \<or> 254 < length columns
     then Inl TooLarge
     else (let text = join '' '' (map token_text (projection_tokens r columns))
           in Inr \<lparr>gq_sql = text, gq_digest = id_display (id_sha256 text),
                   gq_relations = [r], gq_derivation = Projection\<rparr>))"
proof (cases "columns = [] \<or> 256 < length columns \<or> \<not> distinct columns \<or> \<not> list_all valid_part columns")
  case True
  then show ?thesis by (auto simp: project_def distinct_btree_set)
next
  case False
  let ?ts = "projection_tokens r columns"
  have c: "columns \<noteq> []" "list_all valid_part columns" using False by auto
  have tables: "forbidden ''select'' = None" "forbidden ''from'' = None" "forbidden ''order'' = None"
    "forbidden ''by'' = None" by code_simp+
  note ts = projection_token_set [of r columns]
  have "first_forbidden ?ts = None"
    unfolding first_forbidden_None using ts tables by auto
  moreover have "check_parens None ?ts = None"
    using ts by (intro check_parens_quiet) (auto simp: is_word_def)
  moreover have "hd ?ts = Word ''select''" "?ts \<noteq> []" by (simp_all add: projection_tokens_def)
  moreover have "has_order_by ?ts"
    using has_order_by_append [of "[Word ''select''] @ between (Symbol '','') (map Quoted columns)
       @ [Word ''from'', Quoted (rn_schema r), Symbol ''.'', Quoted (rn_relation r)]"]
    by (simp add: projection_tokens_def del: upt_Suc)
  ultimately have "gate_as (projection_sql r columns) allowed Projection =
    (if MAX_SQL_BYTES < length (projection_sql r columns) \<or> 254 < length columns
     then Inl TooLarge
     else (let text = join '' '' (map token_text ?ts)
           in Inr \<lparr>gq_sql = text, gq_digest = id_display (id_sha256 text),
                   gq_relations = [r], gq_derivation = Projection\<rparr>))"
    using tokenize_projection [OF c assms(1,2)] projection_relations [OF c(1) assms]
      projection_one_select [of r columns]
    by (simp add: gate_as_def Let_def is_word_def)
  then show ?thesis using False by (simp add: project_def distinct_btree_set)
qed

lemma project_gates_witness:
  "project (RelationName ''s'' ''t'') [''a'', ''b''] [RelationName ''s'' ''t''] =
     Inr \<lparr>gq_sql = ''select \"a\" , \"b\" from \"s\" . \"t\" order by 1 , 2'',
          gq_digest = id_display (id_sha256 ''select \"a\" , \"b\" from \"s\" . \"t\" order by 1 , 2''),
          gq_relations = [RelationName ''s'' ''t''], gq_derivation = Projection\<rparr>
   \<and> project (RelationName ''s'' ''t'')
       (map (\<lambda>(a, b). [a, b]) (List.product ''abcdefghijklmno'' ''abcdefghijklmnopq''))
       [RelationName ''s'' ''t''] = Inl TooLarge"
proof
  have v: "valid_part ''s''" "valid_part ''t''" by code_simp+
  have a: "\<not> ([''a'', ''b''] = [] \<or> 256 < length [''a'', ''b''] \<or> \<not> distinct [''a'', ''b'']
      \<or> \<not> list_all valid_part [''a'', ''b''])" by code_simp
  have b: "\<not> (MAX_SQL_BYTES < length (projection_sql (RelationName ''s'' ''t'') [''a'', ''b'']) \<or> 254 < length [''a'', ''b''])"
    by code_simp
  have t: "join '' '' (map token_text (projection_tokens (RelationName ''s'' ''t'') [''a'', ''b'']))
      = ''select \"a\" , \"b\" from \"s\" . \"t\" order by 1 , 2''" by code_simp
  show "project (RelationName ''s'' ''t'') [''a'', ''b''] [RelationName ''s'' ''t''] =
     Inr \<lparr>gq_sql = ''select \"a\" , \"b\" from \"s\" . \"t\" order by 1 , 2'',
          gq_digest = id_display (id_sha256 ''select \"a\" , \"b\" from \"s\" . \"t\" order by 1 , 2''),
          gq_relations = [RelationName ''s'' ''t''], gq_derivation = Projection\<rparr>"
    using project_gates [of "RelationName ''s'' ''t''" "[RelationName ''s'' ''t'']" "[''a'', ''b'']"] v a b t
    by (simp add: Let_def)
  have ab: "length ''abcdefghijklmno'' = 15 \<and> distinct ''abcdefghijklmno'' \<and> list_all is_ascii_lowercase ''abcdefghijklmno''"
    "length ''abcdefghijklmnopq'' = 17 \<and> distinct ''abcdefghijklmnopq'' \<and> list_all is_ascii_lowercase ''abcdefghijklmnopq''"
    by code_simp+
  have wide: "project (RelationName ''s'' ''t'') cs [RelationName ''s'' ''t''] = Inl TooLarge"
    if "cs = map (\<lambda>(a, b). [a, b]) (List.product xs ys)"
      "length xs = 15 \<and> distinct xs \<and> list_all is_ascii_lowercase xs"
      "length ys = 17 \<and> distinct ys \<and> list_all is_ascii_lowercase ys" for cs xs ys
  proof -
    have "length cs = 255" using that by (simp add: length_product)
    moreover have "distinct cs"
      using that unfolding that(1) distinct_map by (auto intro!: distinct_product inj_onI)
    moreover have "list_all valid_part cs"
      using that unfolding list_all_iff by (auto simp: valid_part_def list_all_iff)
    ultimately show ?thesis
      using project_gates [of "RelationName ''s'' ''t''" "[RelationName ''s'' ''t'']" cs] v by auto
  qed
  show "project (RelationName ''s'' ''t'')
       (map (\<lambda>(a, b). [a, b]) (List.product ''abcdefghijklmno'' ''abcdefghijklmnopq''))
       [RelationName ''s'' ''t''] = Inl TooLarge"
    by (rule wide [OF refl ab])
qed

end
