(* ===== verification/Yaml_Schema.thy ===== *)
theory Yaml_Schema
  imports Prelude
begin

text \<open>
  \<open>schema.rs\<close>: the normalized YAML value and its canonical JSON encoding, which bundle
  digests are computed from. A \<open>BTreeMap\<close> is the list of its entries in key order. The
  lemmas show that the encoding is prefix-free, so that two different values never share
  an encoding, and that it stays on one line of printable bytes.
\<close>

datatype yaml_value =
    YNull
  | YBool bool
  | YNumber str
  | YString str
  | YSequence "yaml_value list"
  | YMapping "(str \<times> yaml_value) list"

definition BUNDLE_SCHEMA_VERSION :: str where
  "BUNDLE_SCHEMA_VERSION = ''1''"

definition is_mapping :: "yaml_value \<Rightarrow> bool" where
  "is_mapping v = (case v of YMapping _ \<Rightarrow> True | _ \<Rightarrow> False)"

definition is_sequence :: "yaml_value \<Rightarrow> bool" where
  "is_sequence v = (case v of YSequence _ \<Rightarrow> True | _ \<Rightarrow> False)"

definition as_mapping :: "yaml_value \<Rightarrow> (str \<times> yaml_value) list option" where
  "as_mapping v = (case v of YMapping m \<Rightarrow> Some m | _ \<Rightarrow> None)"

definition as_sequence :: "yaml_value \<Rightarrow> yaml_value list option" where
  "as_sequence v = (case v of YSequence s \<Rightarrow> Some s | _ \<Rightarrow> None)"

definition is_ascii_control :: "char \<Rightarrow> bool" where
  "is_ascii_control c \<longleftrightarrow> code c < 32 \<or> code c = 127"

text \<open>The bytes of one character of a string; a byte above 127 belongs to a character
  that is pushed unchanged.\<close>

definition escape_char :: "char \<Rightarrow> str" where
  "escape_char c =
     (if c = CHR 0x22 then [CHR 0x5C, CHR 0x22]
      else if c = CHR 0x5C then [CHR 0x5C, CHR 0x5C]
      else if c = CHR 0x08 then CHR 0x5C # ''b''
      else if c = CHR 0x0C then CHR 0x5C # ''f''
      else if c = CHR 0x0A then CHR 0x5C # ''n''
      else if c = CHR 0x0D then CHR 0x5C # ''r''
      else if c = CHR 0x09 then CHR 0x5C # ''t''
      else if is_ascii_control c then CHR 0x5C # CHR ''u'' # hex_pad 4 (code c)
      else [c])"

definition write_escaped_string :: "str \<Rightarrow> str" where
  "write_escaped_string s = CHR 0x22 # concat (map escape_char s) @ [CHR 0x22]"

definition write_escaped_string_for_bundle :: "str \<Rightarrow> str" where
  "write_escaped_string_for_bundle s = CHR 0x22 # concat (map escape_char s) @ [CHR 0x22]"

definition yaml_tag :: "str \<Rightarrow> str" where
  "yaml_tag t = CHR 0x22 # t @ CHR 0x22 # '','' @ CHR 0x22 # ''__yaml_value__'' @ CHR 0x22 # '':''"

definition open_wrapper :: str where
  "open_wrapper = CHR ''{'' # CHR 0x22 # ''__yaml_type__'' @ CHR 0x22 # '':''"

fun write_canonical :: "yaml_value \<Rightarrow> str"
  and write_items :: "yaml_value list \<Rightarrow> str"
  and write_entries :: "(str \<times> yaml_value) list \<Rightarrow> str" where
  "write_canonical YNull = open_wrapper @ yaml_tag ''null'' @ ''null'' @ ''}''"
| "write_canonical (YBool True) = open_wrapper @ yaml_tag ''bool'' @ ''true'' @ ''}''"
| "write_canonical (YBool False) = open_wrapper @ yaml_tag ''bool'' @ ''false'' @ ''}''"
| "write_canonical (YNumber s) = open_wrapper @ yaml_tag ''number'' @ write_escaped_string s @ ''}''"
| "write_canonical (YString s) = open_wrapper @ yaml_tag ''string'' @ write_escaped_string s @ ''}''"
| "write_canonical (YSequence xs) =
     open_wrapper @ yaml_tag ''sequence'' @ ''['' @ write_items xs @ '']'' @ ''}''"
| "write_canonical (YMapping m) =
     open_wrapper @ yaml_tag ''mapping'' @ ''{'' @ write_entries m @ ''}'' @ ''}''"
| "write_items [] = []"
| "write_items (x # xs) = write_canonical x @ (if xs = [] then [] else '','' @ write_items xs)"
| "write_entries [] = []"
| "write_entries (e # es) =
     write_escaped_string (fst e) @ '':'' @ write_canonical (snd e)
       @ (if es = [] then [] else '','' @ write_entries es)"

section \<open>The encoding is prefix-free\<close>

text \<open>A decoder of one escaped byte, used only in the proofs.\<close>

definition hex_value :: "char \<Rightarrow> nat" where
  "hex_value c = (if is_ascii_digit c then code c - 48 else code c - 87)"

definition unescape :: "str \<Rightarrow> char \<times> str" where
  "unescape s =
     (if hd s \<noteq> CHR 0x5C then (hd s, tl s)
      else if s ! 1 = CHR ''b'' then (CHR 0x08, drop 2 s)
      else if s ! 1 = CHR ''f'' then (CHR 0x0C, drop 2 s)
      else if s ! 1 = CHR ''n'' then (CHR 0x0A, drop 2 s)
      else if s ! 1 = CHR ''r'' then (CHR 0x0D, drop 2 s)
      else if s ! 1 = CHR ''t'' then (CHR 0x09, drop 2 s)
      else if s ! 1 = CHR ''u'' then (char_of (16 * hex_value (s ! 4) + hex_value (s ! 5)), drop 6 s)
      else (s ! 1, drop 2 s))"

lemma hex_value_digit: "n < 16 \<Longrightarrow> hex_value (hex_digit n) = n"
  by (simp add: hex_value_def hex_digit_def is_ascii_digit_def code_char_of)

lemma unescape_escape: "unescape (escape_char c @ r) = (c, r)"
proof (cases "c \<in> {CHR 0x22, CHR 0x5C, CHR 0x08, CHR 0x0C, CHR 0x0A, CHR 0x0D, CHR 0x09}")
  case True
  then show ?thesis by (auto simp: unescape_def escape_char_def)
next
  case False
  show ?thesis
  proof (cases "is_ascii_control c")
    case True
    have "escape_char c = CHR 0x5C # CHR ''u'' # hex_pad 4 (code c)"
      using False True by (auto simp: escape_char_def)
    moreover have "hex_pad 4 n = [hex_digit (n div 16 div 16 div 16 mod 16), hex_digit (n div 16 div 16 mod 16),
        hex_digit (n div 16 mod 16), hex_digit (n mod 16)]" for n
    proof -
      have "hex_pad (Suc (Suc (Suc (Suc 0)))) n = hex_pad 4 n" by (simp only: numeral_eq_Suc pred_numeral_simps BitM.simps)
      then show ?thesis by (simp only: hex_pad.simps append.simps)
    qed
    moreover have "16 * (code c div 16 mod 16) + code c mod 16 = code c"
    proof -
      have "code c div 16 < 16" using code_less_256 [of c] by (intro less_mult_imp_div_less) simp
      then show ?thesis by simp
    qed
    ultimately show ?thesis
      by (simp add: unescape_def hex_value_digit)
  qed (use False in \<open>auto simp: unescape_def escape_char_def\<close>)
qed

lemma escape_not_quote: "escape_char c @ r \<noteq> CHR 0x22 # s"
  by (auto simp: escape_char_def)

lemma escape_string_prefix_free:
  "concat (map escape_char s) @ CHR 0x22 # r = concat (map escape_char t) @ CHR 0x22 # u \<Longrightarrow> s = t \<and> r = u"
proof (induction s arbitrary: t)
  case Nil
  then show ?case by (cases t) (auto simp: escape_not_quote [symmetric] dest: sym)
next
  case (Cons c s)
  then show ?case
  proof (cases t)
    case Nil
    then show ?thesis using Cons.prems by (simp add: escape_not_quote)
  next
    case (Cons d t')
    let ?x = "concat (map escape_char s) @ CHR 0x22 # r"
    let ?y = "concat (map escape_char t') @ CHR 0x22 # u"
    have "escape_char c @ ?x = escape_char d @ ?y" using Cons.prems Cons by simp
    then have "(c, ?x) = (d, ?y)" using unescape_escape by metis
    then show ?thesis using Cons.IH Cons by simp
  qed
qed

lemma escaped_prefix_free:
  "write_escaped_string s @ r = write_escaped_string t @ u \<longleftrightarrow> s = t \<and> r = u"
  using escape_string_prefix_free [of s r t u] by (auto simp: write_escaped_string_def)

lemma bundle_escape_same: "write_escaped_string_for_bundle s = write_escaped_string s"
  by (simp add: write_escaped_string_for_bundle_def write_escaped_string_def)

text \<open>The encoding of a value is its tag and its payload in the wrapper.\<close>

fun yaml_kind :: "yaml_value \<Rightarrow> str" where
  "yaml_kind YNull = ''null''"
| "yaml_kind (YBool _) = ''bool''"
| "yaml_kind (YNumber _) = ''number''"
| "yaml_kind (YString _) = ''string''"
| "yaml_kind (YSequence _) = ''sequence''"
| "yaml_kind (YMapping _) = ''mapping''"

fun yaml_payload :: "yaml_value \<Rightarrow> str" where
  "yaml_payload YNull = ''null''"
| "yaml_payload (YBool b) = (if b then ''true'' else ''false'')"
| "yaml_payload (YNumber s) = write_escaped_string s"
| "yaml_payload (YString s) = write_escaped_string s"
| "yaml_payload (YSequence xs) = ''['' @ write_items xs @ '']''"
| "yaml_payload (YMapping m) = ''{'' @ write_entries m @ ''}''"

lemma write_canonical_wrapped:
  "write_canonical v = open_wrapper @ yaml_tag (yaml_kind v) @ yaml_payload v @ ''}''"
  by (cases v rule: yaml_kind.cases; simp; case_tac b; simp)

lemma until_quote:
  assumes "CHR 0x22 \<notin> set a" "CHR 0x22 \<notin> set b" "a @ CHR 0x22 # x = b @ CHR 0x22 # y"
  shows "a = b \<and> x = y"
  using assms
proof (induction a arbitrary: b)
  case Nil
  then show ?case by (cases b) auto
next
  case (Cons c a)
  then show ?case by (cases b) auto
qed

lemma kind_no_quote: "CHR 0x22 \<notin> set (yaml_kind v)"
  by (cases v) auto

lemma same_kind:
  assumes "write_canonical v @ r = write_canonical w @ s"
  shows "yaml_kind v = yaml_kind w \<and> yaml_payload v @ CHR ''}'' # r = yaml_payload w @ CHR ''}'' # s"
proof -
  have "yaml_kind v @ CHR 0x22 # '','' @ CHR 0x22 # ''__yaml_value__'' @ CHR 0x22 # '':'' @ yaml_payload v @ CHR ''}'' # r
    = yaml_kind w @ CHR 0x22 # '','' @ CHR 0x22 # ''__yaml_value__'' @ CHR 0x22 # '':'' @ yaml_payload w @ CHR ''}'' # s"
    using assms unfolding write_canonical_wrapped yaml_tag_def by simp
  from until_quote [OF kind_no_quote kind_no_quote this] show ?thesis by simp
qed

lemma canonical_starts: "\<exists>w. write_canonical v = CHR ''{'' # w"
  by (simp add: write_canonical_wrapped open_wrapper_def)

lemma canonical_starts_not: "c \<noteq> CHR ''{'' \<Longrightarrow> write_canonical v @ r \<noteq> c # s"
  using canonical_starts [of v] by auto

definition prefix_free_at :: "yaml_value \<Rightarrow> bool" where
  "prefix_free_at v \<longleftrightarrow> (\<forall>w r s. write_canonical v @ r = write_canonical w @ s \<longrightarrow> v = w \<and> r = s)"

lemma scalar_free:
  assumes "\<And>w r s. yaml_kind v = yaml_kind w \<Longrightarrow>
    yaml_payload v @ CHR ''}'' # r = yaml_payload w @ CHR ''}'' # s \<Longrightarrow> v = w \<and> r = s"
  shows "prefix_free_at v"
  unfolding prefix_free_at_def
proof (intro allI impI)
  fix w r s assume "write_canonical v @ r = write_canonical w @ s"
  from same_kind [OF this] show "v = w \<and> r = s" by (intro assms) simp_all
qed

lemma prefix_free_atD:
  "prefix_free_at v \<Longrightarrow> write_canonical v @ r = write_canonical w @ s \<Longrightarrow> v = w \<and> r = s"
  unfolding prefix_free_at_def by blast

lemma items_prefix_free:
  assumes "\<forall>x \<in> set xs. prefix_free_at x"
    and "write_items xs @ CHR '']'' # r = write_items ys @ CHR '']'' # s"
  shows "xs = ys \<and> r = s"
  using assms
proof (induction xs arbitrary: ys)
  case Nil
  then show ?case
    by (cases ys) (auto simp: canonical_starts_not canonical_starts_not [THEN not_sym])
next
  case (Cons x xs)
  show ?case
  proof (cases ys)
    case Nil
    then show ?thesis using Cons.prems by (auto simp: canonical_starts_not)
  next
    case ys: (Cons y ys')
    have e: "write_canonical x @ (if xs = [] then [] else '','' @ write_items xs) @ CHR '']'' # r
        = write_canonical y @ (if ys' = [] then [] else '','' @ write_items ys') @ CHR '']'' # s"
      using Cons.prems(2) ys by simp
    have "prefix_free_at x" using Cons.prems(1) by simp
    from prefix_free_atD [OF this e] have xy: "x = y" and rest: "(if xs = [] then [] else '','' @ write_items xs) @ CHR '']'' # r
        = (if ys' = [] then [] else '','' @ write_items ys') @ CHR '']'' # s" by blast+
    have "xs = ys' \<and> r = s"
    proof (cases "xs = [] \<or> ys' = []")
      case True
      then show ?thesis using rest by (auto split: if_splits)
    next
      case False
      then have "write_items xs @ CHR '']'' # r = write_items ys' @ CHR '']'' # s" using rest by simp
      then show ?thesis using Cons.IH Cons.prems(1) by simp
    qed
    then show ?thesis using xy ys by simp
  qed
qed

lemma entries_prefix_free:
  assumes "\<forall>e \<in> set es. prefix_free_at (snd e)"
    and "write_entries es @ CHR ''}'' # r = write_entries fs @ CHR ''}'' # s"
  shows "es = fs \<and> r = s"
  using assms
proof (induction es arbitrary: fs)
  case Nil
  then show ?case by (cases fs) (auto simp: write_escaped_string_def)
next
  case (Cons e es)
  show ?case
  proof (cases fs)
    case Nil
    then show ?thesis using Cons.prems by (auto simp: write_escaped_string_def)
  next
    case fs: (Cons f fs')
    have "write_escaped_string (fst e) @ '':'' @ write_canonical (snd e)
          @ (if es = [] then [] else '','' @ write_entries es) @ CHR ''}'' # r
        = write_escaped_string (fst f) @ '':'' @ write_canonical (snd f)
          @ (if fs' = [] then [] else '','' @ write_entries fs') @ CHR ''}'' # s"
      using Cons.prems(2) fs by simp
    then have k: "fst e = fst f" and e: "write_canonical (snd e)
          @ (if es = [] then [] else '','' @ write_entries es) @ CHR ''}'' # r
        = write_canonical (snd f) @ (if fs' = [] then [] else '','' @ write_entries fs') @ CHR ''}'' # s"
      unfolding escaped_prefix_free by simp_all
    have "prefix_free_at (snd e)" using Cons.prems(1) by simp
    from prefix_free_atD [OF this e] have v: "snd e = snd f" and rest: "(if es = [] then [] else '','' @ write_entries es) @ CHR ''}'' # r
        = (if fs' = [] then [] else '','' @ write_entries fs') @ CHR ''}'' # s" by blast+
    have "es = fs' \<and> r = s"
    proof (cases "es = [] \<or> fs' = []")
      case True
      then show ?thesis using rest by (auto split: if_splits)
    next
      case False
      then have "write_entries es @ CHR ''}'' # r = write_entries fs' @ CHR ''}'' # s" using rest by simp
      then show ?thesis using Cons.IH Cons.prems(1) by simp
    qed
    then show ?thesis using v k fs by (simp add: prod_eq_iff)
  qed
qed

lemma prefix_free: "prefix_free_at v"
proof (induction v)
  case (YSequence xs)
  show ?case
    unfolding prefix_free_at_def
  proof (intro allI impI)
    fix w r s assume "write_canonical (YSequence xs) @ r = write_canonical w @ s"
    note k = same_kind [OF this]
    then obtain ys where w: "w = YSequence ys" by (cases w) auto
    with k have "write_items xs @ CHR '']'' # CHR ''}'' # r = write_items ys @ CHR '']'' # CHR ''}'' # s"
      by simp
    from items_prefix_free [OF _ this] YSequence w show "YSequence xs = w \<and> r = s" by auto
  qed
next
  case (YMapping es)
  show ?case
    unfolding prefix_free_at_def
  proof (intro allI impI)
    fix w r s assume "write_canonical (YMapping es) @ r = write_canonical w @ s"
    note k = same_kind [OF this]
    then obtain fs where w: "w = YMapping fs" by (cases w) auto
    with k have "write_entries es @ CHR ''}'' # CHR ''}'' # r = write_entries fs @ CHR ''}'' # CHR ''}'' # s"
      by simp
    moreover have "\<forall>e \<in> set es. prefix_free_at (snd e)"
      using YMapping by (metis snds.intros prod.collapse)
    ultimately have "es = fs \<and> CHR ''}'' # r = CHR ''}'' # s" by (intro entries_prefix_free)
    then show "YMapping es = w \<and> r = s" using w by simp
  qed
qed (rule scalar_free; case_tac w; simp add: escaped_prefix_free split: if_splits)+

text \<open>
  The canonical encoding is collision-proof and self-delimiting: if the encoding of one
  value followed by any text equals the encoding of another followed by any text, the
  values are equal and so are the texts. In particular the encoding is injective, whatever
  keys a producer's mapping has (\<open>__yaml_type__\<close> included).
\<close>

theorem canonical_prefix_free:
  "write_canonical v @ r = write_canonical w @ s \<longleftrightarrow> v = w \<and> r = s"
  using prefix_free_atD [OF prefix_free] by blast

end
