(* ===== verification/Frontmatter.thy ===== *)
theory Frontmatter
  imports Yaml_Schema
begin

text \<open>
  \<open>frontmatter.rs\<close>: the parser of the YAML frontmatter subset. The fences, the line
  tokenizer with its inline values, and the two mutually recursive block builders, which
  walk an index over the tokens in the code and the remaining tokens here. Their recursion
  is bounded by the number of tokens left; \<open>None\<close> stands for running out of the bound,
  and \<open>parse_frontmatter_total\<close> shows that the bound the parser starts with always
  suffices. An error is its message.
\<close>

section \<open>Fences\<close>

function trim_bom :: "str \<Rightarrow> str" where
  "trim_bom s =
     (if prefix [CHR 0xEF, CHR 0xBB, CHR 0xBF] s then trim_bom (drop 3 s) else s)"
  by pat_completeness auto
termination
  by (relation "measure length") (auto simp: prefix_def)

declare trim_bom.simps [simp del]

definition strip_fences :: "str \<Rightarrow> str" where
  "strip_fences raw =
     (let trimmed = trim_bom raw in
      case (case strip_prefix (''---'' @ [CHR 0x0A]) trimmed of
              Some c \<Rightarrow> Some c
            | None \<Rightarrow> strip_prefix (''---'' @ [CHR 0x0D, CHR 0x0A]) trimmed) of
        None \<Rightarrow> trimmed
      | Some content \<Rightarrow>
          (let trimmed_end = trim_end content;
               final_line = last (split_on (CHR 0x0A) trimmed_end)
           in if trim final_line = ''---''
              then trim_end (take (length trimmed_end - length final_line) trimmed_end)
              else content))"

section \<open>Lines\<close>

datatype inline_value = Scalar str | FlowList "str list"

datatype fm_token =
    Key nat str "inline_value option"
  | SeqItem nat "str option" "inline_value option"

definition key_byte :: "char \<Rightarrow> bool" where
  "key_byte b \<longleftrightarrow> is_ascii_alphanumeric b \<or> b = CHR ''_'' \<or> b = CHR ''-'' \<or> b = CHR ''.''"

definition valid_key :: "str \<Rightarrow> bool" where
  "valid_key key \<longleftrightarrow> key \<noteq> [] \<and> list_all key_byte key"

text \<open>\<open>strip_prefix(q)\<close> then \<open>strip_suffix(q)\<close> of what is left.\<close>

definition unquote :: "char \<Rightarrow> str \<Rightarrow> str option" where
  "unquote q v = (case strip_prefix [q] v of None \<Rightarrow> None | Some i \<Rightarrow> strip_suffix [q] i)"

definition scalar :: "str \<Rightarrow> str + str" where
  "scalar value =
     (let v = trim value;
          u = trim (case unquote (CHR 0x22) v of
                      Some i \<Rightarrow> i
                    | None \<Rightarrow> (case unquote (CHR 0x27) v of Some i \<Rightarrow> i | None \<Rightarrow> v))
      in if u = [] then Inl ''empty YAML scalar'' else Inr u)"

definition strip_inline_comment :: "str \<Rightarrow> str option" where
  "strip_inline_comment value =
     (case find_str '' #'' value of
        None \<Rightarrow> Some value
      | Some i \<Rightarrow> (let h = trim_end (take i value) in if h = [] then None else Some h))"

definition starts_with_any :: "str \<Rightarrow> str \<Rightarrow> bool" where
  "starts_with_any cs s \<longleftrightarrow> s \<noteq> [] \<and> hd s \<in> set cs"

definition parse_inline :: "str \<Rightarrow> str + inline_value option" where
  "parse_inline rest0 =
     (let rest = trim rest0 in
      if rest = [] then Inr None
      else if starts_with_any ''{|>'' rest then Inl ''unsupported YAML scalar''
      else
        (let uncommented = trim (if starts_with_any [CHR 0x22, CHR 0x27] rest then rest
                                 else case strip_inline_comment rest of None \<Rightarrow> [] | Some h \<Rightarrow> h)
         in if uncommented = [] then Inl ''empty YAML scalar''
            else if hd uncommented = CHR ''['' then
              (if last uncommented \<noteq> CHR '']'' then Inl ''malformed YAML list''
               else res_bind
                 (res_map scalar (split_on (CHR '','') (take (length uncommented - 2) (drop 1 uncommented))))
                 (\<lambda>values. Inr (Some (FlowList values))))
            else res_bind (scalar uncommented) (\<lambda>v. Inr (Some (Scalar v)))))"

text \<open>The loop of \<open>split_sequence_value\<close>: the first colon after a valid key decides.\<close>

fun sequence_colon :: "str \<Rightarrow> str \<Rightarrow> nat option" where
  "sequence_colon head [] = None"
| "sequence_colon head (c # s) =
     (if c = CHR '':'' \<and> valid_key (trim head)
      then (if s = [] \<or> hd s = CHR '' '' then Some (length head) else None)
      else sequence_colon (head @ [c]) s)"

definition split_sequence_value :: "str \<Rightarrow> str + str option \<times> inline_value option" where
  "split_sequence_value rest =
     (case sequence_colon [] rest of
        Some colon \<Rightarrow>
          res_bind (parse_inline (drop (colon + 1) rest))
            (\<lambda>i. Inr (Some (trim (take colon rest)), i))
      | None \<Rightarrow> res_bind (scalar rest) (\<lambda>v. Inr (None, Some (Scalar v))))"

text \<open>One line: no token for a blank line or a comment.\<close>

definition line_token :: "str \<Rightarrow> str + fm_token option" where
  "line_token raw_line =
     (let line = trim_end raw_line; trimmed = trim_start line in
      if trimmed = [] \<or> hd trimmed = CHR ''#'' then Inr None
      else
        (let indent = length line - length trimmed in
         case strip_prefix ''- '' trimmed of
           Some rest \<Rightarrow>
             res_bind (split_sequence_value rest) (\<lambda>(key, inl). Inr (Some (SeqItem indent key inl)))
         | None \<Rightarrow>
             (case split_once (CHR '':'') trimmed of
                None \<Rightarrow> Inl ''not key/value YAML''
              | Some (k, rest) \<Rightarrow>
                  (let key = trim k in
                   if \<not> valid_key key then Inl ''unsupported YAML scalar''
                   else res_bind (parse_inline rest) (\<lambda>inl. Inr (Some (Key indent key inl)))))))"

fun fm_tokens :: "str list \<Rightarrow> str + fm_token list" where
  "fm_tokens [] = Inr []"
| "fm_tokens (l # ls) =
     res_bind (line_token l) (\<lambda>t. res_bind (fm_tokens ls)
       (\<lambda>ts. Inr (case t of None \<Rightarrow> ts | Some t \<Rightarrow> t # ts)))"

definition fm_tokenize :: "str \<Rightarrow> str + fm_token list" where
  "fm_tokenize raw = fm_tokens (str_lines raw)"

section \<open>Blocks\<close>

fun next_indent :: "fm_token \<Rightarrow> nat" where
  "next_indent (Key i _ _) = i"
| "next_indent (SeqItem i _ _) = i"

fun inline_yaml :: "inline_value \<Rightarrow> yaml_value" where
  "inline_yaml (Scalar v) = YString v"
| "inline_yaml (FlowList vs) = YSequence (map YString vs)"

definition is_item :: "fm_token \<Rightarrow> bool" where
  "is_item t = (case t of SeqItem _ _ _ \<Rightarrow> True | Key _ _ _ \<Rightarrow> False)"

text \<open>Inserting the deeper fields of a sequence item into its mapping.\<close>

fun insert_fields ::
  "(str, yaml_value) omap \<Rightarrow> (str \<times> yaml_value) list \<Rightarrow> str + (str, yaml_value) omap" where
  "insert_fields m [] = Inr m"
| "insert_fields m ((k, v) # es) =
     (if om_get m k \<noteq> None then Inl (''duplicate frontmatter key: '' @ k)
      else insert_fields (om_put k v m) es)"

definition item_start :: "str \<Rightarrow> inline_value option \<Rightarrow> (str, yaml_value) omap" where
  "item_start key inl = (case inl of None \<Rightarrow> [] | Some i \<Rightarrow> [(key, inline_yaml i)])"

type_synonym 'a built = "(str + 'a \<times> fm_token list) option"

fun built_bind :: "'a built \<Rightarrow> ('a \<Rightarrow> fm_token list \<Rightarrow> 'b built) \<Rightarrow> 'b built" where
  "built_bind None f = None"
| "built_bind (Some (Inl e)) f = Some (Inl e)"
| "built_bind (Some (Inr (x, ts))) f = f x ts"

fun build_mapping :: "nat \<Rightarrow> fm_token list \<Rightarrow> nat \<Rightarrow> (str \<times> yaml_value) list built"
  and build_sequence :: "nat \<Rightarrow> fm_token list \<Rightarrow> nat \<Rightarrow> yaml_value list built" where
  "build_mapping 0 ts indent = None"
| "build_mapping (Suc n) ts indent =
     (case ts of
        [] \<Rightarrow> Some (Inr ([], []))
      | t # us \<Rightarrow>
          (case t of
             SeqItem i _ _ \<Rightarrow>
               if i < indent then Some (Inr ([], ts))
               else Some (Inl ''sequence item outside of a sequence'')
           | Key i key inl \<Rightarrow>
               if i \<noteq> indent then Some (Inr ([], ts))
               else
                 (case inl of
                    Some v \<Rightarrow>
                      built_bind (build_mapping n us indent)
                        (\<lambda>es r. Some (Inr ((key, inline_yaml v) # es, r)))
                  | None \<Rightarrow>
                      (case us of
                         [] \<Rightarrow> Some (Inl ''frontmatter key has an empty value'')
                       | u # _ \<Rightarrow>
                           if next_indent u \<le> indent
                           then Some (Inl ''frontmatter key has an empty value'')
                           else
                             built_bind
                               (if is_item u
                                then built_bind (build_sequence n us (next_indent u))
                                  (\<lambda>xs r. Some (Inr (YSequence xs, r)))
                                else built_bind (build_mapping n us (next_indent u))
                                  (\<lambda>es r. Some (Inr (YMapping (om_of_list es), r))))
                               (\<lambda>v r. built_bind (build_mapping n r indent)
                                  (\<lambda>es r. Some (Inr ((key, v) # es, r))))))))"
| "build_sequence 0 ts indent = None"
| "build_sequence (Suc n) ts indent =
     (case ts of
        [] \<Rightarrow> Some (Inr ([], []))
      | t # us \<Rightarrow>
          (case t of
             Key _ _ _ \<Rightarrow> Some (Inr ([], ts))
           | SeqItem i key inl \<Rightarrow>
               if i \<noteq> indent then Some (Inr ([], ts))
               else
                 (case key of
                    None \<Rightarrow>
                      (case inl of
                         None \<Rightarrow> Some (Inl ''empty sequence item'')
                       | Some v \<Rightarrow>
                           built_bind (build_sequence n us indent)
                             (\<lambda>xs r. Some (Inr (inline_yaml v # xs, r))))
                  | Some k \<Rightarrow>
                      built_bind
                        (case us of
                           [] \<Rightarrow> Some (Inr (item_start k inl, us))
                         | u # _ \<Rightarrow>
                             if next_indent u > i then
                               built_bind (build_mapping n us (next_indent u))
                                 (\<lambda>es r. case insert_fields (item_start k inl) es of
                                    Inl e \<Rightarrow> Some (Inl e) | Inr m \<Rightarrow> Some (Inr (m, r)))
                             else Some (Inr (item_start k inl, us)))
                        (\<lambda>m r. built_bind (build_sequence n r indent)
                           (\<lambda>xs r. Some (Inr (YMapping m # xs, r)))))))"

definition parse_frontmatter :: "str \<Rightarrow> (str + (str, yaml_value) omap) option" where
  "parse_frontmatter raw =
     (case fm_tokenize (strip_fences raw) of
        Inl e \<Rightarrow> Some (Inl e)
      | Inr ts \<Rightarrow>
          (case build_mapping (length ts + 1) ts 0 of
             None \<Rightarrow> None
           | Some (Inl e) \<Rightarrow> Some (Inl e)
           | Some (Inr (es, r)) \<Rightarrow>
               if r \<noteq> [] then Some (Inl ''unexpected indented content'')
               else Some (insert_fields [] es)))"

section \<open>The builders end\<close>

lemma built_bind_ok [res_simps]:
  "built_bind b f = Some (Inr y) \<longleftrightarrow> (\<exists>x r. b = Some (Inr (x, r)) \<and> f x r = Some (Inr y))"
  by (cases "(b, f)" rule: built_bind.cases) auto

lemma built_bind_None [res_simps]:
  "built_bind b f = None \<longleftrightarrow> b = None \<or> (\<exists>x r. b = Some (Inr (x, r)) \<and> f x r = None)"
  by (cases "(b, f)" rule: built_bind.cases) auto

text \<open>A builder within its bound ends, with no more tokens than it was given.\<close>

definition within :: "nat \<Rightarrow> 'a built \<Rightarrow> bool" where
  "within k b = (case b of None \<Rightarrow> False | Some (Inl _) \<Rightarrow> True | Some (Inr (_, r)) \<Rightarrow> length r \<le> k)"

lemma within_simps [simp]:
  "\<not> within k None" "within k (Some (Inl e))" "within k (Some (Inr (x, r))) \<longleftrightarrow> length r \<le> k"
  by (simp_all add: within_def)

lemma within_mono: "within k b \<Longrightarrow> k \<le> l \<Longrightarrow> within l b"
  by (auto simp: within_def split: option.splits sum.splits)

lemma within_bind:
  assumes "within k b" "\<And>x r. length r \<le> k \<Longrightarrow> within l (f x r)"
  shows "within l (built_bind b f)"
  using assms by (cases "(b, f)" rule: built_bind.cases) auto

lemma build_within:
  "(\<forall>ts i. length ts < n \<longrightarrow> within (length ts) (build_mapping n ts i)) \<and>
   (\<forall>ts i. length ts < n \<longrightarrow> within (length ts) (build_sequence n ts i))"
proof (induction n)
  case (Suc n)
  have M: "within k (build_mapping n ts i)" if "length ts < n" "length ts \<le> k" for ts i k
    using Suc.IH that within_mono by blast
  have S: "within k (build_sequence n ts i)" if "length ts < n" "length ts \<le> k" for ts i k
    using Suc.IH that within_mono by blast
  have "within (length ts) (build_mapping (Suc n) ts i)" if l: "length ts < Suc n" for ts i
  proof (cases ts)
    case (Cons t us)
    note us = l Cons
    show ?thesis
    proof (cases t)
      case (Key j k inl)
      show ?thesis
        using us Key
        by (cases inl; cases us) (auto intro!: within_bind [OF M] within_bind [OF S]
            within_bind [where k = "length us"] M S)
    qed (use us in auto)
  qed simp
  moreover have "within (length ts) (build_sequence (Suc n) ts i)" if l: "length ts < Suc n" for ts i
  proof (cases ts)
    case (Cons t us)
    note us = l Cons
    show ?thesis
    proof (cases t)
      case (SeqItem j k inl)
      show ?thesis
        using us SeqItem
        by (cases inl; cases us; cases k) (auto intro!: within_bind [OF S] within_bind [OF M]
            within_bind [where k = "length us"] M S split: sum.split)
    qed (use us in auto)
  qed simp
  ultimately show ?case by blast
qed simp

text \<open>
  The frontmatter parser ends on every input: the recursion bound it starts with, one
  more than the number of line tokens, is always enough, so it returns a mapping or an
  error.
\<close>

theorem parse_frontmatter_total: "\<exists>r. parse_frontmatter raw = Some r"
proof (cases "fm_tokenize (strip_fences raw)")
  case (Inr ts)
  have "within (length ts) (build_mapping (length ts + 1) ts 0)"
    using build_within [of "length ts + 1"] by simp
  then show ?thesis
    using Inr by (auto simp: parse_frontmatter_def within_def split: option.splits sum.splits)
qed (simp add: parse_frontmatter_def)

section \<open>What an accepted mapping contains\<close>

lemma ws_len_le: "prefix t s \<Longrightarrow> ws_len s = 0 \<Longrightarrow> ws_len t = 0"
proof (rule ccontr)
  assume p: "prefix t s" "ws_len s = 0" and "ws_len t \<noteq> 0"
  then obtain w where "w \<in> set ws_seqs" "prefix w t"
    by (metis find_Some_iff list.size(3) nth_mem option.case_eq_if option.collapse ws_len_def)
  moreover from this p(1) have "prefix w s" by (meson prefix_order.trans)
  ultimately have "find (\<lambda>w. prefix w s) ws_seqs \<noteq> None" by (auto simp: find_None_iff)
  then obtain v where v: "find (\<lambda>w. prefix w s) ws_seqs = Some v" by blast
  then have "v \<in> set ws_seqs" by (auto simp: find_Some_iff)
  moreover have "length v = 0" using p(2) v by (simp add: ws_len_def)
  ultimately have "v \<in> set ws_seqs" "length v = 0" by blast+
  then show False by (auto simp: ws_seqs_def)
qed

lemma trim_start_stop: "trim_start s = [] \<or> ws_len (trim_start s) = 0"
  by (induction s rule: trim_start.induct) (metis trim_start.simps)

lemma trim_end_stop: "trim_end s = [] \<or> ws_len_end (trim_end s) = 0"
  by (induction s rule: trim_end.induct) (metis trim_end.simps)

lemma trim_end_prefix: "prefix (trim_end s) s"
  by (induction s rule: trim_end.induct)
    (metis prefix_order.refl prefix_order.trans take_is_prefix trim_end.simps)

lemma trim_trim: "trim (trim s) = trim s"
proof -
  have "trim s = [] \<or> ws_len (trim s) = 0"
    using ws_len_le [OF trim_end_prefix] trim_start_stop [of s] trim_end_prefix [of "trim_start s"]
    by (auto simp: trim_def)
  then have "trim_start (trim s) = trim s" by (subst trim_start.simps) auto
  moreover have "trim_end (trim s) = trim s"
    using trim_end_stop [of "trim_start s"] by (subst trim_end.simps) (auto simp: trim_def)
  ultimately show ?thesis by (simp add: trim_def)
qed

definition text_ok :: "str \<Rightarrow> bool" where
  "text_ok s \<longleftrightarrow> s \<noteq> [] \<and> trim s = s"

text \<open>Every leaf is a string, never empty and never with white space at an end.\<close>

fun fm_value :: "yaml_value \<Rightarrow> bool" where
  "fm_value (YString s) \<longleftrightarrow> text_ok s"
| "fm_value (YSequence xs) \<longleftrightarrow> (\<forall>x \<in> set xs. fm_value x)"
| "fm_value (YMapping m) \<longleftrightarrow> om_inv m \<and> (\<forall>e \<in> set m. valid_key (fst e) \<and> fm_value (snd e))"
| "fm_value _ \<longleftrightarrow> False"

fun inline_ok :: "inline_value \<Rightarrow> bool" where
  "inline_ok (Scalar s) \<longleftrightarrow> text_ok s"
| "inline_ok (FlowList xs) \<longleftrightarrow> list_all text_ok xs"

fun fm_token_ok :: "fm_token \<Rightarrow> bool" where
  "fm_token_ok (Key i k inl) \<longleftrightarrow> valid_key k \<and> pred_option inline_ok inl"
| "fm_token_ok (SeqItem i k inl) \<longleftrightarrow> pred_option valid_key k \<and> pred_option inline_ok inl"

lemma scalar_ok: "scalar v = Inr s \<Longrightarrow> text_ok s"
  by (auto simp: scalar_def Let_def text_ok_def trim_trim split: if_splits)

lemma scalars_ok: "res_map scalar xs = Inr ys \<Longrightarrow> list_all text_ok ys"
  by (induction xs arbitrary: ys) (auto simp: res_simps scalar_ok)

lemma parse_inline_ok: "parse_inline s = Inr i \<Longrightarrow> pred_option inline_ok i"
  by (auto simp: parse_inline_def Let_def res_bind_Inr scalar_ok scalars_ok split: if_splits)

lemma sequence_colon_key: "sequence_colon head s = Some n \<Longrightarrow> valid_key (trim (take n (head @ s)))"
  by (induction head s rule: sequence_colon.induct) (auto split: if_splits)

lemma line_token_ok: "line_token l = Inr t \<Longrightarrow> pred_option fm_token_ok t"
  by (auto simp: line_token_def split_sequence_value_def Let_def res_bind_Inr parse_inline_ok scalar_ok
      split: if_splits option.splits prod.splits dest!: sequence_colon_key [where head = "[]", simplified])

lemma fm_tokens_ok: "fm_tokens ls = Inr ts \<Longrightarrow> list_all fm_token_ok ts"
  by (induction ls arbitrary: ts)
    (auto simp: res_bind_Inr dest!: line_token_ok split: option.splits)

lemma inline_yaml_ok: "inline_ok i \<Longrightarrow> fm_value (inline_yaml i)"
  by (cases i) (auto simp: list_all_iff)

definition entries_ok :: "(str \<times> yaml_value) list \<Rightarrow> bool" where
  "entries_ok es \<longleftrightarrow> (\<forall>e \<in> set es. valid_key (fst e) \<and> fm_value (snd e))"

lemma entries_ok_simps [simp]:
  "entries_ok []" "entries_ok ((k, v) # es) \<longleftrightarrow> valid_key k \<and> fm_value v \<and> entries_ok es"
  by (auto simp: entries_ok_def)

lemma om_put_ok: "om_inv m \<Longrightarrow> entries_ok m \<Longrightarrow> valid_key k \<Longrightarrow> fm_value v \<Longrightarrow> entries_ok (om_put k v m)"
  by (auto simp: entries_ok_def om_put_set)

lemma mapping_ok: "fm_value (YMapping m) \<longleftrightarrow> om_inv m \<and> entries_ok m"
  by (simp add: entries_ok_def)

lemma om_of_list_ok: "entries_ok es \<Longrightarrow> fm_value (YMapping (om_of_list es))"
proof -
  have "om_inv m \<Longrightarrow> entries_ok m \<Longrightarrow> entries_ok es
      \<Longrightarrow> entries_ok (foldl (\<lambda>m (k, v). om_put k v m) m es)" for m
    by (induction es arbitrary: m) (auto simp: om_put_inv om_put_ok)
  then show "entries_ok es \<Longrightarrow> fm_value (YMapping (om_of_list es))"
    unfolding mapping_ok using om_of_list_inv by (auto simp: om_of_list_def)
qed

lemma insert_fields_ok:
  "insert_fields m es = Inr m' \<Longrightarrow> om_inv m \<Longrightarrow> entries_ok m \<Longrightarrow> entries_ok es
    \<Longrightarrow> om_inv m' \<and> entries_ok m'"
  by (induction m es rule: insert_fields.induct) (auto simp: om_put_inv om_put_ok split: if_splits)

definition yields :: "('a \<Rightarrow> bool) \<Rightarrow> 'a built \<Rightarrow> bool" where
  "yields P b \<longleftrightarrow> (\<forall>x r. b = Some (Inr (x, r)) \<longrightarrow> P x \<and> list_all fm_token_ok r)"

lemma yields_simps [simp]:
  "yields P None" "yields P (Some (Inl e))"
  "yields P (Some (Inr (x, r))) \<longleftrightarrow> P x \<and> list_all fm_token_ok r"
  by (auto simp: yields_def)

lemma yields_bind:
  assumes "yields P b" "\<And>x r. P x \<Longrightarrow> list_all fm_token_ok r \<Longrightarrow> yields Q (f x r)"
  shows "yields Q (built_bind b f)"
  using assms by (cases "(b, f)" rule: built_bind.cases) auto

lemma build_yields:
  "(\<forall>ts i. list_all fm_token_ok ts \<longrightarrow> yields entries_ok (build_mapping n ts i)) \<and>
   (\<forall>ts i. list_all fm_token_ok ts \<longrightarrow> yields (list_all fm_value) (build_sequence n ts i))"
proof (induction n)
  case (Suc n)
  have M: "yields entries_ok (build_mapping n ts i)" if "list_all fm_token_ok ts" for ts i
    using Suc.IH that by blast
  have S: "yields (list_all fm_value) (build_sequence n ts i)" if "list_all fm_token_ok ts" for ts i
    using Suc.IH that by blast
  have F: "yields (\<lambda>m. om_inv m \<and> entries_ok m) (built_bind (build_mapping n ts i)
      (\<lambda>es r. case insert_fields m es of Inl e \<Rightarrow> Some (Inl e) | Inr m' \<Rightarrow> Some (Inr (m', r))))"
    if "list_all fm_token_ok ts" "om_inv m" "entries_ok m" for ts i m
    using that by (intro yields_bind [OF M]) (auto split: sum.split dest: insert_fields_ok)
  have "yields entries_ok (build_mapping (Suc n) ts i)" if l: "list_all fm_token_ok ts" for ts i
  proof (cases ts)
    case (Cons t us)
    note us = l Cons
    show ?thesis
    proof (cases t)
      case (Key j k inl)
      show ?thesis
        using us Key
        by (cases inl; cases us) (auto intro!: yields_bind [OF M] yields_bind [OF S]
            yields_bind [where P = fm_value] om_of_list_ok [unfolded mapping_ok]
            simp: inline_yaml_ok mapping_ok list_all_iff simp del: fm_value.simps(3))
    qed (use us in auto)
  qed simp
  moreover have "yields (list_all fm_value) (build_sequence (Suc n) ts i)"
    if l: "list_all fm_token_ok ts" for ts i
  proof (cases ts)
    case (Cons t us)
    note us = l Cons
    show ?thesis
    proof (cases t)
      case (SeqItem j k inl)
      have ok: "pred_option valid_key k" "pred_option inline_ok inl" "list_all fm_token_ok us"
        using us SeqItem by auto
      have fields: "yields (\<lambda>m. om_inv m \<and> entries_ok m)
          (case us of
             [] \<Rightarrow> Some (Inr (item_start a inl, us))
           | t # _ \<Rightarrow>
               if next_indent t > j then
                 built_bind (build_mapping n us (next_indent t))
                   (\<lambda>es r. case insert_fields (item_start a inl) es of
                      Inl e \<Rightarrow> Some (Inl e) | Inr m \<Rightarrow> Some (Inr (m, r)))
               else Some (Inr (item_start a inl, us)))" if "k = Some a" for a
      proof -
        have "om_inv (item_start a inl)" "entries_ok (item_start a inl)"
          using ok that by (auto simp: item_start_def inline_yaml_ok map_simps split: option.split)
        then show ?thesis using ok F by (cases us) auto
      qed
      have items: "yields (list_all fm_value) (built_bind (build_sequence n us indent)
          (\<lambda>xs r. Some (Inr (v # xs, r))))" if "fm_value v" "list_all fm_token_ok us" for v us indent
        using that by (intro yields_bind [OF S]) auto
      show ?thesis
      proof (cases k)
        case None
        then show ?thesis
          using ok SeqItem us by (cases inl) (auto intro!: items simp: inline_yaml_ok)
      next
        case (Some a)
        show ?thesis
        proof (cases "j = i")
          case True
          have "yields (list_all fm_value) (build_sequence (Suc n) (SeqItem i (Some a) inl # us) i)"
            by (simp, intro yields_bind [OF fields [OF Some, unfolded True]] items)
              (auto simp: entries_ok_def)
          then show ?thesis using True Some SeqItem us by simp
        qed (use SeqItem us in simp)
      qed
    qed (use us in auto)
  qed simp
  ultimately show ?case by blast
qed simp

text \<open>
  Every accepted frontmatter block is a sorted mapping without duplicate keys whose
  keys, at every depth, are non-empty runs of letters, digits, \<open>_\<close>, \<open>-\<close> and \<open>.\<close>, and whose
  leaves are all strings, none of them empty or with white space at an end: the parser
  never makes up a null, a boolean or a number.
\<close>

theorem parsed_frontmatter_shape:
  assumes "parse_frontmatter raw = Some (Inr m)"
  shows "fm_value (YMapping m)"
proof -
  obtain ts es where p: "fm_tokenize (strip_fences raw) = Inr ts"
    "build_mapping (length ts + 1) ts 0 = Some (Inr (es, []))" "insert_fields [] es = Inr m"
    using assms by (auto simp: parse_frontmatter_def split: sum.splits option.splits if_splits)
  have "list_all fm_token_ok ts" using p(1) by (auto simp: fm_tokenize_def fm_tokens_ok)
  then have "yields entries_ok (build_mapping (length ts + 1) ts 0)" using build_yields by blast
  then have "entries_ok es" using p(2) by simp
  then show ?thesis using insert_fields_ok [OF p(3)] unfolding mapping_ok by simp
qed

section \<open>Printed frontmatter parses back\<close>

text \<open>The frontmatter of a mapping: block style, two spaces per level.\<close>

fun entries_tokens :: "nat \<Rightarrow> (str \<times> yaml_value) list \<Rightarrow> fm_token list"
  and items_tokens :: "nat \<Rightarrow> yaml_value list \<Rightarrow> fm_token list" where
  "entries_tokens i [] = []"
| "entries_tokens i ((k, YString s) # es) = Key i k (Some (Scalar s)) # entries_tokens i es"
| "entries_tokens i ((k, YSequence xs) # es) =
     Key i k None # items_tokens (i + 2) xs @ entries_tokens i es"
| "entries_tokens i ((k, YMapping m) # es) =
     Key i k None # entries_tokens (i + 2) m @ entries_tokens i es"
| "entries_tokens i (_ # es) = []"
| "items_tokens i [] = []"
| "items_tokens i (YString s # xs) = SeqItem i None (Some (Scalar s)) # items_tokens i xs"
| "items_tokens i (YMapping ((k, YString s) # es) # xs) =
     SeqItem i (Some k) (Some (Scalar s)) # entries_tokens (i + 2) es @ items_tokens i xs"
| "items_tokens i (_ # xs) = []"

definition plain :: "str \<Rightarrow> bool" where
  "plain s \<longleftrightarrow> s \<noteq> [] \<and> list_all key_byte s \<and> is_ascii_alphanumeric (hd s)"

text \<open>Values with plain leaves, non-empty blocks and sorted mappings; a mapping in a
  sequence starts with a string.\<close>

fun plain_entries :: "(str \<times> yaml_value) list \<Rightarrow> bool"
  and plain_items :: "yaml_value list \<Rightarrow> bool" where
  "plain_entries [] \<longleftrightarrow> True"
| "plain_entries ((k, YString s) # es) \<longleftrightarrow> valid_key k \<and> plain s \<and> plain_entries es"
| "plain_entries ((k, YSequence xs) # es) \<longleftrightarrow>
     valid_key k \<and> xs \<noteq> [] \<and> plain_items xs \<and> plain_entries es"
| "plain_entries ((k, YMapping m) # es) \<longleftrightarrow>
     valid_key k \<and> m \<noteq> [] \<and> om_inv m \<and> plain_entries m \<and> plain_entries es"
| "plain_entries (_ # es) \<longleftrightarrow> False"
| "plain_items [] \<longleftrightarrow> True"
| "plain_items (YString s # xs) \<longleftrightarrow> plain s \<and> plain_items xs"
| "plain_items (YMapping ((k, YString s) # es) # xs) \<longleftrightarrow>
     valid_key k \<and> plain s \<and> om_inv ((k, YString s) # es) \<and> plain_entries es \<and> plain_items xs"
| "plain_items (_ # xs) \<longleftrightarrow> False"

fun render :: "fm_token \<Rightarrow> str" where
  "render (Key i k (Some (Scalar s))) = replicate i (CHR '' '') @ k @ '': '' @ s"
| "render (Key i k _) = replicate i (CHR '' '') @ k @ '':''"
| "render (SeqItem i (Some k) (Some (Scalar s))) = replicate i (CHR '' '') @ ''- '' @ k @ '': '' @ s"
| "render (SeqItem i _ (Some (Scalar s))) = replicate i (CHR '' '') @ ''- '' @ s"
| "render (SeqItem i _ _) = replicate i (CHR '' '') @ ''-''"

definition print_frontmatter :: "(str \<times> yaml_value) list \<Rightarrow> str" where
  "print_frontmatter es =
     ''---'' @ CHR 0x0A # concat (map (\<lambda>t. render t @ [CHR 0x0A]) (entries_tokens 0 es))
       @ ''---'' @ [CHR 0x0A]"

text \<open>The blocks.\<close>

definition closes :: "nat \<Rightarrow> fm_token list \<Rightarrow> bool" where
  "closes i ts \<longleftrightarrow> ts = [] \<or> next_indent (hd ts) < i"

lemma om_put_last: "\<forall>j \<in> fst ` set m. j < k \<Longrightarrow> om_put k v m = m @ [(k, v)]"
  by (induction m) auto

lemma om_inv_append:
  "om_inv (m @ (k, v) # es) \<Longrightarrow> (\<forall>j \<in> fst ` set m. j < k) \<and> om_inv ((m @ [(k, v)]) @ es)"
  by (auto simp: om_inv_def sorted_wrt_append)

lemma om_of_list_id: "om_inv es \<Longrightarrow> om_of_list es = es"
proof -
  have "om_inv (m @ es) \<Longrightarrow> foldl (\<lambda>m (k, v). om_put k v m) m es = m @ es" for m
  proof (induction es arbitrary: m)
    case (Cons e es)
    then show ?case
      using om_inv_append [of m "fst e" "snd e" es] om_put_last [of m "fst e" "snd e"]
      by (cases e) (simp del: append_assoc; simp)
  qed simp
  from this [of "[]"] show "om_inv es \<Longrightarrow> om_of_list es = es" by (simp add: om_of_list_def)
qed

lemma insert_fields_append: "om_inv (m @ es) \<Longrightarrow> insert_fields m es = Inr (m @ es)"
proof (induction es arbitrary: m)
  case (Cons e es)
  obtain k v where e: "e = (k, v)" by (cases e)
  then have "om_get m k = None" "om_put k v m = m @ [(k, v)]" "om_inv ((m @ [(k, v)]) @ es)"
    using om_inv_append [of m k v es] om_put_last [of m k v] Cons.prems
    by (auto intro!: om_get_notin)
  then show ?case using Cons.IH [of "m @ [(k, v)]"] e by simp
qed simp

lemma entries_tokens_head:
  "plain_entries es \<Longrightarrow> es \<noteq> [] \<Longrightarrow>
    entries_tokens i es \<noteq> [] \<and> next_indent (hd (entries_tokens i es)) = i \<and> \<not> is_item (hd (entries_tokens i es))"
  by (cases "(i, es)" rule: entries_tokens.cases) (auto simp: is_item_def)

lemma items_tokens_head:
  "plain_items xs \<Longrightarrow> xs \<noteq> [] \<Longrightarrow>
    items_tokens i xs \<noteq> [] \<and> next_indent (hd (items_tokens i xs)) = i \<and> is_item (hd (items_tokens i xs))"
  by (cases xs rule: plain_items.cases) (auto simp: is_item_def)

lemma closes_append:
  "closes i (ts @ rest) \<longleftrightarrow> (if ts = [] then closes i rest else next_indent (hd ts) < i)"
  by (auto simp: closes_def)

lemma mapping_closes: "closes i rest \<Longrightarrow> build_mapping (Suc n) rest i = Some (Inr ([], rest))"
  by (cases rest; cases "hd rest") (auto simp: closes_def)

lemma sequence_closes: "closes i rest \<Longrightarrow> build_sequence (Suc n) rest i = Some (Inr ([], rest))"
  by (cases rest; cases "hd rest") (auto simp: closes_def)

lemma build_printed:
  "\<forall>n rest. plain_entries es \<longrightarrow> closes i rest \<longrightarrow> length (entries_tokens i es @ rest) < n \<longrightarrow>
     build_mapping n (entries_tokens i es @ rest) i = Some (Inr (es, rest))"
  "\<forall>n rest. plain_items xs \<longrightarrow> closes i rest \<longrightarrow> length (items_tokens i xs @ rest) < n \<longrightarrow>
     build_sequence n (items_tokens i xs @ rest) i = Some (Inr (xs, rest))"
proof (induction i es and i xs rule: entries_tokens_items_tokens.induct)
  case (1 i)
  show ?case
    by (intro allI impI; case_tac n) (simp_all add: mapping_closes del: build_mapping.simps(2))
next
  case (2 i k s es)
  show ?case using 2 by (intro allI impI; case_tac n) simp_all
next
  case (3 i k xs es)
  show ?case
  proof (intro allI impI)
    fix n rest
    assume p: "plain_entries ((k, YSequence xs) # es)" and c: "closes i rest"
      and l: "length (entries_tokens i ((k, YSequence xs) # es) @ rest) < n"
    obtain m where n: "n = Suc m" using l by (cases n) auto
    have h: "items_tokens (i + 2) xs \<noteq> []" "next_indent (hd (items_tokens (i + 2) xs)) = i + 2"
      "is_item (hd (items_tokens (i + 2) xs))"
      using items_tokens_head [of xs "i + 2"] p by auto
    have "closes (i + 2) (entries_tokens i es @ rest)"
      using c entries_tokens_head [of es i] p by (cases "es = []") (auto simp: closes_append closes_def)
    then have "build_sequence m (items_tokens (i + 2) xs @ entries_tokens i es @ rest) (i + 2)
        = Some (Inr (xs, entries_tokens i es @ rest))"
      using 3(1) p l n by simp
    moreover have "build_mapping m (entries_tokens i es @ rest) i = Some (Inr (es, rest))"
      using 3(2) p l n c by simp
    ultimately show "build_mapping n (entries_tokens i ((k, YSequence xs) # es) @ rest) i
        = Some (Inr ((k, YSequence xs) # es, rest))"
      using h n by (cases "items_tokens (i + 2) xs") auto
  qed
next
  case (4 i k m es)
  show ?case
  proof (intro allI impI)
    fix n rest
    assume p: "plain_entries ((k, YMapping m) # es)" and c: "closes i rest"
      and l: "length (entries_tokens i ((k, YMapping m) # es) @ rest) < n"
    obtain n' where n: "n = Suc n'" using l by (cases n) auto
    have h: "entries_tokens (i + 2) m \<noteq> []" "next_indent (hd (entries_tokens (i + 2) m)) = i + 2"
      "\<not> is_item (hd (entries_tokens (i + 2) m))"
      using entries_tokens_head [of m "i + 2"] p by auto
    have "closes (i + 2) (entries_tokens i es @ rest)"
      using c entries_tokens_head [of es i] p by (cases "es = []") (auto simp: closes_append closes_def)
    then have "build_mapping n' (entries_tokens (i + 2) m @ entries_tokens i es @ rest) (i + 2)
        = Some (Inr (m, entries_tokens i es @ rest))"
      using 4(1) p l n by simp
    moreover have "build_mapping n' (entries_tokens i es @ rest) i = Some (Inr (es, rest))"
      using 4(2) p l n c by simp
    moreover have "om_of_list m = m" using p by (intro om_of_list_id) simp
    ultimately show "build_mapping n (entries_tokens i ((k, YMapping m) # es) @ rest) i
        = Some (Inr ((k, YMapping m) # es, rest))"
      using h n by (cases "entries_tokens (i + 2) m") auto
  qed
next
  case (7 i s xs)
  show ?case using 7 by (intro allI impI; case_tac n) simp_all
next
  case (8 i k s es xs)
  show ?case
  proof (intro allI impI)
    fix n rest
    let ?v = "YMapping ((k, YString s) # es)"
    assume p: "plain_items (?v # xs)" and c: "closes i rest"
      and l: "length (items_tokens i (?v # xs) @ rest) < n"
    obtain n' where n: "n = Suc n'" using l by (cases n) auto
    have cl: "closes (i + 2) (items_tokens i xs @ rest)" "closes (i + 1) (items_tokens i xs @ rest)"
      using c items_tokens_head [of xs i] p by (cases "xs = []"; auto simp: closes_append closes_def)+
    then have "build_mapping n' (entries_tokens (i + 2) es @ items_tokens i xs @ rest) (i + 2)
        = Some (Inr (es, items_tokens i xs @ rest))"
      using 8(1) p l n by simp
    moreover have "build_sequence n' (items_tokens i xs @ rest) i = Some (Inr (xs, rest))"
      using 8(2) p l n c by simp
    moreover have "insert_fields [(k, YString s)] es = Inr ((k, YString s) # es)"
      using insert_fields_append [of "[(k, YString s)]" es] p by simp
    ultimately show "build_sequence n (items_tokens i (?v # xs) @ rest) i = Some (Inr (?v # xs, rest))"
    proof (cases "es = []")
      case True
      then show ?thesis
        using cl(2) n \<open>build_sequence n' (items_tokens i xs @ rest) i = _\<close>
        by (cases "items_tokens i xs @ rest") (auto simp: closes_def item_start_def)
    next
      case False
      then have "entries_tokens (i + 2) es \<noteq> []" "next_indent (hd (entries_tokens (i + 2) es)) = i + 2"
        using entries_tokens_head [of es "i + 2"] p by auto
      then show ?thesis
        using n \<open>build_sequence n' (items_tokens i xs @ rest) i = _\<close>
          \<open>build_mapping n' (entries_tokens (i + 2) es @ items_tokens i xs @ rest) (i + 2) = _\<close>
          \<open>insert_fields [(k, YString s)] es = _\<close>
        by (cases "entries_tokens (i + 2) es") (auto simp: item_start_def)
    qed
  qed
next
  case (6 i)
  show ?case
    by (intro allI impI; case_tac n) (simp_all add: sequence_closes del: build_sequence.simps(2))
qed simp_all

text \<open>The lines.\<close>

lemmas key_byte_defs = key_byte_def is_ascii_alphanumeric_def is_ascii_alphabetic_def
  is_ascii_lowercase_def is_ascii_uppercase_def is_ascii_digit_def code_def

lemma key_byte_graphic: "key_byte c \<Longrightarrow> is_ascii_graphic c"
  by (auto simp: key_byte_defs is_ascii_graphic_def)

lemma graphic_ws:
  assumes "is_ascii_graphic c"
  shows "ws_len (c # s) = 0" "ws_len_end (s @ [c]) = 0"
proof -
  have "\<forall>w \<in> set ws_seqs. w \<noteq> [] \<and> \<not> is_ascii_graphic (hd w) \<and> \<not> is_ascii_graphic (last w)"
    unfolding list_all_iff [symmetric] by code_simp
  then have w: "\<forall>w \<in> set ws_seqs. w \<noteq> [] \<and> hd w \<noteq> c \<and> last w \<noteq> c" using assms by auto
  then have "find (\<lambda>w. prefix w (c # s)) ws_seqs = None"
    by (auto simp: find_None_iff prefix_Cons)
  then show "ws_len (c # s) = 0" by (simp add: ws_len_def)
  have "\<not> suffix w (s @ [c])" if "w \<in> set ws_seqs" for w
    using w that by (auto simp: suffix_def) (metis last_appendR last_snoc)
  then have "find (\<lambda>w. suffix w (s @ [c])) ws_seqs = None" by (simp add: find_None_iff)
  then show "ws_len_end (s @ [c]) = 0" by (simp add: ws_len_end_def)
qed

definition framed :: "str \<Rightarrow> bool" where
  "framed s \<longleftrightarrow> s \<noteq> [] \<and> is_ascii_graphic (hd s) \<and> is_ascii_graphic (last s)"

lemma trim_start_graphic: "s \<noteq> [] \<Longrightarrow> is_ascii_graphic (hd s) \<Longrightarrow> trim_start s = s"
  by (cases s) (simp_all add: trim_start.simps graphic_ws)

lemma trim_end_graphic: "s \<noteq> [] \<Longrightarrow> is_ascii_graphic (last s) \<Longrightarrow> trim_end s = s"
  using graphic_ws(2) [of "last s" "butlast s"] by (simp add: trim_end.simps)

lemma trim_framed: "framed s \<Longrightarrow> trim s = s"
  by (simp add: framed_def trim_def trim_start_graphic trim_end_graphic)

lemma trim_start_spaces: "trim_start (CHR '' '' # s) = trim_start s"
  by (subst trim_start.simps) (simp add: ws_len_def ws_seqs_def)

lemma trim_start_replicate: "trim_start (replicate n (CHR '' '') @ s) = trim_start s"
  by (induction n) (simp_all add: trim_start_spaces)

lemma trim_end_newline: "trim_end (s @ [CHR 0x0A]) = trim_end s"
proof -
  have "suffix [x] (s @ [y]) \<longleftrightarrow> x = y" for x y :: char by (auto simp: suffix_def)
  then have "ws_len_end (s @ [CHR 0x0A]) = 1" by (simp add: ws_len_end_def ws_seqs_def)
  then show ?thesis by (subst trim_end.simps) simp
qed

lemma plain_framed: "plain s \<Longrightarrow> framed s"
  by (cases s) (auto simp: plain_def framed_def list_all_iff key_byte_graphic)

lemma valid_key_framed: "valid_key k \<Longrightarrow> framed k"
  by (cases k) (auto simp: valid_key_def framed_def list_all_iff key_byte_graphic)

lemma plain_scalar: "plain s \<Longrightarrow> scalar s = Inr s"
proof -
  assume p: "plain s"
  then have "hd s \<noteq> CHR 0x22" "hd s \<noteq> CHR 0x27" "s \<noteq> []"
    by (auto simp: plain_def key_byte_defs)
  then have "unquote (CHR 0x22) s = None" "unquote (CHR 0x27) s = None"
    by (cases s; simp add: unquote_def strip_prefix_def)+
  then show ?thesis
    using trim_framed [OF plain_framed [OF p]] \<open>s \<noteq> []\<close> by (simp add: scalar_def)
qed

lemma plain_inline: "plain s \<Longrightarrow> parse_inline (CHR '' '' # s) = Inr (Some (Scalar s))"
proof -
  assume p: "plain s"
  note f = plain_framed [OF p]
  obtain c w where s: "s = c # w" using p by (cases s) (auto simp: plain_def)
  have t: "trim (CHR '' '' # s) = s" using trim_framed [OF f] by (simp add: trim_def trim_start_spaces)
  have c: "c \<noteq> CHR ''{''" "c \<noteq> CHR ''|''" "c \<noteq> CHR ''>''" "c \<noteq> CHR 0x22" "c \<noteq> CHR 0x27" "c \<noteq> CHR ''[''"
    using p s by (auto simp: plain_def key_byte_defs)
  have "find_str '' #'' w' = None" if "list_all key_byte w'" for w'
    using that by (induction w') (auto simp: key_byte_defs)
  then have "strip_inline_comment s = Some s"
    using p by (simp add: strip_inline_comment_def plain_def)
  then show ?thesis
    using t c s trim_framed [OF f] plain_scalar [OF p]
    by (simp add: parse_inline_def starts_with_any_def)
qed

lemma empty_inline: "parse_inline [] = Inr None"
  by (simp add: parse_inline_def trim_def trim_start.simps trim_end.simps)

lemma line_indent:
  assumes "framed s"
  shows "line_token (replicate i (CHR '' '') @ s) =
    (if hd s = CHR ''#'' then Inr None
     else case strip_prefix ''- '' s of
        Some rest \<Rightarrow>
          res_bind (split_sequence_value rest) (\<lambda>(key, inl). Inr (Some (SeqItem i key inl)))
      | None \<Rightarrow>
          (case split_once (CHR '':'') s of
             None \<Rightarrow> Inl ''not key/value YAML''
           | Some (k, rest) \<Rightarrow>
               (let key = trim k in
                if \<not> valid_key key then Inl ''unsupported YAML scalar''
                else res_bind (parse_inline rest) (\<lambda>inl. Inr (Some (Key i key inl))))))"
proof -
  have "trim_end (replicate i (CHR '' '') @ s) = replicate i (CHR '' '') @ s"
    using assms by (intro trim_end_graphic) (auto simp: framed_def)
  moreover have "trim_start (replicate i (CHR '' '') @ s) = s"
    using assms by (simp add: trim_start_replicate trim_start_graphic framed_def)
  ultimately show ?thesis using assms by (simp add: line_token_def framed_def)
qed

lemma split_once_bytes: "list_all key_byte k \<Longrightarrow> split_once (CHR '':'') (k @ CHR '':'' # s) = Some (k, s)"
  by (induction k) (auto simp: key_byte_defs)

lemma split_once_key: "valid_key k \<Longrightarrow> split_once (CHR '':'') (k @ CHR '':'' # s) = Some (k, s)"
  by (simp add: valid_key_def split_once_bytes)

lemma not_item: "valid_key k \<Longrightarrow> strip_prefix ''- '' (k @ CHR '':'' # s) = None"
  by (cases k; cases "tl k") (auto simp: strip_prefix_def valid_key_def key_byte_defs)

lemma colon_key: "list_all key_byte k \<Longrightarrow> valid_key (h @ k) \<Longrightarrow>
    sequence_colon h (k @ CHR '':'' # CHR '' '' # s) = Some (length (h @ k))"
proof (induction k arbitrary: h)
  case Nil
  then show ?case using trim_framed [OF valid_key_framed] by simp
next
  case (Cons c k)
  then have "c \<noteq> CHR '':''" by (auto simp: key_byte_defs)
  then show ?case using Cons.IH [of "h @ [c]"] Cons.prems by simp
qed

lemma no_colon: "list_all key_byte s \<Longrightarrow> sequence_colon h s = None"
  by (induction s arbitrary: h) (auto simp: key_byte_defs)

fun plain_token :: "fm_token \<Rightarrow> bool" where
  "plain_token (Key i k (Some (Scalar s))) \<longleftrightarrow> valid_key k \<and> plain s"
| "plain_token (Key i k None) \<longleftrightarrow> valid_key k"
| "plain_token (SeqItem i (Some k) (Some (Scalar s))) \<longleftrightarrow> valid_key k \<and> plain s"
| "plain_token (SeqItem i None (Some (Scalar s))) \<longleftrightarrow> plain s"
| "plain_token _ \<longleftrightarrow> False"

lemma framed_append: "a \<noteq> [] \<Longrightarrow> is_ascii_graphic (hd a) \<Longrightarrow> framed b \<Longrightarrow> framed (a @ b)"
  by (simp add: framed_def)

lemma line_rendered: "plain_token t \<Longrightarrow> line_token (render t) = Inr (Some t)"
proof (induction t rule: plain_token.induct)
  case (1 i k s)
  then have "framed (k @ '': '' @ s)"
    using valid_key_framed [of k] plain_framed [of s] by (auto simp: framed_def)
  moreover have "hd (k @ '': '' @ s) \<noteq> CHR ''#''" using 1 by (cases k) (auto simp: valid_key_def key_byte_defs)
  ultimately show ?case
    using 1 trim_framed [OF valid_key_framed [of k]]
    by (simp add: line_indent not_item split_once_key plain_inline)
next
  case (2 i k)
  then have "framed (k @ '':'')"
    using valid_key_framed [of k] by (auto simp: framed_def is_ascii_graphic_def code_def)
  moreover have "hd (k @ '':'') \<noteq> CHR ''#''" using 2 by (cases k) (auto simp: valid_key_def key_byte_defs)
  ultimately show ?case
    using 2 trim_framed [OF valid_key_framed [of k]]
    by (simp add: line_indent not_item split_once_key empty_inline)
next
  case (3 i k s)
  then have "framed (''- '' @ k @ '': '' @ s)"
    using plain_framed [of s] by (auto simp: framed_def is_ascii_graphic_def code_def)
  moreover have "sequence_colon [] (k @ '': '' @ s) = Some (length k)"
    using colon_key [of k "[]" s] 3 by (simp add: valid_key_def)
  ultimately show ?case
    using 3 trim_framed [OF valid_key_framed [of k]]
    by (simp add: line_indent strip_prefix_def split_sequence_value_def plain_inline)
next
  case (4 i s)
  then have "framed (''- '' @ s)"
    using plain_framed [of s] by (auto simp: framed_def is_ascii_graphic_def code_def)
  moreover have "sequence_colon [] s = None" using 4 no_colon by (simp add: plain_def)
  ultimately show ?case
    using 4 by (simp add: line_indent strip_prefix_def split_sequence_value_def plain_scalar)
qed simp_all

text \<open>The text.\<close>

definition line_ok :: "str \<Rightarrow> bool" where
  "line_ok l \<longleftrightarrow> l \<noteq> [] \<and> CHR 0x0A \<notin> set l \<and> is_ascii_graphic (last l)"

definition lined :: "str list \<Rightarrow> str" where
  "lined ls = concat (map (\<lambda>l. l @ [CHR 0x0A]) ls)"

lemma lined_simps [simp]: "lined [] = []" "lined (l # ls) = l @ CHR 0x0A # lined ls"
  by (simp_all add: lined_def)

lemma lined_append: "lined (ls @ ms) = lined ls @ lined ms"
  by (simp add: lined_def)

lemma lines_acc_line:
  "CHR 0x0A \<notin> set l \<Longrightarrow> lines_acc acc (l @ CHR 0x0A # s) = strip_cr (rev acc @ l) # lines_acc [] s"
  by (induction l arbitrary: acc) auto

lemma lines_acc_last: "CHR 0x0A \<notin> set l \<Longrightarrow> rev acc @ l \<noteq> [] \<Longrightarrow> lines_acc acc l = [rev acc @ l]"
  by (induction l arbitrary: acc) auto

lemma str_lines_lined:
  "list_all line_ok ls \<Longrightarrow> line_ok l \<Longrightarrow> str_lines (lined ls @ l) = ls @ [l]"
proof (induction ls)
  case Nil
  then show ?case by (simp add: str_lines_def lines_acc_last line_ok_def)
next
  case (Cons m ls)
  have "last m \<noteq> CHR 0x0D" using Cons.prems(1) by (auto simp: line_ok_def is_ascii_graphic_def code_def)
  then have "strip_cr m = m" by (simp add: strip_cr_def)
  then show ?case using Cons by (simp add: str_lines_def lines_acc_line line_ok_def)
qed

lemma split_on_last: "last (split_on d (a @ d # b)) = last (split_on d b)"
  by (simp add: split_on_append split_on_nonempty)

lemma strip_printed:
  assumes "list_all line_ok ls"
  shows "strip_fences (''---'' @ CHR 0x0A # lined ls @ ''---'' @ [CHR 0x0A])
    = trim_end (lined ls)"
proof -
  let ?x = "lined ls @ ''---''"
  have g: "is_ascii_graphic (CHR ''-'')" by (simp add: is_ascii_graphic_def code_def)
  have e: "trim_end (lined ls @ ''---'' @ [CHR 0x0A]) = ?x"
    using trim_end_newline [of ?x] g by (simp add: trim_end_graphic)
  have f: "last (split_on (CHR 0x0A) ?x) = ''---''"
  proof (cases ls rule: rev_cases)
    case (snoc ms m)
    have "last (split_on (CHR 0x0A) ((lined ms @ m) @ CHR 0x0A # ''---''))
        = last (split_on (CHR 0x0A) ''---'')" by (rule split_on_last)
    then show ?thesis using snoc by (simp add: lined_append)
  qed simp
  have t: "trim ''---'' = ''---''" using g by (intro trim_framed) (simp add: framed_def)
  have "trim_bom (''---'' @ CHR 0x0A # lined ls @ ''---'' @ [CHR 0x0A])
      = ''---'' @ CHR 0x0A # lined ls @ ''---'' @ [CHR 0x0A]"
    by (subst trim_bom.simps) simp
  moreover have "strip_prefix (''---'' @ [CHR 0x0A]) (''---'' @ CHR 0x0A # lined ls @ ''---'' @ [CHR 0x0A])
      = Some (lined ls @ ''---'' @ [CHR 0x0A])" by (simp add: strip_prefix_def)
  ultimately show ?thesis
    unfolding strip_fences_def Let_def using e f t by simp
qed

lemma trim_end_lined:
  assumes "list_all line_ok ls" "line_ok l"
  shows "trim_end (lined (ls @ [l])) = lined ls @ l"
proof -
  have "trim_end (lined (ls @ [l])) = trim_end (lined ls @ l)"
    using trim_end_newline [of "lined ls @ l"] by (simp add: lined_append)
  also have "\<dots> = lined ls @ l" using assms(2) by (intro trim_end_graphic) (auto simp: line_ok_def)
  finally show ?thesis .
qed

lemma lined_tokenize:
  assumes "list_all line_ok ls"
  shows "fm_tokenize (trim_end (lined ls)) = fm_tokens ls"
proof (cases ls rule: rev_cases)
  case Nil
  then show ?thesis by (simp add: fm_tokenize_def str_lines_def trim_end.simps)
next
  case (snoc ms m)
  then show ?thesis
    using assms trim_end_lined str_lines_lined by (simp add: fm_tokenize_def)
qed

lemma printed_tokens_plain:
  "plain_entries es \<Longrightarrow> list_all plain_token (entries_tokens i es)"
  "plain_items xs \<Longrightarrow> list_all plain_token (items_tokens i xs)"
  by (induction i es and i xs rule: entries_tokens_items_tokens.induct) auto

lemma rendered_line: "plain_token t \<Longrightarrow> line_ok (render t)"
proof -
  have nl: "CHR 0x0A \<notin> set w" if "list_all key_byte w" for w
    using that by (auto simp: list_all_iff key_byte_defs)
  have l: "w \<noteq> [] \<and> is_ascii_graphic (last w) \<and> CHR 0x0A \<notin> set w" if "plain w" for w
    using plain_framed [OF that] nl that by (simp add: framed_def plain_def)
  have k: "CHR 0x0A \<notin> set w" if "valid_key w" for w
    using nl that by (simp add: valid_key_def)
  have "is_ascii_graphic (CHR '':'')" by (simp add: is_ascii_graphic_def code_def)
  then show "plain_token t \<Longrightarrow> line_ok (render t)"
    using l k by (cases t rule: plain_token.cases) (auto simp: line_ok_def)
qed

lemma fm_tokens_rendered: "list_all plain_token ts \<Longrightarrow> fm_tokens (map render ts) = Inr ts"
  by (induction ts) (simp_all add: line_rendered)


definition sample_map :: "(str \<times> yaml_value) list" where
  "sample_map = [(''by'', YMapping [(''at'', YString ''x1'')]), (''id'', YString ''a.b''),
     (''tags'', YSequence [YString ''t'', YMapping [(''k'', YString ''v''), (''w'', YString ''u'')]])]"


lemma parsed_frontmatter_shape_witness: "fm_value (YMapping [(''id'', YString ''x'')])"
  by (rule parsed_frontmatter_shape [of "''id: x''"]) code_simp

section \<open>What is silently lost\<close>

text \<open>
  Two shapes are accepted with a loss: of duplicate keys in a nested mapping the last one
  wins, while at the top level and in a sequence item duplicates are errors; and the key of
  a sequence item without an inline value disappears, whether deeper lines follow or not.
\<close>

lemma nested_duplicate_last_wins:
  "parse_frontmatter (''a:'' @ CHR 0x0A # ''  k: one'' @ CHR 0x0A # ''  k: two'')
     = Some (Inr [(''a'', YMapping [(''k'', YString ''two'')])])
   \<and> parse_frontmatter (''k: one'' @ CHR 0x0A # ''k: two'') = Some (Inl ''duplicate frontmatter key: k'')"
  by code_simp

lemma item_key_dropped:
  "parse_frontmatter (''a:'' @ CHR 0x0A # ''  - by:'') = Some (Inr [(''a'', YSequence [YMapping []])])
   \<and> parse_frontmatter (''a:'' @ CHR 0x0A # ''  - by:'' @ CHR 0x0A # ''      x: y'')
     = Some (Inr [(''a'', YSequence [YMapping [(''x'', YString ''y'')]])])"
  by code_simp

end
