(* ===== verification/Descriptor.thy ===== *)
theory Descriptor
  imports Frontmatter Sql_Gate
begin

text \<open>
  \<open>database/mod.rs\<close>: the descriptors of the two database ports. An evidence source and a
  state store are parsed from the frontmatter subset into separate types; a credential is
  only ever a reference in the port's own scope. The checks stand in the code's order, so
  that the error reported first is the code's. The lemmas show what each accepted
  descriptor satisfies and that no text and no credential serves both ports.
\<close>

section \<open>Credentials and errors\<close>

datatype credential_scope = EvidenceScope | StateScope

fun scope_as_str :: "credential_scope \<Rightarrow> str" where
  "scope_as_str EvidenceScope = ''evidence''"
| "scope_as_str StateScope = ''state''"

record credential_reference =
  cr_scope :: credential_scope
  cr_name :: str

datatype descriptor_error =
    DMalformed
  | WrongKind
  | UnknownKey
  | MissingKey str
  | InvalidValue str
  | LimitOutOfRange str
  | CredentialNotReference
  | CredentialScope
  | CredentialNotAllowed

fun descriptor_error_display :: "descriptor_error \<Rightarrow> str" where
  "descriptor_error_display DMalformed = ''descriptor is not supported YAML''"
| "descriptor_error_display WrongKind = ''descriptor kind belongs to another port''"
| "descriptor_error_display UnknownKey = ''descriptor has a key this port does not accept''"
| "descriptor_error_display (MissingKey key) = ''descriptor is missing '' @ key"
| "descriptor_error_display (InvalidValue key) = ''descriptor '' @ key @ '' is invalid''"
| "descriptor_error_display (LimitOutOfRange key) = ''descriptor '' @ key @ '' is out of range''"
| "descriptor_error_display CredentialNotReference =
     ''credential must be a credref:<scope>/<name> reference''"
| "descriptor_error_display CredentialScope = ''credential reference belongs to another port''"
| "descriptor_error_display CredentialNotAllowed = ''this engine or backend takes no credential''"

definition name_byte :: "char \<Rightarrow> bool" where
  "name_byte b \<longleftrightarrow> is_ascii_lowercase b \<or> is_ascii_digit b \<or> b = CHR ''.'' \<or> b = CHR ''_'' \<or> b = CHR ''-''"

definition valid_name :: "str \<Rightarrow> bool" where
  "valid_name value \<longleftrightarrow> value \<noteq> [] \<and> length value \<le> 64
     \<and> (is_ascii_lowercase (hd value) \<or> is_ascii_digit (hd value)) \<and> list_all name_byte value"

definition path_byte :: "char \<Rightarrow> bool" where
  "path_byte b \<longleftrightarrow> is_ascii_alphanumeric b \<or> b = CHR ''.'' \<or> b = CHR ''_'' \<or> b = CHR ''-''"

definition safe_relative_path :: "str \<Rightarrow> bool" where
  "safe_relative_path value \<longleftrightarrow> value \<noteq> [] \<and> length value \<le> 256
     \<and> list_all (\<lambda>segment. segment \<noteq> [] \<and> segment \<noteq> ''.'' \<and> segment \<noteq> ''..'' \<and> list_all path_byte segment)
         (split_on (CHR ''/'') value)"

definition is_digest :: "str \<Rightarrow> bool" where
  "is_digest value =
     (case strip_prefix ''sha256:'' value of
        None \<Rightarrow> False
      | Some hex \<Rightarrow> length hex = 64
          \<and> list_all (\<lambda>b. is_ascii_digit b \<or> 97 \<le> code b \<and> code b \<le> 102) hex)"

definition credential_parse :: "str \<Rightarrow> credential_scope \<Rightarrow> descriptor_error + credential_reference" where
  "credential_parse value scope =
     (case (case strip_prefix ''credref:'' value of None \<Rightarrow> None | Some rest \<Rightarrow> split_once (CHR ''/'') rest) of
        None \<Rightarrow> Inl CredentialNotReference
      | Some (found, name) \<Rightarrow>
          if \<not> valid_name name then Inl CredentialNotReference
          else
            (case (if found = ''evidence'' then Some EvidenceScope
                   else if found = ''state'' then Some StateScope else None) of
               None \<Rightarrow> Inl CredentialNotReference
             | Some s \<Rightarrow>
                 if s \<noteq> scope then Inl CredentialScope
                 else Inr \<lparr>cr_scope = scope, cr_name = name\<rparr>))"

definition credential_display :: "credential_reference \<Rightarrow> str" where
  "credential_display c = ''credref:'' @ scope_as_str (cr_scope c) @ ''/'' @ cr_name c"

section \<open>Fields\<close>

text \<open>A descriptor mapping of the right kind with only the keys its port accepts. The
  parser's missing result (\<open>None\<close>) does not occur: \<open>parse_frontmatter_total\<close>.\<close>

type_synonym fields = "(str, yaml_value) omap"

definition fields_parse :: "str \<Rightarrow> str \<Rightarrow> str list \<Rightarrow> descriptor_error + fields" where
  "fields_parse text kind allowed =
     (case parse_frontmatter text of
        Some (Inr m) \<Rightarrow>
          (case om_get m ''kind'' of
             Some (YString found) \<Rightarrow>
               if found \<noteq> kind then Inl WrongKind
               else if \<not> list_all (\<lambda>key. key \<in> set allowed) (om_keys m) then Inl UnknownKey
               else Inr m
           | Some _ \<Rightarrow> Inl WrongKind
           | None \<Rightarrow> Inl (MissingKey ''kind''))
      | _ \<Rightarrow> Inl DMalformed)"

definition field_text :: "fields \<Rightarrow> str \<Rightarrow> descriptor_error + str option" where
  "field_text f key =
     (case om_get f key of
        None \<Rightarrow> Inr None
      | Some (YString v) \<Rightarrow> Inr (Some v)
      | Some _ \<Rightarrow> Inl (InvalidValue key))"

definition field_required :: "fields \<Rightarrow> str \<Rightarrow> descriptor_error + str" where
  "field_required f key = res_bind (field_text f key) (ok_or (MissingKey key))"

definition field_name :: "fields \<Rightarrow> str \<Rightarrow> descriptor_error + str" where
  "field_name f key =
     res_bind (field_required f key)
       (\<lambda>v. if valid_name v then Inr v else Inl (InvalidValue key))"

definition field_list :: "fields \<Rightarrow> str \<Rightarrow> descriptor_error + str list option" where
  "field_list f key =
     (case om_get f key of
        None \<Rightarrow> Inr None
      | Some (YSequence items) \<Rightarrow>
          res_bind (res_map (\<lambda>i. case i of YString v \<Rightarrow> Inr v | _ \<Rightarrow> Inl (InvalidValue key)) items)
            (\<lambda>vs. Inr (Some vs))
      | Some _ \<Rightarrow> Inl (InvalidValue key))"

definition field_number :: "fields \<Rightarrow> str \<Rightarrow> nat option \<Rightarrow> nat \<Rightarrow> descriptor_error + nat" where
  "field_number f key dflt most =
     res_bind (field_text f key)
       (\<lambda>v. case v of
          None \<Rightarrow> ok_or (MissingKey key) dflt
        | Some value \<Rightarrow>
            (case parse_uint u64_max value of
               Some n \<Rightarrow> if 1 \<le> n \<and> n \<le> most then Inr n else Inl (LimitOutOfRange key)
             | None \<Rightarrow> Inl (LimitOutOfRange key)))"

definition field_credential ::
  "fields \<Rightarrow> str \<Rightarrow> credential_scope \<Rightarrow> descriptor_error + credential_reference option" where
  "field_credential f key scope =
     res_bind (field_text f key)
       (\<lambda>v. case v of
          None \<Rightarrow> Inr None
        | Some value \<Rightarrow> res_bind (credential_parse value scope) (\<lambda>c. Inr (Some c)))"

section \<open>Evidence sources\<close>

datatype engine = SqliteEngine | PostgresqlEngine

fun engine_as_str :: "engine \<Rightarrow> str" where
  "engine_as_str SqliteEngine = ''sqlite''"
| "engine_as_str PostgresqlEngine = ''postgresql''"

datatype access_mode = Introspection | BoundedRows

fun access_as_str :: "access_mode \<Rightarrow> str" where
  "access_as_str Introspection = ''introspection''"
| "access_as_str BoundedRows = ''bounded-rows''"

record evidence_limits =
  el_max_rows :: nat
  el_max_bytes :: nat
  el_timeout_ms :: nat

record evidence_source =
  es_id :: str
  es_engine :: engine
  es_database :: str
  es_credential :: "credential_reference option"
  es_access :: access_mode
  es_relations :: "relation_name list"
  es_queries :: "str list"
  es_snapshot :: "str option"
  es_limits :: evidence_limits

definition EVIDENCE_KEYS :: "str list" where
  "EVIDENCE_KEYS = [''kind'', ''id'', ''engine'', ''database'', ''credential'', ''access'',
     ''relations'', ''queries'', ''snapshot'', ''max_rows'', ''max_bytes'', ''timeout_ms'']"

definition parse_engine :: "str \<Rightarrow> descriptor_error + engine" where
  "parse_engine v =
     (if v = ''sqlite'' then Inr SqliteEngine
      else if v = ''postgresql'' then Inr PostgresqlEngine
      else Inl (InvalidValue ''engine''))"

text \<open>The engine decides the shape of the database handle and whether a credential is
  refused or required.\<close>

definition check_engine ::
  "engine \<Rightarrow> str \<Rightarrow> credential_reference option \<Rightarrow> descriptor_error option" where
  "check_engine e database credential =
     (if e = SqliteEngine \<and> \<not> safe_relative_path database then Some (InvalidValue ''database'')
      else if e = PostgresqlEngine \<and> \<not> valid_name database then Some (InvalidValue ''database'')
      else if e = SqliteEngine \<and> credential \<noteq> None then Some CredentialNotAllowed
      else if e = PostgresqlEngine \<and> credential = None then Some (MissingKey ''credential'')
      else None)"

definition parse_access :: "str option \<Rightarrow> descriptor_error + access_mode" where
  "parse_access v =
     (case v of
        None \<Rightarrow> Inr Introspection
      | Some a \<Rightarrow>
          if a = ''introspection'' then Inr Introspection
          else if a = ''bounded-rows'' then Inr BoundedRows
          else Inl (InvalidValue ''access''))"

definition parse_relations :: "str list \<Rightarrow> descriptor_error + relation_name list" where
  "parse_relations listed =
     (case res_map (\<lambda>n. ok_or (InvalidValue ''relations'') (relation_parse n)) listed of
        Inl e \<Rightarrow> Inl e
      | Inr rs \<Rightarrow>
          (let s = btree_set rs in
           if s \<noteq> [] \<and> length s = length listed then Inr s else Inl (InvalidValue ''relations'')))"

definition evidence_parse :: "str \<Rightarrow> descriptor_error + evidence_source" where
  "evidence_parse text =
     res_bind (fields_parse text ''evidence-source'' EVIDENCE_KEYS) (\<lambda>f.
     res_bind (field_name f ''id'') (\<lambda>id.
     res_bind (res_bind (field_required f ''engine'') parse_engine) (\<lambda>eng.
     res_bind (field_required f ''database'') (\<lambda>database.
     res_bind (field_credential f ''credential'' EvidenceScope) (\<lambda>credential.
     (case check_engine eng database credential of
        Some e \<Rightarrow> Inl e
      | None \<Rightarrow>
     res_bind (res_bind (field_text f ''access'') parse_access) (\<lambda>access.
     res_bind (res_bind (field_list f ''relations'') (ok_or (MissingKey ''relations''))) (\<lambda>listed.
     res_bind (parse_relations listed) (\<lambda>relations.
     res_bind (field_list f ''queries'') (\<lambda>qs.
     (let queries = (case qs of None \<Rightarrow> [] | Some q \<Rightarrow> q) in
      if \<not> list_all is_digest queries then Inl (InvalidValue ''queries'')
      else
     res_bind (field_text f ''snapshot'') (\<lambda>snapshot.
      if (case snapshot of None \<Rightarrow> False | Some v \<Rightarrow> \<not> is_digest v) then Inl (InvalidValue ''snapshot'')
      else
     res_bind (field_number f ''max_rows'' (Some 100) 10000) (\<lambda>max_rows.
     res_bind (field_number f ''max_bytes'' (Some 65536) (4 * 1024 * 1024)) (\<lambda>max_bytes.
     res_bind (field_number f ''timeout_ms'' (Some 5000) 60000) (\<lambda>timeout_ms.
       Inr \<lparr>es_id = id, es_engine = eng, es_database = database, es_credential = credential,
            es_access = access, es_relations = relations, es_queries = queries,
            es_snapshot = snapshot,
            es_limits = \<lparr>el_max_rows = max_rows, el_max_bytes = max_bytes,
                         el_timeout_ms = timeout_ms\<rparr>\<rparr>)))))))))))))))"

section \<open>State stores\<close>

datatype state_backend = FileBackend | SqliteBackend | PostgresqlBackend

record state_store_descriptor =
  sd_id :: str
  sd_backend :: state_backend
  sd_location :: str
  sd_namespace :: str
  sd_quota_bytes :: nat
  sd_credential :: "credential_reference option"
  sd_encryption_key :: "credential_reference option"

definition STATE_KEYS :: "str list" where
  "STATE_KEYS = [''kind'', ''id'', ''backend'', ''location'', ''namespace'', ''quota_bytes'',
     ''credential'', ''encryption_key'']"

definition parse_backend :: "str \<Rightarrow> descriptor_error + state_backend" where
  "parse_backend v =
     (if v = ''file'' then Inr FileBackend
      else if v = ''sqlite'' then Inr SqliteBackend
      else if v = ''postgresql'' then Inr PostgresqlBackend
      else Inl (InvalidValue ''backend''))"

definition check_backend ::
  "state_backend \<Rightarrow> credential_reference option \<Rightarrow> descriptor_error option" where
  "check_backend b credential =
     (if b = PostgresqlBackend \<and> credential = None then Some (MissingKey ''credential'')
      else if b \<noteq> PostgresqlBackend \<and> credential \<noteq> None then Some CredentialNotAllowed
      else None)"

definition state_parse :: "str \<Rightarrow> descriptor_error + state_store_descriptor" where
  "state_parse text =
     res_bind (fields_parse text ''state-store'' STATE_KEYS) (\<lambda>f.
     res_bind (field_name f ''id'') (\<lambda>id.
     res_bind (res_bind (field_required f ''backend'') parse_backend) (\<lambda>backend.
     res_bind (field_required f ''location'') (\<lambda>location.
      if \<not> safe_relative_path location then Inl (InvalidValue ''location'')
      else
     res_bind (field_name f ''namespace'') (\<lambda>namespace.
     res_bind (field_number f ''quota_bytes'' None (2 ^ 30)) (\<lambda>quota.
     res_bind (field_credential f ''credential'' StateScope) (\<lambda>credential.
     (case check_backend backend credential of
        Some e \<Rightarrow> Inl e
      | None \<Rightarrow>
     res_bind (field_credential f ''encryption_key'' StateScope) (\<lambda>key.
       Inr \<lparr>sd_id = id, sd_backend = backend, sd_location = location,
            sd_namespace = namespace, sd_quota_bytes = quota, sd_credential = credential,
            sd_encryption_key = key\<rparr>)))))))))"

section \<open>What accepted descriptors satisfy\<close>

definition credential_ok :: "credential_scope \<Rightarrow> credential_reference \<Rightarrow> bool" where
  "credential_ok s c \<longleftrightarrow> cr_scope c = s \<and> valid_name (cr_name c)"

lemma credential_parse_ok: "credential_parse v s = Inr c \<Longrightarrow> credential_ok s c"
  by (auto simp: credential_parse_def credential_ok_def split: option.splits prod.splits if_splits)

lemma field_credential_ok: "field_credential f k s = Inr c \<Longrightarrow> pred_option (credential_ok s) c"
  by (auto simp: field_credential_def res_bind_Inr credential_parse_ok split: option.splits)

lemma field_name_ok: "field_name f k = Inr v \<Longrightarrow> valid_name v"
  by (auto simp: field_name_def res_bind_Inr split: if_splits)

lemma field_number_ok:
  "field_number f k d m = Inr n \<Longrightarrow> (\<And>x. d = Some x \<Longrightarrow> 1 \<le> x \<and> x \<le> m) \<Longrightarrow> 1 \<le> n \<and> n \<le> m"
  by (auto simp: field_number_def res_simps split: option.splits if_splits)

lemma relation_parse_valid:
  "relation_parse v = Some r \<Longrightarrow> valid_part (rn_schema r) \<and> valid_part (rn_relation r)"
  by (auto simp: relation_parse_def split: option.splits if_splits)

lemma relations_parsed:
  "res_map (\<lambda>n. ok_or e (relation_parse n)) xs = Inr rs \<Longrightarrow>
    map relation_parse xs = map Some rs"
  by (induction xs arbitrary: rs) (auto simp: res_simps)

lemma parse_relations_ok:
  assumes "parse_relations listed = Inr rs"
  shows "rs \<noteq> []" "sorted rs" "distinct rs" "set (map Some rs) = relation_parse ` set listed"
    "distinct listed"
    "\<forall>r \<in> set rs. valid_part (rn_schema r) \<and> valid_part (rn_relation r)"
proof -
  obtain xs where x: "res_map (\<lambda>n. ok_or (InvalidValue ''relations'') (relation_parse n)) listed = Inr xs"
    "rs = btree_set xs" "btree_set xs \<noteq> []" "length (btree_set xs) = length listed"
    using assms by (auto simp: parse_relations_def Let_def split: sum.splits if_splits)
  note m = relations_parsed [OF x(1)]
  show "rs \<noteq> []" "sorted rs" "distinct rs" using x by auto
  show s: "set (map Some rs) = relation_parse ` set listed"
    using arg_cong [OF m, of set] x(2) by simp
  have "length xs = length listed" using arg_cong [OF m, of length] by simp
  then have "length (remdups xs) = length xs" using x(4) by (simp add: btree_set_def)
  then have "distinct xs" unfolding length_remdups_eq by (rule subst) (rule distinct_remdups)
  then have "distinct (map relation_parse listed)" unfolding m by (simp add: distinct_map)
  then show "distinct listed" by (simp add: distinct_map)
  show "\<forall>r \<in> set rs. valid_part (rn_schema r) \<and> valid_part (rn_relation r)"
  proof
    fix r assume "r \<in> set rs"
    then have "Some r \<in> set (map Some rs)" by simp
    then obtain v where "relation_parse v = Some r" unfolding s by auto
    then show "valid_part (rn_schema r) \<and> valid_part (rn_relation r)" by (rule relation_parse_valid)
  qed
qed

definition evidence_ok :: "evidence_source \<Rightarrow> bool" where
  "evidence_ok d \<longleftrightarrow> valid_name (es_id d)
     \<and> (case es_engine d of
          SqliteEngine \<Rightarrow> safe_relative_path (es_database d) \<and> es_credential d = None
        | PostgresqlEngine \<Rightarrow> valid_name (es_database d)
            \<and> (\<exists>c. es_credential d = Some c \<and> credential_ok EvidenceScope c))
     \<and> es_relations d \<noteq> [] \<and> sorted (es_relations d) \<and> distinct (es_relations d)
     \<and> (\<forall>r \<in> set (es_relations d). valid_part (rn_schema r) \<and> valid_part (rn_relation r))
     \<and> list_all is_digest (es_queries d) \<and> pred_option is_digest (es_snapshot d)
     \<and> 1 \<le> el_max_rows (es_limits d) \<and> el_max_rows (es_limits d) \<le> 10000
     \<and> 1 \<le> el_max_bytes (es_limits d) \<and> el_max_bytes (es_limits d) \<le> 4194304
     \<and> 1 \<le> el_timeout_ms (es_limits d) \<and> el_timeout_ms (es_limits d) \<le> 60000"

text \<open>
  Every accepted evidence-source descriptor is within its contract: a valid id; a safe
  relative path and no credential for SQLite, a plain database name and a credential of the
  evidence scope for PostgreSQL; a non-empty sorted duplicate-free list of valid relation
  names; query and snapshot identifiers that are SHA-256 digests; every limit between one
  and its maximum.
\<close>

theorem evidence_descriptor_ok:
  assumes "evidence_parse text = Inr d"
  shows "evidence_ok d"
  using assms unfolding evidence_parse_def Let_def res_bind_Inr res_guard sum.inject
proof (elim exE conjE, goal_cases)
  case (1 f id eng engine database credential acc a listed l relations qs snapshot rows bytes ms)
  have "1 \<le> rows \<and> rows \<le> 10000" "1 \<le> bytes \<and> bytes \<le> 4 * 1024 * 1024" "1 \<le> ms \<and> ms \<le> 60000"
    using 1(17-19)[THEN field_number_ok] by simp_all
  moreover have "pred_option is_digest snapshot" using 1(16) by (cases snapshot) auto
  ultimately show ?case
    using 1(7,14) field_name_ok [OF 1(2)] field_credential_ok [OF 1(6)] parse_relations_ok [OF 1(12)]
    unfolding evidence_ok_def 1(20) [symmetric]
    by (cases eng; cases credential) (simp_all add: check_engine_def split: if_splits)
qed

definition state_ok :: "state_store_descriptor \<Rightarrow> bool" where
  "state_ok d \<longleftrightarrow> valid_name (sd_id d) \<and> safe_relative_path (sd_location d)
     \<and> valid_name (sd_namespace d) \<and> 1 \<le> sd_quota_bytes d \<and> sd_quota_bytes d \<le> 1073741824
     \<and> (case sd_credential d of
          None \<Rightarrow> sd_backend d \<noteq> PostgresqlBackend
        | Some c \<Rightarrow> sd_backend d = PostgresqlBackend \<and> credential_ok StateScope c)
     \<and> pred_option (credential_ok StateScope) (sd_encryption_key d)"

text \<open>
  Every accepted state-store descriptor is within its contract: valid id and
  namespace, a safe relative location, a quota between one byte and one gibibyte, a
  credential of the state scope exactly when the backend is PostgreSQL, and an encryption
  key, if any, of the state scope.
\<close>

theorem state_descriptor_ok:
  assumes "state_parse text = Inr d"
  shows "state_ok d"
  using assms unfolding state_parse_def Let_def res_bind_Inr res_guard sum.inject
proof (elim exE conjE, goal_cases)
  case (1 f id backend b location ns quota credential key)
  then show ?case
    using field_name_ok [OF 1(2)] field_name_ok [OF 1(7)] field_number_ok [OF 1(8)]
      field_credential_ok [OF 1(9)] field_credential_ok [OF 1(11)]
    unfolding state_ok_def 1(12) [symmetric]
    by (cases credential) (simp_all add: check_backend_def split: if_splits)
qed

section \<open>The ports are separate\<close>

lemma field_kind:
  "fields_parse text kind allowed = Inr f \<Longrightarrow>
    parse_frontmatter text = Some (Inr f) \<and> om_get f ''kind'' = Some (YString kind)"
  by (auto simp: fields_parse_def split: option.splits sum.splits yaml_value.splits if_splits)

lemma field_other_kind:
  "parse_frontmatter text = Some (Inr f) \<Longrightarrow> om_get f ''kind'' = Some (YString kind) \<Longrightarrow> kind \<noteq> other \<Longrightarrow>
    fields_parse text other allowed = Inl WrongKind"
  by (simp add: fields_parse_def)

text \<open>
  No text configures both ports: what one port's parser accepts, the other's refuses as
  a descriptor of the wrong kind. And no credential authorizes both: a reference accepted
  for one scope is refused for the other.
\<close>

theorem ports_are_disjoint:
  "(is_ok (evidence_parse text) \<longrightarrow> state_parse text = Inl WrongKind)
   \<and> (is_ok (state_parse text) \<longrightarrow> evidence_parse text = Inl WrongKind)
   \<and> (credential_parse value EvidenceScope = Inr c \<longrightarrow> credential_parse value StateScope = Inl CredentialScope)
   \<and> (credential_parse value StateScope = Inr c \<longrightarrow> credential_parse value EvidenceScope = Inl CredentialScope)"
proof (intro conjI impI)
  assume "is_ok (evidence_parse text)"
  then obtain f where "fields_parse text ''evidence-source'' EVIDENCE_KEYS = Inr f"
    unfolding is_ok_iff evidence_parse_def res_bind_Inr by blast
  from field_kind [OF this] show "state_parse text = Inl WrongKind"
    by (simp add: state_parse_def field_other_kind)
next
  assume "is_ok (state_parse text)"
  then obtain f where "fields_parse text ''state-store'' STATE_KEYS = Inr f"
    unfolding is_ok_iff state_parse_def res_bind_Inr by blast
  from field_kind [OF this] show "evidence_parse text = Inl WrongKind"
    by (simp add: evidence_parse_def field_other_kind)
qed (auto simp: credential_parse_def split: option.splits prod.splits if_splits)

lemma scope_no_slash: "CHR ''/'' \<notin> set (scope_as_str s)"
  by (cases s) auto

text \<open>
  Credential references round-trip: a text is accepted for a scope exactly when it is
  the display of a reference of that scope with a valid name, and the result is that
  reference.
\<close>

theorem credential_roundtrip:
  "credential_parse value s = Inr c \<longleftrightarrow> credential_ok s c \<and> value = credential_display c"
proof
  assume a: "credential_parse value s = Inr c"
  then obtain rest found where r: "strip_prefix ''credref:'' value = Some rest"
    "split_once (CHR ''/'') rest = Some (found, cr_name c)" "found = scope_as_str (cr_scope c)"
    by (auto simp: credential_parse_def split: option.splits prod.splits if_splits)
  have "value = ''credref:'' @ rest"
    using r(1) by (auto simp: strip_prefix_def prefix_def split: if_splits)
  then show "credential_ok s c \<and> value = credential_display c"
    using credential_parse_ok [OF a] split_once_Some [OF r(2)] r(3) by (simp add: credential_display_def)
next
  assume a: "credential_ok s c \<and> value = credential_display c"
  have "split_once (CHR ''/'') (scope_as_str (cr_scope c) @ CHR ''/'' # cr_name c)
      = Some (scope_as_str (cr_scope c), cr_name c)"
    by (rule split_once_intro [OF scope_no_slash])
  then show "credential_parse value s = Inr c"
    using a by (cases s) (auto simp: credential_parse_def credential_display_def credential_ok_def strip_prefix_def)
qed

section \<open>Sample descriptors\<close>

definition sample_lines :: "str list \<Rightarrow> str" where
  "sample_lines ls = concat (map (\<lambda>l. l @ [CHR 0x0A]) ls)"

definition evidence_sample :: str where
  "evidence_sample = sample_lines [''kind: evidence-source'', ''id: orders'', ''engine: postgresql'',
     ''database: orders'', ''credential: credref:evidence/reader'', ''access: bounded-rows'',
     ''relations: [main.b, main.a]'', ''max_rows: 50'']"

definition state_sample :: str where
  "state_sample = sample_lines [''kind: state-store'', ''id: cache'', ''backend: file'',
     ''location: state/cache'', ''namespace: n1'', ''quota_bytes: 4096'']"

lemma evidence_sample_parsed:
  "evidence_parse evidence_sample = Inr
     \<lparr>es_id = ''orders'', es_engine = PostgresqlEngine, es_database = ''orders'',
      es_credential = Some \<lparr>cr_scope = EvidenceScope, cr_name = ''reader''\<rparr>,
      es_access = BoundedRows,
      es_relations = [RelationName ''main'' ''a'', RelationName ''main'' ''b''],
      es_queries = [], es_snapshot = None,
      es_limits = \<lparr>el_max_rows = 50, el_max_bytes = 65536, el_timeout_ms = 5000\<rparr>\<rparr>"
  by code_simp

lemma state_sample_parsed:
  "state_parse state_sample = Inr
     \<lparr>sd_id = ''cache'', sd_backend = FileBackend, sd_location = ''state/cache'',
      sd_namespace = ''n1'', sd_quota_bytes = 4096, sd_credential = None, sd_encryption_key = None\<rparr>"
  by code_simp

lemma evidence_descriptor_ok_witness: "\<exists>d. evidence_parse evidence_sample = Inr d \<and> evidence_ok d"
  using evidence_sample_parsed evidence_descriptor_ok by blast

lemma state_descriptor_ok_witness: "\<exists>d. state_parse state_sample = Inr d \<and> state_ok d"
  using state_sample_parsed state_descriptor_ok by blast

lemma ports_are_disjoint_witness:
  "state_parse evidence_sample = Inl WrongKind \<and> evidence_parse state_sample = Inl WrongKind"
  using ports_are_disjoint [of evidence_sample] ports_are_disjoint [of state_sample]
  by (simp add: evidence_sample_parsed state_sample_parsed)

end
