(* ===== verification/Ignore.thy ===== *)
theory Ignore
  imports Prelude
begin

text \<open>
  \<open>scan/ignore.rs\<close>: the pure matcher of ignored paths. Parsing of the root
  \<open>.branignore\<close> (strict, the first bad line is the error) and of \<open>.gitignore\<close> (lenient,
  with negation), and the matcher with its built-in exclusions. \<open>match_indices('/')\<close> is the
  list of the slash positions. The lemmas relate the byte-index matching to a specification
  on path components.
\<close>

section \<open>Diagnostics\<close>

definition MAX_BRANIGNORE_BYTES :: nat where
  "MAX_BRANIGNORE_BYTES = 64 * 1024"

definition BUILTIN_COMPONENTS :: "str list" where
  "BUILTIN_COMPONENTS = [''.git'', ''.bearing'', ''target'', ''node_modules'', ''vendor'',
     ''generated'', ''cache'', ''caches'']"

datatype rule_error = EmptyPattern | AbsolutePath | Traversal | MultipleWildcards

datatype ignore_diagnostic =
    InputTooLarge nat
  | InvalidUtf8
  | InvalidRule nat rule_error

fun rule_error_display :: "rule_error \<Rightarrow> str" where
  "rule_error_display EmptyPattern = ''empty pattern''"
| "rule_error_display AbsolutePath = ''absolute paths are not allowed''"
| "rule_error_display Traversal = ''dot or parent traversal components are not allowed''"
| "rule_error_display MultipleWildcards = 
     ''at most one '' @ CHR 0x27 # ''*'' @ CHR 0x27 # '' wildcard is allowed''"

fun ignore_diagnostic_display :: "ignore_diagnostic \<Rightarrow> str" where
  "ignore_diagnostic_display (InputTooLarge n) =
     ''ignore file is '' @ dec n @ '' bytes; maximum is '' @ dec MAX_BRANIGNORE_BYTES"
| "ignore_diagnostic_display InvalidUtf8 = ''ignore file must be valid UTF-8''"
| "ignore_diagnostic_display (InvalidRule line reason) =
     ''ignore file line '' @ dec line @ '': '' @ rule_error_display reason"

section \<open>Rules\<close>

record rule =
  r_pattern :: str
  r_anchored :: bool
  r_directory :: bool
  r_has_slash :: bool

record git_rule =
  g_rule :: rule
  g_negated :: bool

record ignore_matcher =
  im_rules :: "rule list"
  im_git_rules :: "git_rule list"

definition looks_like_drive_path :: "str \<Rightarrow> bool" where
  "looks_like_drive_path path \<longleftrightarrow>
     length path > 1 \<and> path ! 1 = CHR '':'' \<and> is_ascii_alphabetic (hd path)"

definition rule_parse :: "str \<Rightarrow> rule_error + rule" where
  "rule_parse input =
     (let normalized = map (\<lambda>c. if c = CHR 0x5C then CHR ''/'' else c) input in
      if prefix ''//'' normalized \<or> looks_like_drive_path normalized then Inl AbsolutePath
      else
        (let anchored = prefix ''/'' normalized;
             body = trim_start_matches (CHR ''/'') normalized;
             directory = suffix ''/'' body;
             parts = filter (\<lambda>part. part \<noteq> []) (split_on (CHR ''/'') body)
         in if parts = [] then Inl (if anchored then AbsolutePath else EmptyPattern)
            else if list_ex (\<lambda>part. part = ''.'' \<or> part = ''..'') parts then Inl Traversal
            else
              (let pattern = join ''/'' parts in
               if length (filter (\<lambda>c. c = CHR ''*'') pattern) > 1 then Inl MultipleWildcards
               else Inr \<lparr>r_pattern = pattern, r_anchored = anchored, r_directory = directory,
                         r_has_slash = (CHR ''/'' \<in> set pattern)\<rparr>)))"

definition wildcard_match :: "str \<Rightarrow> str \<Rightarrow> bool" where
  "wildcard_match pattern value =
     (case split_once (CHR ''*'') pattern of
        None \<Rightarrow> pattern = value
      | Some (p, s) \<Rightarrow> prefix p value \<and> suffix s value \<and> length value \<ge> length p + length s)"

definition slash_indices :: "str \<Rightarrow> nat list" where
  "slash_indices s = filter (\<lambda>i. s ! i = CHR ''/'') [0..<length s]"

definition matches_target :: "rule \<Rightarrow> str \<Rightarrow> bool" where
  "matches_target r target \<longleftrightarrow>
     wildcard_match (r_pattern r) target
     \<or> r_directory r \<and> list_ex (\<lambda>i. wildcard_match (r_pattern r) (take i target)) (slash_indices target)"

definition rule_matches :: "rule \<Rightarrow> str \<Rightarrow> bool" where
  "rule_matches r path =
     (if r_anchored r then matches_target r path
      else if \<not> r_has_slash r then list_ex (matches_target r) (split_on (CHR ''/'') path)
      else matches_target r path
        \<or> list_ex (\<lambda>i. matches_target r (drop (i + 1) path)) (slash_indices path))"

section \<open>Files\<close>

text \<open>The loop over the lines of \<open>.branignore\<close>; \<open>n\<close> is the one-based line number.\<close>

fun parse_rules :: "nat \<Rightarrow> str list \<Rightarrow> ignore_diagnostic + rule list" where
  "parse_rules n [] = Inr []"
| "parse_rules n (raw # ls) =
     (let line = trim raw in
      if line = [] \<or> hd line = CHR ''#'' then parse_rules (n + 1) ls
      else
        (case rule_parse line of
           Inl reason \<Rightarrow> Inl (InvalidRule n reason)
         | Inr r \<Rightarrow> res_bind (parse_rules (n + 1) ls) (\<lambda>rs. Inr (r # rs))))"

definition from_branignore :: "bytes \<Rightarrow> ignore_diagnostic + ignore_matcher" where
  "from_branignore b =
     (if length b > MAX_BRANIGNORE_BYTES then Inl (InputTooLarge (length b))
      else if \<not> valid_utf8 b then Inl InvalidUtf8
      else res_bind (parse_rules 1 (str_lines b))
        (\<lambda>rs. Inr \<lparr>im_rules = rs, im_git_rules = []\<rparr>))"

definition from_okfignore :: "bytes \<Rightarrow> ignore_diagnostic + ignore_matcher" where
  "from_okfignore b = from_branignore b"

fun parse_git_rules :: "str list \<Rightarrow> git_rule list" where
  "parse_git_rules [] = []"
| "parse_git_rules (raw # ls) =
     (let line = trim raw in
      if line = [] \<or> hd line = CHR ''#'' then parse_git_rules ls
      else
        (let (negated, pattern) =
           (case strip_prefix ''!'' line of None \<Rightarrow> (False, line) | Some p \<Rightarrow> (True, p))
         in case rule_parse pattern of
              Inl _ \<Rightarrow> parse_git_rules ls
            | Inr r \<Rightarrow> \<lparr>g_rule = r, g_negated = negated\<rparr> # parse_git_rules ls))"

definition add_gitignore :: "ignore_matcher \<Rightarrow> bytes \<Rightarrow> ignore_matcher" where
  "add_gitignore m b =
     (if \<not> valid_utf8 b then m
      else m\<lparr>im_git_rules := im_git_rules m @ parse_git_rules (str_lines b)\<rparr>)"

definition is_ignored_relative :: "ignore_matcher \<Rightarrow> str \<Rightarrow> bool" where
  "is_ignored_relative m relative_path =
     (let path = trim_end_matches (CHR ''/'') relative_path in
      if list_ex (\<lambda>c. c \<in> set BUILTIN_COMPONENTS) (split_on (CHR ''/'') path) then True
      else if list_ex (\<lambda>r. rule_matches r path) (im_rules m) then True
      else foldl (\<lambda>_ g. \<not> g_negated g) False
        (filter (\<lambda>g. rule_matches (g_rule g) path) (im_git_rules m)))"

section \<open>The specification of matching\<close>

text \<open>A pattern with one star stands for all strings with something in the star's place.\<close>

definition glob :: "str \<Rightarrow> str \<Rightarrow> bool" where
  "glob pattern value \<longleftrightarrow> CHR ''*'' \<notin> set pattern \<and> pattern = value
     \<or> (\<exists>p s m. pattern = p @ CHR ''*'' # s \<and> CHR ''*'' \<notin> set p \<and> value = p @ m @ s)"

lemma wildcard_glob: "wildcard_match pattern value \<longleftrightarrow> glob pattern value"
proof (cases "split_once (CHR ''*'') pattern")
  case None
  then have "CHR ''*'' \<notin> set pattern" by (simp add: split_once_iff)
  then show ?thesis unfolding wildcard_match_def glob_def None by auto
next
  case (Some ps)
  obtain p s where ps: "ps = (p, s)" by (cases ps)
  then have e: "pattern = p @ CHR ''*'' # s" "CHR ''*'' \<notin> set p" using Some by (auto simp: split_once_iff)
  have "prefix p value \<and> suffix s value \<and> length value \<ge> length p + length s
    \<longleftrightarrow> (\<exists>m. value = p @ m @ s)"
  proof
    assume a: "prefix p value \<and> suffix s value \<and> length value \<ge> length p + length s"
    then obtain u v where uv: "value = p @ u" "value = v @ s" unfolding prefix_def suffix_def by blast
    have "length value = length v + length s" using uv(2) by (metis length_append)
    then have "length p \<le> length v" using a by linarith
    then obtain m where "v = p @ m" using uv by (auto simp: append_eq_append_conv2)
    then show "\<exists>m. value = p @ m @ s" using uv by auto
  next
    assume "\<exists>m. value = p @ m @ s"
    then show "prefix p value \<and> suffix s value \<and> length value \<ge> length p + length s"
      by (auto simp: suffix_def)
  qed
  moreover have "glob pattern value \<longleftrightarrow> (\<exists>m. value = p @ m @ s)"
  proof -
    have only: "p' = p \<and> s' = s" if "p @ CHR ''*'' # s = p' @ CHR ''*'' # s'" "CHR ''*'' \<notin> set p'" for p' s'
    proof -
      have "split_once (CHR ''*'') (p @ CHR ''*'' # s) = Some (p', s')"
        using that unfolding split_once_iff by blast
      then show ?thesis using split_once_intro [OF e(2)] by simp
    qed
    have star: "CHR ''*'' \<in> set (p @ CHR ''*'' # s)" by simp
    show ?thesis
    proof
      assume "glob pattern value"
      then obtain p' s' m where "p @ CHR ''*'' # s = p' @ CHR ''*'' # s'" "CHR ''*'' \<notin> set p'"
        "value = p' @ m @ s'" unfolding glob_def e(1) using star by blast
      then show "\<exists>m. value = p @ m @ s" using only by blast
    next
      assume "\<exists>m. value = p @ m @ s"
      then show "glob pattern value" unfolding glob_def e(1) using e(2) by blast
    qed
  qed
  ultimately show ?thesis using Some ps by (simp add: wildcard_match_def)
qed

text \<open>The prefixes and suffixes of a path that end or start at a component border.\<close>

lemma slash_index: "i \<in> set (slash_indices s) \<longleftrightarrow> (\<exists>a b. s = a @ CHR ''/'' # b \<and> length a = i)"
proof
  assume "i \<in> set (slash_indices s)"
  then have i: "i < length s" "s ! i = CHR ''/''" by (auto simp: slash_indices_def)
  then have "s = take i s @ CHR ''/'' # drop (Suc i) s" using id_take_nth_drop by metis
  then show "\<exists>a b. s = a @ CHR ''/'' # b \<and> length a = i" using i by (metis length_take min.absorb4)
qed (auto simp: slash_indices_def)

lemma cut_at_slash:
  "(\<exists>i \<in> set (slash_indices s). P (take i s) (drop (i + 1) s)) \<longleftrightarrow>
   (\<exists>as ds. split_on (CHR ''/'') s = as @ ds \<and> as \<noteq> [] \<and> ds \<noteq> [] \<and> P (join ''/'' as) (join ''/'' ds))"
proof
  assume "\<exists>i \<in> set (slash_indices s). P (take i s) (drop (i + 1) s)"
  then obtain a b where s: "s = a @ CHR ''/'' # b" "P a b" by (auto simp: slash_index)
  then show "\<exists>as ds. split_on (CHR ''/'') s = as @ ds \<and> as \<noteq> [] \<and> ds \<noteq> [] \<and> P (join ''/'' as) (join ''/'' ds)"
    using split_on_append split_on_nonempty join_split by metis
next
  assume "\<exists>as ds. split_on (CHR ''/'') s = as @ ds \<and> as \<noteq> [] \<and> ds \<noteq> [] \<and> P (join ''/'' as) (join ''/'' ds)"
  then obtain as ds where d: "split_on (CHR ''/'') s = as @ ds" "as \<noteq> []" "ds \<noteq> []"
    "P (join ''/'' as) (join ''/'' ds)" by blast
  have "s = join ''/'' (as @ ds)" using d(1) join_split [of "CHR ''/''" s] by simp
  then have s: "s = join ''/'' as @ CHR ''/'' # join ''/'' ds" using join_append [OF d(2,3)] by simp
  then have "length (join ''/'' as) \<in> set (slash_indices s)" unfolding slash_index by blast
  moreover have "take (length (join ''/'' as)) s = join ''/'' as"
    "drop (length (join ''/'' as) + 1) s = join ''/'' ds" using s by simp_all
  ultimately show "\<exists>i \<in> set (slash_indices s). P (take i s) (drop (i + 1) s)" using d(4) by metis
qed

text \<open>
  The specification: a rule without a slash looks at every component, an anchored rule at
  the whole path, any other rule at the path and at every run of its last components; a
  directory rule accepts what lies below a match, too.
\<close>

definition rule_targets :: "rule \<Rightarrow> str \<Rightarrow> str set" where
  "rule_targets r path =
     (let cs = split_on (CHR ''/'') path in
      if r_anchored r then {path}
      else if \<not> r_has_slash r then set cs
      else {join ''/'' ds |as ds. cs = as @ ds \<and> ds \<noteq> []})"

definition target_matches :: "rule \<Rightarrow> str \<Rightarrow> bool" where
  "target_matches r target \<longleftrightarrow> glob (r_pattern r) target
     \<or> r_directory r \<and> (\<exists>as ds. split_on (CHR ''/'') target = as @ ds \<and> as \<noteq> [] \<and> ds \<noteq> []
         \<and> glob (r_pattern r) (join ''/'' as))"

lemma matches_target_spec: "matches_target r t \<longleftrightarrow> target_matches r t"
  using cut_at_slash [of t "\<lambda>a b. glob (r_pattern r) a"]
  by (simp add: matches_target_def target_matches_def wildcard_glob list_ex_iff)

lemma rule_matches_spec: "rule_matches r path \<longleftrightarrow> (\<exists>t \<in> rule_targets r path. target_matches r t)"
proof (cases "r_anchored r \<or> \<not> r_has_slash r")
  case True
  then show ?thesis
    by (auto simp: rule_matches_def rule_targets_def matches_target_spec list_ex_iff)
next
  case False
  have "(\<exists>t \<in> rule_targets r path. target_matches r t) \<longleftrightarrow>
      (\<exists>as ds. split_on (CHR ''/'') path = as @ ds \<and> ds \<noteq> [] \<and> target_matches r (join ''/'' ds))"
    using False by (auto simp: rule_targets_def)
  also have "\<dots> \<longleftrightarrow> target_matches r path \<or> (\<exists>as ds. split_on (CHR ''/'') path = as @ ds \<and> as \<noteq> [] \<and> ds \<noteq> []
      \<and> target_matches r (join ''/'' ds))"
  proof -
    have "join ''/'' (split_on (CHR ''/'') path) = path" by (rule join_split)
    then show ?thesis using split_on_nonempty [of "CHR ''/''" path] by (metis append_Nil)
  qed
  also have "\<dots> \<longleftrightarrow> rule_matches r path"
    using False cut_at_slash [of path "\<lambda>a b. target_matches r b"]
    by (simp add: rule_matches_def matches_target_spec list_ex_iff)
  finally show ?thesis by simp
qed

lemma last_rule_wins:
  "foldl (\<lambda>_ g. \<not> g_negated g) False gs \<longleftrightarrow> gs \<noteq> [] \<and> \<not> g_negated (last gs)"
  by (induction gs rule: rev_induct) auto

text \<open>
  C25. What is ignored: a path, without its trailing slashes, is ignored exactly when one of
  its components is a built-in exclusion, or a \<open>.branignore\<close> rule matches it, or the last
  \<open>.gitignore\<close> rule that matches it is not negated; and a rule matches exactly when one of
  its component-aligned targets, or for a directory rule a parent of one, is an instance of
  its one-star pattern. No \<open>.gitignore\<close> negation re-includes what the first two exclude.
\<close>

theorem ignored_spec:
  "is_ignored_relative m p \<longleftrightarrow>
    (let path = trim_end_matches (CHR ''/'') p;
         hit = (\<lambda>r. \<exists>t \<in> rule_targets r path. target_matches r t)
     in set (split_on (CHR ''/'') path) \<inter> set BUILTIN_COMPONENTS \<noteq> {}
       \<or> (\<exists>r \<in> set (im_rules m). hit r)
       \<or> (\<exists>gs g hs. im_git_rules m = gs @ g # hs \<and> \<not> g_negated g \<and> hit (g_rule g)
           \<and> (\<forall>h \<in> set hs. \<not> hit (g_rule h))))"
proof -
  let ?M = "\<lambda>g. rule_matches (g_rule g) (trim_end_matches (CHR ''/'') p)"
  have "filter ?M gs \<noteq> [] \<and> \<not> g_negated (last (filter ?M gs)) \<longleftrightarrow>
      (\<exists>as g hs. gs = as @ g # hs \<and> \<not> g_negated g \<and> ?M g \<and> (\<forall>h \<in> set hs. \<not> ?M h))" for gs
  proof
    assume a: "filter ?M gs \<noteq> [] \<and> \<not> g_negated (last (filter ?M gs))"
    then have "\<exists>g \<in> set gs. ?M g" by (auto simp: filter_empty_conv)
    from split_list_last_prop [OF this] obtain us y vs where
      y: "gs = us @ y # vs" "?M y" "\<forall>z \<in> set vs. \<not> ?M z" by blast
    then have "filter ?M vs = []" by (simp add: filter_empty_conv)
    then have "last (filter ?M gs) = y" using y by simp
    then show "\<exists>as g hs. gs = as @ g # hs \<and> \<not> g_negated g \<and> ?M g \<and> (\<forall>h \<in> set hs. \<not> ?M h)"
      using a y by blast
  next
    assume "\<exists>as g hs. gs = as @ g # hs \<and> \<not> g_negated g \<and> ?M g \<and> (\<forall>h \<in> set hs. \<not> ?M h)"
    then obtain as g hs where g: "gs = as @ g # hs" "\<not> g_negated g" "?M g" "\<forall>h \<in> set hs. \<not> ?M h" by blast
    then have "filter ?M hs = []" by (simp add: filter_empty_conv)
    then show "filter ?M gs \<noteq> [] \<and> \<not> g_negated (last (filter ?M gs))" using g by simp
  qed
  note git = this [of "im_git_rules m", unfolded rule_matches_spec]
  have "is_ignored_relative m p \<longleftrightarrow>
      (\<exists>c \<in> set (split_on (CHR ''/'') (trim_end_matches (CHR ''/'') p)). c \<in> set BUILTIN_COMPONENTS)
      \<or> (\<exists>r \<in> set (im_rules m). rule_matches r (trim_end_matches (CHR ''/'') p))
      \<or> (filter ?M (im_git_rules m) \<noteq> [] \<and> \<not> g_negated (last (filter ?M (im_git_rules m))))"
    unfolding is_ignored_relative_def Let_def last_rule_wins list_ex_iff by simp
  then show ?thesis unfolding rule_matches_spec git Let_def by blast
qed

lemma ignored_spec_witness:
  "is_ignored_relative \<lparr>im_rules = [], im_git_rules = []\<rparr> ''a/target/b/''
   \<and> \<not> is_ignored_relative \<lparr>im_rules = [], im_git_rules = []\<rparr> ''a/b''"
proof -
  have "split_on (CHR ''/'') (trim_end_matches (CHR ''/'') ''a/target/b/'') = [''a'', ''target'', ''b'']"
    "split_on (CHR ''/'') (trim_end_matches (CHR ''/'') ''a/b'') = [''a'', ''b'']" by code_simp+
  then show ?thesis unfolding ignored_spec Let_def by (simp add: BUILTIN_COMPONENTS_def)
qed

section \<open>Parsed rules are well formed\<close>

definition rule_ok :: "rule \<Rightarrow> bool" where
  "rule_ok r \<longleftrightarrow> r_pattern r \<noteq> [] \<and> r_has_slash r = (CHR ''/'' \<in> set (r_pattern r))
     \<and> list_all (\<lambda>c. c \<noteq> [] \<and> c \<noteq> ''.'' \<and> c \<noteq> ''..'') (split_on (CHR ''/'') (r_pattern r))
     \<and> CHR 0x5C \<notin> set (r_pattern r)
     \<and> length (filter (\<lambda>c. c = CHR ''*'') (r_pattern r)) \<le> 1"

lemma split_on_no: "x \<in> set (split_on d s) \<Longrightarrow> d \<notin> set x \<and> set x \<subseteq> set s"
proof (induction s arbitrary: x)
  case (Cons c s)
  show ?case
  proof (cases "c = d")
    case False
    then obtain w ws where w: "split_on d s = w # ws" "x \<in> set ((c # w) # ws)"
      using Cons.prems split_on_nonempty [of d s] by (cases "split_on d s") auto
    then show ?thesis using Cons.IH [of w] Cons.IH [of x] False by auto
  qed (use Cons in auto)
qed simp

lemma split_join:
  "ps \<noteq> [] \<Longrightarrow> \<forall>p \<in> set ps. d \<notin> set p \<Longrightarrow> split_on d (join [d] ps) = ps"
proof (induction ps)
  case (Cons p ps)
  then show ?case
    using split_on_line [of d p] split_on_append [of d p "join [d] ps"]
    by (cases "ps = []") (auto simp: join_Cons)
qed simp

lemma rule_parse_ok: "rule_parse input = Inr r \<Longrightarrow> rule_ok r"
proof -
  assume a: "rule_parse input = Inr r"
  define body where "body = trim_start_matches (CHR ''/'') (map (\<lambda>c. if c = CHR 0x5C then CHR ''/'' else c) input)"
  define parts where "parts = filter (\<lambda>part. part \<noteq> []) (split_on (CHR ''/'') body)"
  have p: "parts \<noteq> []" "\<not> list_ex (\<lambda>part. part = ''.'' \<or> part = ''..'') parts"
    "\<not> 1 < length (filter (\<lambda>c. c = CHR ''*'') (join ''/'' parts))" "r_pattern r = join ''/'' parts"
    "r_has_slash r = (CHR ''/'' \<in> set (join ''/'' parts))"
    using a unfolding rule_parse_def Let_def body_def [symmetric] parts_def [symmetric]
    by (auto split: if_splits)
  have no: "\<forall>q \<in> set parts. CHR ''/'' \<notin> set q \<and> CHR 0x5C \<notin> set q"
  proof
    fix q assume "q \<in> set parts"
    then have "CHR ''/'' \<notin> set q \<and> set q \<subseteq> set body" by (auto simp: parts_def dest: split_on_no)
    moreover have "CHR 0x5C \<notin> set body"
      by (auto simp: body_def trim_start_matches_def dest!: set_dropWhileD split: if_splits)
    ultimately show "CHR ''/'' \<notin> set q \<and> CHR 0x5C \<notin> set q" by blast
  qed
  have "set (join sep qs) \<subseteq> set sep \<union> \<Union> (set (map set qs))" for sep and qs :: "str list"
    by (induction sep qs rule: join.induct) auto
  from this [of "''/''" parts] have "CHR 0x5C \<notin> set (join ''/'' parts)" using no by auto
  moreover have "split_on (CHR ''/'') (join ''/'' parts) = parts"
    using no by (intro split_join [OF p(1)]) simp
  moreover have "join ''/'' parts \<noteq> []"
  proof -
    obtain q qs where q: "parts = q # qs" using p(1) by (cases parts) auto
    have "\<forall>x \<in> set parts. x \<noteq> []" unfolding parts_def by simp
    then have "q \<noteq> []" using q by simp
    then show ?thesis using q by (simp add: join_Cons)
  qed
  ultimately show ?thesis
    using p(2,3) unfolding rule_ok_def p(4,5) by (auto simp: list_all_iff list_ex_iff parts_def)
qed

lemma parse_rules_error:
  "parse_rules n ls = Inl e \<longleftrightarrow>
    (\<exists>i reason. i < length ls \<and> e = InvalidRule (n + i) reason
      \<and> rule_parse (trim (ls ! i)) = Inl reason \<and> trim (ls ! i) \<noteq> [] \<and> hd (trim (ls ! i)) \<noteq> CHR ''#''
      \<and> (\<forall>j < i. trim (ls ! j) = [] \<or> hd (trim (ls ! j)) = CHR ''#'' \<or> is_ok (rule_parse (trim (ls ! j)))))"
  (is "_ \<longleftrightarrow> (\<exists>i reason. ?E n ls i reason)")
proof (induction ls arbitrary: n)
  case (Cons l ls)
  let ?skip = "trim l = [] \<or> hd (trim l) = CHR ''#'' \<or> is_ok (rule_parse (trim l))"
  show ?case
  proof (cases ?skip)
    case True
    then have "parse_rules n (l # ls) = Inl e \<longleftrightarrow> parse_rules (n + 1) ls = Inl e"
      by (auto simp: Let_def is_ok_iff res_simps)
    also have "\<dots> \<longleftrightarrow> (\<exists>i reason. ?E (n + 1) ls i reason)" by (rule Cons.IH)
    also have "\<dots> \<longleftrightarrow> (\<exists>i reason. ?E n (l # ls) i reason)"
    proof
      assume "\<exists>i reason. ?E (n + 1) ls i reason"
      then obtain i reason where e: "?E (n + 1) ls i reason" by blast
      have "?E n (l # ls) (Suc i) reason"
        using e True by (auto simp: less_Suc_eq_0_disj)
      then show "\<exists>i reason. ?E n (l # ls) i reason" by blast
    next
      assume "\<exists>i reason. ?E n (l # ls) i reason"
      then obtain i reason where e: "?E n (l # ls) i reason" by blast
      then obtain k where k: "i = Suc k" using True by (cases i) (auto simp: is_ok_iff)
      have "?E (n + 1) ls k reason" using e k by auto
      then show "\<exists>i reason. ?E (n + 1) ls i reason" by blast
    qed
    finally show ?thesis .
  next
    case False
    then obtain reason where r: "rule_parse (trim l) = Inl reason" by (cases "rule_parse (trim l)") auto
    have "(\<exists>i reason. ?E n (l # ls) i reason) \<longleftrightarrow> e = InvalidRule n reason"
    proof
      assume "\<exists>i reason. ?E n (l # ls) i reason"
      then obtain i reason' where e: "?E n (l # ls) i reason'" by blast
      then have "i = 0" using False by (cases i) auto
      then show "e = InvalidRule n reason" using e r by simp
    next
      assume "e = InvalidRule n reason"
      then have "?E n (l # ls) 0 reason" using False r by simp
      then show "\<exists>i reason. ?E n (l # ls) i reason" by blast
    qed
    moreover have "parse_rules n (l # ls) = Inl (InvalidRule n reason)" using False r by (simp add: Let_def)
    ultimately show ?thesis by auto
  qed
qed simp

lemma parse_rules_ok: "parse_rules n ls = Inr rs \<Longrightarrow> list_all rule_ok rs"
  by (induction n ls arbitrary: rs rule: parse_rules.induct)
    (auto simp: Let_def res_simps rule_parse_ok split: if_splits sum.splits)

text \<open>
  Strict parsing of \<open>.branignore\<close>: a text within 64 KiB of valid UTF-8 is rejected
  exactly when some line is not a rule, and the error names the first such line, counted
  from one, with its reason; an accepted file has only well-formed rules: non-empty
  components, none of them \<open>.\<close> or \<open>..\<close>, no backslash and at most one star.
\<close>

theorem branignore_strict:
  assumes "length b \<le> MAX_BRANIGNORE_BYTES" "valid_utf8 b"
  shows "(\<forall>e. from_branignore b = Inl e \<longleftrightarrow>
      (\<exists>i reason. i < length (str_lines b) \<and> e = InvalidRule (i + 1) reason
        \<and> rule_parse (trim (str_lines b ! i)) = Inl reason
        \<and> trim (str_lines b ! i) \<noteq> [] \<and> hd (trim (str_lines b ! i)) \<noteq> CHR ''#''
        \<and> (\<forall>j < i. trim (str_lines b ! j) = [] \<or> hd (trim (str_lines b ! j)) = CHR ''#''
             \<or> is_ok (rule_parse (trim (str_lines b ! j))))))
    \<and> (\<forall>m. from_branignore b = Inr m \<longrightarrow> list_all rule_ok (im_rules m) \<and> im_git_rules m = [])"
proof (intro conjI allI impI)
  fix e
  have "from_branignore b = Inl e \<longleftrightarrow> parse_rules 1 (str_lines b) = Inl e"
    using assms by (auto simp: from_branignore_def res_simps)
  then show "from_branignore b = Inl e \<longleftrightarrow>
      (\<exists>i reason. i < length (str_lines b) \<and> e = InvalidRule (i + 1) reason
        \<and> rule_parse (trim (str_lines b ! i)) = Inl reason
        \<and> trim (str_lines b ! i) \<noteq> [] \<and> hd (trim (str_lines b ! i)) \<noteq> CHR ''#''
        \<and> (\<forall>j < i. trim (str_lines b ! j) = [] \<or> hd (trim (str_lines b ! j)) = CHR ''#''
             \<or> is_ok (rule_parse (trim (str_lines b ! j)))))"
    unfolding parse_rules_error by (simp add: add.commute)
next
  fix m assume "from_branignore b = Inr m"
  then show "list_all rule_ok (im_rules m)" "im_git_rules m = []"
    using assms by (auto simp: from_branignore_def res_simps dest: parse_rules_ok)
qed

lemma branignore_strict_witness:
  "from_branignore (''# build'' @ CHR 0x0A # ''/out/'' @ CHR 0x0A # ''a*b*c'')
     = Inl (InvalidRule 3 MultipleWildcards)"
proof -
  let ?b = "''# build'' @ CHR 0x0A # ''/out/'' @ CHR 0x0A # ''a*b*c''"
  have b: "length ?b \<le> MAX_BRANIGNORE_BYTES" "valid_utf8 ?b" by code_simp+
  have "2 < length (str_lines ?b)" "rule_parse (trim (str_lines ?b ! 2)) = Inl MultipleWildcards"
    "trim (str_lines ?b ! 2) \<noteq> []" "hd (trim (str_lines ?b ! 2)) \<noteq> CHR ''#''" by code_simp+
  moreover have "list_all (\<lambda>j. trim (str_lines ?b ! j) = [] \<or> hd (trim (str_lines ?b ! j)) = CHR ''#''
             \<or> is_ok (rule_parse (trim (str_lines ?b ! j)))) [0..<2]" by code_simp
  then have "\<forall>j < 2. trim (str_lines ?b ! j) = [] \<or> hd (trim (str_lines ?b ! j)) = CHR ''#''
             \<or> is_ok (rule_parse (trim (str_lines ?b ! j)))" by (simp add: list_all_iff)
  moreover have "InvalidRule 3 MultipleWildcards = InvalidRule (2 + 1) MultipleWildcards" by simp
  ultimately show ?thesis using branignore_strict [OF b] by blast
qed

end
