(* ===== verification/Agent_Profile.thy ===== *)
theory Agent_Profile
  imports Dlp
begin

text \<open>
  Agent profiles and their registries (\<open>agent/mod.rs\<close>): reasoning levels, tool policies,
  profiles, and the provider, model and profile registries. A \<open>BTreeSet\<close> is its sorted list
  of distinct elements, a \<open>BTreeMap\<close> an ordered association list. A mutating operation
  returns its result and the new registry.
\<close>

section \<open>Reasoning levels\<close>

datatype reasoning_level =
  Reasoning_Off | Minimal | Low | Medium | High | Xhigh | Reasoning_Max

definition reasoning_parse :: "str \<Rightarrow> reasoning_level option" where
  "reasoning_parse s =
     (if s = ''off'' then Some Reasoning_Off
      else if s = ''minimal'' then Some Minimal
      else if s = ''low'' then Some Low
      else if s = ''medium'' then Some Medium
      else if s = ''high'' then Some High
      else if s = ''xhigh'' then Some Xhigh
      else if s = ''max'' then Some Reasoning_Max
      else None)"

fun reasoning_as_str :: "reasoning_level \<Rightarrow> str" where
  "reasoning_as_str Reasoning_Off = ''off''"
| "reasoning_as_str Minimal = ''minimal''"
| "reasoning_as_str Low = ''low''"
| "reasoning_as_str Medium = ''medium''"
| "reasoning_as_str High = ''high''"
| "reasoning_as_str Xhigh = ''xhigh''"
| "reasoning_as_str Reasoning_Max = ''max''"

section \<open>Tool policies\<close>

record tool_policy =
  tp_allow :: "str list"
  tp_deny :: "str list"

datatype tool_policy_error = TooMany | Tool_InvalidName | Tool_Duplicate | Conflict

definition is_valid_tool_name :: "str \<Rightarrow> bool" where
  "is_valid_tool_name name \<longleftrightarrow> 1 \<le> length name \<and> length name \<le> 32
     \<and> list_all (\<lambda>b. is_ascii_lowercase b \<or> is_ascii_digit b \<or> b = CHR ''_'' \<or> b = CHR ''-'') name"

text \<open>\<open>BTreeSet::insert\<close>: whether the element was new, and the set after it.\<close>

definition set_insert :: "'a::linorder \<Rightarrow> 'a list \<Rightarrow> bool \<times> 'a list" where
  "set_insert x s = (x \<notin> set s, btree_set (x # s))"

fun collect_tools :: "str list \<Rightarrow> str list \<Rightarrow> tool_policy_error + str list" where
  "collect_tools [] s = Inr s"
| "collect_tools (name # names) s =
     (if \<not> is_valid_tool_name name then Inl Tool_InvalidName
      else (case set_insert name s of (new, s') \<Rightarrow>
        if \<not> new then Inl Tool_Duplicate
        else if length s' > 32 then Inl TooMany
        else collect_tools names s'))"

definition policy_new :: "str list \<Rightarrow> str list \<Rightarrow> tool_policy_error + tool_policy" where
  "policy_new allow deny =
     res_bind (collect_tools allow []) (\<lambda>allow_set.
     res_bind (collect_tools deny []) (\<lambda>deny_set.
       if list_ex (\<lambda>name. name \<in> set deny_set) allow_set then Inl Conflict
       else Inr \<lparr>tp_allow = allow_set, tp_deny = deny_set\<rparr>))"

definition policy_allows :: "tool_policy \<Rightarrow> str \<Rightarrow> bool" where
  "policy_allows p name \<longleftrightarrow> name \<in> set (tp_allow p) \<and> name \<notin> set (tp_deny p)"

text \<open>The \<open>unwrap\<close> of the source cannot panic: see \<open>read_only_default_new\<close>.\<close>

definition read_only_default :: tool_policy where
  "read_only_default =
     (case policy_new [''read'', ''search''] [''write'', ''edit'', ''shell'', ''network''] of
        Inr p \<Rightarrow> p | Inl _ \<Rightarrow> \<lparr>tp_allow = [], tp_deny = []\<rparr>)"

section \<open>Profiles\<close>

definition is_valid_identity :: "str \<Rightarrow> bool" where
  "is_valid_identity s \<longleftrightarrow> 1 \<le> length s \<and> length s \<le> 64
     \<and> list_all (\<lambda>b. is_ascii_lowercase b \<or> is_ascii_digit b \<or> b = CHR ''.'' \<or> b = CHR ''_''
          \<or> b = CHR ''-'') s"

record agent_profile =
  ap_name :: str
  ap_provider :: str
  ap_model :: str
  ap_account_handle :: str
  ap_reasoning :: reasoning_level
  ap_tool_policy :: tool_policy

datatype agent_profile_error = Profile_InvalidIdentity

definition profile_new ::
  "str \<Rightarrow> str \<Rightarrow> str \<Rightarrow> str \<Rightarrow> reasoning_level \<Rightarrow> tool_policy
   \<Rightarrow> agent_profile_error + agent_profile" where
  "profile_new name provider model handle level policy =
     (if \<not> is_valid_identity name \<or> \<not> is_valid_identity provider \<or> \<not> is_valid_identity model
         \<or> \<not> is_valid_identity handle \<or> \<not> is_public_dlp_safe handle
      then Inl Profile_InvalidIdentity
      else Inr \<lparr>ap_name = name, ap_provider = provider, ap_model = model,
                ap_account_handle = handle, ap_reasoning = level, ap_tool_policy = policy\<rparr>)"

section \<open>Registries\<close>

datatype registry_error =
    Registry_InvalidIdentity
  | DuplicateProvider
  | DuplicateModel
  | UnknownProvider
  | UnknownModel
  | DuplicateProfile
  | UnknownProfile

type_synonym provider_registry = "str list"
type_synonym model_registry = "(str, str list) omap"

definition provider_register ::
  "provider_registry \<Rightarrow> str \<Rightarrow> (registry_error + unit) \<times> provider_registry" where
  "provider_register r i =
     (if \<not> is_valid_identity i then (Inl Registry_InvalidIdentity, r)
      else (case set_insert i r of (new, r') \<Rightarrow>
        if \<not> new then (Inl DuplicateProvider, r') else (Inr (), r')))"

definition provider_contains :: "provider_registry \<Rightarrow> str \<Rightarrow> bool" where
  "provider_contains r i \<longleftrightarrow> i \<in> set r"

definition provider_require :: "provider_registry \<Rightarrow> str \<Rightarrow> registry_error + unit" where
  "provider_require r i = (if provider_contains r i then Inr () else Inl UnknownProvider)"

definition provider_names :: "provider_registry \<Rightarrow> str list" where
  "provider_names r = r"

text \<open>\<open>entry(provider).or_default()\<close> leaves an entry for the provider in every case.\<close>

definition model_register ::
  "model_registry \<Rightarrow> str \<Rightarrow> str \<Rightarrow> (registry_error + unit) \<times> model_registry" where
  "model_register r provider model =
     (if \<not> is_valid_identity provider \<or> \<not> is_valid_identity model
      then (Inl Registry_InvalidIdentity, r)
      else
        (let models = (case om_get r provider of None \<Rightarrow> [] | Some ms \<Rightarrow> ms);
             (new, models') = set_insert model models;
             r' = om_put provider models' r
         in if \<not> new then (Inl DuplicateModel, r') else (Inr (), r')))"

definition model_contains :: "model_registry \<Rightarrow> str \<Rightarrow> bool" where
  "model_contains r model \<longleftrightarrow> list_ex (\<lambda>(_, models). model \<in> set models) r"

definition contains_for_provider :: "model_registry \<Rightarrow> str \<Rightarrow> str \<Rightarrow> bool" where
  "contains_for_provider r provider model \<longleftrightarrow>
     (case om_get r provider of None \<Rightarrow> False | Some models \<Rightarrow> model \<in> set models)"

definition require_for_provider :: "model_registry \<Rightarrow> str \<Rightarrow> str \<Rightarrow> registry_error + unit" where
  "require_for_provider r provider model =
     (if contains_for_provider r provider model then Inr () else Inl UnknownModel)"

definition model_names :: "model_registry \<Rightarrow> str list" where
  "model_names r = concat (map snd r)"

record profile_registry =
  pr_providers :: provider_registry
  pr_models :: model_registry
  pr_profiles :: "(str, agent_profile) omap"

definition registry_new :: "provider_registry \<Rightarrow> model_registry \<Rightarrow> profile_registry" where
  "registry_new ps ms = \<lparr>pr_providers = ps, pr_models = ms, pr_profiles = []\<rparr>"

definition profile_register ::
  "profile_registry \<Rightarrow> agent_profile \<Rightarrow> (registry_error + unit) \<times> profile_registry" where
  "profile_register r p =
     (case provider_require (pr_providers r) (ap_provider p) of
        Inl e \<Rightarrow> (Inl e, r)
      | Inr _ \<Rightarrow>
          (case require_for_provider (pr_models r) (ap_provider p) (ap_model p) of
             Inl e \<Rightarrow> (Inl e, r)
           | Inr _ \<Rightarrow>
               if om_get (pr_profiles r) (ap_name p) \<noteq> None then (Inl DuplicateProfile, r)
               else (Inr (), r\<lparr>pr_profiles := om_put (ap_name p) p (pr_profiles r)\<rparr>)))"

definition profile_get :: "profile_registry \<Rightarrow> str \<Rightarrow> registry_error + agent_profile" where
  "profile_get r name = ok_or UnknownProfile (om_get (pr_profiles r) name)"

definition profile_list :: "profile_registry \<Rightarrow> agent_profile list" where
  "profile_list r = map snd (pr_profiles r)"

text \<open>The built-in fixture registry; an \<open>expect\<close> that fails would be \<open>None\<close>.\<close>

definition expect_reg :: "(registry_error + unit) \<times> 'a \<Rightarrow> 'a option" where
  "expect_reg x = (case x of (Inr _, r) \<Rightarrow> Some r | (Inl _, _) \<Rightarrow> None)"

definition expect_ok :: "'e + 'a \<Rightarrow> 'a option" where
  "expect_ok x = (case x of Inr y \<Rightarrow> Some y | Inl _ \<Rightarrow> None)"

definition builtin_profiles :: "profile_registry option" where
  "builtin_profiles =
     Option.bind (expect_reg (provider_register [] ''fixture-provider'')) (\<lambda>pr.
     Option.bind (expect_reg (model_register [] ''fixture-provider'' ''fixture-sol'')) (\<lambda>mr0.
     Option.bind (expect_reg (model_register mr0 ''fixture-provider'' ''fixture-luna'')) (\<lambda>mr.
     Option.bind (expect_ok (profile_new ''sol'' ''fixture-provider'' ''fixture-sol''
         ''sol-default'' High read_only_default)) (\<lambda>sol.
     Option.bind (expect_reg (profile_register (registry_new pr mr) sol)) (\<lambda>r.
     Option.bind (expect_ok (profile_new ''luna'' ''fixture-provider'' ''fixture-luna''
         ''luna-default'' Low read_only_default)) (\<lambda>luna.
       expect_reg (profile_register r luna)))))))"

section \<open>Tool policies are what they say\<close>

definition policy_ok :: "tool_policy \<Rightarrow> bool" where
  "policy_ok p \<longleftrightarrow> sorted (tp_allow p) \<and> distinct (tp_allow p) \<and> length (tp_allow p) \<le> 32
     \<and> sorted (tp_deny p) \<and> distinct (tp_deny p) \<and> length (tp_deny p) \<le> 32
     \<and> set (tp_allow p) \<inter> set (tp_deny p) = {}
     \<and> (\<forall>n \<in> set (tp_allow p) \<union> set (tp_deny p). is_valid_tool_name n)"

lemma collect_tools_Inr:
  "collect_tools names s = Inr t \<Longrightarrow> sorted s \<Longrightarrow> distinct s \<Longrightarrow> length s \<le> 32
   \<Longrightarrow> set t = set s \<union> set names \<and> sorted t \<and> distinct t \<and> length t \<le> 32
       \<and> (\<forall>n \<in> set names. is_valid_tool_name n) \<and> distinct names \<and> set names \<inter> set s = {}"
proof (induction names arbitrary: s)
  case (Cons n names)
  then have n: "is_valid_tool_name n" "n \<notin> set s" "length (btree_set (n # s)) \<le> 32"
    "collect_tools names (btree_set (n # s)) = Inr t"
    by (auto simp: set_insert_def split: if_splits)
  have "set (btree_set (n # s)) = insert n (set s)" by (simp del: set_simps) simp
  with Cons.IH [OF n(4)] n show ?case by auto
qed simp

lemma collect_tools_complete:
  assumes "\<forall>n \<in> set names. is_valid_tool_name n" "distinct names" "set names \<inter> set s = {}"
    "distinct s" "length s + length names \<le> 32"
  shows "\<exists>t. collect_tools names s = Inr t"
  using assms
proof (induction names arbitrary: s)
  case (Cons n names)
  have l: "length (btree_set (n # s)) = Suc (length s)"
    using Cons.prems by (simp add: btree_set_def)
  have "\<exists>t. collect_tools names (btree_set (n # s)) = Inr t"
    using Cons.prems l by (intro Cons.IH) (auto simp: btree_set_simps)
  with Cons.prems l show ?case by (simp add: set_insert_def)
qed simp

lemma policy_new_Inr:
  assumes "policy_new allow deny = Inr p"
  shows "policy_ok p \<and> set (tp_allow p) = set allow \<and> set (tp_deny p) = set deny"
proof -
  from assms obtain a d where p: "collect_tools allow [] = Inr a" "collect_tools deny [] = Inr d"
    "set a \<inter> set d = {}" "p = \<lparr>tp_allow = a, tp_deny = d\<rparr>"
    by (auto simp: policy_new_def res_simps list_ex_iff split: if_splits)
  from collect_tools_Inr [OF p(1)] collect_tools_Inr [OF p(2)] p(3,4) show ?thesis
    by (auto simp: policy_ok_def)
qed

lemma read_only_default_new:
  "policy_new [''read'', ''search''] [''write'', ''edit'', ''shell'', ''network'']
     = Inr read_only_default"
  by code_simp

lemma read_only_default_ok [simp]: "policy_ok read_only_default"
  using policy_new_Inr [OF read_only_default_new] by simp

section \<open>Registries are consistent\<close>

definition profile_ok :: "agent_profile \<Rightarrow> bool" where
  "profile_ok p \<longleftrightarrow> is_valid_identity (ap_name p) \<and> is_valid_identity (ap_provider p)
     \<and> is_valid_identity (ap_model p) \<and> is_valid_identity (ap_account_handle p)
     \<and> is_public_dlp_safe (ap_account_handle p) \<and> policy_ok (ap_tool_policy p)"

lemma profile_new_ok:
  "profile_new name provider model handle level policy = Inr p \<Longrightarrow> policy_ok policy \<Longrightarrow> profile_ok p"
  by (auto simp: profile_new_def profile_ok_def split: if_splits)

definition providers_ok :: "provider_registry \<Rightarrow> bool" where
  "providers_ok r \<longleftrightarrow> sorted r \<and> distinct r \<and> list_all is_valid_identity r"

definition models_ok :: "model_registry \<Rightarrow> bool" where
  "models_ok r \<longleftrightarrow> om_inv r
     \<and> list_all (\<lambda>(k, ms). is_valid_identity k \<and> sorted ms \<and> distinct ms
          \<and> list_all is_valid_identity ms) r"

definition profiles_ok :: "profile_registry \<Rightarrow> bool" where
  "profiles_ok r \<longleftrightarrow> om_inv (pr_profiles r)
     \<and> list_all (\<lambda>(k, p). ap_name p = k \<and> profile_ok p
          \<and> provider_contains (pr_providers r) (ap_provider p)
          \<and> contains_for_provider (pr_models r) (ap_provider p) (ap_model p)) (pr_profiles r)"

definition registry_ok :: "profile_registry \<Rightarrow> bool" where
  "registry_ok r \<longleftrightarrow> providers_ok (pr_providers r) \<and> models_ok (pr_models r) \<and> profiles_ok r"

lemma set_insert_set [simp]: "set (snd (set_insert x s)) = insert x (set s)"
  by (simp add: set_insert_def del: set_simps) simp

lemma provider_register_ok: "providers_ok r \<Longrightarrow> providers_ok (snd (provider_register r i))"
  by (auto simp: provider_register_def providers_ok_def set_insert_def list_all_iff
      simp del: set_simps) (auto)

lemma model_register_ok:
  assumes "models_ok r"
  shows "models_ok (snd (model_register r provider model))"
proof (cases "is_valid_identity provider \<and> is_valid_identity model")
  case True
  define ms where "ms = (case om_get r provider of None \<Rightarrow> [] | Some ms \<Rightarrow> ms)"
  have inv: "om_inv r" using assms by (simp add: models_ok_def)
  have ms: "sorted ms \<and> distinct ms \<and> list_all is_valid_identity ms"
  proof (cases "om_get r provider")
    case (Some x)
    then have "(provider, x) \<in> set r" using inv by (simp add: om_get_Some_iff)
    with assms Some show ?thesis by (auto simp: ms_def models_ok_def list_all_iff)
  qed (simp add: ms_def)
  have "snd (model_register r provider model) = om_put provider (btree_set (model # ms)) r"
    using True by (simp add: model_register_def Let_def set_insert_def ms_def)
  moreover have "list_all is_valid_identity (btree_set (model # ms))"
    using ms True by (simp add: list_all_iff del: set_simps) auto
  ultimately show ?thesis
    using assms True ms by (auto simp: models_ok_def list_all_iff om_put_inv om_put_set [OF inv])
next
  case False
  with assms show ?thesis by (auto simp: model_register_def)
qed

lemma profile_register_Inr:
  assumes "profile_register r p = (Inr u, r')"
  shows "r' = r\<lparr>pr_profiles := om_put (ap_name p) p (pr_profiles r)\<rparr>
    \<and> provider_contains (pr_providers r) (ap_provider p)
    \<and> contains_for_provider (pr_models r) (ap_provider p) (ap_model p)
    \<and> om_get (pr_profiles r) (ap_name p) = None"
  using assms by (auto simp: profile_register_def provider_require_def require_for_provider_def
      split: if_splits)

lemma profile_register_Inl: "profile_register r p = (Inl e, r') \<Longrightarrow> r' = r"
  by (auto simp: profile_register_def split: sum.splits if_splits)

lemma profile_register_ok:
  assumes "registry_ok r" "profile_ok p"
  shows "registry_ok (snd (profile_register r p))"
proof -
  obtain x r' where st: "profile_register r p = (x, r')" by fastforce
  show ?thesis
  proof (cases x)
    case (Inl e)
    with st profile_register_Inl assms show ?thesis by fastforce
  next
    case (Inr u)
    note i = profile_register_Inr [OF st [unfolded Inr]]
    have "om_inv (pr_profiles r)" using assms by (simp add: registry_ok_def profiles_ok_def)
    with st i assms show ?thesis
      by (auto simp: registry_ok_def profiles_ok_def list_all_iff om_put_inv om_put_set)
  qed
qed

lemma profile_get_ok:
  assumes "registry_ok r" "profile_get r name = Inr p"
  shows "ap_name p = name \<and> profile_ok p \<and> provider_contains (pr_providers r) (ap_provider p)
    \<and> contains_for_provider (pr_models r) (ap_provider p) (ap_model p)"
proof -
  have "om_inv (pr_profiles r)" using assms by (simp add: registry_ok_def profiles_ok_def)
  with assms show ?thesis
    by (auto simp: profile_get_def res_simps registry_ok_def profiles_ok_def list_all_iff
        om_get_Some_iff)
qed

section \<open>Properties\<close>

text \<open>
  A tool policy is accepted exactly when every name is valid, no list repeats a name,
  neither has more than 32, and no name is both allowed and denied; an accepted policy
  allows exactly the allowed names, whatever their order in the request.
\<close>

theorem tool_policy_accepted:
  "((\<exists>p. policy_new allow deny = Inr p)
     \<longleftrightarrow> list_all is_valid_tool_name (allow @ deny) \<and> distinct allow \<and> distinct deny
        \<and> length allow \<le> 32 \<and> length deny \<le> 32 \<and> set allow \<inter> set deny = {})
   \<and> (case policy_new allow deny of
        Inr p \<Rightarrow> \<forall>n. policy_allows p n \<longleftrightarrow> n \<in> set allow | Inl _ \<Rightarrow> True)"
proof (rule conjI, goal_cases)
  case 1
  have "list_all is_valid_tool_name (allow @ deny) \<and> distinct allow \<and> distinct deny
        \<and> length allow \<le> 32 \<and> length deny \<le> 32 \<and> set allow \<inter> set deny = {}"
    if ok: "policy_new allow deny = Inr p" for p
  proof -
    from ok obtain a d where c: "collect_tools allow [] = Inr a" "collect_tools deny [] = Inr d"
      by (auto simp: policy_new_def res_simps)
    note a = collect_tools_Inr [OF c(1), simplified] and d = collect_tools_Inr [OF c(2), simplified]
    have "length allow = length a" "length deny = length d"
      using a d by (metis distinct_card)+
    with a d policy_new_Inr [OF ok] show ?thesis
      by (auto simp: policy_ok_def list_all_iff)
  qed
  moreover have "\<exists>p. policy_new allow deny = Inr p"
    if ok: "list_all is_valid_tool_name (allow @ deny) \<and> distinct allow \<and> distinct deny
        \<and> length allow \<le> 32 \<and> length deny \<le> 32 \<and> set allow \<inter> set deny = {}"
  proof -
    obtain a where a: "collect_tools allow [] = Inr a"
      using collect_tools_complete [of allow "[]"] ok by (auto simp: list_all_iff)
    obtain d where d: "collect_tools deny [] = Inr d"
      using collect_tools_complete [of deny "[]"] ok by (auto simp: list_all_iff)
    have "set a = set allow" "set d = set deny"
      using collect_tools_Inr [OF a] collect_tools_Inr [OF d] by auto
    then show ?thesis using a d ok by (auto simp: policy_new_def res_simps list_ex_iff)
  qed
  ultimately show ?case by blast
next
  case 2
  have "policy_allows p n \<longleftrightarrow> n \<in> set allow" if "policy_new allow deny = Inr p" for p n
    using policy_new_Inr [OF that] unfolding policy_ok_def policy_allows_def by blast
  then show ?case by (simp split: sum.split)
qed

text \<open>
  C33. Every registry operation keeps the registries consistent: providers and models are
  valid and unique, and every profile is stored under its own name with a registered
  provider and a model registered for that provider, so a profile that is found can be
  run. Registering a profile under a free name makes exactly that name's lookup change;
  a refused registration changes nothing.
\<close>

theorem registry_consistent:
  assumes "registry_ok r" "profile_ok p" "providers_ok ps" "models_ok ms"
  shows "registry_ok (registry_new ps ms)
    \<and> registry_ok (snd (profile_register r p))
    \<and> providers_ok (snd (provider_register ps i)) \<and> models_ok (snd (model_register ms i m))
    \<and> (case profile_register r p of
         (Inl _, r') \<Rightarrow> r' = r
       | (Inr _, r') \<Rightarrow> profile_get r (ap_name p) = Inl UnknownProfile
           \<and> (\<forall>n. profile_get r' n = (if n = ap_name p then Inr p else profile_get r n)))
    \<and> (case profile_get r n of Inl e \<Rightarrow> e = UnknownProfile
       | Inr q \<Rightarrow> ap_name q = n \<and> provider_require (pr_providers r) (ap_provider q) = Inr ()
           \<and> require_for_provider (pr_models r) (ap_provider q) (ap_model q) = Inr ())"
proof (intro conjI)
  show "registry_ok (registry_new ps ms)"
    using assms by (simp add: registry_ok_def registry_new_def profiles_ok_def)
  show "case profile_register r p of
         (Inl _, r') \<Rightarrow> r' = r
       | (Inr _, r') \<Rightarrow> profile_get r (ap_name p) = Inl UnknownProfile
           \<and> (\<forall>n. profile_get r' n = (if n = ap_name p then Inr p else profile_get r n))"
    using profile_register_Inl [of r p] profile_register_Inr [of r p]
    by (auto simp: profile_get_def om_get_put split: prod.split sum.split)
  show "case profile_get r n of Inl e \<Rightarrow> e = UnknownProfile
       | Inr q \<Rightarrow> ap_name q = n \<and> provider_require (pr_providers r) (ap_provider q) = Inr ()
           \<and> require_for_provider (pr_models r) (ap_provider q) (ap_model q) = Inr ()"
    using profile_get_ok [OF assms(1), of n]
    by (auto simp: provider_require_def require_for_provider_def split: sum.split)
      (auto simp: profile_get_def ok_or_def split: option.splits)
qed (use assms in \<open>simp_all add: profile_register_ok provider_register_ok model_register_ok\<close>)

definition demo_profile :: agent_profile where
  "demo_profile =
     \<lparr>ap_name = ''sol'', ap_provider = ''p'', ap_model = ''m'', ap_account_handle = ''acct'',
      ap_reasoning = High, ap_tool_policy = read_only_default\<rparr>"

definition demo_registry :: profile_registry where
  "demo_registry = registry_new [''p''] [(''p'', [''m''])]"

lemma demo_profile_ok: "profile_ok demo_profile"
proof -
  have "profile_new ''sol'' ''p'' ''m'' ''acct'' High read_only_default = Inr demo_profile"
    by code_simp
  from profile_new_ok [OF this] show ?thesis by simp
qed

lemma demo_registry_ok: "providers_ok [''p''] \<and> models_ok [(''p'', [''m''])] \<and> registry_ok demo_registry"
  by code_simp

theorem registry_consistent_witness:
  "case profile_register demo_registry demo_profile of
     (Inl _, r') \<Rightarrow> False
   | (Inr _, r') \<Rightarrow> profile_get r' ''sol'' = Inr demo_profile"
proof -
  have "fst (profile_register demo_registry demo_profile) = Inr ()" by code_simp
  moreover have n: "ap_name demo_profile = ''sol''" by (simp add: demo_profile_def)
  ultimately show ?thesis
    using registry_consistent [OF _ demo_profile_ok, of demo_registry "[''p'']" "[(''p'', [''m''])]"
        "''p''" "''m''" "''sol''"] demo_registry_ok
    by (auto split: prod.splits sum.splits)
qed

end
