(* ===== verification/Agent_Runtime.thy ===== *)
theory Agent_Runtime
  imports Agent_Profile Result_Id
begin

text \<open>
  The runtime contracts of \<open>agent/runtime.rs\<close>: provider requests, lossless artifacts,
  claims, provider outputs, and the invocation lifecycle. A constructor whose error type
  has a single value returns an option. Byte counts and token counts are \<open>usize\<close> values.
\<close>

section \<open>Authentication and provider errors\<close>

datatype auth_error = Auth_Missing | Auth_Unavailable | Auth_Locked

datatype provider_request_error =
    InvalidProvider
  | InvalidModel
  | BlankPrompt
  | PromptTooLarge
  | InvalidMaxOutput
  | InvalidTokenBudget
  | InvalidDelegationDepth

datatype provider_error =
  Provider_Unavailable | Provider_Timeout | Provider_Cancelled | Provider_Failed
  | Provider_InvalidOutput

section \<open>Provider requests\<close>

record provider_request =
  q_provider :: str
  q_model :: str
  q_requested :: reasoning_level
  q_tool_policy :: tool_policy
  q_prompt :: str
  q_max_output_bytes :: nat
  q_no_session :: bool
  q_hard_total_token_ceiling :: "nat option"
  q_max_output_tokens :: "nat option"
  q_delegation_depth :: nat

definition is_valid_name :: "str \<Rightarrow> bool" where
  "is_valid_name s \<longleftrightarrow> 1 \<le> length s \<and> length s \<le> 64
     \<and> list_all (\<lambda>b. is_ascii_lowercase b \<or> is_ascii_digit b \<or> b = CHR ''.'' \<or> b = CHR ''_''
          \<or> b = CHR ''-'') s"

definition valid_sha256 :: "str \<Rightarrow> bool" where
  "valid_sha256 value \<longleftrightarrow> length value = 64
     \<and> list_all (\<lambda>b. is_ascii_digit b \<or> 97 \<le> code b \<and> code b \<le> 102) value"

definition MIN_CLAIM_SUPPORT_BYTES :: nat where
  "MIN_CLAIM_SUPPORT_BYTES = 12"

definition provider_request_new ::
  "str \<Rightarrow> str \<Rightarrow> reasoning_level \<Rightarrow> tool_policy \<Rightarrow> str \<Rightarrow> nat \<Rightarrow> nat
   \<Rightarrow> provider_request_error + provider_request" where
  "provider_request_new provider model requested policy prompt max_output depth =
     (if \<not> is_valid_name provider then Inl InvalidProvider
      else if \<not> is_valid_name model then Inl InvalidModel
      else if trim prompt = [] then Inl BlankPrompt
      else if length prompt > 65536 then Inl PromptTooLarge
      else if \<not> (1 \<le> max_output \<and> max_output \<le> 1048576) then Inl InvalidMaxOutput
      else if depth > 8 then Inl InvalidDelegationDepth
      else Inr \<lparr>q_provider = provider, q_model = model, q_requested = requested,
                q_tool_policy = policy, q_prompt = prompt, q_max_output_bytes = max_output,
                q_no_session = False, q_hard_total_token_ceiling = None,
                q_max_output_tokens = None, q_delegation_depth = depth\<rparr>)"

definition with_no_session :: "provider_request \<Rightarrow> bool \<Rightarrow> provider_request" where
  "with_no_session q b = q\<lparr>q_no_session := b\<rparr>"

definition with_token_budget ::
  "provider_request \<Rightarrow> nat \<Rightarrow> nat \<Rightarrow> provider_request_error + provider_request" where
  "with_token_budget q ceiling max_output =
     (if ceiling = 0 \<or> max_output = 0 \<or> max_output > ceiling then Inl InvalidTokenBudget
      else Inr (q\<lparr>q_hard_total_token_ceiling := Some ceiling, q_max_output_tokens := Some max_output\<rparr>))"

definition with_total_token_ceiling ::
  "provider_request \<Rightarrow> nat \<Rightarrow> provider_request_error + provider_request" where
  "with_total_token_ceiling q ceiling =
     (if ceiling = 0 then Inl InvalidTokenBudget
      else Inr (q\<lparr>q_hard_total_token_ceiling := Some ceiling\<rparr>))"

section \<open>Artifacts and claims\<close>

datatype artifact_kind = Patch | Json | ValidationReceipt | Opaque

record lossless_artifact =
  la_kind :: artifact_kind
  la_media_type :: str
  la_bytes :: bytes
  la_id :: result_id

definition media_char :: "char \<Rightarrow> bool" where
  "media_char b \<longleftrightarrow> is_ascii_lowercase b \<or> is_ascii_digit b
     \<or> b \<in> {CHR ''/'', CHR ''-'', CHR ''+'', CHR ''.'', CHR ''_''}"

definition artifact_new :: "artifact_kind \<Rightarrow> str \<Rightarrow> bytes \<Rightarrow> lossless_artifact option" where
  "artifact_new kind media bs =
     (if bs = [] \<or> length bs > 1048576 then None
      else if trim media = [] \<or> length media > 128 then None
      else if \<not> list_all media_char media then None
      else Some \<lparr>la_kind = kind, la_media_type = media, la_bytes = bs, la_id = id_sha256 bs\<rparr>)"

record token_usage =
  tu_input :: "nat option"
  tu_output :: "nat option"

record provider_claim =
  cl_id :: str
  cl_text :: str
  cl_material :: bool
  cl_locator :: str
  cl_content_digest :: str
  cl_support :: str

definition claim_new :: "str \<Rightarrow> str \<Rightarrow> bool \<Rightarrow> str \<Rightarrow> str \<Rightarrow> str \<Rightarrow> provider_claim option" where
  "claim_new i text material locator digest support =
     (if \<not> is_valid_name i \<or> trim text = [] \<or> length text > 65536 \<or> trim locator = []
         \<or> length locator > 1024 \<or> \<not> valid_sha256 digest
         \<or> length (trim support) < MIN_CLAIM_SUPPORT_BYTES \<or> length support > 65536
      then None
      else Some \<lparr>cl_id = i, cl_text = text, cl_material = material, cl_locator = locator,
                 cl_content_digest = digest, cl_support = support\<rparr>)"

section \<open>Provider outputs\<close>

record provider_output =
  o_answer :: str
  o_citations :: "str list"
  o_claims :: "provider_claim list"
  o_provider_run_id :: "str option"
  o_effective_model :: "str option"
  o_effective_reasoning :: "str option"
  o_effective_profile :: "str option"
  o_effective_provider :: "str option"
  o_actual_input_tokens :: "nat option"
  o_actual_output_tokens :: "nat option"
  o_enforced_token_ceiling :: "nat option"
  o_artifacts :: "lossless_artifact list"

record execution_evidence =
  xe_profile :: "str option"
  xe_provider :: "str option"
  xe_model :: "str option"
  xe_reasoning :: "str option"

text \<open>\<open>matches!(x, Some(v) if !is_valid_name(v))\<close>.\<close>

definition bad_name :: "str option \<Rightarrow> bool" where
  "bad_name x = (case x of None \<Rightarrow> False | Some v \<Rightarrow> \<not> is_valid_name v)"

definition evidence_new ::
  "str option \<Rightarrow> str option \<Rightarrow> str option \<Rightarrow> str option \<Rightarrow> execution_evidence option" where
  "evidence_new profile provider model reasoning =
     (if bad_name profile \<or> bad_name provider \<or> bad_name model \<or> bad_name reasoning then None
      else Some \<lparr>xe_profile = profile, xe_provider = provider, xe_model = model,
                 xe_reasoning = reasoning\<rparr>)"

definition output_new ::
  "str \<Rightarrow> str list \<Rightarrow> str option \<Rightarrow> str option \<Rightarrow> str option \<Rightarrow> token_usage
   \<Rightarrow> lossless_artifact list \<Rightarrow> provider_output option" where
  "output_new answer citations run_id model reasoning usage artifacts =
     (if trim answer = [] \<or> length answer > 1048576 then None
      else if length citations > 128 then None
      else if list_ex (\<lambda>c. trim c = [] \<or> length c > 1024) citations then None
      else if bad_name run_id \<or> bad_name model \<or> bad_name reasoning then None
      else if length artifacts > 64 then None
      else Some \<lparr>o_answer = answer, o_citations = citations, o_claims = [],
                 o_provider_run_id = run_id, o_effective_model = model,
                 o_effective_reasoning = reasoning, o_effective_profile = None,
                 o_effective_provider = None, o_actual_input_tokens = tu_input usage,
                 o_actual_output_tokens = tu_output usage, o_enforced_token_ceiling = None,
                 o_artifacts = artifacts\<rparr>)"

definition with_effective_execution ::
  "str \<Rightarrow> str list \<Rightarrow> str option \<Rightarrow> execution_evidence \<Rightarrow> token_usage \<Rightarrow> lossless_artifact list
   \<Rightarrow> provider_output option" where
  "with_effective_execution answer citations run_id e usage artifacts =
     map_option (\<lambda>out. out\<lparr>o_effective_profile := xe_profile e, o_effective_provider := xe_provider e\<rparr>)
       (output_new answer citations run_id (xe_model e) (xe_reasoning e) usage artifacts)"

definition with_claims :: "provider_output \<Rightarrow> provider_claim list \<Rightarrow> provider_output option" where
  "with_claims out claims =
     (if length claims > 128 then None
      else if \<not> distinct (map cl_id claims) then None
      else Some (out\<lparr>o_claims := claims\<rparr>))"

definition with_token_budget_attestation :: "provider_output \<Rightarrow> nat \<Rightarrow> provider_output option" where
  "with_token_budget_attestation out ceiling =
     (if ceiling = 0 then None else Some (out\<lparr>o_enforced_token_ceiling := Some ceiling\<rparr>))"

section \<open>The invocation lifecycle\<close>

datatype agent_failure =
    F_AgentDisabled | F_ExplicitOffline | F_ProjectUntrusted | F_UnknownProfile
  | F_UnknownProvider | F_UnknownModel | F_MissingAuth | F_ProviderUnavailable
  | F_ProviderFailed | F_Timeout | F_Cancelled | F_DepthExceeded | F_DeniedTool
  | F_InvalidOutput | F_DlpRejected | F_GroundingFailed | F_ClaimUnsupported
  | F_TokenBudgetUnattested | F_TokenCeilingExceeded | F_SqzInputFailed
  | F_SqzOutputFailed | F_ResultStoreFailed

datatype invocation_state =
  Configured | PacketReady | Running | Validating | Complete | Incomplete

definition advance ::
  "invocation_state \<Rightarrow> invocation_state \<Rightarrow> (agent_failure + unit) \<times> invocation_state" where
  "advance s new =
     (if (s, new) \<in> {(Configured, PacketReady), (PacketReady, Running), (Running, Validating)}
      then (Inr (), new) else (Inl F_InvalidOutput, s))"

definition lc_complete :: "invocation_state \<Rightarrow> (agent_failure + unit) \<times> invocation_state" where
  "lc_complete s = (if s = Validating then (Inr (), Complete) else (Inl F_InvalidOutput, s))"

definition lc_incomplete :: "invocation_state \<Rightarrow> (agent_failure + unit) \<times> invocation_state" where
  "lc_incomplete s =
     (if s \<in> {Complete, Incomplete} then (Inl F_InvalidOutput, s) else (Inr (), Incomplete))"

datatype 'a attestation = Attested 'a | AttUnavailable

record invocation_metrics =
  im_actual_input_tokens :: "nat option"
  im_actual_output_tokens :: "nat option"
  im_input_bytes :: nat
  im_output_bytes :: nat
  im_latency_ms :: nat

datatype invocation_outcome =
    Outcome_Complete invocation_metrics
  | Outcome_Incomplete agent_failure invocation_metrics

definition outcome_new ::
  "invocation_state \<Rightarrow> agent_failure option \<Rightarrow> invocation_metrics
   \<Rightarrow> agent_failure + invocation_outcome" where
  "outcome_new state failure metrics =
     (case (state, failure) of
        (Complete, None) \<Rightarrow> Inr (Outcome_Complete metrics)
      | (Complete, Some f) \<Rightarrow> Inl f
      | (Incomplete, Some f) \<Rightarrow> Inr (Outcome_Incomplete f metrics)
      | (Incomplete, None) \<Rightarrow> Inl F_InvalidOutput
      | _ \<Rightarrow> Inl F_InvalidOutput)"

section \<open>What the constructors guarantee\<close>

definition claim_ok :: "provider_claim \<Rightarrow> bool" where
  "claim_ok c \<longleftrightarrow> is_valid_name (cl_id c) \<and> trim (cl_text c) \<noteq> [] \<and> length (cl_text c) \<le> 65536
     \<and> trim (cl_locator c) \<noteq> [] \<and> length (cl_locator c) \<le> 1024
     \<and> valid_sha256 (cl_content_digest c)
     \<and> MIN_CLAIM_SUPPORT_BYTES \<le> length (trim (cl_support c)) \<and> length (cl_support c) \<le> 65536"

lemma claim_new_ok: "claim_new i t m l d s = Some c \<Longrightarrow> claim_ok c"
  by (auto simp: claim_new_def claim_ok_def split: if_splits)

lemma claim_new_rebuild:
  "claim_ok c \<Longrightarrow> claim_new (cl_id c) (cl_text c) (cl_material c) (cl_locator c)
     (cl_content_digest c) (cl_support c) = Some c"
  by (simp add: claim_new_def claim_ok_def)

definition artifact_ok :: "lossless_artifact \<Rightarrow> bool" where
  "artifact_ok a \<longleftrightarrow> la_bytes a \<noteq> [] \<and> length (la_bytes a) \<le> 1048576
     \<and> la_id a = id_sha256 (la_bytes a) \<and> list_all media_char (la_media_type a)
     \<and> length (la_media_type a) \<le> 128"

lemma artifact_new_ok: "artifact_new k m bs = Some a \<Longrightarrow> artifact_ok a"
  by (auto simp: artifact_new_def artifact_ok_def split: if_splits)

definition citation_ok :: "str \<Rightarrow> bool" where
  "citation_ok c \<longleftrightarrow> trim c \<noteq> [] \<and> length c \<le> 1024"

definition output_ok :: "provider_output \<Rightarrow> bool" where
  "output_ok out \<longleftrightarrow> trim (o_answer out) \<noteq> [] \<and> length (o_answer out) \<le> 1048576
     \<and> length (o_citations out) \<le> 128 \<and> list_all citation_ok (o_citations out)
     \<and> length (o_claims out) \<le> 128 \<and> distinct (map cl_id (o_claims out))
     \<and> list_all claim_ok (o_claims out)
     \<and> \<not> bad_name (o_provider_run_id out) \<and> \<not> bad_name (o_effective_model out)
     \<and> \<not> bad_name (o_effective_reasoning out)
     \<and> length (o_artifacts out) \<le> 64 \<and> list_all artifact_ok (o_artifacts out)"

lemma output_new_ok:
  "output_new a cs r m rs u arts = Some out \<Longrightarrow> list_all artifact_ok arts \<Longrightarrow> output_ok out"
  by (auto simp: output_new_def output_ok_def citation_ok_def list_all_iff list_ex_iff not_less
      split: if_splits)

lemma with_effective_execution_ok:
  "with_effective_execution a cs r e u arts = Some out \<Longrightarrow> list_all artifact_ok arts \<Longrightarrow> output_ok out"
  unfolding with_effective_execution_def
  by (auto dest: output_new_ok simp: output_ok_def)

lemma with_claims_ok:
  "with_claims out cs = Some out' \<Longrightarrow> output_ok out \<Longrightarrow> list_all claim_ok cs \<Longrightarrow> output_ok out'"
  by (auto simp: with_claims_def output_ok_def split: if_splits)

lemma with_attestation_ok:
  "with_token_budget_attestation out n = Some out' \<Longrightarrow> output_ok out \<Longrightarrow> output_ok out'"
  by (auto simp: with_token_budget_attestation_def output_ok_def split: if_splits)

section \<open>Runs of the lifecycle\<close>

inductive lifecycle_step :: "invocation_state \<Rightarrow> invocation_state \<Rightarrow> bool" where
  Step_Advance: "advance s new = (Inr (), s') \<Longrightarrow> lifecycle_step s s'"
| Step_Complete: "lc_complete s = (Inr (), s') \<Longrightarrow> lifecycle_step s s'"
| Step_Incomplete: "lc_incomplete s = (Inr (), s') \<Longrightarrow> lifecycle_step s s'"

inductive lifecycle_run :: "invocation_state \<Rightarrow> invocation_state list \<Rightarrow> bool" where
  Run_Stop: "lifecycle_run s []"
| Run_Move: "lifecycle_step s t \<Longrightarrow> lifecycle_run t ts \<Longrightarrow> lifecycle_run s (t # ts)"

inductive_simps run_Nil [simp]: "lifecycle_run s []"
inductive_simps run_Cons [simp]: "lifecycle_run s (t # ts)"

lemma lifecycle_step_iff:
  "lifecycle_step s t \<longleftrightarrow>
     (s, t) \<in> {(Configured, PacketReady), (PacketReady, Running), (Running, Validating),
               (Validating, Complete)}
     \<or> s \<notin> {Complete, Incomplete} \<and> t = Incomplete"
proof -
  have "lifecycle_step s t \<longleftrightarrow> (\<exists>new. advance s new = (Inr (), t)) \<or> lc_complete s = (Inr (), t)
      \<or> lc_incomplete s = (Inr (), t)"
    by (auto elim: lifecycle_step.cases intro: lifecycle_step.intros)
  then show ?thesis
    by (cases s; cases t) (auto simp: advance_def lc_complete_def lc_incomplete_def)
qed

lemma run_terminal: "s \<in> {Complete, Incomplete} \<Longrightarrow> lifecycle_run s ts \<longleftrightarrow> ts = []"
  by (cases ts) (auto simp: lifecycle_step_iff)

lemma run_validating: "lifecycle_run Validating ts \<longleftrightarrow> ts \<in> {[], [Complete], [Incomplete]}"
  by (cases ts) (auto simp: lifecycle_step_iff run_terminal)

lemma run_running:
  "lifecycle_run Running ts \<longleftrightarrow>
     ts \<in> {[], [Incomplete], [Validating], [Validating, Complete], [Validating, Incomplete]}"
  by (cases ts) (auto simp: lifecycle_step_iff run_terminal run_validating)

lemma run_ready:
  "lifecycle_run PacketReady ts \<longleftrightarrow> ts \<in> {[], [Incomplete]} \<or> (\<exists>us. ts = Running # us
     \<and> lifecycle_run Running us)"
  by (cases ts) (auto simp: lifecycle_step_iff run_terminal)

lemma run_configured:
  "lifecycle_run Configured ts \<longleftrightarrow> ts \<in> {[], [Incomplete]} \<or> (\<exists>us. ts = PacketReady # us
     \<and> lifecycle_run PacketReady us)"
  by (cases ts) (auto simp: lifecycle_step_iff run_terminal)

text \<open>
  C35. The lifecycle of an invocation: from Configured there are exactly nine sequences of
  successful transitions; Complete is reached only through PacketReady, Running and
  Validating in this order, once; and every sequence can be continued, to at most four
  transitions, into a final state, after which nothing moves.
\<close>

theorem lifecycle_runs:
  "(lifecycle_run Configured ts \<longleftrightarrow>
      ts \<in> {[], [Incomplete], [PacketReady], [PacketReady, Incomplete], [PacketReady, Running],
            [PacketReady, Running, Incomplete], [PacketReady, Running, Validating],
            [PacketReady, Running, Validating, Complete],
            [PacketReady, Running, Validating, Incomplete]})
   \<and> (lifecycle_run Configured ts \<longleftrightarrow>
        (\<exists>us. lifecycle_run Configured (ts @ us) \<and> length (ts @ us) \<le> 4
           \<and> last (Configured # ts @ us) \<in> {Complete, Incomplete}))
   \<and> (fst (advance Complete s) = Inl F_InvalidOutput) \<and> fst (lc_complete Complete) = Inl F_InvalidOutput
   \<and> fst (lc_incomplete Complete) = Inl F_InvalidOutput"
proof -
  let ?all = "{[], [Incomplete], [PacketReady], [PacketReady, Incomplete], [PacketReady, Running],
            [PacketReady, Running, Incomplete], [PacketReady, Running, Validating],
            [PacketReady, Running, Validating, Complete],
            [PacketReady, Running, Validating, Incomplete]}"
  have all: "lifecycle_run Configured ts \<longleftrightarrow> ts \<in> ?all" for ts
    unfolding run_configured run_ready run_running by blast
  have ext: "\<exists>us. ts @ us \<in> ?all \<and> length (ts @ us) \<le> 4
      \<and> last (Configured # ts @ us) \<in> {Complete, Incomplete}" if "ts \<in> ?all" for ts
  proof -
    have "\<exists>us \<in> {[], [Incomplete]}. ts @ us \<in> ?all \<and> length (ts @ us) \<le> 4
      \<and> last (Configured # ts @ us) \<in> {Complete, Incomplete}"
      using that by (elim insertE emptyE) simp_all
    then show ?thesis by blast
  qed
  have pre: "ts \<in> ?all" if "ts @ us \<in> ?all" for us
    using that by (auto simp: append_eq_Cons_conv)
  have ext': "(\<exists>us. lifecycle_run Configured (ts @ us) \<and> length (ts @ us) \<le> 4
      \<and> last (Configured # ts @ us) \<in> {Complete, Incomplete})" if "lifecycle_run Configured ts"
    using ext [OF that [unfolded all]] unfolding all .
  have pre': "lifecycle_run Configured ts" if "lifecycle_run Configured (ts @ us)" for us
    using pre [OF that [unfolded all]] unfolding all .
  show ?thesis
  proof (intro conjI)
    show "lifecycle_run Configured ts \<longleftrightarrow> ts \<in> ?all" by (rule all)
    show "lifecycle_run Configured ts \<longleftrightarrow>
        (\<exists>us. lifecycle_run Configured (ts @ us) \<and> length (ts @ us) \<le> 4
           \<and> last (Configured # ts @ us) \<in> {Complete, Incomplete})"
      using ext' pre' by meson
  qed (simp_all add: advance_def lc_complete_def lc_incomplete_def)
qed

end
