(* ===== verification/Delegate.thy ===== *)
theory Delegate
  imports Agent_Runtime
begin

text \<open>
  Delegation requests and grounding contracts (\<open>agent/delegate.rs\<close>). The file system is an
  argument: a record of the standard library's calls that the code makes (\<open>symlink_metadata\<close>,
  \<open>canonicalize\<close>, \<open>File::open\<close> with the opened file's metadata and content, \<open>metadata\<close>),
  each answering as it likes, on the Unix target (the \<open>cfg(unix)\<close> checks are modelled). A
  path is its bytes; its components are those of \<open>Path::components\<close> on Unix.
\<close>

section \<open>Paths\<close>

datatype path_component = RootDir | CurDir | ParentDir | Normal str

definition component_of :: "str \<Rightarrow> path_component" where
  "component_of p = (if p = ''..'' then ParentDir else Normal p)"

definition path_components :: "str \<Rightarrow> path_component list" where
  "path_components path =
     (let pieces = split_on (CHR ''/'') path in
      (if prefix ''/'' path then [RootDir] else if hd pieces = ''.'' then [CurDir] else [])
      @ map component_of (filter (\<lambda>p. p \<noteq> [] \<and> p \<noteq> ''.'') pieces))"

definition path_push :: "str \<Rightarrow> str \<Rightarrow> str" where
  "path_push path c =
     (if path = [] \<or> last path = CHR ''/'' then path @ c else path @ CHR ''/'' # c)"

definition path_starts_with :: "str \<Rightarrow> str \<Rightarrow> bool" where
  "path_starts_with path base \<longleftrightarrow> prefix (path_components base) (path_components path)"

definition is_normal :: "path_component \<Rightarrow> bool" where
  "is_normal c = (case c of Normal _ \<Rightarrow> True | _ \<Rightarrow> False)"

section \<open>Binary search\<close>

text \<open>\<open>slice::binary_search_by\<close> on a key, with the element found instead of its index.\<close>

function bsearch :: "('a \<Rightarrow> 'k::linorder) \<Rightarrow> 'a list \<Rightarrow> 'k \<Rightarrow> 'a option" where
  "bsearch f xs k =
     (if xs = [] then None
      else (let m = length xs div 2; x = xs ! m in
            if f x = k then Some x
            else if f x < k then bsearch f (drop (Suc m) xs) k
            else bsearch f (take m xs) k))"
  by pat_completeness auto
termination
proof (relation "measure (\<lambda>(_, xs, _). length xs)", goal_cases)
  case (3 f xs k)
  then have "length xs div 2 < length xs" by (simp add: div_less_dividend)
  with 3 show ?case by simp
qed auto

declare bsearch.simps [simp del]

lemma bsearch_find:
  "sorted_wrt (<) (map f xs) \<Longrightarrow> bsearch f xs k = find (\<lambda>x. f x = k) xs"
proof (induction xs rule: length_induct)
  case (1 xs)
  show ?case
  proof (cases "xs = []")
    case False
    define m where "m = length xs div 2"
    have m: "m < length xs" using False by (simp add: m_def)
    define a x b where "a = take m xs" and "x = xs ! m" and "b = drop (Suc m) xs"
    have xs: "xs = a @ x # b" using m by (simp add: a_def b_def x_def id_take_nth_drop)
    have s: "sorted_wrt (<) (map f a)" "sorted_wrt (<) (map f b)"
      "\<forall>y \<in> set a. f y < f x" "\<forall>y \<in> set b. f x < f y" "\<forall>y \<in> set a. \<forall>z \<in> set b. f y < f z"
      using 1(2) unfolding xs by (auto simp: sorted_wrt_append)
    have len: "length a < length xs" "length b < length xs" by (simp_all add: xs)
    have ih: "bsearch f a k = find (\<lambda>x. f x = k) a" "bsearch f b k = find (\<lambda>x. f x = k) b"
      using 1(1) [rule_format, OF len(1)] 1(1) [rule_format, OF len(2)] s(1,2) by simp_all
    have none: "find (\<lambda>x. f x = k) l = None" if "\<forall>y \<in> set l. f y \<noteq> k" for l
      using that by (simp add: find_None_iff)
    have app: "find P (l @ r) = (case find P l of None \<Rightarrow> find P r | Some z \<Rightarrow> Some z)" for P l r
      by (induction l) auto
    have st: "bsearch f xs k = (if f x = k then Some x else if f x < k then bsearch f b k
        else bsearch f a k)"
      using False by (subst bsearch.simps) (simp add: Let_def a_def x_def b_def m_def)
    have na: "\<not> k < f x \<Longrightarrow> find (\<lambda>x. f x = k) a = None" using s(3) by (intro none) auto
    have nb: "k < f x \<Longrightarrow> find (\<lambda>x. f x = k) b = None" using s(4) by (intro none) auto
    consider "f x = k" | "f x < k" | "k < f x" by (rule linorder_cases)
    then show ?thesis
      by cases (use st ih na nb in \<open>auto simp: xs app split: option.split\<close>)
  qed (simp add: bsearch.simps)
qed

section \<open>Grounding contracts\<close>

record admitted_evidence =
  ae_locator :: str
  ae_content_digest :: str

record grounding_contract =
  gc_locators :: "str list"
  gc_evidence :: "admitted_evidence list"
  gc_root :: "str option"
  gc_anchors :: "preservation_anchor list"

definition valid_locator :: "str \<Rightarrow> bool" where
  "valid_locator locator \<longleftrightarrow> locator \<noteq> [] \<and> length locator \<le> 1024
     \<and> is_public_dlp_safe locator \<and> list_all is_normal (path_components locator)"

definition evidence_admit :: "str \<Rightarrow> str \<Rightarrow> admitted_evidence option" where
  "evidence_admit locator digest =
     (if \<not> valid_locator locator \<or> \<not> valid_sha256 digest then None
      else Some \<lparr>ae_locator = locator, ae_content_digest = digest\<rparr>)"

fun collect_locators :: "str list \<Rightarrow> str list \<Rightarrow> str list option" where
  "collect_locators [] s = Some s"
| "collect_locators (l # ls) s =
     (if trim l = [] \<or> length l > 1024 \<or> \<not> is_public_dlp_safe l then None
      else (case set_insert l s of (new, s') \<Rightarrow>
        if \<not> new then None else collect_locators ls s'))"

fun collect_anchors ::
  "preservation_anchor list \<Rightarrow> (str, preservation_anchor) omap
   \<Rightarrow> (str, preservation_anchor) omap option" where
  "collect_anchors [] m = Some m"
| "collect_anchors (a # as) m =
     (if \<not> is_public_dlp_safe (a_value a) \<or> om_get m (a_id a) \<noteq> None then None
      else collect_anchors as (om_put (a_id a) a m))"

fun checked_total :: "nat list \<Rightarrow> nat \<Rightarrow> nat option" where
  "checked_total [] t = Some t"
| "checked_total (n # ns) t = Option.bind (checked_add_u64 t n) (checked_total ns)"

definition contract_new ::
  "str list \<Rightarrow> preservation_anchor list \<Rightarrow> grounding_contract option" where
  "contract_new locators anchors =
     (if locators = [] \<or> length locators > 128 \<or> anchors = [] \<or> length anchors > 128 then None
      else
        Option.bind (collect_locators locators []) (\<lambda>ls.
        Option.bind (collect_anchors anchors []) (\<lambda>as.
        Option.bind (checked_total (map length (ls @ map (\<lambda>(_, a). a_value a) as)) 0) (\<lambda>total.
          if total > 65536 then None
          else Some \<lparr>gc_locators = ls, gc_evidence = [], gc_root = None,
                     gc_anchors = map snd as\<rparr>))))"

section \<open>The file system\<close>

record file_meta =
  fm_is_symlink :: bool
  fm_is_dir :: bool
  fm_is_file :: bool
  fm_len :: nat
  fm_dev :: nat
  fm_ino :: nat
  fm_mtime :: int
  fm_mtime_nsec :: int

record file_system =
  fs_lstat :: "str \<Rightarrow> file_meta option"
  fs_canonicalize :: "str \<Rightarrow> str option"
  fs_open :: "str \<Rightarrow> (file_meta option \<times> bytes option) option"
  fs_stat :: "str \<Rightarrow> file_meta option"

definition contract_with_evidence ::
  "file_system \<Rightarrow> str \<Rightarrow> admitted_evidence list \<Rightarrow> preservation_anchor list
   \<Rightarrow> grounding_contract option" where
  "contract_with_evidence fs root0 admitted anchors =
     Option.bind (fs_canonicalize fs root0) (\<lambda>root.
     Option.bind (fs_lstat fs root) (\<lambda>meta.
       if \<not> prefix ''/'' root \<or> \<not> fm_is_dir meta \<or> fm_is_symlink meta then None
       else if admitted = [] \<or> length admitted > 128 then None
       else
         (let evidence = sort_key ae_locator admitted;
              locators = map ae_locator evidence in
          if \<not> distinct_adj locators then None
          else
            Option.bind (contract_new locators anchors) (\<lambda>contract.
            Option.bind (checked_total
                (concat (map (\<lambda>e. [length (ae_locator e), length (ae_content_digest e)]) evidence)) 0)
              (\<lambda>bytes.
                if bytes > 65536 then None
                else Some (contract\<lparr>gc_evidence := evidence, gc_root := Some root\<rparr>))))))"

definition admits_citation :: "grounding_contract \<Rightarrow> str \<Rightarrow> bool" where
  "admits_citation c locator \<longleftrightarrow> bsearch id (gc_locators c) locator \<noteq> None"

definition find_evidence :: "grounding_contract \<Rightarrow> str \<Rightarrow> admitted_evidence option" where
  "find_evidence c locator = bsearch ae_locator (gc_evidence c) locator"

definition has_verifiable_evidence :: "grounding_contract \<Rightarrow> bool" where
  "has_verifiable_evidence c \<longleftrightarrow> gc_root c \<noteq> None \<and> gc_evidence c \<noteq> []"

definition MAX_FILE_BYTES :: nat where
  "MAX_FILE_BYTES = 1048576"

fun walk :: "file_system \<Rightarrow> str \<Rightarrow> path_component list \<Rightarrow> str option" where
  "walk fs joined [] = Some joined"
| "walk fs joined (Normal c # cs) =
     (let joined' = path_push joined c in
      case fs_lstat fs joined' of
        None \<Rightarrow> None
      | Some meta \<Rightarrow>
          if fm_is_symlink meta \<or> (cs \<noteq> [] \<and> \<not> fm_is_dir meta) then None
          else walk fs joined' cs)"
| "walk fs joined (_ # cs) = None"

definition same_file :: "file_meta \<Rightarrow> file_meta \<Rightarrow> bool" where
  "same_file a b \<longleftrightarrow> fm_dev a = fm_dev b \<and> fm_ino a = fm_ino b"

definition unchanged :: "file_meta \<Rightarrow> file_meta \<Rightarrow> bool" where
  "unchanged a b \<longleftrightarrow> same_file a b \<and> fm_len a = fm_len b \<and> fm_mtime a = fm_mtime b
     \<and> fm_mtime_nsec a = fm_mtime_nsec b"

definition read_opened :: "file_system \<Rightarrow> str \<Rightarrow> file_meta \<Rightarrow> bytes option" where
  "read_opened fs canonical joined_meta =
     (case fs_open fs canonical of
        Some (Some opened, content) \<Rightarrow>
          if \<not> same_file joined_meta opened then None
          else (case map_option (take (MAX_FILE_BYTES + 1)) content of
             None \<Rightarrow> None
           | Some bytes \<Rightarrow>
               if length bytes > MAX_FILE_BYTES then None
               else (case fs_stat fs canonical of
                  None \<Rightarrow> None
                | Some final \<Rightarrow> if unchanged opened final then Some bytes else None))
      | _ \<Rightarrow> None)"

definition read_current_file :: "file_system \<Rightarrow> str \<Rightarrow> str \<Rightarrow> bytes option" where
  "read_current_file fs root locator =
     (if \<not> valid_locator locator then None
      else
        Option.bind (walk fs root (path_components locator)) (\<lambda>joined.
        Option.bind (fs_lstat fs joined) (\<lambda>meta.
          if \<not> fm_is_file meta \<or> fm_is_symlink meta \<or> fm_len meta > MAX_FILE_BYTES then None
          else
            Option.bind (fs_canonicalize fs joined) (\<lambda>canonical.
              if \<not> path_starts_with canonical root
                 \<or> path_components canonical = path_components root then None
              else read_opened fs canonical meta))))"

section \<open>Support of claims\<close>

type_synonym support_claim = "str \<times> str \<times> str"

fun verify_loop ::
  "file_system \<Rightarrow> grounding_contract \<Rightarrow> str \<Rightarrow> (str, bytes) omap \<Rightarrow> nat \<Rightarrow> support_claim list
   \<Rightarrow> bool" where
  "verify_loop fs c root current count [] = (count > 0)"
| "verify_loop fs c root current count ((locator, digest, support) # claims) =
     (if count + 1 > 128 \<or> length (trim support) < MIN_CLAIM_SUPPORT_BYTES
         \<or> length support > 65536 then False
      else (case find_evidence c locator of
        None \<Rightarrow> False
      | Some admitted \<Rightarrow>
          if digest \<noteq> ae_content_digest admitted then False
          else (case om_get current locator of
            Some bytes \<Rightarrow>
              contains bytes support \<and> verify_loop fs c root current (count + 1) claims
          | None \<Rightarrow>
              (case read_current_file fs root locator of
                 None \<Rightarrow> False
               | Some bytes \<Rightarrow>
                   if id_value (id_sha256 bytes) \<noteq> ae_content_digest admitted then False
                   else contains bytes support
                     \<and> verify_loop fs c root (om_put locator bytes current) (count + 1) claims))))"

definition verifies_support :: "file_system \<Rightarrow> grounding_contract \<Rightarrow> support_claim list \<Rightarrow> bool" where
  "verifies_support fs c claims =
     (case gc_root c of None \<Rightarrow> False | Some root \<Rightarrow> verify_loop fs c root [] 0 claims)"

section \<open>Delegation requests\<close>

record delegation_options =
  do_provider_override :: "str option"
  do_model_override :: "str option"
  do_reasoning_override :: "reasoning_level option"
  do_tool_policy :: tool_policy
  do_no_session :: bool
  do_max_output_bytes :: nat
  do_hard_total_token_ceiling :: "nat option"
  do_max_output_tokens :: "nat option"
  do_delegation_depth :: nat
  do_grounding_contract :: "grounding_contract option"

definition default_options :: delegation_options where
  "default_options =
     \<lparr>do_provider_override = None, do_model_override = None, do_reasoning_override = None,
      do_tool_policy = read_only_default, do_no_session = False, do_max_output_bytes = 65536,
      do_hard_total_token_ceiling = None, do_max_output_tokens = None, do_delegation_depth = 0,
      do_grounding_contract = None\<rparr>"

record delegation_request =
  dr_profile :: str
  dr_prompt :: str
  dr_provider_override :: "str option"
  dr_model_override :: "str option"
  dr_reasoning_override :: "reasoning_level option"
  dr_tool_policy :: tool_policy
  dr_no_session :: bool
  dr_max_output_bytes :: nat
  dr_hard_total_token_ceiling :: "nat option"
  dr_max_output_tokens :: "nat option"
  dr_delegation_depth :: nat
  dr_grounding_contract :: "grounding_contract option"

definition bad_identity :: "str option \<Rightarrow> bool" where
  "bad_identity x = (case x of None \<Rightarrow> False | Some v \<Rightarrow> \<not> is_valid_identity v)"

definition bad_budget :: "nat option \<Rightarrow> nat option \<Rightarrow> bool" where
  "bad_budget ceiling max_output \<longleftrightarrow> ceiling = Some 0 \<or> max_output = Some 0
     \<or> (case (ceiling, max_output) of
          (None, Some _) \<Rightarrow> True | (Some c, Some n) \<Rightarrow> n > c | _ \<Rightarrow> False)"

definition request_new :: "str \<Rightarrow> str \<Rightarrow> delegation_options \<Rightarrow> delegation_request option" where
  "request_new profile prompt options =
     (if \<not> is_valid_identity profile then None
      else if trim prompt = [] \<or> length prompt > 65536 then None
      else if bad_identity (do_provider_override options) then None
      else if bad_identity (do_model_override options) then None
      else if \<not> (1 \<le> do_max_output_bytes options \<and> do_max_output_bytes options \<le> 1048576) then None
      else if bad_budget (do_hard_total_token_ceiling options) (do_max_output_tokens options) then None
      else if do_delegation_depth options > 8 then None
      else Some \<lparr>dr_profile = profile, dr_prompt = prompt,
                 dr_provider_override = do_provider_override options,
                 dr_model_override = do_model_override options,
                 dr_reasoning_override = do_reasoning_override options,
                 dr_tool_policy = do_tool_policy options,
                 dr_no_session = do_no_session options,
                 dr_max_output_bytes = do_max_output_bytes options,
                 dr_hard_total_token_ceiling = do_hard_total_token_ceiling options,
                 dr_max_output_tokens = do_max_output_tokens options,
                 dr_delegation_depth = do_delegation_depth options,
                 dr_grounding_contract = do_grounding_contract options\<rparr>)"

section \<open>Contracts are well formed\<close>

lemma sorted_distinct_strict: "sorted xs \<Longrightarrow> distinct xs \<Longrightarrow> sorted_wrt (<) xs"
  for xs :: "'a::linorder list"
  by (simp add: strict_sorted_iff)

lemma sorted_distinct_adj: "sorted xs \<Longrightarrow> distinct_adj xs \<Longrightarrow> distinct xs"
  for xs :: "'a::linorder list"
  by (induction xs rule: induct_list012) (auto simp: distinct_adj_Cons_Cons)

lemma collect_locators_Some:
  "collect_locators ls s = Some t \<Longrightarrow> sorted s \<Longrightarrow> distinct s
   \<Longrightarrow> sorted t \<and> distinct t \<and> set t = set s \<union> set ls \<and> length t = length s + length ls
       \<and> (\<forall>l \<in> set ls. trim l \<noteq> [] \<and> length l \<le> 1024 \<and> is_public_dlp_safe l)"
proof (induction ls arbitrary: s)
  case (Cons l ls)
  then have n: "trim l \<noteq> []" "length l \<le> 1024" "is_public_dlp_safe l" "l \<notin> set s"
    "collect_locators ls (btree_set (l # s)) = Some t"
    by (auto simp: set_insert_def split: if_splits)
  have "set (btree_set (l # s)) = insert l (set s)" by (simp del: set_simps) simp
  moreover have "length (btree_set (l # s)) = Suc (length s)"
    using n(4) Cons.prems by (simp add: btree_set_def)
  ultimately show ?case using Cons.IH [OF n(5)] n by auto
qed simp

lemma collect_anchors_Some:
  "collect_anchors as m = Some m' \<Longrightarrow> om_inv m
   \<Longrightarrow> om_inv m' \<and> snd ` set m' = snd ` set m \<union> set as \<and> length m' = length m + length as
       \<and> (\<forall>a \<in> set as. is_public_dlp_safe (a_value a))
       \<and> ((\<forall>(k, a) \<in> set m. a_id a = k) \<longrightarrow> (\<forall>(k, a) \<in> set m'. a_id a = k))"
proof (induction as arbitrary: m)
  case (Cons a as)
  then have n: "is_public_dlp_safe (a_value a)" "om_get m (a_id a) = None"
    "collect_anchors as (om_put (a_id a) a m) = Some m'"
    by (auto split: if_splits)
  have nk: "a_id a \<notin> fst ` set m"
    using n(2) by (simp add: om_get_def map_of_eq_None_iff)
  have s: "set (om_put (a_id a) a m) = insert (a_id a, a) (set m)"
  proof -
    have "{p \<in> set m. fst p \<noteq> a_id a} = set m" using nk by (auto intro: rev_image_eqI)
    then show ?thesis using om_put_set [OF Cons.prems(2), of "a_id a" a] by simp
  qed
  have l: "length (om_put (a_id a) a m) = Suc (length m)" by (rule om_put_length_new [OF nk])
  have keep: "(\<forall>(k, b) \<in> set m. a_id b = k) \<Longrightarrow> (\<forall>(k, b) \<in> set (om_put (a_id a) a m). a_id b = k)"
    unfolding s by simp
  have img: "snd ` set (om_put (a_id a) a m) = insert a (snd ` set m)"
    unfolding s by simp
  note ih = Cons.IH [OF n(3) om_put_inv [OF Cons.prems(2)], unfolded l img]
  from ih have "om_inv m'" "snd ` set m' = snd ` set m \<union> set (a # as)"
    "length m' = length m + length (a # as)" "\<forall>b \<in> set (a # as). is_public_dlp_safe (a_value b)"
    using n(1) by simp_all
  moreover have "(\<forall>(k, b) \<in> set m. a_id b = k) \<longrightarrow> (\<forall>(k, b) \<in> set m'. a_id b = k)"
    using ih keep by argo
  ultimately show ?case by blast
qed simp

lemma checked_total_Some: "checked_total ns t = Some u \<Longrightarrow> u = t + sum_list ns"
  by (induction ns arbitrary: t) (fastforce simp: bind_eq_Some_conv)+

lemma checked_total_fits: "t + sum_list ns \<le> u64_max \<Longrightarrow> checked_total ns t = Some (t + sum_list ns)"
  by (induction ns arbitrary: t) (simp_all add: checked_add_u64_def add.assoc [symmetric])

definition contract_ok :: "grounding_contract \<Rightarrow> bool" where
  "contract_ok c \<longleftrightarrow>
     sorted_wrt (<) (gc_locators c) \<and> gc_locators c \<noteq> [] \<and> length (gc_locators c) \<le> 128
     \<and> list_all (\<lambda>l. trim l \<noteq> [] \<and> length l \<le> 1024 \<and> is_public_dlp_safe l) (gc_locators c)
     \<and> sorted_wrt (<) (map a_id (gc_anchors c)) \<and> gc_anchors c \<noteq> []
     \<and> length (gc_anchors c) \<le> 128
     \<and> list_all (\<lambda>a. is_public_dlp_safe (a_value a)) (gc_anchors c)
     \<and> sum_list (map length (gc_locators c)) + sum_list (map (length \<circ> a_value) (gc_anchors c))
         \<le> 65536
     \<and> (gc_evidence c = [] \<or> map ae_locator (gc_evidence c) = gc_locators c)"

lemma contract_new_ok:
  assumes "contract_new locators anchors = Some c"
  shows "contract_ok c \<and> set (gc_locators c) = set locators \<and> set (gc_anchors c) = set anchors
    \<and> gc_evidence c = [] \<and> gc_root c = None"
proof -
  from assms obtain ls as total where c: "collect_locators locators [] = Some ls"
    "collect_anchors anchors [] = Some as"
    "checked_total (map length (ls @ map (\<lambda>(_, a). a_value a) as)) 0 = Some total"
    "total \<le> 65536" "locators \<noteq> []" "length locators \<le> 128" "anchors \<noteq> []"
    "length anchors \<le> 128"
    "c = \<lparr>gc_locators = ls, gc_evidence = [], gc_root = None, gc_anchors = map snd as\<rparr>"
    by (auto simp: contract_new_def bind_eq_Some_conv split: if_splits)
  note l = collect_locators_Some [OF c(1), simplified]
    and a = collect_anchors_Some [OF c(2), simplified]
  have ids: "map a_id (map snd as) = map fst as" using a by auto
  have "sorted_wrt (<) (map a_id (map snd as))"
    unfolding ids using a by (simp add: om_inv_def)
  moreover have "total = sum_list (map length ls) + sum_list (map (length \<circ> a_value) (map snd as))"
    using checked_total_Some [OF c(3)] by (simp add: case_prod_beta comp_def)
  moreover have "ls \<noteq> []" "as \<noteq> []" using l a c by auto
  ultimately show ?thesis
    using l a c sorted_distinct_strict [of ls]
    by (auto simp: contract_ok_def list_all_iff)
qed

lemma contract_with_evidence_ok:
  assumes "contract_with_evidence fs root0 admitted anchors = Some c"
  shows "contract_ok c \<and> set (gc_evidence c) = set admitted \<and> set (gc_anchors c) = set anchors
    \<and> gc_evidence c \<noteq> [] \<and> (\<exists>root. gc_root c = Some root \<and> fs_canonicalize fs root0 = Some root
         \<and> prefix ''/'' root)"
proof -
  define evidence where "evidence = sort_key ae_locator admitted"
  from assms obtain root contract where c: "fs_canonicalize fs root0 = Some root" "prefix ''/'' root"
    "admitted \<noteq> []" "distinct_adj (map ae_locator evidence)"
    "contract_new (map ae_locator evidence) anchors = Some contract"
    "c = contract\<lparr>gc_evidence := evidence, gc_root := Some root\<rparr>"
    by (auto simp: contract_with_evidence_def bind_eq_Some_conv Let_def evidence_def
        split: if_splits)
  note k = contract_new_ok [OF c(5)]
  have s: "sorted (map ae_locator evidence)" by (simp add: evidence_def)
  have e: "set evidence = set admitted" "evidence \<noteq> []"
    using c(3) unfolding evidence_def by (simp, metis length_0_conv length_sort)
  have "distinct (map ae_locator evidence)" using s c(4) by (rule sorted_distinct_adj)
  then have "map ae_locator evidence = gc_locators contract"
    using s k by (intro sorted_distinct_set_unique) (auto simp: contract_ok_def strict_sorted_iff)
  then show ?thesis using k c e by (auto simp: contract_ok_def)
qed

section \<open>Reading a cited file\<close>

definition normal_names :: "path_component list \<Rightarrow> str list" where
  "normal_names cs = map (\<lambda>c. case c of Normal n \<Rightarrow> n | _ \<Rightarrow> []) cs"

lemma walk_Some:
  "walk fs joined cs = Some j
   \<Longrightarrow> j = foldl path_push joined (normal_names cs)
     \<and> (\<forall>k < length cs. \<exists>m. fs_lstat fs (foldl path_push joined (take (Suc k) (normal_names cs)))
            = Some m \<and> \<not> fm_is_symlink m \<and> (Suc k < length cs \<longrightarrow> fm_is_dir m))"
proof (induction fs joined cs rule: walk.induct)
  case (2 fs joined c cs)
  then obtain m where m: "fs_lstat fs (path_push joined c) = Some m" "\<not> fm_is_symlink m"
    "cs = [] \<or> fm_is_dir m" "walk fs (path_push joined c) cs = Some j"
    by (auto simp: Let_def split: option.splits if_splits)
  note ih = 2(1) [OF refl m(1) _ m(4)]
  have ih: "j = foldl path_push (path_push joined c) (normal_names cs)"
    "\<forall>k < length cs. \<exists>m. fs_lstat fs (foldl path_push (path_push joined c)
        (take (Suc k) (normal_names cs))) = Some m \<and> \<not> fm_is_symlink m
        \<and> (Suc k < length cs \<longrightarrow> fm_is_dir m)"
    using ih m(2,3) by auto
  have "\<exists>m. fs_lstat fs (foldl path_push joined (take (Suc k) (normal_names (Normal c # cs))))
            = Some m \<and> \<not> fm_is_symlink m \<and> (Suc k < length (Normal c # cs) \<longrightarrow> fm_is_dir m)"
    if "k < length (Normal c # cs)" for k
  proof (cases k)
    case 0
    with m show ?thesis by (auto simp: normal_names_def)
  next
    case (Suc k')
    with that ih(2) show ?thesis by (auto simp: normal_names_def)
  qed
  with ih(1) show ?case by (simp add: normal_names_def)
qed (simp_all add: normal_names_def)

lemma read_opened_Some:
  "read_opened fs canonical meta = Some b \<Longrightarrow> length b \<le> MAX_FILE_BYTES
   \<and> (\<exists>opened content final. fs_open fs canonical = Some (Some opened, Some content) \<and> b = content
        \<and> same_file meta opened \<and> fs_stat fs canonical = Some final \<and> unchanged opened final)"
  by (auto simp: read_opened_def split: option.splits prod.splits if_splits)

section \<open>Properties\<close>

text \<open>
  C21. A cited file is read only from inside the repository: the locator has ordinary
  components only, no component of the path below the root is a symbolic link and all but
  the last are directories, the canonical path is strictly below the root, the opened file
  is the one that was inspected and did not change while it was read, and the whole
  content, at most one mebibyte, is what is returned.
\<close>

theorem read_confined:
  assumes "read_current_file fs root locator = Some b"
  shows "list_all is_normal (path_components locator) \<and> length b \<le> 1048576
    \<and> (\<forall>k < length (path_components locator).
         \<exists>m. fs_lstat fs (foldl path_push root (take (Suc k) (normal_names (path_components locator))))
               = Some m \<and> \<not> fm_is_symlink m
             \<and> (Suc k < length (path_components locator) \<longrightarrow> fm_is_dir m))
    \<and> (\<exists>canonical meta opened final.
         fs_canonicalize fs (foldl path_push root (normal_names (path_components locator)))
           = Some canonical
         \<and> path_starts_with canonical root \<and> path_components canonical \<noteq> path_components root
         \<and> fs_lstat fs (foldl path_push root (normal_names (path_components locator))) = Some meta
         \<and> fm_is_file meta \<and> same_file meta opened
         \<and> fs_open fs canonical = Some (Some opened, Some b)
         \<and> fs_stat fs canonical = Some final \<and> unchanged opened final)"
proof -
  from assms obtain joined meta canonical where r: "valid_locator locator"
    "walk fs root (path_components locator) = Some joined" "fs_lstat fs joined = Some meta"
    "fm_is_file meta" "fs_canonicalize fs joined = Some canonical"
    "path_starts_with canonical root" "path_components canonical \<noteq> path_components root"
    "read_opened fs canonical meta = Some b"
    by (auto simp: read_current_file_def bind_eq_Some_conv split: if_splits)
  note w = walk_Some [OF r(2)] and o = read_opened_Some [OF r(8)]
  have "list_all is_normal (path_components locator)" using r(1) by (simp add: valid_locator_def)
  moreover have "length b \<le> 1048576" using o by (simp add: MAX_FILE_BYTES_def)
  ultimately show ?thesis using w o r by blast
qed

definition demo_file_meta :: "bool \<Rightarrow> file_meta" where
  "demo_file_meta dir =
     \<lparr>fm_is_symlink = False, fm_is_dir = dir, fm_is_file = \<not> dir, fm_len = 3, fm_dev = 1,
      fm_ino = 2, fm_mtime = 0, fm_mtime_nsec = 0\<rparr>"

definition demo_fs :: file_system where
  "demo_fs =
     \<lparr>fs_lstat = (\<lambda>p. if p = ''/r/a/b'' then Some (demo_file_meta False)
                     else if p = ''/r'' \<or> p = ''/r/a'' then Some (demo_file_meta True) else None),
      fs_canonicalize = Some,
      fs_open = (\<lambda>p. if p = ''/r/a/b'' then Some (Some (demo_file_meta False), Some ''xyz'') else None),
      fs_stat = (\<lambda>p. if p = ''/r/a/b'' then Some (demo_file_meta False) else None)\<rparr>"

theorem read_confined_witness:
  "read_current_file demo_fs ''/r'' ''a/b'' = Some ''xyz'' \<and> length ''xyz'' \<le> 1048576
   \<and> read_current_file demo_fs ''/r/a'' ''../a/b'' = None"
proof -
  have r: "read_current_file demo_fs ''/r'' ''a/b'' = Some ''xyz''" by code_simp
  have n: "read_current_file demo_fs ''/r/a'' ''../a/b'' = None" by code_simp
  from read_confined [OF r] r n show ?thesis by blast
qed

definition claim_supported ::
  "file_system \<Rightarrow> grounding_contract \<Rightarrow> str \<Rightarrow> support_claim \<Rightarrow> bool" where
  "claim_supported fs c root claim =
     (case claim of (locator, digest, support) \<Rightarrow>
        MIN_CLAIM_SUPPORT_BYTES \<le> length (trim support) \<and> length support \<le> 65536
        \<and> (\<exists>e b. find_evidence c locator = Some e \<and> ae_content_digest e = digest
             \<and> read_current_file fs root locator = Some b
             \<and> id_value (id_sha256 b) = digest \<and> contains b support))"

lemma verify_loop_iff:
  assumes "\<forall>l b. om_get current l = Some b \<longrightarrow> read_current_file fs root l = Some b
      \<and> (\<exists>e. find_evidence c l = Some e \<and> id_value (id_sha256 b) = ae_content_digest e)"
    "count \<le> 128"
  shows "verify_loop fs c root current count claims \<longleftrightarrow>
    count + length claims > 0 \<and> count + length claims \<le> 128
    \<and> list_all (claim_supported fs c root) claims"
  using assms
proof (induction claims arbitrary: current count)
  case (Cons x claims)
  obtain l d s where x: "x = (l, d, s)" by (cases x)
  show ?case
  proof (cases "count + 1 > 128 \<or> length (trim s) < MIN_CLAIM_SUPPORT_BYTES \<or> length s > 65536
      \<or> find_evidence c l = None")
    case True
    then show ?thesis by (auto simp: x claim_supported_def split: option.splits)
  next
    case False
    then obtain e where e: "find_evidence c l = Some e" by auto
    show ?thesis
    proof (cases "om_get current l")
      case (Some b)
      then have "read_current_file fs root l = Some b" "id_value (id_sha256 b) = ae_content_digest e"
        using Cons.prems(1) [rule_format, OF Some] e by auto
      with False e Some Cons.IH [of current "count + 1"] Cons.prems(1) show ?thesis
        by (auto simp: x claim_supported_def)
    next
      case None
      show ?thesis
      proof (cases "read_current_file fs root l")
        case b: (Some b)
        show ?thesis
        proof (cases "id_value (id_sha256 b) = ae_content_digest e")
          case True
          have "\<forall>l' b'. om_get (om_put l b current) l' = Some b' \<longrightarrow>
              read_current_file fs root l' = Some b'
              \<and> (\<exists>e. find_evidence c l' = Some e \<and> id_value (id_sha256 b') = ae_content_digest e)"
            using Cons.prems(1) b e True by (auto simp: om_get_put)
          from Cons.IH [OF this, of "count + 1"] False e None b True show ?thesis
            by (auto simp: x claim_supported_def)
        qed (use False e None b in \<open>auto simp: x claim_supported_def\<close>)
      qed (use False e None in \<open>auto simp: x claim_supported_def\<close>)
    qed
  qed
qed simp

lemma verifies_support_eq:
  "verifies_support fs c claims \<longleftrightarrow>
     (\<exists>root. gc_root c = Some root \<and> claims \<noteq> [] \<and> length claims \<le> 128
        \<and> list_all (claim_supported fs c root) claims)"
  unfolding verifies_support_def
  by (auto simp: verify_loop_iff split: option.split)

text \<open>
  C19. The cached verification of claims is exactly the plain one: there is a repository
  root, there are between 1 and 128 claims, and for each the support is long enough, the
  locator is admitted with the claimed digest, and the current file at the locator has
  that SHA-256 digest and contains the support byte for byte.
\<close>

theorem verifies_support_iff:
  "verifies_support fs c claims \<longleftrightarrow>
     (\<exists>root. gc_root c = Some root \<and> claims \<noteq> [] \<and> length claims \<le> 128
        \<and> list_all (claim_supported fs c root) claims)"
  by (rule verifies_support_eq)

lemma find_key: "distinct (map f xs) \<Longrightarrow> find (\<lambda>x. f x = k) xs = Some x \<longleftrightarrow> x \<in> set xs \<and> f x = k"
  by (induction xs) (auto simp: image_iff)

text \<open>
  C34. A grounding contract over repository files is well formed whatever the order of its
  input: locators and anchors sorted and unique, at most 128 of each and at most 65536
  bytes together, nothing that the data-loss check finds, exactly the given evidence; and
  both binary searches find exactly the members.
\<close>

theorem contract_well_formed:
  assumes "contract_with_evidence fs root0 admitted anchors = Some c"
  shows "contract_ok c \<and> set (gc_evidence c) = set admitted \<and> set (gc_anchors c) = set anchors
    \<and> has_verifiable_evidence c
    \<and> (admits_citation c l \<longleftrightarrow> l \<in> ae_locator ` set admitted)
    \<and> (find_evidence c l = Some e \<longleftrightarrow> e \<in> set admitted \<and> ae_locator e = l)"
proof -
  note k = contract_with_evidence_ok [OF assms]
  then have loc: "map ae_locator (gc_evidence c) = gc_locators c" by (auto simp: contract_ok_def)
  have s: "sorted_wrt (<) (gc_locators c)" using k by (simp add: contract_ok_def)
  have "admits_citation c l \<longleftrightarrow> l \<in> set (gc_locators c)"
    unfolding admits_citation_def using s by (subst bsearch_find) (auto simp: find_None_iff)
  moreover have "set (gc_locators c) = ae_locator ` set admitted" using loc k by (metis list.set_map)
  moreover have "find_evidence c l = Some e \<longleftrightarrow> e \<in> set (gc_evidence c) \<and> ae_locator e = l"
    unfolding find_evidence_def using s loc
    by (subst bsearch_find) (simp_all add: find_key strict_sorted_iff)
  ultimately show ?thesis using k by (auto simp: has_verifiable_evidence_def)
qed

definition demo_evidence :: "admitted_evidence list" where
  "demo_evidence = [\<lparr>ae_locator = ''b'', ae_content_digest = ''1''\<rparr>,
     \<lparr>ae_locator = ''a/b'', ae_content_digest = ''2''\<rparr>]"

theorem contract_well_formed_witness:
  "case contract_with_evidence demo_fs ''/r'' demo_evidence [\<lparr>a_id = ''k'', a_value = ''v''\<rparr>] of
     None \<Rightarrow> False
   | Some c \<Rightarrow> admits_citation c ''a/b'' \<and> \<not> admits_citation c ''c''"
proof -
  let ?r = "contract_with_evidence demo_fs ''/r'' demo_evidence [\<lparr>a_id = ''k'', a_value = ''v''\<rparr>]"
  have "?r \<noteq> None" by code_simp
  then obtain c where c: "?r = Some c" by blast
  from contract_well_formed [OF c, of "''a/b''"] contract_well_formed [OF c, of "''c''"] c
  show ?thesis by (auto simp: demo_evidence_def)
qed

end
