(* ===== verification/Graph_Model.thy ===== *)
theory Graph_Model
  imports Prelude
begin

text \<open>
  The scanner-neutral records of \<open>graph/model.rs\<close>: node and edge identities, semantic facts
  with their bounds, provenance, confidence, graph input and limits, and the errors of the
  two graphs with their texts. A \<open>NodeId\<close> or \<open>EdgeId\<close> is its text. The lemmas show the
  invariant of the semantic facts: sorted and duplicate-free values, every bound kept, and a
  byte count that is exactly what is stored, so that the subtraction in
  \<open>replace_single_value\<close> never wraps.
\<close>

section \<open>Errors\<close>

datatype graph_error =
    InvalidNodeId str
  | InvalidEdgeId str
  | InvalidProvenance
  | InvalidConfidence nat
  | InvalidFactKey str
  | InvalidFactValue str str
  | FactFieldLimitExceeded nat
  | FactValuesPerFieldExceeded str nat
  | SemanticByteLimitExceeded nat nat
  | InvalidGraphLimits
  | NodeLimitExceeded nat nat
  | EdgeLimitExceeded nat nat
  | DuplicateNodeId str
  | DuplicateEdgeId str
  | MissingSource str
  | MissingTargetMustBeExplicit str str
  | MissingTargetMustBeAbsent str str
  | UnknownStructuralSchemaVersion nat
  | InvalidStructuralOrderingVersion nat
  | InvalidStructuralPath str
  | InvalidStructuralDigest str
  | InvalidStructuralIdentity str
  | InvalidStructuralField str str
  | NonCanonicalStructuralOrder str
  | DuplicateStructuralNodeId str
  | DuplicateStructuralEdgeId str
  | MissingStructuralSource str
  | MissingStructuralTarget str
  | PresentStructuralTargetMarkedMissing str
  | InvalidStructuralIndexes
  | StructuralDigestMismatch str str
  | InvalidGeneratedFromTarget str str
  | MissingReciprocalLineage str
  | StructuralLineageCycle "str list"

section \<open>Identities\<close>

definition id_byte :: "char \<Rightarrow> bool" where
  "id_byte b \<longleftrightarrow> is_ascii_alphanumeric b
     \<or> b \<in> {CHR ''.'', CHR ''/'', CHR '':'', CHR ''_'', CHR ''-''}"

definition valid_graph_identity :: "str \<Rightarrow> bool" where
  "valid_graph_identity value \<longleftrightarrow> value \<noteq> [] \<and> length value \<le> 256 \<and> list_all id_byte value"

definition node_id_parse :: "str \<Rightarrow> graph_error + str" where
  "node_id_parse value =
     (if valid_graph_identity value then Inr value else Inl (InvalidNodeId value))"

definition edge_id_parse :: "str \<Rightarrow> graph_error + str" where
  "edge_id_parse value =
     (if valid_graph_identity value then Inr value else Inl (InvalidEdgeId value))"

datatype node_role =
    Role_Document | Role_Section | Role_Symbol | Role_External | Role_Entrypoint | Role_Test
  | Role_Generated | Role_Archived

section \<open>Semantic facts\<close>

record node_facts =
  nf_fields :: "(str, str list) omap"
  nf_semantic_bytes :: nat

definition default_facts :: node_facts where
  "default_facts = \<lparr>nf_fields = [], nf_semantic_bytes = 0\<rparr>"

definition MAX_FIELDS :: nat where "MAX_FIELDS = 32"
definition MAX_FIELD_KEY_BYTES :: nat where "MAX_FIELD_KEY_BYTES = 64"
definition MAX_FIELD_KEY_CHARS :: nat where "MAX_FIELD_KEY_CHARS = 64"
definition MAX_VALUES_PER_FIELD :: nat where "MAX_VALUES_PER_FIELD = 32"
definition MAX_VALUE_BYTES :: nat where "MAX_VALUE_BYTES = 256"
definition MAX_SEMANTIC_BYTES :: nat where "MAX_SEMANTIC_BYTES = 8192"

lemmas fact_limits = MAX_FIELDS_def MAX_FIELD_KEY_BYTES_def MAX_FIELD_KEY_CHARS_def
  MAX_VALUES_PER_FIELD_def MAX_VALUE_BYTES_def MAX_SEMANTIC_BYTES_def

text \<open>\<open>chars().count()\<close>: every byte but the continuation bytes starts a character.\<close>

definition char_count :: "str \<Rightarrow> nat" where
  "char_count s = length (filter (\<lambda>b. \<not> byte_in 128 191 b) s)"

definition valid_fact_key :: "str \<Rightarrow> graph_error + str" where
  "valid_fact_key key =
     (if trim key = [] \<or> length key > MAX_FIELD_KEY_BYTES \<or> char_count key > MAX_FIELD_KEY_CHARS
      then Inl (InvalidFactKey key) else Inr key)"

definition valid_fact_value :: "str \<Rightarrow> str \<Rightarrow> graph_error + str" where
  "valid_fact_value key value =
     (if trim value = [] \<or> length value > MAX_VALUE_BYTES
      then Inl (InvalidFactValue key value) else Inr value)"

definition saturating_add :: "nat \<Rightarrow> nat \<Rightarrow> nat" where
  "saturating_add a b = min u64_max (a + b)"

text \<open>The part of \<open>with_field_value\<close> after the checks of key, value and counts.\<close>

definition add_field_value :: "node_facts \<Rightarrow> str \<Rightarrow> str \<Rightarrow> graph_error + node_facts" where
  "add_field_value f key value =
     (let new_field = (om_get (nf_fields f) key = None);
          additional = length value + (if new_field then length key else 0);
          actual = saturating_add (nf_semantic_bytes f) additional;
          values = (case om_get (nf_fields f) key of None \<Rightarrow> [] | Some vs \<Rightarrow> vs) in
      if actual > MAX_SEMANTIC_BYTES then Inl (SemanticByteLimitExceeded MAX_SEMANTIC_BYTES actual)
      else Inr \<lparr>nf_fields = om_put key (sort (values @ [value])) (nf_fields f),
                nf_semantic_bytes = actual\<rparr>)"

definition with_field_value :: "node_facts \<Rightarrow> str \<Rightarrow> str \<Rightarrow> graph_error + node_facts" where
  "with_field_value f key0 value0 =
     res_bind (valid_fact_key key0) (\<lambda>key.
     res_bind (valid_fact_value key value0) (\<lambda>value.
       case om_get (nf_fields f) key of
         Some values \<Rightarrow>
           if value \<in> set values then Inr f
           else if length values = MAX_VALUES_PER_FIELD
           then Inl (FactValuesPerFieldExceeded key MAX_VALUES_PER_FIELD)
           else add_field_value f key value
       | None \<Rightarrow>
           if length (nf_fields f) = MAX_FIELDS then Inl (FactFieldLimitExceeded MAX_FIELDS)
           else add_field_value f key value))"

definition fact_values :: "node_facts \<Rightarrow> str \<Rightarrow> str list option" where
  "fact_values f key = om_get (nf_fields f) key"

text \<open>The binary search over the sorted values finds exactly their members.\<close>

definition contains_value :: "node_facts \<Rightarrow> str \<Rightarrow> str \<Rightarrow> bool" where
  "contains_value f key value =
     (case fact_values f key of None \<Rightarrow> False | Some vs \<Rightarrow> value \<in> set vs)"

definition first_value :: "node_facts \<Rightarrow> str \<Rightarrow> str option" where
  "first_value f key =
     (case fact_values f key of Some (v # _) \<Rightarrow> Some v | _ \<Rightarrow> None)"

definition replace_single_value :: "node_facts \<Rightarrow> str \<Rightarrow> str \<Rightarrow> graph_error + node_facts" where
  "replace_single_value f key value =
     with_field_value
       (case om_get (nf_fields f) key of
          None \<Rightarrow> f
        | Some values \<Rightarrow>
            \<lparr>nf_fields = om_del key (nf_fields f),
             nf_semantic_bytes =
               nf_semantic_bytes f - (length key + sum_list (map length values))\<rparr>) key value"

definition with_status :: "node_facts \<Rightarrow> str \<Rightarrow> graph_error + node_facts" where
  "with_status f value = replace_single_value f ''status'' value"
definition with_tag :: "node_facts \<Rightarrow> str \<Rightarrow> graph_error + node_facts" where
  "with_tag f value = with_field_value f ''tags'' value"
definition with_freshness :: "node_facts \<Rightarrow> str \<Rightarrow> graph_error + node_facts" where
  "with_freshness f value = replace_single_value f ''freshness'' value"
definition with_subsystem :: "node_facts \<Rightarrow> str \<Rightarrow> graph_error + node_facts" where
  "with_subsystem f value = replace_single_value f ''subsystem'' value"
definition with_purpose :: "node_facts \<Rightarrow> str \<Rightarrow> graph_error + node_facts" where
  "with_purpose f value = replace_single_value f ''purpose'' value"
definition with_task :: "node_facts \<Rightarrow> str \<Rightarrow> graph_error + node_facts" where
  "with_task f value = replace_single_value f ''task'' value"
definition with_audience :: "node_facts \<Rightarrow> str \<Rightarrow> graph_error + node_facts" where
  "with_audience f value = replace_single_value f ''audience'' value"

definition fact_status :: "node_facts \<Rightarrow> str option" where
  "fact_status f = first_value f ''status''"
definition fact_tags :: "node_facts \<Rightarrow> str list" where
  "fact_tags f = (case fact_values f ''tags'' of None \<Rightarrow> [] | Some vs \<Rightarrow> vs)"
definition fact_freshness :: "node_facts \<Rightarrow> str option" where
  "fact_freshness f = first_value f ''freshness''"
definition fact_subsystem :: "node_facts \<Rightarrow> str option" where
  "fact_subsystem f = first_value f ''subsystem''"
definition fact_purpose :: "node_facts \<Rightarrow> str option" where
  "fact_purpose f = first_value f ''purpose''"
definition fact_task :: "node_facts \<Rightarrow> str option" where
  "fact_task f = first_value f ''task''"
definition fact_audience :: "node_facts \<Rightarrow> str option" where
  "fact_audience f = first_value f ''audience''"

section \<open>Provenance, confidence, nodes, edges\<close>

record provenance =
  pv_source :: str
  pv_locator :: str

definition MAX_SOURCE_BYTES :: nat where "MAX_SOURCE_BYTES = 128"
definition MAX_LOCATOR_BYTES :: nat where "MAX_LOCATOR_BYTES = 1024"

definition provenance_new :: "str \<Rightarrow> str \<Rightarrow> graph_error + provenance" where
  "provenance_new source locator =
     (if trim source = [] \<or> trim locator = [] \<or> length source > MAX_SOURCE_BYTES
         \<or> length locator > MAX_LOCATOR_BYTES
      then Inl InvalidProvenance else Inr \<lparr>pv_source = source, pv_locator = locator\<rparr>)"

definition confidence_new :: "nat \<Rightarrow> graph_error + nat" where
  "confidence_new value = (if value \<le> 100 then Inr value else Inl (InvalidConfidence value))"

datatype edge_certainty = Cert_Known | Cert_Dynamic | Cert_Unknown | Cert_MissingTarget

datatype edge_relationship =
    Rel_Unspecified | Rel_Dependency | Rel_Implementation | Rel_Replacement | Rel_Supersedes
  | Rel_Validation | Rel_Reachability | Rel_Contradiction | Rel_Conflict

record node_input =
  n_id :: str
  n_role :: node_role
  n_provenance :: provenance
  n_confidence :: nat
  n_facts :: node_facts

definition node_input_new :: "str \<Rightarrow> node_role \<Rightarrow> provenance \<Rightarrow> nat \<Rightarrow> node_input" where
  "node_input_new i role p c =
     \<lparr>n_id = i, n_role = role, n_provenance = p, n_confidence = c, n_facts = default_facts\<rparr>"

definition with_facts :: "node_input \<Rightarrow> node_facts \<Rightarrow> node_input" where
  "with_facts n f = n\<lparr>n_facts := f\<rparr>"

record edge_input =
  e_id :: str
  e_source :: str
  e_target :: str
  e_provenance :: provenance
  e_confidence :: nat
  e_certainty :: edge_certainty
  e_relationship :: edge_relationship

definition edge_input_new ::
  "str \<Rightarrow> str \<Rightarrow> str \<Rightarrow> provenance \<Rightarrow> nat \<Rightarrow> edge_certainty \<Rightarrow> edge_input" where
  "edge_input_new i source target p c certainty =
     \<lparr>e_id = i, e_source = source, e_target = target, e_provenance = p, e_confidence = c,
      e_certainty = certainty, e_relationship = Rel_Unspecified\<rparr>"

definition with_relationship :: "edge_input \<Rightarrow> edge_relationship \<Rightarrow> edge_input" where
  "with_relationship e r = e\<lparr>e_relationship := r\<rparr>"

record graph_input =
  gi_nodes :: "node_input list"
  gi_edges :: "edge_input list"

record graph_limits =
  gl_max_nodes :: nat
  gl_max_edges :: nat

definition graph_limits_new :: "nat \<Rightarrow> nat \<Rightarrow> graph_error + graph_limits" where
  "graph_limits_new max_nodes max_edges =
     (if max_nodes = 0 \<or> max_edges = 0 then Inl InvalidGraphLimits
      else Inr \<lparr>gl_max_nodes = max_nodes, gl_max_edges = max_edges\<rparr>)"

section \<open>The facts keep their bounds\<close>

definition fact_bytes :: "(str, str list) omap \<Rightarrow> nat" where
  "fact_bytes m = sum_list (map (\<lambda>(k, vs). length k + sum_list (map length vs)) m)"

definition field_ok :: "str \<Rightarrow> str list \<Rightarrow> bool" where
  "field_ok k vs \<longleftrightarrow>
     trim k \<noteq> [] \<and> length k \<le> MAX_FIELD_KEY_BYTES \<and> vs \<noteq> [] \<and> sorted vs \<and> distinct vs
     \<and> length vs \<le> MAX_VALUES_PER_FIELD
     \<and> (\<forall>v \<in> set vs. trim v \<noteq> [] \<and> length v \<le> MAX_VALUE_BYTES)"

definition facts_ok :: "node_facts \<Rightarrow> bool" where
  "facts_ok f \<longleftrightarrow> om_inv (nf_fields f) \<and> length (nf_fields f) \<le> MAX_FIELDS
     \<and> nf_semantic_bytes f = fact_bytes (nf_fields f) \<and> nf_semantic_bytes f \<le> MAX_SEMANTIC_BYTES
     \<and> (\<forall>p \<in> set (nf_fields f). field_ok (fst p) (snd p))"

lemma facts_get:
  "facts_ok f \<Longrightarrow> om_get (nf_fields f) k = Some vs \<Longrightarrow> field_ok k vs"
  by (force simp: facts_ok_def om_get_Some_iff)

lemma fact_bytes_put_new:
  "om_get m k = None \<Longrightarrow> fact_bytes (om_put k vs m) = length k + sum_list (map length vs) + fact_bytes m"
  unfolding fact_bytes_def
  by (subst om_put_sum_new) (auto simp: om_get_def map_of_eq_None_iff)

lemma fact_bytes_del:
  "om_inv m \<Longrightarrow> om_get m k = Some vs
   \<Longrightarrow> length k + sum_list (map length vs) + fact_bytes (om_del k m) = fact_bytes m"
  unfolding fact_bytes_def
  using om_del_sum [of m k vs "\<lambda>(k, vs). length k + sum_list (map length vs)"]
  by (simp add: om_get_Some_iff)

lemma fact_bytes_put_old:
  assumes "om_inv m" "om_get m k = Some vs"
  shows "fact_bytes (om_put k ws m) + sum_list (map length vs) = fact_bytes m + sum_list (map length ws)"
proof -
  have k: "om_get (om_put k ws m) k = Some ws" by (simp add: om_get_put)
  have d: "om_del k (om_put k ws m) = om_del k m"
    using assms(1)
  proof (induction m)
    case (Cons p m)
    obtain a b where p: "p = (a, b)" by (cases p)
    have "k < a \<Longrightarrow> om_del k m = m"
      using Cons.prems p by (auto simp: om_del_filter map_simps filter_id_conv)
    with Cons p show ?case by (auto simp: map_simps)
  qed simp
  show ?thesis
    using fact_bytes_del [OF assms] fact_bytes_del [OF om_put_inv [OF assms(1)] k] d by simp
qed

lemma om_put_length:
  assumes "om_inv m"
  shows "length (om_put k v m) = (if om_get m k = None then Suc (length m) else length m)"
proof -
  have n: "om_get n k = None" if "\<forall>x\<in>set n. a < fst x" "k < a" for a n
    using that by (intro om_get_notin) auto
  show ?thesis using assms
    by (induction m) (auto simp: map_simps om_get_Cons split: if_splits, metis n option.distinct(1))
qed

lemma sum_list_sort: "sum_list (map f (sort xs)) = sum_list (map f xs)" for f :: "'a::linorder \<Rightarrow> nat"
proof -
  have "sum_list (map f (insort_key g x xs)) = f x + sum_list (map f xs)" for g :: "'a \<Rightarrow> 'a" and x xs
    by (induction xs) auto
  then show ?thesis by (induction xs) simp_all
qed

lemma add_field_value_ok:
  assumes "facts_ok f" "add_field_value f key value = Inr g"
    "trim key \<noteq> []" "length key \<le> MAX_FIELD_KEY_BYTES"
    "trim value \<noteq> []" "length value \<le> MAX_VALUE_BYTES"
    "case om_get (nf_fields f) key of None \<Rightarrow> length (nf_fields f) < MAX_FIELDS
     | Some vs \<Rightarrow> value \<notin> set vs \<and> length vs < MAX_VALUES_PER_FIELD"
  shows "facts_ok g"
proof -
  define vs where "vs = (case om_get (nf_fields f) key of None \<Rightarrow> [] | Some vs \<Rightarrow> vs)"
  define ws where "ws = sort (vs @ [value])"
  have inv: "om_inv (nf_fields f)" using assms(1) by (simp add: facts_ok_def)
  have g: "g = \<lparr>nf_fields = om_put key ws (nf_fields f),
      nf_semantic_bytes = nf_semantic_bytes f + (length value
        + (if om_get (nf_fields f) key = None then length key else 0))\<rparr>"
    "nf_semantic_bytes g \<le> MAX_SEMANTIC_BYTES"
    using assms(2) unfolding add_field_value_def Let_def
    by (auto simp: vs_def ws_def saturating_add_def u64_max_def fact_limits split: if_splits)
  have vs: "\<forall>v \<in> set vs. trim v \<noteq> [] \<and> length v \<le> MAX_VALUE_BYTES" "distinct vs" "value \<notin> set vs"
    "length vs < MAX_VALUES_PER_FIELD"
    using assms(7) facts_get [OF assms(1), of key]
    by (auto simp: vs_def field_ok_def MAX_VALUES_PER_FIELD_def split: option.splits)
  have bytes: "fact_bytes (om_put key ws (nf_fields f)) = fact_bytes (nf_fields f) + (length value
        + (if om_get (nf_fields f) key = None then length key else 0))"
    using fact_bytes_put_old [OF inv, of key vs ws] fact_bytes_put_new [of "nf_fields f" key ws]
    by (cases "om_get (nf_fields f) key") (simp_all add: vs_def ws_def sum_list_sort)
  have new: "field_ok key ws"
  proof -
    have "length ws = Suc (length vs)" by (simp add: ws_def)
    moreover have "set ws = insert value (set vs)" "sorted ws" "distinct ws" using vs by (simp_all add: ws_def)
    ultimately show ?thesis using vs assms(3-6) by (auto simp: field_ok_def)
  qed
  have len: "length (om_put key ws (nf_fields f)) \<le> MAX_FIELDS"
    using om_put_length [OF inv] assms(1,7) by (auto simp: facts_ok_def split: option.splits)
  show ?thesis
    using assms(1,3,4) g bytes new len om_put_inv [OF inv] unfolding facts_ok_def
    by (auto simp: om_put_set [OF inv])
qed

lemma with_field_value_ok:
  assumes "facts_ok f" "with_field_value f key value = Inr g"
  shows "facts_ok g"
proof -
  have k: "trim key \<noteq> []" "length key \<le> MAX_FIELD_KEY_BYTES"
    "trim value \<noteq> []" "length value \<le> MAX_VALUE_BYTES"
    using assms(2) by (auto simp: with_field_value_def valid_fact_key_def valid_fact_value_def
        res_simps split: if_splits)
  have "g = f \<or> (add_field_value f key value = Inr g
      \<and> (case om_get (nf_fields f) key of None \<Rightarrow> length (nf_fields f) \<noteq> MAX_FIELDS
         | Some vs \<Rightarrow> value \<notin> set vs \<and> length vs \<noteq> MAX_VALUES_PER_FIELD))"
    using assms(2) by (auto simp: with_field_value_def valid_fact_key_def valid_fact_value_def
        res_simps split: if_splits option.splits)
  then show ?thesis
  proof (elim disjE conjE)
    assume a: "add_field_value f key value = Inr g"
      "case om_get (nf_fields f) key of None \<Rightarrow> length (nf_fields f) \<noteq> MAX_FIELDS
         | Some vs \<Rightarrow> value \<notin> set vs \<and> length vs \<noteq> MAX_VALUES_PER_FIELD"
    have "case om_get (nf_fields f) key of None \<Rightarrow> length (nf_fields f) < MAX_FIELDS
        | Some vs \<Rightarrow> value \<notin> set vs \<and> length vs < MAX_VALUES_PER_FIELD"
      using assms(1) a(2) facts_get [OF assms(1), of key]
      by (auto simp: facts_ok_def field_ok_def split: option.splits)
    then show ?thesis using add_field_value_ok [OF assms(1) a(1) k] by simp
  qed (use assms(1) in simp)
qed

lemma default_facts_ok [simp]: "facts_ok default_facts"
  by (simp add: facts_ok_def default_facts_def fact_bytes_def)

lemma facts_del_ok:
  assumes "facts_ok f" "om_get (nf_fields f) key = Some values"
  shows "facts_ok \<lparr>nf_fields = om_del key (nf_fields f),
           nf_semantic_bytes = nf_semantic_bytes f - (length key + sum_list (map length values))\<rparr>"
    and "length key + sum_list (map length values) \<le> nf_semantic_bytes f"
proof -
  have inv: "om_inv (nf_fields f)" using assms(1) by (simp add: facts_ok_def)
  have b: "length key + sum_list (map length values) + fact_bytes (om_del key (nf_fields f))
      = nf_semantic_bytes f"
    using fact_bytes_del [OF inv assms(2)] assms(1) by (simp add: facts_ok_def)
  then show "length key + sum_list (map length values) \<le> nf_semantic_bytes f" by simp
  have "length (om_del key (nf_fields f)) \<le> length (nf_fields f)"
    by (simp add: om_del_filter [OF inv])
  with assms(1) b om_del_inv [OF inv] om_del_subset [of key "nf_fields f"]
  show "facts_ok \<lparr>nf_fields = om_del key (nf_fields f),
           nf_semantic_bytes = nf_semantic_bytes f - (length key + sum_list (map length values))\<rparr>"
    unfolding facts_ok_def by auto
qed

lemma replace_single_value_ok:
  assumes "facts_ok f" "replace_single_value f key value = Inr g"
  shows "facts_ok g"
  using assms facts_del_ok(1) [OF assms(1)]
  by (auto simp: replace_single_value_def split: option.splits intro: with_field_value_ok)

text \<open>
  The semantic facts of a node stay within every bound whatever is added or replaced:
  at most 32 fields of at most 32 values, sorted and without repeats, and the recorded
  payload size is exactly the bytes stored, at most 8 KiB; replacing a value subtracts at
  most what is recorded, so the counter never wraps. After an accepted change the field
  has the new value, alone when it was replaced, and every other field is untouched.
\<close>

theorem node_facts_bounded:
  assumes "facts_ok f"
  shows "facts_ok default_facts
    \<and> (case with_field_value f key value of Inl e \<Rightarrow> True
       | Inr g \<Rightarrow> facts_ok g \<and> contains_value g key value
           \<and> (\<forall>v. contains_value f key v \<longrightarrow> contains_value g key v)
           \<and> (\<forall>k. k \<noteq> key \<longrightarrow> fact_values g k = fact_values f k))
    \<and> (case replace_single_value f key value of Inl e \<Rightarrow> True
       | Inr g \<Rightarrow> facts_ok g \<and> fact_values g key = Some [value]
           \<and> (\<forall>k. k \<noteq> key \<longrightarrow> fact_values g k = fact_values f k))
    \<and> (\<forall>vs. fact_values f key = Some vs
         \<longrightarrow> length key + sum_list (map length vs) \<le> nf_semantic_bytes f)"
proof -
  have shape: "with_field_value h key value = Inr g \<Longrightarrow>
      (g = h \<and> contains_value h key value)
      \<or> (\<exists>n. g = \<lparr>nf_fields = om_put key (sort ((case om_get (nf_fields h) key of None \<Rightarrow> []
                | Some vs \<Rightarrow> vs) @ [value])) (nf_fields h), nf_semantic_bytes = n\<rparr>)" for h g
    by (auto simp: with_field_value_def add_field_value_def valid_fact_key_def valid_fact_value_def
        contains_value_def fact_values_def res_simps Let_def split: if_splits option.splits)
  have add: "contains_value g key value \<and> (\<forall>v. contains_value f key v \<longrightarrow> contains_value g key v)
      \<and> (\<forall>k. k \<noteq> key \<longrightarrow> fact_values g k = fact_values f k)"
    if "with_field_value f key value = Inr g" for g
    using shape [OF that]
    by (auto simp: contains_value_def fact_values_def om_get_put split: option.splits)
  have rep: "fact_values g key = Some [value] \<and> (\<forall>k. k \<noteq> key \<longrightarrow> fact_values g k = fact_values f k)"
    if "replace_single_value f key value = Inr g" for g
  proof -
    have inv: "om_inv (nf_fields f)" using assms by (simp add: facts_ok_def)
    define h where "h = (case om_get (nf_fields f) key of None \<Rightarrow> f
        | Some values \<Rightarrow> \<lparr>nf_fields = om_del key (nf_fields f),
             nf_semantic_bytes = nf_semantic_bytes f - (length key + sum_list (map length values))\<rparr>)"
    have h: "om_get (nf_fields h) k = (if k = key then None else om_get (nf_fields f) k)" for k
      by (auto simp: h_def om_get_del [OF inv] split: option.split)
    have "with_field_value h key value = Inr g"
      using that by (simp add: replace_single_value_def h_def)
    from shape [OF this] show ?thesis
      by (auto simp: contains_value_def fact_values_def om_get_put h)
  qed
  show ?thesis
    using add rep with_field_value_ok [OF assms] replace_single_value_ok [OF assms]
      facts_del_ok(2) [OF assms]
    by (auto simp: fact_values_def split: sum.split)
qed

theorem node_facts_bounded_witness:
  "case with_status default_facts ''current'' of Inl e \<Rightarrow> False
   | Inr g \<Rightarrow> facts_ok g \<and> fact_values g ''status'' = Some [''current'']"
proof -
  have "is_ok (replace_single_value default_facts ''status'' ''current'')" by code_simp
  then show ?thesis
    using node_facts_bounded [OF default_facts_ok, of "''status''" "''current''"]
    by (auto simp: with_status_def is_ok_iff)
qed

end
