(* ===== verification/Packet_Types.thy ===== *)
theory Packet_Types
  imports Dlp Graph_Model
begin

text \<open>
  The packet records of \<open>packet/mod.rs\<close> that its assembler builds and the SQZ adapter and
  the agents consume: \<open>ContextItem\<close>, \<open>PacketReceipt\<close> and \<open>ContextPacket\<close>. A node identifier
  is its text.
\<close>

record context_item =
  ci_id :: str
  ci_provenance :: provenance
  ci_content :: str
  ci_priority :: evidence_priority
  ci_authority :: nat
  ci_freshness :: nat
  ci_anchors :: "preservation_anchor list"
  ci_raw_bytes :: nat

datatype token_estimate_method = BytesDividedByFourCeiling

record packet_receipt =
  pr_schema_version :: str
  pr_seed_ids :: "str list"
  pr_admitted_dependency_ids :: "str list"
  pr_selected_ids :: "str list"
  pr_omitted_ids :: "str list"
  pr_dependency_closure_truncated :: bool
  pr_dependency_max_depth :: nat
  pr_dependency_max_nodes :: nat
  pr_raw_bytes :: nat
  pr_estimated_tokens :: nat
  pr_token_estimate_method :: token_estimate_method
  pr_effective_max_items :: nat
  pr_effective_max_bytes :: nat
  pr_runtime_token_ceiling :: "nat option"
  pr_truncated :: bool

record context_packet =
  pk_items :: "context_item list"
  pk_payload :: str
  pk_receipt :: packet_receipt

end
