(* ===== verification/Sqz.thy ===== *)
theory Sqz
  imports Packet_Types Result_Id
begin

text \<open>
  The SQZ compression policy of \<open>adapters/sqz.rs\<close>: configuration, the anchors a payload
  must keep, the judgement of a port's output, and the receipt of every evaluation. The
  port (\<open>SqzPort::compress\<close>, a host process in production) is an argument: a function from
  the payload to its answer and the measured latency in nanoseconds.
\<close>

section \<open>Identities, policy, outcomes\<close>

record sqz_identity =
  si_source :: str
  si_version :: str
  si_sha256 :: str

definition APPROVED_SQZ_SOURCE :: str where
  "APPROVED_SQZ_SOURCE = ''approved-cargo-install:sqz-cli=1.1.1+patched-compatible-deps''"

definition APPROVED_SQZ_VERSION :: str where
  "APPROVED_SQZ_VERSION = ''sqz 1.1.1''"

definition APPROVED_SQZ_SHA256 :: str where
  "APPROVED_SQZ_SHA256 = ''03c8de9c55f22e3c3e33852972a2a12a8e436d8861736db71c9441804075e722''"

definition SQZ_RECEIPT_SCHEMA_VERSION :: str where
  "SQZ_RECEIPT_SCHEMA_VERSION = ''1.0.0''"

definition approved_identity :: sqz_identity where
  "approved_identity =
     \<lparr>si_source = APPROVED_SQZ_SOURCE, si_version = APPROVED_SQZ_VERSION,
      si_sha256 = APPROVED_SQZ_SHA256\<rparr>"

definition is_approved :: "sqz_identity \<Rightarrow> bool" where
  "is_approved i \<longleftrightarrow> si_source i = APPROVED_SQZ_SOURCE \<and> si_version i = APPROVED_SQZ_VERSION
     \<and> si_sha256 i = APPROVED_SQZ_SHA256"

datatype sqz_policy = PublicOff | PublicOn | InternalLocked

record sqz_port_output =
  so_payload :: str
  so_identity :: sqz_identity
  so_actual_input_tokens :: "nat option"
  so_actual_output_tokens :: "nat option"

definition port_output_new :: "str \<Rightarrow> sqz_identity \<Rightarrow> sqz_port_output" where
  "port_output_new payload i =
     \<lparr>so_payload = payload, so_identity = i, so_actual_input_tokens = None,
      so_actual_output_tokens = None\<rparr>"

datatype sqz_port_error_code =
  Port_Unavailable | Port_Timeout | Port_ExecutionFailed | Port_InvalidOutput

datatype sqz_port_error = SqzPortError (pe_code: sqz_port_error_code)

type_synonym sqz_port = "str \<Rightarrow> (sqz_port_error + sqz_port_output) \<times> nat"

record sqz_adapter_config =
  sc_policy :: sqz_policy
  sc_identity :: sqz_identity
  sc_configured_max_output_bytes :: nat
  sc_fidelity_anchors :: "preservation_anchor list"

datatype sqz_status = Sqz_Off | Applied | NotBeneficial | Sqz_Failed

datatype fidelity_status = Fid_NotEvaluated | RequiredButUnavailable | Fid_Passed | Fid_Missing

datatype dlp_status = Dlp_NotEvaluated | Dlp_InputPassed | Dlp_Passed | Dlp_Findings

datatype sqz_failure_reason =
    ConfiguredIdentityMismatch
  | ReturnedIdentityMismatch
  | PortUnavailable sqz_port_error_code
  | FidelityAnchorsUnavailable
  | MissingFidelityAnchors
  | FidelityAnchorMissingFromInput
  | ConflictingFidelityAnchorIds
  | DlpFindings
  | OutputExceedsBound

record sqz_id =
  sid_algorithm :: str
  sid_value :: str

record sqz_receipt =
  rc_schema_version :: str
  rc_configured_identity :: sqz_identity
  rc_returned_identity :: "sqz_identity option"
  rc_policy :: sqz_policy
  rc_status :: sqz_status
  rc_failure_reason :: "sqz_failure_reason option"
  rc_latency :: nat
  rc_raw_bytes :: nat
  rc_candidate_bytes :: "nat option"
  rc_returned_bytes :: nat
  rc_raw_tokens :: nat
  rc_candidate_tokens :: "nat option"
  rc_returned_tokens :: nat
  rc_actual_input_tokens :: "nat option"
  rc_actual_output_tokens :: "nat option"
  rc_fidelity_status :: fidelity_status
  rc_required_anchor_ids :: "str list"
  rc_missing_anchor_ids :: "str list"
  rc_dlp_status :: dlp_status
  rc_dlp_findings :: "str list"
  rc_requested_max :: nat
  rc_effective_max :: nat
  rc_sqz_id :: "sqz_id option"

record sqz_evaluation =
  ev_packet :: context_packet
  ev_receipt :: sqz_receipt

section \<open>Helpers of the evaluation\<close>

definition estimate_tokens :: "nat \<Rightarrow> nat" where
  "estimate_tokens bytes = bytes div 4 + (if bytes mod 4 = 0 then 0 else 1)"

definition missing_anchors :: "str \<Rightarrow> preservation_anchor list \<Rightarrow> str list" where
  "missing_anchors text anchors =
     map a_id (filter (\<lambda>a. \<not> contains text (a_value a)) anchors)"

definition fidelity_of :: "str \<Rightarrow> preservation_anchor list \<Rightarrow> fidelity_status \<times> str list" where
  "fidelity_of output anchors =
     (if anchors = [] then (RequiredButUnavailable, [])
      else (let missing = missing_anchors output anchors
            in if missing = [] then (Fid_Passed, missing) else (Fid_Missing, missing)))"

text \<open>The first anchor of an identifier wins; a later one with another value is a conflict.\<close>

fun combine_anchors ::
  "preservation_anchor list \<Rightarrow> (str, preservation_anchor) omap \<Rightarrow> bool
   \<Rightarrow> (str, preservation_anchor) omap \<times> bool" where
  "combine_anchors [] m conflict = (m, conflict)"
| "combine_anchors (a # as) m conflict =
     (case om_get m (a_id a) of
        Some e \<Rightarrow> combine_anchors as m (conflict \<or> a_value e \<noteq> a_value a)
      | None \<Rightarrow> combine_anchors as (om_put (a_id a) a m) conflict)"

definition given_anchors ::
  "context_packet \<Rightarrow> preservation_anchor list \<Rightarrow> preservation_anchor list" where
  "given_anchors pk configured =
     configured @ concat (map ci_anchors (filter (\<lambda>i. ci_priority i = Required) (pk_items pk)))"

definition combined_anchors ::
  "context_packet \<Rightarrow> preservation_anchor list \<Rightarrow> preservation_anchor list \<times> bool" where
  "combined_anchors pk configured =
     (let (m, conflict) = combine_anchors (given_anchors pk configured) [] False
      in (map snd m, conflict))"

definition anchor_ids :: "preservation_anchor list \<Rightarrow> str list" where
  "anchor_ids anchors = map a_id anchors"

definition anchor_findings :: "preservation_anchor list \<Rightarrow> str list" where
  "anchor_findings anchors = btree_set (concat (map (\<lambda>a. dlp_findings (a_value a)) anchors))"

definition content_id :: "str \<Rightarrow> sqz_id" where
  "content_id output =
     (let i = id_sha256 output
      in \<lparr>sid_algorithm = algorithm_as_str (id_algorithm i), sid_value = id_value i\<rparr>)"

type_synonym sqz_candidate = "(sqz_port_output \<times> nat \<times> sqz_id option) option"

definition dlp_progress :: "sqz_failure_reason option \<Rightarrow> str list \<Rightarrow> dlp_status" where
  "dlp_progress reason findings =
     (if findings \<noteq> [] then Dlp_Findings
      else (case reason of
              Some ConfiguredIdentityMismatch \<Rightarrow> Dlp_NotEvaluated
            | Some ConflictingFidelityAnchorIds \<Rightarrow> Dlp_NotEvaluated
            | Some (PortUnavailable _) \<Rightarrow> Dlp_InputPassed
            | Some ReturnedIdentityMismatch \<Rightarrow> Dlp_InputPassed
            | Some OutputExceedsBound \<Rightarrow> Dlp_InputPassed
            | _ \<Rightarrow> Dlp_Passed))"

definition sqz_receipt_of ::
  "sqz_adapter_config \<Rightarrow> nat \<Rightarrow> nat \<Rightarrow> nat \<Rightarrow> nat \<Rightarrow> sqz_identity option \<Rightarrow> nat \<Rightarrow> sqz_candidate
   \<Rightarrow> sqz_status \<Rightarrow> sqz_failure_reason option \<Rightarrow> fidelity_status \<Rightarrow> str list \<Rightarrow> str list \<Rightarrow> str list
   \<Rightarrow> sqz_receipt" where
  "sqz_receipt_of cfg raw returned requested effective ret_id latency candidate status reason
     fidelity required missing findings =
     (let candidate_bytes = map_option (\<lambda>(_, n, _). n) candidate in
      \<lparr>rc_schema_version = SQZ_RECEIPT_SCHEMA_VERSION,
       rc_configured_identity = sc_identity cfg,
       rc_returned_identity = ret_id,
       rc_policy = sc_policy cfg,
       rc_status = status,
       rc_failure_reason = reason,
       rc_latency = latency,
       rc_raw_bytes = raw,
       rc_candidate_bytes = candidate_bytes,
       rc_returned_bytes = returned,
       rc_raw_tokens = estimate_tokens raw,
       rc_candidate_tokens = map_option estimate_tokens candidate_bytes,
       rc_returned_tokens = estimate_tokens returned,
       rc_actual_input_tokens = Option.bind candidate (\<lambda>(out, _). so_actual_input_tokens out),
       rc_actual_output_tokens = Option.bind candidate (\<lambda>(out, _). so_actual_output_tokens out),
       rc_fidelity_status = fidelity,
       rc_required_anchor_ids = required,
       rc_missing_anchor_ids = missing,
       rc_dlp_status = dlp_progress reason findings,
       rc_dlp_findings = findings,
       rc_requested_max = requested,
       rc_effective_max = effective,
       rc_sqz_id =
         (if status \<in> {Applied, NotBeneficial} then Option.bind candidate (\<lambda>(_, _, i). i)
          else None)\<rparr>)"

definition base_receipt ::
  "sqz_adapter_config \<Rightarrow> context_packet \<Rightarrow> nat \<Rightarrow> nat \<Rightarrow> nat \<Rightarrow> nat \<Rightarrow> sqz_receipt" where
  "base_receipt cfg pk raw returned requested effective =
     sqz_receipt_of cfg raw returned requested effective None 0 None Sqz_Off None Fid_Passed
       (anchor_ids (fst (combined_anchors pk (sc_fidelity_anchors cfg)))) [] []"

definition failed_evaluation ::
  "sqz_adapter_config \<Rightarrow> context_packet \<Rightarrow> nat \<Rightarrow> nat \<Rightarrow> sqz_identity option \<Rightarrow> nat \<Rightarrow> sqz_candidate
   \<Rightarrow> fidelity_status \<Rightarrow> str list \<Rightarrow> str list \<Rightarrow> sqz_failure_reason
   \<Rightarrow> sqz_receipt + sqz_evaluation" where
  "failed_evaluation cfg pk requested effective ret_id latency candidate fidelity missing findings
     reason =
     (let raw = length (pk_payload pk);
          required = anchor_ids (fst (combined_anchors pk (sc_fidelity_anchors cfg)));
          r = sqz_receipt_of cfg raw raw requested effective ret_id latency candidate Sqz_Failed
                (Some reason) fidelity required missing findings
      in if sc_policy cfg = InternalLocked then Inl r else Inr \<lparr>ev_packet = pk, ev_receipt = r\<rparr>)"

section \<open>The evaluation\<close>

text \<open>The branch of the policy \<open>PublicOff\<close>, which never calls the port.\<close>

definition evaluate_off ::
  "sqz_adapter_config \<Rightarrow> context_packet \<Rightarrow> nat \<Rightarrow> nat \<Rightarrow> preservation_anchor list \<Rightarrow> bool
   \<Rightarrow> sqz_receipt + sqz_evaluation" where
  "evaluate_off cfg pk requested effective anchors conflicting =
     (let fail = failed_evaluation cfg pk requested effective None 0 None;
          raw = length (pk_payload pk);
          missing = missing_anchors (pk_payload pk) anchors;
          findings = dlp_findings (pk_payload pk)
      in if conflicting then fail Fid_NotEvaluated [] [] ConflictingFidelityAnchorIds
         else if anchor_findings anchors \<noteq> []
           then fail Fid_NotEvaluated [] (anchor_findings anchors) DlpFindings
         else if missing \<noteq> [] then fail Fid_Missing missing [] FidelityAnchorMissingFromInput
         else if findings \<noteq> [] then fail Fid_Passed [] findings DlpFindings
         else Inr \<lparr>ev_packet = pk, ev_receipt = base_receipt cfg pk raw raw requested effective\<rparr>)"

text \<open>The judgement of the port's answer.\<close>

definition judge_output ::
  "sqz_adapter_config \<Rightarrow> context_packet \<Rightarrow> nat \<Rightarrow> nat \<Rightarrow> preservation_anchor list \<Rightarrow> nat
   \<Rightarrow> sqz_port_output \<Rightarrow> sqz_receipt + sqz_evaluation" where
  "judge_output cfg pk requested effective anchors latency out =
     (let raw = length (pk_payload pk);
          n = length (so_payload out);
          ret_id = Some (so_identity out);
          fail = failed_evaluation cfg pk requested effective ret_id latency
      in if \<not> is_approved (so_identity out) \<or> so_identity out \<noteq> sc_identity cfg
         then fail (Some (out, n, None)) Fid_NotEvaluated [] [] ReturnedIdentityMismatch
         else if n > effective
         then fail (Some (out, n, None)) Fid_NotEvaluated [] [] OutputExceedsBound
         else
           (let candidate_id = Some (content_id (so_payload out));
                (fidelity, missing) = fidelity_of (so_payload out) anchors;
                findings = dlp_findings (so_payload out)
            in if fidelity = RequiredButUnavailable
               then fail (Some (out, n, candidate_id)) fidelity missing findings
                      FidelityAnchorsUnavailable
               else if fidelity = Fid_Missing
               then fail (Some (out, n, candidate_id)) fidelity missing findings
                      MissingFidelityAnchors
               else if findings \<noteq> []
               then fail (Some (out, n, candidate_id)) fidelity missing findings DlpFindings
               else if n \<ge> raw
               then Inr \<lparr>ev_packet = pk,
                         ev_receipt = sqz_receipt_of cfg raw raw requested effective ret_id latency
                           (Some (out, n, Some (content_id (pk_payload pk)))) NotBeneficial None
                           fidelity (anchor_ids anchors) missing findings\<rparr>
               else Inr \<lparr>ev_packet = pk\<lparr>pk_payload := so_payload out\<rparr>,
                         ev_receipt = sqz_receipt_of cfg raw n requested effective ret_id latency
                           (Some (out, n, candidate_id)) Applied None
                           fidelity (anchor_ids anchors) missing findings\<rparr>))"

definition evaluate ::
  "sqz_adapter_config \<Rightarrow> sqz_port \<Rightarrow> context_packet \<Rightarrow> nat \<Rightarrow> sqz_receipt + sqz_evaluation" where
  "evaluate cfg port pk requested =
     (let effective = min requested (sc_configured_max_output_bytes cfg);
          (anchors, conflicting) = combined_anchors pk (sc_fidelity_anchors cfg);
          fail = failed_evaluation cfg pk requested effective None;
          missing = missing_anchors (pk_payload pk) anchors;
          input_dlp = dlp_findings (pk_payload pk)
      in if sc_policy cfg = PublicOff
         then evaluate_off cfg pk requested effective anchors conflicting
         else if \<not> is_approved (sc_identity cfg)
         then fail 0 None Fid_NotEvaluated [] [] ConfiguredIdentityMismatch
         else if conflicting
         then fail 0 None Fid_NotEvaluated [] [] ConflictingFidelityAnchorIds
         else if anchor_findings anchors \<noteq> []
         then fail 0 None Fid_NotEvaluated [] (anchor_findings anchors) DlpFindings
         else if missing \<noteq> []
         then fail 0 None Fid_Missing missing [] FidelityAnchorMissingFromInput
         else if input_dlp \<noteq> []
         then fail 0 None Fid_NotEvaluated [] input_dlp DlpFindings
         else
           (case port (pk_payload pk) of
              (Inl e, latency) \<Rightarrow>
                fail latency None Fid_NotEvaluated [] [] (PortUnavailable (pe_code e))
            | (Inr out, latency) \<Rightarrow>
                judge_output cfg pk requested effective anchors latency out))"

definition evaluate_with_anchors ::
  "sqz_adapter_config \<Rightarrow> sqz_port \<Rightarrow> context_packet \<Rightarrow> nat \<Rightarrow> preservation_anchor list
   \<Rightarrow> sqz_receipt + sqz_evaluation" where
  "evaluate_with_anchors cfg port pk requested anchors =
     evaluate (cfg\<lparr>sc_fidelity_anchors := sc_fidelity_anchors cfg @ anchors\<rparr>) port pk requested"

section \<open>The anchors\<close>

lemma combine_keeps:
  "combine_anchors as m c = (m', c') \<Longrightarrow> om_get m k = Some e \<Longrightarrow> om_get m' k = Some e"
proof (induction as arbitrary: m c)
  case (Cons a as)
  show ?case
  proof (cases "om_get m (a_id a)")
    case None
    then have "om_get (om_put (a_id a) a m) k = Some e" using Cons.prems(2) by (auto simp: om_get_put)
    with None Cons.prems(1) Cons.IH show ?thesis by simp
  next
    case (Some b)
    with Cons.prems Cons.IH show ?thesis by simp
  qed
qed simp

lemma combine_conflict: "combine_anchors as m c = (m', False) \<Longrightarrow> \<not> c"
  by (induction as arbitrary: m c) (auto split: option.splits)

lemma combine_covers:
  "combine_anchors as m c = (m', False) \<Longrightarrow> a \<in> set as
   \<Longrightarrow> \<exists>e. om_get m' (a_id a) = Some e \<and> a_value e = a_value a"
proof (induction as arbitrary: m c)
  case (Cons b bs)
  show ?case
  proof (cases "om_get m (a_id b)")
    case None
    with Cons.prems have st: "combine_anchors bs (om_put (a_id b) b m) c = (m', False)" by simp
    have "om_get (om_put (a_id b) b m) (a_id b) = Some b" by (simp add: om_get_put)
    from combine_keeps [OF st this] Cons.IH [OF st] Cons.prems(2) show ?thesis by auto
  next
    case (Some e)
    with Cons.prems have st: "combine_anchors bs m (c \<or> a_value e \<noteq> a_value b) = (m', False)"
      by simp
    from combine_keeps [OF st Some] combine_conflict [OF st] Cons.IH [OF st] Cons.prems(2)
    show ?thesis by auto
  qed
qed simp

lemma combined_covers:
  assumes "combined_anchors pk configured = (anchors, False)" "a \<in> set (given_anchors pk configured)"
  shows "\<exists>e \<in> set anchors. a_id e = a_id e \<and> a_value e = a_value a"
proof -
  obtain m where m: "combine_anchors (given_anchors pk configured) [] False = (m, False)"
    "anchors = map snd m"
    using assms(1) by (auto simp: combined_anchors_def split: prod.splits)
  from combine_covers [OF m(1) assms(2)] obtain e where
    "om_get m (a_id a) = Some e" "a_value e = a_value a" by blast
  then show ?thesis using m(2) by (auto simp: om_get_def dest!: map_of_SomeD intro!: bexI [of _ e])
    (metis image_eqI snd_conv)
qed

lemma missing_none: "missing_anchors text anchors = [] \<longleftrightarrow> (\<forall>a \<in> set anchors. contains text (a_value a))"
  by (auto simp: missing_anchors_def filter_empty_conv)

definition keeps_anchors :: "sqz_adapter_config \<Rightarrow> context_packet \<Rightarrow> str \<Rightarrow> bool" where
  "keeps_anchors cfg pk text \<longleftrightarrow>
     (\<forall>a \<in> set (given_anchors pk (sc_fidelity_anchors cfg)). contains text (a_value a))"

lemma keeps_anchorsI:
  assumes "combined_anchors pk (sc_fidelity_anchors cfg) = (anchors, False)"
    "missing_anchors text anchors = []"
  shows "keeps_anchors cfg pk text"
  unfolding keeps_anchors_def
  using combined_covers [OF assms(1)] assms(2) by (fastforce simp: missing_none)

section \<open>Receipts\<close>

lemma receipt_fields [simp]:
  "rc_status (sqz_receipt_of cfg raw ret req eff ri lat cand st reason fid rq ms fs) = st"
  "rc_failure_reason (sqz_receipt_of cfg raw ret req eff ri lat cand st reason fid rq ms fs) = reason"
  "rc_policy (sqz_receipt_of cfg raw ret req eff ri lat cand st reason fid rq ms fs) = sc_policy cfg"
  "rc_raw_bytes (sqz_receipt_of cfg raw ret req eff ri lat cand st reason fid rq ms fs) = raw"
  "rc_returned_bytes (sqz_receipt_of cfg raw ret req eff ri lat cand st reason fid rq ms fs) = ret"
  "rc_raw_tokens (sqz_receipt_of cfg raw ret req eff ri lat cand st reason fid rq ms fs)
     = estimate_tokens raw"
  "rc_returned_tokens (sqz_receipt_of cfg raw ret req eff ri lat cand st reason fid rq ms fs)
     = estimate_tokens ret"
  "rc_requested_max (sqz_receipt_of cfg raw ret req eff ri lat cand st reason fid rq ms fs) = req"
  "rc_effective_max (sqz_receipt_of cfg raw ret req eff ri lat cand st reason fid rq ms fs) = eff"
  "rc_dlp_findings (sqz_receipt_of cfg raw ret req eff ri lat cand st reason fid rq ms fs) = fs"
  "rc_fidelity_status (sqz_receipt_of cfg raw ret req eff ri lat cand st reason fid rq ms fs) = fid"
  "rc_missing_anchor_ids (sqz_receipt_of cfg raw ret req eff ri lat cand st reason fid rq ms fs) = ms"
  "rc_required_anchor_ids (sqz_receipt_of cfg raw ret req eff ri lat cand st reason fid rq ms fs) = rq"
  "rc_sqz_id (sqz_receipt_of cfg raw ret req eff ri lat cand st reason fid rq ms fs)
     = (if st \<in> {Applied, NotBeneficial} then Option.bind cand (\<lambda>(_, _, i). i) else None)"
  "rc_dlp_status (sqz_receipt_of cfg raw ret req eff ri lat cand st reason fid rq ms fs)
     = dlp_progress reason fs"
  by (simp_all add: sqz_receipt_of_def Let_def)

text \<open>What an evaluation promises of its answer, whatever the branch.\<close>

definition good_evaluation ::
  "sqz_adapter_config \<Rightarrow> sqz_port \<Rightarrow> context_packet \<Rightarrow> nat \<Rightarrow> sqz_evaluation \<Rightarrow> bool" where
  "good_evaluation cfg port pk requested ev \<longleftrightarrow>
     (let st = rc_status (ev_receipt ev);
          out = pk_payload (ev_packet ev) in
      ev_packet ev = pk\<lparr>pk_payload := out\<rparr>
      \<and> (st \<noteq> Applied \<longrightarrow> ev_packet ev = pk)
      \<and> (st \<noteq> Sqz_Failed \<longrightarrow> dlp_findings out = [] \<and> keeps_anchors cfg pk out
           \<and> rc_failure_reason (ev_receipt ev) = None)
      \<and> (st = Applied \<longrightarrow>
           length out < length (pk_payload pk)
           \<and> length out \<le> min requested (sc_configured_max_output_bytes cfg)
           \<and> (\<exists>answer. fst (port (pk_payload pk)) = Inr answer \<and> so_payload answer = out
                \<and> so_identity answer = sc_identity cfg)
           \<and> is_approved (sc_identity cfg)
           \<and> given_anchors pk (sc_fidelity_anchors cfg) \<noteq> []
           \<and> rc_sqz_id (ev_receipt ev) = Some (content_id out))
      \<and> (sc_policy cfg = InternalLocked \<longrightarrow> st \<in> {Applied, NotBeneficial}))"

lemma failed_good:
  "failed_evaluation cfg pk req eff ri lat cand fid ms fs reason = Inr ev
   \<Longrightarrow> good_evaluation cfg port pk requested ev"
  by (auto simp: failed_evaluation_def good_evaluation_def Let_def split: if_splits)

lemma combined_nonempty:
  "combined_anchors pk configured = (anchors, c) \<Longrightarrow> anchors \<noteq> [] \<Longrightarrow> given_anchors pk configured \<noteq> []"
  by (auto simp: combined_anchors_def)

lemma judge_good:
  assumes an: "combined_anchors pk (sc_fidelity_anchors cfg) = (anchors, False)"
    and port: "port (pk_payload pk) = (Inr out, latency)"
    and approved: "is_approved (sc_identity cfg)" "sc_policy cfg \<noteq> PublicOff"
    and clean: "dlp_findings (pk_payload pk) = []" "missing_anchors (pk_payload pk) anchors = []"
    and eff: "effective = min requested (sc_configured_max_output_bytes cfg)"
    and ev: "judge_output cfg pk requested effective anchors latency out = Inr ev"
  shows "good_evaluation cfg port pk requested ev"
proof -
  note k = keeps_anchorsI [OF an]
  show ?thesis
    using ev unfolding judge_output_def Let_def fidelity_of_def
    by (auto split: if_splits prod.splits dest!: failed_good [where port = port and requested = requested])
      (use assms k combined_nonempty [OF an] in \<open>auto simp: good_evaluation_def Let_def\<close>)
qed

lemma off_good:
  assumes an: "combined_anchors pk (sc_fidelity_anchors cfg) = (anchors, conflicting)"
    and off: "sc_policy cfg = PublicOff"
    and ev: "evaluate_off cfg pk req effective anchors conflicting = Inr ev"
  shows "good_evaluation cfg port pk requested ev"
proof -
  have k: "\<not> conflicting \<Longrightarrow> missing_anchors (pk_payload pk) anchors = []
      \<Longrightarrow> keeps_anchors cfg pk (pk_payload pk)"
    using keeps_anchorsI an by simp
  show ?thesis
    using ev unfolding evaluate_off_def Let_def
    by (auto split: if_splits dest!: failed_good [where port = port and requested = requested])
      (use off k in \<open>auto simp: good_evaluation_def Let_def base_receipt_def\<close>)
qed

lemma evaluate_good: "evaluate cfg port pk requested = Inr ev \<Longrightarrow> good_evaluation cfg port pk requested ev"
proof -
  assume ev: "evaluate cfg port pk requested = Inr ev"
  obtain anchors conflicting where
    an: "combined_anchors pk (sc_fidelity_anchors cfg) = (anchors, conflicting)" by fastforce
  obtain answer latency where p: "port (pk_payload pk) = (answer, latency)" by fastforce
  show ?thesis
    using ev unfolding evaluate_def Let_def an p
    by (auto split: if_splits sum.splits dest!: failed_good [where port = port and requested = requested]
        dest: off_good [OF an])
      (use an p in \<open>auto intro: judge_good\<close>)
qed

section \<open>Properties\<close>

text \<open>
  C16. Whatever the port answers, an evaluation that returns a packet changes at most its
  payload, and changes it only when the receipt says Applied: then the new payload is the
  answer of the approved executable, is strictly shorter than the input and within both
  byte bounds, contains the value of every configured and required anchor, has no
  data-loss finding, and its SHA-256 is in the receipt. Outside Failed the returned
  payload is free of findings, and under InternalLocked nothing but a successful
  evaluation returns at all.
\<close>

theorem evaluation_sound:
  assumes "evaluate cfg port pk requested = Inr ev"
  shows "let st = rc_status (ev_receipt ev); out = pk_payload (ev_packet ev) in
      ev_packet ev = pk\<lparr>pk_payload := out\<rparr>
      \<and> (st \<noteq> Applied \<longrightarrow> ev_packet ev = pk)
      \<and> (st \<noteq> Sqz_Failed \<longrightarrow> is_public_dlp_safe out
           \<and> (\<forall>a \<in> set (given_anchors pk (sc_fidelity_anchors cfg)). contains out (a_value a)))
      \<and> (st = Applied \<longrightarrow>
           length out < length (pk_payload pk)
           \<and> length out \<le> min requested (sc_configured_max_output_bytes cfg)
           \<and> (\<exists>answer. fst (port (pk_payload pk)) = Inr answer \<and> so_payload answer = out
                \<and> is_approved (so_identity answer))
           \<and> given_anchors pk (sc_fidelity_anchors cfg) \<noteq> []
           \<and> rc_sqz_id (ev_receipt ev) = Some (content_id out))
      \<and> (sc_policy cfg = InternalLocked \<longrightarrow> st \<in> {Applied, NotBeneficial})"
  using evaluate_good [OF assms]
  unfolding good_evaluation_def Let_def is_public_dlp_safe_def keeps_anchors_def
  by (elim conjE, intro conjI) fastforce+

definition demo_anchor :: preservation_anchor where
  "demo_anchor = \<lparr>a_id = ''k'', a_value = ''ab''\<rparr>"

definition demo_packet_receipt :: packet_receipt where
  "demo_packet_receipt =
     \<lparr>pr_schema_version = ''1.0.0'', pr_seed_ids = [], pr_admitted_dependency_ids = [],
      pr_selected_ids = [], pr_omitted_ids = [], pr_dependency_closure_truncated = False,
      pr_dependency_max_depth = 0, pr_dependency_max_nodes = 0, pr_raw_bytes = 5,
      pr_estimated_tokens = 2, pr_token_estimate_method = BytesDividedByFourCeiling,
      pr_effective_max_items = 0, pr_effective_max_bytes = 5, pr_runtime_token_ceiling = None,
      pr_truncated = False\<rparr>"

definition demo_packet :: context_packet where
  "demo_packet =
     \<lparr>pk_items = [], pk_payload = ''ab cd'', pk_receipt = demo_packet_receipt\<rparr>"

definition demo_config :: "sqz_policy \<Rightarrow> sqz_adapter_config" where
  "demo_config p =
     \<lparr>sc_policy = p, sc_identity = approved_identity, sc_configured_max_output_bytes = 100,
      sc_fidelity_anchors = [demo_anchor]\<rparr>"

definition demo_port :: "str \<Rightarrow> sqz_port" where
  "demo_port answer = (\<lambda>_. (Inr (port_output_new answer approved_identity), 7))"

lemma demo_facts:
  "dlp_findings ''ab cd'' = []" "dlp_findings ''ab'' = []"
  "combined_anchors demo_packet [demo_anchor] = ([demo_anchor], False)"
  "anchor_findings [demo_anchor] = []"
  "missing_anchors ''ab cd'' [demo_anchor] = []" "missing_anchors ''ab'' [demo_anchor] = []"
  "is_approved approved_identity"
  by code_simp+

lemma demo_evaluate:
  "evaluate (demo_config PublicOn) (demo_port ''ab'') demo_packet 50
   = Inr \<lparr>ev_packet = demo_packet\<lparr>pk_payload := ''ab''\<rparr>,
          ev_receipt = sqz_receipt_of (demo_config PublicOn) 5 2 50 50 (Some approved_identity) 7
            (Some (port_output_new ''ab'' approved_identity, 2, Some (content_id ''ab'')))
            Applied None Fid_Passed [''k''] [] []\<rparr>"
  by (simp add: evaluate_def demo_config_def demo_port_def demo_facts judge_output_def
      fidelity_of_def port_output_new_def demo_packet_def [THEN arg_cong [where f = pk_payload]]
      anchor_ids_def demo_anchor_def [THEN arg_cong [where f = a_id]] eval_nat_numeral)

theorem evaluation_sound_witness:
  "let ev = \<lparr>ev_packet = demo_packet\<lparr>pk_payload := ''ab''\<rparr>,
          ev_receipt = sqz_receipt_of (demo_config PublicOn) 5 2 50 50 (Some approved_identity) 7
            (Some (port_output_new ''ab'' approved_identity, 2, Some (content_id ''ab'')))
            Applied None Fid_Passed [''k''] [] []\<rparr>
   in rc_status (ev_receipt ev) = Applied
      \<and> is_public_dlp_safe (pk_payload (ev_packet ev))
      \<and> length (pk_payload (ev_packet ev)) < length (pk_payload demo_packet)
      \<and> (\<forall>a \<in> set (given_anchors demo_packet [demo_anchor]).
           contains (pk_payload (ev_packet ev)) (a_value a))"
  using evaluation_sound [OF demo_evaluate]
  by (simp add: Let_def demo_config_def)



definition receipt_of :: "sqz_receipt + sqz_evaluation \<Rightarrow> sqz_receipt" where
  "receipt_of r = (case r of Inl rc \<Rightarrow> rc | Inr ev \<Rightarrow> ev_receipt ev)"

definition accounted :: "sqz_adapter_config \<Rightarrow> context_packet \<Rightarrow> nat \<Rightarrow> sqz_receipt + sqz_evaluation \<Rightarrow> bool" where
  "accounted cfg pk requested r \<longleftrightarrow>
     (let rc = receipt_of r in
      rc_raw_bytes rc = length (pk_payload pk)
      \<and> rc_returned_bytes rc \<le> rc_raw_bytes rc
      \<and> rc_raw_tokens rc = estimate_tokens (rc_raw_bytes rc)
      \<and> rc_returned_tokens rc = estimate_tokens (rc_returned_bytes rc)
      \<and> rc_requested_max rc = requested
      \<and> rc_effective_max rc = min requested (sc_configured_max_output_bytes cfg)
      \<and> rc_policy rc = sc_policy cfg
      \<and> (rc_sqz_id rc \<noteq> None \<longleftrightarrow> rc_status rc \<in> {Applied, NotBeneficial})
      \<and> (rc_failure_reason rc \<noteq> None \<longleftrightarrow> rc_status rc = Sqz_Failed)
      \<and> (rc_status rc = Sqz_Off \<longrightarrow> sc_policy cfg = PublicOff)
      \<and> (case r of Inl rc \<Rightarrow> sc_policy cfg = InternalLocked \<and> rc_status rc = Sqz_Failed
         | Inr ev \<Rightarrow> rc_returned_bytes rc = length (pk_payload (ev_packet ev))))"

lemma failed_accounted:
  "eff = min requested (sc_configured_max_output_bytes cfg)
   \<Longrightarrow> accounted cfg pk requested
         (failed_evaluation cfg pk requested eff ri lat cand fid ms fs reason)"
  by (simp add: accounted_def receipt_of_def failed_evaluation_def Let_def)

lemma evaluate_accounted: "accounted cfg pk requested (evaluate cfg port pk requested)"
proof -
  obtain anchors conflicting where
    an: "combined_anchors pk (sc_fidelity_anchors cfg) = (anchors, conflicting)" by fastforce
  obtain answer latency where p: "port (pk_payload pk) = (answer, latency)" by fastforce
  let ?eff = "min requested (sc_configured_max_output_bytes cfg)"
  have off: "sc_policy cfg = PublicOff \<Longrightarrow>
      accounted cfg pk requested (evaluate_off cfg pk requested ?eff anchors conflicting)"
    unfolding evaluate_off_def Let_def
    by (simp add: failed_accounted) (simp add: accounted_def receipt_of_def base_receipt_def)
  have judge: "accounted cfg pk requested
      (judge_output cfg pk requested ?eff anchors latency out)" for out
    unfolding judge_output_def Let_def
    by (simp add: failed_accounted split: prod.split) (simp add: accounted_def receipt_of_def)
  show ?thesis
    unfolding evaluate_def Let_def an p
    by (simp add: failed_accounted off judge split: sum.split)
qed

lemma estimate_tokens_bounds: "n \<le> 4 * estimate_tokens n \<and> 4 * estimate_tokens n < n + 4"
  unfolding estimate_tokens_def by presburger

text \<open>
  The accounting of every evaluation, returned or failed: raw and returned byte counts
  are those of the two payloads, the returned one is never longer, both token estimates
  are the rounded-up quarter (so at most three bytes too high), the effective bound is
  the smaller of the two bounds, the identifier is present exactly on success, the failure
  reason exactly on failure, and an error leaves the adapter only under InternalLocked.
\<close>

theorem receipt_accounting:
  "let r = evaluate cfg port pk requested; rc = receipt_of r in
     rc_raw_bytes rc = length (pk_payload pk)
     \<and> rc_returned_bytes rc \<le> rc_raw_bytes rc
     \<and> rc_raw_bytes rc \<le> 4 * rc_raw_tokens rc \<and> 4 * rc_raw_tokens rc < rc_raw_bytes rc + 4
     \<and> rc_returned_bytes rc \<le> 4 * rc_returned_tokens rc
     \<and> 4 * rc_returned_tokens rc < rc_returned_bytes rc + 4
     \<and> rc_effective_max rc = min requested (sc_configured_max_output_bytes cfg)
     \<and> (rc_sqz_id rc \<noteq> None \<longleftrightarrow> rc_status rc \<in> {Applied, NotBeneficial})
     \<and> (rc_failure_reason rc \<noteq> None \<longleftrightarrow> rc_status rc = Sqz_Failed)
     \<and> (case r of Inl rc \<Rightarrow> sc_policy cfg = InternalLocked \<and> rc_status rc = Sqz_Failed
        | Inr ev \<Rightarrow> rc_returned_bytes rc = length (pk_payload (ev_packet ev)))"
  using evaluate_accounted [of cfg pk requested port]
    estimate_tokens_bounds [of "rc_raw_bytes (receipt_of (evaluate cfg port pk requested))"]
    estimate_tokens_bounds [of "rc_returned_bytes (receipt_of (evaluate cfg port pk requested))"]
  unfolding accounted_def Let_def
  by (elim conjE, intro conjI) (simp_all only: conj_commute simp_thms)

end
