(* ===== verification/Receipt.thy ===== *)
theory Receipt
  imports Delegate Sqz
begin

text \<open>
  Delegation receipts (\<open>agent/receipt.rs\<close>): requested and effective execution, inline
  results with their canonical byte encoding and its strict decoder, stored references, and
  the constructor that checks a receipt's invariant. Constructors whose error has a single
  value return an option. \<open>usize\<close> has 64 bits, so \<open>usize::try_from\<close> of a \<open>u64\<close> succeeds.
\<close>

section \<open>Executions\<close>

record requested_execution =
  re_profile_name :: str
  re_provider :: "str attestation"
  re_model :: "str attestation"
  re_reasoning :: "reasoning_level attestation"
  re_tool_policy :: tool_policy

definition bad_attested :: "str attestation \<Rightarrow> bool" where
  "bad_attested x = (case x of Attested v \<Rightarrow> \<not> is_valid_identity v | AttUnavailable \<Rightarrow> False)"

definition requested_new ::
  "str \<Rightarrow> str \<Rightarrow> str \<Rightarrow> reasoning_level \<Rightarrow> tool_policy \<Rightarrow> requested_execution option" where
  "requested_new name provider model reasoning policy =
     (if \<not> is_valid_identity name \<or> \<not> is_valid_identity provider \<or> \<not> is_valid_identity model
      then None
      else Some \<lparr>re_profile_name = name, re_provider = Attested provider, re_model = Attested model,
                 re_reasoning = Attested reasoning, re_tool_policy = policy\<rparr>)"

definition requested_with_attestations ::
  "str \<Rightarrow> str attestation \<Rightarrow> str attestation \<Rightarrow> reasoning_level attestation \<Rightarrow> tool_policy
   \<Rightarrow> requested_execution option" where
  "requested_with_attestations name provider model reasoning policy =
     (if \<not> is_valid_identity name \<or> bad_attested provider \<or> bad_attested model then None
      else Some \<lparr>re_profile_name = name, re_provider = provider, re_model = model,
                 re_reasoning = reasoning, re_tool_policy = policy\<rparr>)"

record effective_execution =
  ee_profile :: "agent_profile attestation"
  ee_provider :: "str attestation"
  ee_model :: "str attestation"
  ee_reasoning :: "reasoning_level attestation"
  ee_tool_policy :: tool_policy

record sqz_stages =
  st_input :: "sqz_receipt option"
  st_output :: "sqz_receipt option"

section \<open>Inline results\<close>

record inline_result =
  ir_answer :: str
  ir_citations :: "str list"
  ir_claims :: "provider_claim list"

definition inline_new :: "str \<Rightarrow> str list \<Rightarrow> inline_result option" where
  "inline_new answer citations =
     (if trim answer = [] \<or> length answer > 1048576 then None
      else if length citations > 128 then None
      else if list_ex (\<lambda>c. trim c = [] \<or> length c > 1024) citations then None
      else Some \<lparr>ir_answer = answer, ir_citations = citations, ir_claims = []\<rparr>)"

definition inline_with_claims ::
  "str \<Rightarrow> str list \<Rightarrow> provider_claim list \<Rightarrow> inline_result option" where
  "inline_with_claims answer citations claims =
     Option.bind (inline_new answer citations) (\<lambda>r.
       if length claims > 128 then None else Some (r\<lparr>ir_claims := claims\<rparr>))"

definition encode_field :: "bytes \<Rightarrow> bytes" where
  "encode_field field = to_be_bytes 8 (length field) @ field"

definition encode_claim :: "provider_claim \<Rightarrow> bytes" where
  "encode_claim c =
     encode_field (cl_id c) @ encode_field (cl_text c)
     @ [if cl_material c then CHR 0x01 else CHR 0x00]
     @ encode_field (cl_locator c) @ encode_field (cl_content_digest c)
     @ encode_field (cl_support c)"

definition encode_canonical :: "inline_result \<Rightarrow> bytes" where
  "encode_canonical r =
     (if ir_claims r = [] then ''bran-agent-result-v1'' else ''bran-agent-result-v2'')
     @ encode_field (ir_answer r)
     @ to_be_bytes 8 (length (ir_citations r))
     @ concat (map encode_field (ir_citations r))
     @ (if ir_claims r \<noteq> []
        then to_be_bytes 8 (length (ir_claims r)) @ concat (map encode_claim (ir_claims r))
        else [])"

fun be_value :: "nat \<Rightarrow> bytes \<Rightarrow> nat" where
  "be_value acc [] = acc"
| "be_value acc (c # s) = be_value (256 * acc + code c) s"

definition decode_u64 :: "bytes \<Rightarrow> (nat \<times> bytes) option" where
  "decode_u64 encoded =
     (if length encoded < 8 then None
      else Some (be_value 0 (take 8 encoded), drop 8 encoded))"

definition decode_field :: "bytes \<Rightarrow> (bytes \<times> bytes) option" where
  "decode_field encoded =
     (case decode_u64 encoded of
        None \<Rightarrow> None
      | Some (n, rest) \<Rightarrow>
          if length rest < n then None else Some (take n rest, drop n rest))"

definition from_utf8 :: "bytes \<Rightarrow> str option" where
  "from_utf8 bs = (if valid_utf8 bs then Some bs else None)"

text \<open>The decoding loops, for a count that was read and bounded before.\<close>

fun decode_many :: "(bytes \<Rightarrow> ('a \<times> bytes) option) \<Rightarrow> nat \<Rightarrow> bytes \<Rightarrow> ('a list \<times> bytes) option" where
  "decode_many f 0 rest = Some ([], rest)"
| "decode_many f (Suc n) rest =
     (case f rest of
        None \<Rightarrow> None
      | Some (x, rest1) \<Rightarrow>
          (case decode_many f n rest1 of
             None \<Rightarrow> None
           | Some (xs, rest2) \<Rightarrow> Some (x # xs, rest2)))"

definition decode_text :: "bytes \<Rightarrow> (str \<times> bytes) option" where
  "decode_text rest =
     (case decode_field rest of
        None \<Rightarrow> None
      | Some (f, rest1) \<Rightarrow> map_option (\<lambda>s. (s, rest1)) (from_utf8 f))"

definition decode_material :: "bytes \<Rightarrow> (bool \<times> bytes) option" where
  "decode_material rest =
     (case rest of
        [] \<Rightarrow> None
      | c # rest1 \<Rightarrow>
          if code c = 0 then Some (False, rest1)
          else if code c = 1 then Some (True, rest1) else None)"

definition decode_claim :: "bytes \<Rightarrow> (provider_claim \<times> bytes) option" where
  "decode_claim rest0 =
     Option.bind (decode_text rest0) (\<lambda>(i, rest1).
     Option.bind (decode_text rest1) (\<lambda>(text, rest2).
     Option.bind (decode_material rest2) (\<lambda>(material, rest3).
     Option.bind (decode_text rest3) (\<lambda>(locator, rest4).
     Option.bind (decode_text rest4) (\<lambda>(digest, rest5).
     Option.bind (decode_text rest5) (\<lambda>(support, rest6).
       map_option (\<lambda>c. (c, rest6)) (claim_new i text material locator digest support)))))))"

fun all_some :: "'a option list \<Rightarrow> 'a list option" where
  "all_some [] = Some []"
| "all_some (x # xs) = (case x of None \<Rightarrow> None | Some y \<Rightarrow> map_option (Cons y) (all_some xs))"

definition decode_version :: "bytes \<Rightarrow> (nat \<times> bytes) option" where
  "decode_version encoded =
     (case strip_prefix ''bran-agent-result-v2'' encoded of
        Some rest \<Rightarrow> Some (2, rest)
      | None \<Rightarrow>
          (case strip_prefix ''bran-agent-result-v1'' encoded of
             Some rest \<Rightarrow> Some (1, rest)
           | None \<Rightarrow> None))"

definition decode_claims :: "str \<Rightarrow> str list \<Rightarrow> bytes \<Rightarrow> inline_result option" where
  "decode_claims answer citations rest0 =
     Option.bind (decode_u64 rest0) (\<lambda>(claim_count, rest1).
       if claim_count = 0 \<or> claim_count > 128 then None
       else
         Option.bind (decode_many decode_claim claim_count rest1) (\<lambda>(claims, rest2).
           if rest2 \<noteq> [] then None else inline_with_claims answer citations claims))"

definition decode_canonical :: "bytes \<Rightarrow> inline_result option" where
  "decode_canonical encoded =
     Option.bind (decode_version encoded) (\<lambda>(version, rest0).
     Option.bind (decode_field rest0) (\<lambda>(answer_bytes, rest1).
     Option.bind (decode_u64 rest1) (\<lambda>(citation_count, rest2).
       if citation_count > 128 then None
       else
         Option.bind (decode_many decode_field citation_count rest2) (\<lambda>(citation_bytes, rest3).
         Option.bind (from_utf8 answer_bytes) (\<lambda>answer.
         Option.bind (all_some (map from_utf8 citation_bytes)) (\<lambda>citations.
           if version = 1 then (if rest3 \<noteq> [] then None else inline_new answer citations)
           else decode_claims answer citations rest3))))))"

section \<open>Receipts\<close>

record stored_result_ref =
  sr_result_id :: result_id
  sr_artifact_ids :: "result_id list"

definition stored_ref_new :: "result_id \<Rightarrow> result_id list \<Rightarrow> stored_result_ref option" where
  "stored_ref_new i arts =
     (if length arts > 64 then None else Some \<lparr>sr_result_id = i, sr_artifact_ids = arts\<rparr>)"

record receipt_parts =
  rp_outcome :: invocation_outcome
  rp_requested :: requested_execution
  rp_effective :: effective_execution
  rp_sqz :: sqz_stages
  rp_inline_result :: "inline_result option"
  rp_stored_ref :: "stored_result_ref option"
  rp_no_session :: bool
  rp_provenance :: "str list"

record delegation_receipt =
  dl_schema_version :: str
  dl_outcome :: invocation_outcome
  dl_requested :: requested_execution
  dl_effective :: effective_execution
  dl_sqz :: sqz_stages
  dl_inline_result :: "inline_result option"
  dl_stored_ref :: "stored_result_ref option"
  dl_no_session :: bool
  dl_provenance :: "str list"
  dl_provider_run_id :: "str attestation"

definition div_ceil :: "nat \<Rightarrow> nat \<Rightarrow> nat" where
  "div_ceil n d = n div d + (if n mod d > 0 then 1 else 0)"

text \<open>The checks that both \<open>accepted_sqz\<close> functions (here and in the coordinator) make of a
  receipt of a stage that was not compressed.\<close>

definition off_receipt_exact :: "sqz_receipt \<Rightarrow> bool" where
  "off_receipt_exact r \<longleftrightarrow> rc_raw_bytes r = rc_returned_bytes r
     \<and> rc_raw_tokens r = rc_returned_tokens r
     \<and> rc_raw_tokens r = div_ceil (rc_raw_bytes r) 4
     \<and> rc_candidate_bytes r = None \<and> rc_candidate_tokens r = None
     \<and> rc_actual_input_tokens r = None \<and> rc_actual_output_tokens r = None
     \<and> rc_returned_identity r = None \<and> rc_sqz_id r = None"

definition accepted_sqz :: "sqz_receipt \<Rightarrow> bool" where
  "accepted_sqz r \<longleftrightarrow>
     (if rc_failure_reason r \<noteq> None \<or> rc_fidelity_status r \<noteq> Fid_Passed
         \<or> rc_dlp_status r \<noteq> Dlp_Passed \<or> rc_dlp_findings r \<noteq> []
      then False
      else if rc_policy r = PublicOff \<and> rc_status r = Sqz_Off then off_receipt_exact r
      else if rc_policy r \<in> {PublicOn, InternalLocked} \<and> rc_status r \<in> {Applied, NotBeneficial}
      then (case rc_sqz_id r of
              None \<Rightarrow> False
            | Some i \<Rightarrow> sid_algorithm i = ''sha256'' \<and> length (sid_value i) = 64
                \<and> list_all lower_hex (sid_value i))
      else False)"

definition latency_too_long :: "sqz_receipt option \<Rightarrow> bool" where
  "latency_too_long x = (case x of None \<Rightarrow> False | Some r \<Rightarrow> rc_latency r > u64_max)"

definition output_id_matches :: "sqz_receipt \<Rightarrow> inline_result \<Rightarrow> bool" where
  "output_id_matches output inline \<longleftrightarrow>
     rc_status output = Sqz_Off
     \<or> (case rc_sqz_id output of None \<Rightarrow> False | Some i \<Rightarrow> i = content_id (ir_answer inline))"

definition outcome_consistent :: "receipt_parts \<Rightarrow> bool" where
  "outcome_consistent parts =
     (case rp_outcome parts of
        Outcome_Complete _ \<Rightarrow>
          (case (rp_inline_result parts, rp_stored_ref parts, st_input (rp_sqz parts),
                 st_output (rp_sqz parts)) of
             (Some inline, Some stored, Some input, Some output) \<Rightarrow>
               accepted_sqz input \<and> accepted_sqz output
               \<and> sr_result_id stored = id_sha256 (encode_canonical inline)
               \<and> output_id_matches output inline
           | _ \<Rightarrow> False)
      | Outcome_Incomplete _ _ \<Rightarrow> rp_stored_ref parts = None)"

definition receipt_new :: "receipt_parts \<Rightarrow> delegation_receipt option" where
  "receipt_new parts =
     (if length (rp_provenance parts) > 128 then None
      else if list_ex (\<lambda>entry. \<not> is_valid_identity entry) (rp_provenance parts) then None
      else if latency_too_long (st_input (rp_sqz parts))
              \<or> latency_too_long (st_output (rp_sqz parts)) then None
      else if \<not> outcome_consistent parts then None
      else Some \<lparr>dl_schema_version = ''bran-agent-receipt-v1'', dl_outcome = rp_outcome parts,
                 dl_requested = rp_requested parts, dl_effective = rp_effective parts,
                 dl_sqz = rp_sqz parts, dl_inline_result = rp_inline_result parts,
                 dl_stored_ref = rp_stored_ref parts, dl_no_session = rp_no_session parts,
                 dl_provenance = rp_provenance parts, dl_provider_run_id = AttUnavailable\<rparr>)"

definition with_provider_run_id ::
  "delegation_receipt \<Rightarrow> str attestation \<Rightarrow> delegation_receipt option" where
  "with_provider_run_id r run_id =
     (if bad_attested run_id then None else Some (r\<lparr>dl_provider_run_id := run_id\<rparr>))"

section \<open>Decoding inverts encoding\<close>

lemma be_value_append: "be_value a (s @ t) = be_value (be_value a s) t"
  by (induction s arbitrary: a) auto

lemma be_value_to_be: "n < 256 ^ k \<Longrightarrow> be_value 0 (to_be_bytes k n) = n"
proof (induction k arbitrary: n)
  case (Suc k)
  then have "n div 256 < 256 ^ k" by (simp add: less_mult_imp_div_less mult.commute)
  with Suc.IH show ?case by (simp add: be_value_append code_def)
qed simp

lemma be_value_bound: "be_value 0 s < 256 ^ length s"
proof (induction s rule: rev_induct)
  case (snoc c s)
  have "256 * be_value 0 s + code c < 256 * be_value 0 s + 256" using code_less_256 [of c] by simp
  also have "\<dots> = 256 * Suc (be_value 0 s)" by simp
  also have "\<dots> \<le> 256 * 256 ^ length s" using snoc Suc_le_eq by (intro mult_le_mono) auto
  finally show ?case by (simp add: be_value_append)
qed simp

lemma to_be_be_value: "to_be_bytes (length s) (be_value 0 s) = s"
proof (induction s rule: rev_induct)
  case (snoc c s)
  have "(256 * be_value 0 s + code c) div 256 = be_value 0 s"
    using code_less_256 [of c] by simp
  moreover have "(256 * be_value 0 s + code c) mod 256 = code c" using code_less_256 [of c] by simp
  ultimately show ?case using snoc by (simp add: be_value_append)
qed simp

definition fits64 :: "nat \<Rightarrow> bool" where
  "fits64 n \<longleftrightarrow> n < 256 ^ 8"

lemma decode_u64_iff:
  "decode_u64 e = Some (n, r) \<longleftrightarrow> fits64 n \<and> e = to_be_bytes 8 n @ r"
proof
  assume d: "decode_u64 e = Some (n, r)"
  then have e: "n = be_value 0 (take 8 e)" "r = drop 8 e" "length (take 8 e) = 8"
    by (auto simp: decode_u64_def split: if_splits)
  then have "to_be_bytes 8 n = take 8 e" using to_be_be_value [of "take 8 e"] by simp
  moreover have "fits64 n" using be_value_bound [of "take 8 e"] e by (simp add: fits64_def)
  ultimately show "fits64 n \<and> e = to_be_bytes 8 n @ r" using e(2) by simp
next
  assume "fits64 n \<and> e = to_be_bytes 8 n @ r"
  then show "decode_u64 e = Some (n, r)"
    by (simp add: decode_u64_def be_value_to_be fits64_def)
qed

lemma decode_field_iff:
  "decode_field e = Some (f, r) \<longleftrightarrow> fits64 (length f) \<and> e = encode_field f @ r"
proof
  assume "decode_field e = Some (f, r)"
  then obtain n rest where d: "decode_u64 e = Some (n, rest)" "n \<le> length rest"
    "f = take n rest" "r = drop n rest"
    by (auto simp: decode_field_def split: option.splits prod.splits if_splits)
  then have "length f = n" "rest = f @ r" by auto
  with d(1) show "fits64 (length f) \<and> e = encode_field f @ r"
    by (simp add: decode_u64_iff encode_field_def)
next
  assume "fits64 (length f) \<and> e = encode_field f @ r"
  then have "decode_u64 e = Some (length f, f @ r)" by (simp add: decode_u64_iff encode_field_def)
  then show "decode_field e = Some (f, r)" by (simp add: decode_field_def)
qed

lemma decode_many_iff:
  assumes "\<And>e x r. f e = Some (x, r) \<longleftrightarrow> P x \<and> e = enc x @ r"
  shows "decode_many f n e = Some (xs, r)
    \<longleftrightarrow> length xs = n \<and> list_all P xs \<and> e = concat (map enc xs) @ r"
proof (induction n arbitrary: e xs)
  case (Suc n)
  have "decode_many f (Suc n) e = Some (xs, r)
      \<longleftrightarrow> (\<exists>x r1 ys. f e = Some (x, r1) \<and> decode_many f n r1 = Some (ys, r) \<and> xs = x # ys)"
    by (auto split: option.splits prod.splits)
  also have "\<dots> \<longleftrightarrow> length xs = Suc n \<and> list_all P xs \<and> e = concat (map enc xs) @ r"
    unfolding assms Suc.IH by (cases xs) auto
  finally show ?case .
qed auto

lemma decode_text_iff:
  "decode_text e = Some (s, r) \<longleftrightarrow> valid_utf8 s \<and> fits64 (length s) \<and> e = encode_field s @ r"
proof -
  have "decode_text e = Some (s, r) \<longleftrightarrow> decode_field e = Some (s, r) \<and> valid_utf8 s"
    by (auto simp: decode_text_def from_utf8_def split: option.splits prod.splits if_splits)
  then show ?thesis by (auto simp: decode_field_iff)
qed

lemma decode_material_iff:
  "decode_material e = Some (b, r) \<longleftrightarrow> e = [if b then CHR 0x01 else CHR 0x00] @ r"
proof -
  have "code c = 0 \<longleftrightarrow> c = CHR 0x00" "code c = 1 \<longleftrightarrow> c = CHR 0x01" for c
    using code_inject [of c "CHR 0x00"] code_inject [of c "CHR 0x01"] by (simp_all add: code_def)
  then show ?thesis by (auto simp: decode_material_def split: list.splits if_splits)
qed

definition claim_wire :: "provider_claim \<Rightarrow> bool" where
  "claim_wire c \<longleftrightarrow> claim_ok c \<and> valid_utf8 (cl_id c) \<and> valid_utf8 (cl_text c)
     \<and> valid_utf8 (cl_locator c) \<and> valid_utf8 (cl_content_digest c) \<and> valid_utf8 (cl_support c)"

lemma claim_new_iff:
  "claim_new i t m l d s = Some c \<longleftrightarrow>
     claim_ok c \<and> i = cl_id c \<and> t = cl_text c \<and> m = cl_material c \<and> l = cl_locator c
     \<and> d = cl_content_digest c \<and> s = cl_support c"
proof
  assume "claim_new i t m l d s = Some c"
  then show "claim_ok c \<and> i = cl_id c \<and> t = cl_text c \<and> m = cl_material c \<and> l = cl_locator c
     \<and> d = cl_content_digest c \<and> s = cl_support c"
    using claim_new_ok [of i t m l d s c] by (simp add: claim_new_def split: if_splits) auto
next
  assume "claim_ok c \<and> i = cl_id c \<and> t = cl_text c \<and> m = cl_material c \<and> l = cl_locator c
     \<and> d = cl_content_digest c \<and> s = cl_support c"
  then show "claim_new i t m l d s = Some c" using claim_new_rebuild [of c] by simp
qed

lemma claim_fits: "claim_ok c \<Longrightarrow> fits64 (length (cl_id c)) \<and> fits64 (length (cl_text c))
    \<and> fits64 (length (cl_locator c)) \<and> fits64 (length (cl_content_digest c))
    \<and> fits64 (length (cl_support c))"
  by (simp add: claim_ok_def fits64_def is_valid_name_def valid_sha256_def)

lemma decode_claim_iff: "decode_claim e = Some (c, r) \<longleftrightarrow> claim_wire c \<and> e = encode_claim c @ r"
proof -
  have "decode_claim e = Some (c, r) \<longleftrightarrow>
      (\<exists>i t m l d s r1 r2 r3 r4 r5. decode_text e = Some (i, r1) \<and> decode_text r1 = Some (t, r2)
        \<and> decode_material r2 = Some (m, r3) \<and> decode_text r3 = Some (l, r4)
        \<and> decode_text r4 = Some (d, r5) \<and> decode_text r5 = Some (s, r)
        \<and> claim_new i t m l d s = Some c)"
    unfolding decode_claim_def bind_eq_Some_conv by (auto simp: bind_eq_Some_conv)
  also have "\<dots> \<longleftrightarrow> claim_wire c \<and> e = encode_claim c @ r" (is "?L \<longleftrightarrow> ?R")
  proof
    assume ?L
    then show ?R
      unfolding decode_text_iff decode_material_iff claim_new_iff claim_wire_def encode_claim_def
      by (elim exE conjE) (hypsubst, simp)
  next
    assume r: ?R
    have dt: "decode_text (encode_field x @ y) = Some (x, y)"
      if "x \<in> {cl_id c, cl_text c, cl_locator c, cl_content_digest c, cl_support c}" for x y
      using that r claim_fits [of c] by (auto simp: decode_text_iff claim_wire_def)
    have cn: "claim_new (cl_id c) (cl_text c) (cl_material c) (cl_locator c)
        (cl_content_digest c) (cl_support c) = Some c"
      using r by (simp add: claim_new_rebuild claim_wire_def)
    have dm: "decode_material ([if cl_material c then CHR 0x01 else CHR 0x00] @ y)
        = Some (cl_material c, y)" for y
      by (simp only: decode_material_iff)
    have e: "e = encode_field (cl_id c) @ encode_field (cl_text c)
        @ [if cl_material c then CHR 0x01 else CHR 0x00] @ encode_field (cl_locator c)
        @ encode_field (cl_content_digest c) @ encode_field (cl_support c) @ r"
      using r by (simp add: encode_claim_def)
    show ?L
      unfolding e
      by (rule exI [of _ "cl_id c"], rule exI [of _ "cl_text c"], rule exI [of _ "cl_material c"],
          rule exI [of _ "cl_locator c"], rule exI [of _ "cl_content_digest c"],
          rule exI [of _ "cl_support c"], intro exI conjI, rule dt, simp, rule dt, simp, rule dm,
          rule dt, simp, rule dt, simp, rule dt, simp, rule cn)
  qed
  finally show ?thesis .
qed

lemma all_some_utf8: "all_some (map from_utf8 bs) = Some cs \<longleftrightarrow> bs = cs \<and> list_all valid_utf8 cs"
proof (induction bs arbitrary: cs)
  case (Cons b bs)
  show ?case
    by (cases cs) (auto simp: from_utf8_def [of b] Cons.IH split: if_splits)
qed auto

lemma decode_version_iff:
  "decode_version e = Some (v, r) \<longleftrightarrow>
     v = 2 \<and> e = ''bran-agent-result-v2'' @ r \<or> v = 1 \<and> e = ''bran-agent-result-v1'' @ r"
proof -
  have s: "strip_prefix p e = Some r \<longleftrightarrow> e = p @ r" for p r
    by (auto simp: strip_prefix_def prefix_def)
  have n: "strip_prefix p e = None \<longleftrightarrow> (\<nexists>r. e = p @ r)" for p
    by (auto simp: strip_prefix_def prefix_def)
  show ?thesis
    by (auto simp: decode_version_def s n split: option.splits)
qed

definition inline_ok :: "inline_result \<Rightarrow> bool" where
  "inline_ok r \<longleftrightarrow> trim (ir_answer r) \<noteq> [] \<and> length (ir_answer r) \<le> 1048576
     \<and> valid_utf8 (ir_answer r) \<and> length (ir_citations r) \<le> 128
     \<and> list_all citation_ok (ir_citations r) \<and> list_all valid_utf8 (ir_citations r)
     \<and> length (ir_claims r) \<le> 128 \<and> list_all claim_wire (ir_claims r)"

lemma inline_new_iff:
  "inline_new a cs = Some r \<longleftrightarrow>
     r = \<lparr>ir_answer = a, ir_citations = cs, ir_claims = []\<rparr> \<and> trim a \<noteq> [] \<and> length a \<le> 1048576
     \<and> length cs \<le> 128 \<and> list_all citation_ok cs"
  by (auto simp: inline_new_def citation_ok_def list_ex_iff list_all_iff not_le split: if_splits)

lemma inline_with_claims_iff:
  "inline_with_claims a cs cl = Some r \<longleftrightarrow>
     r = \<lparr>ir_answer = a, ir_citations = cs, ir_claims = cl\<rparr> \<and> trim a \<noteq> [] \<and> length a \<le> 1048576
     \<and> length cs \<le> 128 \<and> list_all citation_ok cs \<and> length cl \<le> 128"
  by (auto simp: inline_with_claims_def bind_eq_Some_conv inline_new_iff)

lemma citations_fit: "list_all citation_ok cs \<Longrightarrow> list_all (\<lambda>c. fits64 (length c)) cs"
  by (auto simp: list_all_iff citation_ok_def fits64_def)

text \<open>The decoder in one formula.\<close>

lemma decode_shape:
  "decode_canonical e = Some r \<longleftrightarrow>
    (\<exists>v a cs rest. decode_version e = Some (v, encode_field a @ to_be_bytes 8 (length cs)
             @ concat (map encode_field cs) @ rest)
       \<and> fits64 (length a) \<and> length cs \<le> 128 \<and> list_all (\<lambda>c. fits64 (length c)) cs
       \<and> valid_utf8 a \<and> list_all valid_utf8 cs
       \<and> (if v = 1 then rest = [] \<and> inline_new a cs = Some r
          else decode_claims a cs rest = Some r))" (is "_ \<longleftrightarrow> ?R")
proof -
  note many = decode_many_iff [where P = "\<lambda>f. fits64 (length f)" and enc = encode_field,
      OF decode_field_iff]
  have f: "fits64 n" if "n \<le> 128" for n using that by (simp add: fits64_def)
  have u: "from_utf8 b = Some a \<longleftrightarrow> b = a \<and> valid_utf8 a" for a b
    by (auto simp: from_utf8_def)
  have "decode_canonical e = Some r \<longleftrightarrow>
      (\<exists>v r0 b r1 n r2 bs r3 a cs. decode_version e = Some (v, r0) \<and> decode_field r0 = Some (b, r1)
        \<and> decode_u64 r1 = Some (n, r2) \<and> n \<le> 128 \<and> decode_many decode_field n r2 = Some (bs, r3)
        \<and> from_utf8 b = Some a \<and> all_some (map from_utf8 bs) = Some cs
        \<and> (if v = 1 then r3 = [] \<and> inline_new a cs = Some r else decode_claims a cs r3 = Some r))"
    unfolding decode_canonical_def bind_eq_Some_conv
    by (auto simp: bind_eq_Some_conv not_less split: if_splits; blast)
  also have "\<dots> \<longleftrightarrow> (\<exists>v r0 b r1 n r2 bs r3 a cs. decode_version e = Some (v, r0)
        \<and> (fits64 (length b) \<and> r0 = encode_field b @ r1)
        \<and> (fits64 n \<and> r1 = to_be_bytes 8 n @ r2) \<and> n \<le> 128
        \<and> (length bs = n \<and> list_all (\<lambda>f. fits64 (length f)) bs \<and> r2 = concat (map encode_field bs) @ r3)
        \<and> (b = a \<and> valid_utf8 a) \<and> (bs = cs \<and> list_all valid_utf8 cs)
        \<and> (if v = 1 then r3 = [] \<and> inline_new a cs = Some r else decode_claims a cs r3 = Some r))"
    (is "_ \<longleftrightarrow> ?L") unfolding decode_field_iff decode_u64_iff many u all_some_utf8 ..
  also have "?L \<longleftrightarrow> ?R"
  proof
    assume ?L
    then show ?R by (elim exE conjE) (hypsubst, intro exI conjI, assumption+)
  next
    assume ?R
    then obtain v a cs rest where h: "decode_version e = Some (v, encode_field a @
        to_be_bytes 8 (length cs) @ concat (map encode_field cs) @ rest)"
      "fits64 (length a)" "length cs \<le> 128" "list_all (\<lambda>c. fits64 (length c)) cs"
      "valid_utf8 a" "list_all valid_utf8 cs"
      "if v = 1 then rest = [] \<and> inline_new a cs = Some r else decode_claims a cs rest = Some r"
      by blast
    show ?L
      by (rule exI [of _ v], rule exI, rule exI [of _ a], rule exI, rule exI [of _ "length cs"],
          rule exI, rule exI [of _ cs], rule exI [of _ rest], rule exI [of _ a], rule exI [of _ cs],
          intro conjI, rule h, rule h, rule refl, rule f, rule h, rule refl, rule h, rule refl,
          rule h, rule refl, rule refl, rule h, rule refl, rule h, rule h)
  qed
  finally show ?thesis .
qed

lemma decode_claims_iff:
  "decode_claims a cs e = Some r \<longleftrightarrow>
     ir_claims r \<noteq> [] \<and> list_all claim_wire (ir_claims r)
     \<and> e = to_be_bytes 8 (length (ir_claims r)) @ concat (map encode_claim (ir_claims r))
     \<and> inline_with_claims a cs (ir_claims r) = Some r"
proof -
  note many = decode_many_iff [where P = claim_wire and enc = encode_claim, OF decode_claim_iff]
  have "decode_claims a cs e = Some r \<longleftrightarrow>
      (\<exists>n e1 cl e2. decode_u64 e = Some (n, e1) \<and> n \<noteq> 0 \<and> n \<le> 128
         \<and> decode_many decode_claim n e1 = Some (cl, e2) \<and> e2 = []
         \<and> inline_with_claims a cs cl = Some r)"
    unfolding decode_claims_def by (auto simp: bind_eq_Some_conv not_less split: if_splits)
  also have "\<dots> \<longleftrightarrow> (\<exists>n e1 cl e2. (fits64 n \<and> e = to_be_bytes 8 n @ e1) \<and> n \<noteq> 0 \<and> n \<le> 128
         \<and> (length cl = n \<and> list_all claim_wire cl \<and> e1 = concat (map encode_claim cl) @ e2)
         \<and> e2 = [] \<and> inline_with_claims a cs cl = Some r)"
    unfolding decode_u64_iff many ..
  also have "\<dots> \<longleftrightarrow> ir_claims r \<noteq> [] \<and> list_all claim_wire (ir_claims r)
     \<and> e = to_be_bytes 8 (length (ir_claims r)) @ concat (map encode_claim (ir_claims r))
     \<and> inline_with_claims a cs (ir_claims r) = Some r" (is "?L \<longleftrightarrow> ?R")
  proof
    assume ?L
    then obtain n e1 cl e2 where h: "e = to_be_bytes 8 n @ e1" "n \<noteq> 0" "length cl = n"
      "list_all claim_wire cl" "e1 = concat (map encode_claim cl) @ e2" "e2 = []"
      "inline_with_claims a cs cl = Some r" by blast
    then have "ir_claims r = cl" unfolding inline_with_claims_iff by simp
    with h show ?R by auto
  next
    assume ?R
    then show ?L
      by (intro exI [of _ "length (ir_claims r)"]
          exI [of _ "concat (map encode_claim (ir_claims r))"] exI [of _ "ir_claims r"]
          exI [of _ "[]"]) (auto simp: inline_with_claims_iff fits64_def)
  qed
  finally show ?thesis .
qed

lemma decode_encode:
  assumes a: "inline_ok r"
  shows "decode_canonical (encode_canonical r) = Some r"
proof -
  have r: "r = \<lparr>ir_answer = ir_answer r, ir_citations = ir_citations r, ir_claims = ir_claims r\<rparr>"
    by simp
  have fit: "fits64 (length (ir_answer r))" "list_all (\<lambda>c. fits64 (length c)) (ir_citations r)"
    using a citations_fit by (auto simp: inline_ok_def fits64_def)
  show "decode_canonical (encode_canonical r) = Some r"
  proof (cases "ir_claims r = []")
    case True
    then have "inline_new (ir_answer r) (ir_citations r) = Some r"
      using a r unfolding inline_new_iff inline_ok_def by metis
    then show ?thesis
      unfolding decode_shape using a True fit
      by (intro exI [of _ 1] exI [of _ "ir_answer r"] exI [of _ "ir_citations r"] exI [of _ "[]"])
        (auto simp: decode_version_iff encode_canonical_def inline_ok_def)
  next
    case False
    have "inline_with_claims (ir_answer r) (ir_citations r) (ir_claims r) = Some r"
      using a r unfolding inline_with_claims_iff inline_ok_def by metis
    then have "decode_claims (ir_answer r) (ir_citations r)
        (to_be_bytes 8 (length (ir_claims r)) @ concat (map encode_claim (ir_claims r))) = Some r"
      using a False by (simp add: decode_claims_iff inline_ok_def)
    then show ?thesis
      unfolding decode_shape using a False fit
      by (intro exI [of _ 2] exI [of _ "ir_answer r"] exI [of _ "ir_citations r"]
          exI [of _ "to_be_bytes 8 (length (ir_claims r)) @ concat (map encode_claim (ir_claims r))"])
        (auto simp: decode_version_iff encode_canonical_def inline_ok_def)
  qed
qed

section \<open>Properties\<close>

text \<open>
  C20. The canonical bytes of a result and the result determine each other: the decoder
  accepts exactly the encodings of well-formed results, every one of them, and returns the
  encoded result. So no two byte strings decode to one result, nothing trailing or
  malformed is accepted, and the SHA-256 identifier taken of the encoding is an identifier
  of answer, citations and claims.
\<close>

theorem decode_iff_encode:
  "decode_canonical bs = Some r \<longleftrightarrow> inline_ok r \<and> encode_canonical r = bs"
proof
  assume "decode_canonical bs = Some r"
  then obtain v a cs rest where h: "decode_version bs = Some (v, encode_field a @
        to_be_bytes 8 (length cs) @ concat (map encode_field cs) @ rest)"
      "valid_utf8 a" "list_all valid_utf8 cs"
      "if v = 1 then rest = [] \<and> inline_new a cs = Some r else decode_claims a cs rest = Some r"
    unfolding decode_shape by blast
  show "inline_ok r \<and> encode_canonical r = bs"
  proof (cases "v = 1")
    case True
    with h show ?thesis
      by (auto simp: inline_new_iff inline_ok_def encode_canonical_def decode_version_iff)
  next
    case False
    with h have c: "decode_claims a cs rest = Some r" by simp
    then have i: "inline_with_claims a cs (ir_claims r) = Some r" by (simp add: decode_claims_iff)
    have f: "ir_answer r = a" "ir_citations r = cs" "length (ir_claims r) \<le> 128" "trim a \<noteq> []"
      "length a \<le> 1048576" "length cs \<le> 128" "list_all citation_ok cs"
      using i unfolding inline_with_claims_iff by (metis inline_result.select_convs(1),
        metis inline_result.select_convs(2), simp_all)
    with h c False show ?thesis
      by (auto simp: decode_claims_iff inline_ok_def encode_canonical_def decode_version_iff)
  qed
qed (auto intro: decode_encode)

end
