(* ===== verification/Json.thy ===== *)
theory Json
  imports Yaml_Schema
begin

text \<open>
  Abstract JSON trees and their compact rendering, the specification that the hand-written
  receipt writers are compared with. The rendering is injective: a text has one tree.
\<close>

datatype json =
    JNull
  | JBool bool
  | JNum nat
  | JStr str
  | JArr "json list"
  | JObj "(str \<times> json) list"

fun render :: "json \<Rightarrow> str" where
  "render JNull = ''null''"
| "render (JBool b) = (if b then ''true'' else ''false'')"
| "render (JNum n) = dec n"
| "render (JStr s) = write_escaped_string s"
| "render (JArr xs) = ''['' @ join '','' (map render xs) @ '']''"
| "render (JObj es) =
     ''{'' @ join '','' (map (\<lambda>e. write_escaped_string (fst e) @ '':'' @ render (snd e)) es) @ ''}''"

definition jopt :: "('a \<Rightarrow> json) \<Rightarrow> 'a option \<Rightarrow> json" where
  "jopt f x = (case x of None \<Rightarrow> JNull | Some y \<Rightarrow> f y)"

section \<open>Numbers\<close>

lemma dec_all_digits: "list_all is_ascii_digit (dec n) \<and> dec n \<noteq> []"
proof (induction n rule: dec.induct)
  case (1 n)
  have "is_ascii_digit (char_of (48 + m))" if "m < 10" for m :: nat
    using that by (simp add: is_ascii_digit_def code_char_of)
  with 1 show ?case by (subst (1 2) dec.simps) (auto simp: not_less)
qed

lemma digits_value_append: "digits_value a (s @ t) = digits_value (digits_value a s) t"
  by (induction s arbitrary: a) auto

lemma digits_value_dec: "digits_value 0 (dec n) = n"
proof (induction n rule: dec.induct)
  case (1 n)
  have d: "digits_value a [char_of (48 + m)] = 10 * a + m" if "m < 10" for a m :: nat
    using that by (simp add: code_char_of)
  show ?case
  proof (cases "n < 10")
    case True
    then show ?thesis using d [of n 0] by (simp add: dec.simps)
  next
    case False
    then have "digits_value 0 (dec n) = digits_value (n div 10) [char_of (48 + n mod 10)]"
      using 1 by (subst dec.simps) (simp add: digits_value_append del: digits_value.simps)
    then show ?thesis using d [of "n mod 10" "n div 10"] by simp
  qed
qed

lemma dec_inj: "dec m = dec n \<longleftrightarrow> m = n"
  by (metis digits_value_dec)

definition stop :: "str \<Rightarrow> bool" where
  "stop r \<longleftrightarrow> r = [] \<or> hd r \<in> {CHR '','', CHR '']'', CHR ''}'', CHR '':''}"

lemma stop_simps [simp]:
  "stop []" "stop (CHR '','' # r)" "stop (CHR '']'' # r)" "stop (CHR ''}'' # r)" "stop (CHR '':'' # r)"
  by (simp_all add: stop_def)

lemma dec_prefix_free:
  assumes "stop r" "stop u" "dec m @ r = dec n @ u"
  shows "m = n \<and> r = u"
proof -
  have t: "takeWhile is_ascii_digit (dec k @ s) = dec k" if "stop s" for k s
  proof -
    have "takeWhile is_ascii_digit s = []"
      using that by (cases s) (auto simp: stop_def is_ascii_digit_def code_def)
    then show ?thesis
      using dec_all_digits [of k] by (simp add: takeWhile_append list_all_iff)
  qed
  have "dec m = dec n" using t [OF assms(1), of m] t [OF assms(2), of n] assms(3) by simp
  with assms(3) show ?thesis by (simp add: dec_inj)
qed

lemma num_clash:
  assumes "\<not> is_ascii_digit c"
  shows "dec n @ r \<noteq> c # s" "c # s \<noteq> dec n @ r"
  using assms dec_all_digits [of n] by (cases "dec n"; auto)+

lemmas json_clash = num_clash is_ascii_digit_def code_def write_escaped_string_def

section \<open>The rendering is injective\<close>

lemma render_start: "\<exists>c s. render v = c # s \<and> c \<notin> {CHR '','', CHR '']'', CHR ''}'', CHR '':''}"
proof (cases v)
  case (JNum n)
  then show ?thesis
    using dec_all_digits [of n] by (cases "dec n") (auto simp: is_ascii_digit_def code_def)
qed (auto simp: write_escaped_string_def)

lemma join_prefix_free:
  assumes pf: "\<And>x y r u. x \<in> set xs \<Longrightarrow> stop r \<Longrightarrow> stop u \<Longrightarrow> f x @ r = f y @ u \<Longrightarrow> x = y \<and> r = u"
    and start: "\<And>x. \<exists>c s. f x = c # s \<and> c \<notin> {CHR '','', CHR '']'', CHR ''}'', CHR '':''}"
    and close: "close \<in> {CHR '']'', CHR ''}''}"
  shows "join '','' (map f xs) @ close # r = join '','' (map f ys) @ close # u \<Longrightarrow> xs = ys \<and> r = u"
  using pf
proof (induction xs arbitrary: ys)
  case Nil
  show ?case
  proof (cases ys)
    case (Cons y ys')
    then show ?thesis using Nil.prems(1) start [of y] close by (auto simp: join_Cons split: if_splits)
  qed (use Nil in simp)
next
  case (Cons x xs)
  have st: "stop (close # w)" for w using close by auto
  show ?case
  proof (cases ys)
    case Nil
    then show ?thesis using Cons.prems(1) start [of x] close by (auto simp: join_Cons split: if_splits)
  next
    case ys: (Cons y ys')
    define tx where "tx = (if xs = [] then close # r else CHR '','' # join '','' (map f xs) @ close # r)"
    define ty where "ty = (if ys' = [] then close # u else CHR '','' # join '','' (map f ys') @ close # u)"
    have "f x @ tx = f y @ ty"
      using Cons.prems(1) by (auto simp: ys join_Cons tx_def ty_def)
    moreover have "stop tx" "stop ty" using st by (auto simp: tx_def ty_def)
    ultimately have e: "x = y" "tx = ty" using Cons.prems(2) [of x tx ty y] by auto
    show ?thesis
    proof (cases "xs = []")
      case True
      then have "ys' = []" "r = u" using e(2) close by (auto simp: tx_def ty_def split: if_splits)
      with True e ys show ?thesis by simp
    next
      case False
      then have "ys' \<noteq> []" "join '','' (map f xs) @ close # r = join '','' (map f ys') @ close # u"
        using e(2) close by (auto simp: tx_def ty_def split: if_splits)
      with Cons.IH [of ys'] Cons.prems(2) e ys show ?thesis by auto
    qed
  qed
qed

theorem render_prefix_free:
  "stop r \<Longrightarrow> stop u \<Longrightarrow> render v @ r = render w @ u \<Longrightarrow> v = w \<and> r = u"
proof (induction v arbitrary: w r u rule: render.induct)
  case 1
  then show ?case by (cases w) (auto simp: json_clash split: if_splits)
next
  case (2 b)
  then show ?case by (cases w) (auto simp: json_clash split: if_splits)
next
  case (3 n)
  show ?case
  proof (cases w)
    case (JNum m)
    with dec_prefix_free [OF 3(1,2), of n m] 3(3) show ?thesis by simp
  next
    case (JBool b)
    with 3(3) show ?thesis by (cases b) (simp_all add: json_clash)
  qed (use 3(3) in \<open>simp_all add: json_clash\<close>)
next
  case (4 s)
  show ?case
  proof (cases w)
    case (JStr t)
    with 4(3) show ?thesis by (simp add: escaped_prefix_free)
  qed (use 4(3) in \<open>auto simp: json_clash split: if_splits\<close>)
next
  case (5 xs)
  show ?case
  proof (cases w)
    case (JArr ys)
    have "join '','' (map render xs) @ CHR '']'' # r = join '','' (map render ys) @ CHR '']'' # u"
      using 5(4) JArr by simp
    from join_prefix_free [OF _ render_start _ this] 5(1) have "xs = ys \<and> r = u" by blast
    then show ?thesis by (simp add: JArr)
  qed (use 5(4) in \<open>auto simp: json_clash split: if_splits\<close>)
next
  case (6 es)
  let ?f = "\<lambda>e. write_escaped_string (fst e) @ '':'' @ render (snd e)"
  show ?case
  proof (cases w)
    case (JObj fs)
    have "x = y \<and> r = u" if "x \<in> set es" "stop r" "stop u" "?f x @ r = ?f y @ u" for x y r u
    proof -
      have "write_escaped_string (fst x) @ CHR '':'' # render (snd x) @ r
          = write_escaped_string (fst y) @ CHR '':'' # render (snd y) @ u" using that(4) by simp
      then have "fst x = fst y" "render (snd x) @ r = render (snd y) @ u"
        by (simp_all add: escaped_prefix_free)
      with 6(1) [OF that(1-3)] show ?thesis by (simp add: prod_eq_iff)
    qed
    moreover have "\<exists>c s. ?f x = c # s \<and> c \<notin> {CHR '','', CHR '']'', CHR ''}'', CHR '':''}" for x
      by (simp add: write_escaped_string_def)
    moreover have "join '','' (map ?f es) @ CHR ''}'' # r = join '','' (map ?f fs) @ CHR ''}'' # u"
      using 6(4) JObj by simp
    ultimately have "es = fs \<and> r = u"
      by (intro join_prefix_free [of es ?f "CHR ''}''" r fs u]) blast+
    then show ?thesis by (simp add: JObj)
  qed (use 6(4) in \<open>auto simp: json_clash split: if_splits\<close>)
qed

lemma render_inj: "render v = render w \<longleftrightarrow> v = w"
  using render_prefix_free [of "[]" "[]" v w] by auto

end
