(* ===== verification/Receipt_Json.thy ===== *)
theory Receipt_Json
  imports Receipt Json
begin

text \<open>
  The canonical JSON of receipts (\<open>to_json\<close>, \<open>sqz_receipt_json\<close> and their field writers in
  \<open>agent/receipt.rs\<close>). A writer that pushes onto a string returns the pushed text. The
  writers are proved to render a JSON tree, which holds the receipt without the account
  handle; the rendering is injective, so the JSON identifies the receipt up to it. The
  \<open>expect\<close> on the latency is the guard of the constructor: a receipt's latency fits 64 bits.
\<close>

section \<open>Text writers\<close>

definition json_char :: "char \<Rightarrow> str" where
  "json_char c =
     (if c = CHR 0x22 then [CHR 0x5C, CHR 0x22]
      else if c = CHR 0x5C then [CHR 0x5C, CHR 0x5C]
      else if c = CHR 0x08 then CHR 0x5C # ''b''
      else if c = CHR 0x09 then CHR 0x5C # ''t''
      else if c = CHR 0x0A then CHR 0x5C # ''n''
      else if c = CHR 0x0C then CHR 0x5C # ''f''
      else if c = CHR 0x0D then CHR 0x5C # ''r''
      else if code c \<le> 31 \<or> code c = 127 then CHR 0x5C # CHR ''u'' # hex_pad 4 (code c)
      else [c])"

definition json_string :: "str \<Rightarrow> str" where
  "json_string value = CHR 0x22 # concat (map json_char value) @ [CHR 0x22]"

definition json_key :: "str \<Rightarrow> str" where
  "json_key name = json_string name @ '':''"

definition field_str :: "str \<Rightarrow> str \<Rightarrow> str" where
  "field_str name value = json_key name @ json_string value"

definition field_bool :: "str \<Rightarrow> bool \<Rightarrow> str" where
  "field_bool name value = json_key name @ (if value then ''true'' else ''false'')"

definition field_usize :: "str \<Rightarrow> nat \<Rightarrow> str" where
  "field_usize name value = json_key name @ dec value"

definition field_u64 :: "str \<Rightarrow> nat \<Rightarrow> str" where
  "field_u64 name value = json_key name @ dec value"

definition field_option_usize :: "str \<Rightarrow> nat option \<Rightarrow> str" where
  "field_option_usize name value =
     json_key name @ (case value of Some n \<Rightarrow> dec n | None \<Rightarrow> ''null'')"

text \<open>The loops that write a comma before every element but the first.\<close>

fun comma_separated :: "('a \<Rightarrow> str) \<Rightarrow> bool \<Rightarrow> 'a list \<Rightarrow> str" where
  "comma_separated f first [] = []"
| "comma_separated f first (x # xs) =
     (if first then [] else '','') @ f x @ comma_separated f False xs"

definition json_strings :: "str list \<Rightarrow> str" where
  "json_strings values = ''['' @ comma_separated json_string True values @ '']''"

definition field_strings :: "str \<Rightarrow> str list \<Rightarrow> str" where
  "field_strings name values = json_key name @ json_strings values"

definition write_attestation :: "('a \<Rightarrow> str) \<Rightarrow> 'a attestation \<Rightarrow> str" where
  "write_attestation write_value x =
     ''{''
     @ (case x of
          Attested v \<Rightarrow> field_str ''state'' ''attested'' @ '','' @ json_key ''value'' @ write_value v
        | AttUnavailable \<Rightarrow>
            field_str ''state'' ''unavailable'' @ '',''
            @ CHR 0x22 # ''value'' @ CHR 0x22 # '':null'')
     @ ''}''"

definition field_attestation_string :: "str \<Rightarrow> str attestation \<Rightarrow> str" where
  "field_attestation_string name x = json_key name @ write_attestation json_string x"

definition field_attestation_reasoning :: "str \<Rightarrow> reasoning_level attestation \<Rightarrow> str" where
  "field_attestation_reasoning name x =
     json_key name @ write_attestation (\<lambda>v. json_string (reasoning_as_str v)) x"

definition write_policy :: "tool_policy \<Rightarrow> str" where
  "write_policy p =
     ''{'' @ json_key ''allow'' @ ''['' @ comma_separated json_string True (tp_allow p)
     @ ''],'' @ CHR 0x22 # ''deny'' @ CHR 0x22 # '':[''
     @ comma_separated json_string True (tp_deny p) @ '']}''"

definition field_requested :: "str \<Rightarrow> requested_execution \<Rightarrow> str" where
  "field_requested name r =
     json_key name @ ''{'' @ field_str ''profile_name'' (re_profile_name r) @ '',''
     @ field_attestation_string ''provider'' (re_provider r) @ '',''
     @ field_attestation_string ''model'' (re_model r) @ '',''
     @ field_attestation_reasoning ''reasoning'' (re_reasoning r) @ '',''
     @ json_key ''tool_policy'' @ write_policy (re_tool_policy r) @ ''}''"

definition write_profile :: "agent_profile \<Rightarrow> str" where
  "write_profile p =
     ''{'' @ field_str ''name'' (ap_name p) @ '',''
     @ field_str ''provider'' (ap_provider p) @ '',''
     @ field_str ''model'' (ap_model p) @ '',''
     @ field_str ''default_reasoning_level'' (reasoning_as_str (ap_reasoning p)) @ '',''
     @ json_key ''tool_policy'' @ write_policy (ap_tool_policy p) @ ''}''"

definition field_effective :: "str \<Rightarrow> effective_execution \<Rightarrow> str" where
  "field_effective name e =
     json_key name @ ''{'' @ json_key ''profile'' @ write_attestation write_profile (ee_profile e)
     @ '','' @ field_attestation_string ''provider'' (ee_provider e) @ '',''
     @ field_attestation_string ''model'' (ee_model e) @ '',''
     @ field_attestation_reasoning ''reasoning'' (ee_reasoning e) @ '',''
     @ json_key ''tool_policy'' @ write_policy (ee_tool_policy e) @ ''}''"

fun failure_name :: "agent_failure \<Rightarrow> str" where
  "failure_name F_AgentDisabled = ''agent_disabled''"
| "failure_name F_ExplicitOffline = ''explicit_offline''"
| "failure_name F_ProjectUntrusted = ''project_untrusted''"
| "failure_name F_UnknownProfile = ''unknown_profile''"
| "failure_name F_UnknownProvider = ''unknown_provider''"
| "failure_name F_UnknownModel = ''unknown_model''"
| "failure_name F_MissingAuth = ''missing_auth''"
| "failure_name F_ProviderUnavailable = ''provider_unavailable''"
| "failure_name F_ProviderFailed = ''provider_failed''"
| "failure_name F_Timeout = ''timeout''"
| "failure_name F_Cancelled = ''cancelled''"
| "failure_name F_DepthExceeded = ''depth_exceeded''"
| "failure_name F_DeniedTool = ''denied_tool''"
| "failure_name F_InvalidOutput = ''invalid_output''"
| "failure_name F_DlpRejected = ''dlp_rejected''"
| "failure_name F_GroundingFailed = ''grounding_failed''"
| "failure_name F_ClaimUnsupported = ''claim_unsupported''"
| "failure_name F_TokenBudgetUnattested = ''token_budget_unattested''"
| "failure_name F_TokenCeilingExceeded = ''token_ceiling_exceeded''"
| "failure_name F_SqzInputFailed = ''sqz_input_failed''"
| "failure_name F_SqzOutputFailed = ''sqz_output_failed''"
| "failure_name F_ResultStoreFailed = ''result_store_failed''"

definition field_outcome :: "str \<Rightarrow> invocation_outcome \<Rightarrow> str" where
  "field_outcome name outcome =
     (let (state, failure, metrics) =
        (case outcome of
           Outcome_Complete m \<Rightarrow> (''complete'', None, m)
         | Outcome_Incomplete f m \<Rightarrow> (''incomplete'', Some f, m))
      in json_key name @ ''{'' @ field_str ''state'' state @ '','' @ json_key ''failure''
         @ (case failure of Some f \<Rightarrow> json_string (failure_name f) | None \<Rightarrow> ''null'')
         @ '','' @ json_key ''metrics'' @ ''{''
         @ field_option_usize ''actual_input_tokens'' (im_actual_input_tokens metrics) @ '',''
         @ field_option_usize ''actual_output_tokens'' (im_actual_output_tokens metrics) @ '',''
         @ field_usize ''input_bytes'' (im_input_bytes metrics) @ '',''
         @ field_usize ''output_bytes'' (im_output_bytes metrics) @ '',''
         @ field_u64 ''latency_ms'' (im_latency_ms metrics) @ ''}}'')"

definition port_error_name :: "sqz_port_error_code \<Rightarrow> str" where
  "port_error_name e =
     (case e of
        Port_Unavailable \<Rightarrow> ''unavailable''
      | Port_Timeout \<Rightarrow> ''timeout''
      | Port_ExecutionFailed \<Rightarrow> ''execution-failed''
      | Port_InvalidOutput \<Rightarrow> ''invalid-output'')"

definition reason_kind :: "sqz_failure_reason \<Rightarrow> str \<times> sqz_port_error_code option" where
  "reason_kind reason =
     (case reason of
        ConfiguredIdentityMismatch \<Rightarrow> (''configured-identity-mismatch'', None)
      | ReturnedIdentityMismatch \<Rightarrow> (''returned-identity-mismatch'', None)
      | PortUnavailable e \<Rightarrow> (''port-unavailable'', Some e)
      | FidelityAnchorsUnavailable \<Rightarrow> (''fidelity-anchors-unavailable'', None)
      | MissingFidelityAnchors \<Rightarrow> (''missing-fidelity-anchors'', None)
      | FidelityAnchorMissingFromInput \<Rightarrow> (''fidelity-anchor-missing-from-input'', None)
      | ConflictingFidelityAnchorIds \<Rightarrow> (''conflicting-fidelity-anchor-ids'', None)
      | DlpFindings \<Rightarrow> (''dlp-findings'', None)
      | OutputExceedsBound \<Rightarrow> (''output-exceeds-bound'', None))"

definition write_failure_reason :: "sqz_failure_reason \<Rightarrow> str" where
  "write_failure_reason reason =
     (let (kind, port_error) = reason_kind reason
      in ''{'' @ field_str ''kind'' kind
         @ (case port_error of
              None \<Rightarrow> []
            | Some e \<Rightarrow> '','' @ json_key ''port_error_code'' @ json_string (port_error_name e))
         @ ''}'')"

definition write_identity :: "sqz_identity \<Rightarrow> str" where
  "write_identity i =
     ''{'' @ field_str ''source'' (si_source i) @ '',''
     @ field_str ''version'' (si_version i) @ '',''
     @ field_str ''sha256'' (si_sha256 i) @ ''}''"

definition policy_name :: "sqz_policy \<Rightarrow> str" where
  "policy_name p =
     (case p of PublicOff \<Rightarrow> ''public-off'' | PublicOn \<Rightarrow> ''public-on''
      | InternalLocked \<Rightarrow> ''internal-locked'')"

definition status_name :: "sqz_status \<Rightarrow> str" where
  "status_name s =
     (case s of Sqz_Off \<Rightarrow> ''off'' | Applied \<Rightarrow> ''applied'' | NotBeneficial \<Rightarrow> ''not-beneficial''
      | Sqz_Failed \<Rightarrow> ''failed'')"

definition fidelity_name :: "fidelity_status \<Rightarrow> str" where
  "fidelity_name s =
     (case s of Fid_NotEvaluated \<Rightarrow> ''not-evaluated''
      | RequiredButUnavailable \<Rightarrow> ''required-but-unavailable''
      | Fid_Passed \<Rightarrow> ''passed'' | Fid_Missing \<Rightarrow> ''missing'')"

definition dlp_name :: "dlp_status \<Rightarrow> str" where
  "dlp_name s =
     (case s of Dlp_NotEvaluated \<Rightarrow> ''not-evaluated'' | Dlp_InputPassed \<Rightarrow> ''input-passed''
      | Dlp_Passed \<Rightarrow> ''passed'' | Dlp_Findings \<Rightarrow> ''findings'')"

definition write_sqz :: "sqz_receipt \<Rightarrow> str" where
  "write_sqz r =
     ''{'' @ field_str ''schema_version'' (rc_schema_version r) @ '',''
     @ json_key ''configured_identity'' @ write_identity (rc_configured_identity r) @ '',''
     @ json_key ''returned_identity''
     @ (case rc_returned_identity r of Some i \<Rightarrow> write_identity i | None \<Rightarrow> ''null'') @ '',''
     @ field_str ''policy'' (policy_name (rc_policy r)) @ '',''
     @ field_str ''status'' (status_name (rc_status r)) @ '',''
     @ json_key ''failure_reason''
     @ (case rc_failure_reason r of Some f \<Rightarrow> write_failure_reason f | None \<Rightarrow> ''null'') @ '',''
     @ json_key ''monotonic_call_latency_ns'' @ dec (rc_latency r) @ '',''
     @ field_usize ''raw_bytes'' (rc_raw_bytes r) @ '',''
     @ field_option_usize ''candidate_compressed_bytes'' (rc_candidate_bytes r) @ '',''
     @ field_usize ''returned_bytes'' (rc_returned_bytes r) @ '',''
     @ field_usize ''raw_token_estimate_bytes_divided_by_four_ceiling'' (rc_raw_tokens r) @ '',''
     @ field_option_usize ''candidate_token_estimate_bytes_divided_by_four_ceiling''
         (rc_candidate_tokens r) @ '',''
     @ field_usize ''returned_token_estimate_bytes_divided_by_four_ceiling''
         (rc_returned_tokens r) @ '',''
     @ field_option_usize ''actual_input_tokens'' (rc_actual_input_tokens r) @ '',''
     @ field_option_usize ''actual_output_tokens'' (rc_actual_output_tokens r) @ '',''
     @ field_str ''fidelity_status'' (fidelity_name (rc_fidelity_status r)) @ '',''
     @ field_strings ''required_fidelity_anchor_ids'' (rc_required_anchor_ids r) @ '',''
     @ field_strings ''missing_fidelity_anchor_ids'' (rc_missing_anchor_ids r) @ '',''
     @ field_str ''dlp_status'' (dlp_name (rc_dlp_status r)) @ '',''
     @ field_strings ''dlp_findings'' (rc_dlp_findings r) @ '',''
     @ field_usize ''requested_max_output_bytes'' (rc_requested_max r) @ '',''
     @ field_usize ''effective_max_output_bytes'' (rc_effective_max r) @ '',''
     @ json_key ''sqz_id''
     @ (case rc_sqz_id r of
          Some i \<Rightarrow> ''{'' @ field_str ''algorithm'' (sid_algorithm i) @ '',''
                    @ field_str ''value'' (sid_value i) @ ''}''
        | None \<Rightarrow> ''null'')
     @ ''}''"

definition optional_sqz :: "sqz_receipt option \<Rightarrow> str" where
  "optional_sqz x = (case x of Some r \<Rightarrow> write_sqz r | None \<Rightarrow> ''null'')"

definition field_sqz :: "str \<Rightarrow> sqz_stages \<Rightarrow> str" where
  "field_sqz name st =
     json_key name @ ''{'' @ json_key ''input'' @ optional_sqz (st_input st) @ '',''
     @ json_key ''output'' @ optional_sqz (st_output st) @ ''}''"

definition sqz_receipt_json :: "sqz_receipt \<Rightarrow> str" where
  "sqz_receipt_json r = write_sqz r"

definition write_claim :: "provider_claim \<Rightarrow> str" where
  "write_claim c =
     ''{'' @ field_str ''id'' (cl_id c) @ '','' @ field_str ''text'' (cl_text c) @ '',''
     @ field_bool ''material'' (cl_material c) @ '','' @ field_str ''locator'' (cl_locator c) @ '',''
     @ field_str ''content_digest'' (cl_content_digest c) @ '',''
     @ field_str ''support'' (cl_support c) @ ''}''"

definition field_inline :: "str \<Rightarrow> inline_result option \<Rightarrow> str" where
  "field_inline name x =
     json_key name
     @ (case x of
          Some r \<Rightarrow>
            ''{'' @ field_str ''answer'' (ir_answer r) @ '',''
            @ field_strings ''citations'' (ir_citations r) @ '',''
            @ json_key ''claims'' @ ''['' @ comma_separated write_claim True (ir_claims r)
            @ '']'' @ ''}''
        | None \<Rightarrow> ''null'')"

definition field_stored :: "str \<Rightarrow> stored_result_ref option \<Rightarrow> str" where
  "field_stored name x =
     json_key name
     @ (case x of
          Some s \<Rightarrow>
            ''{'' @ field_str ''result_id'' (id_display (sr_result_id s)) @ '',''
            @ json_key ''artifact_ids'' @ ''[''
            @ comma_separated (\<lambda>i. json_string (id_display i)) True (sr_artifact_ids s) @ '']}''
        | None \<Rightarrow> ''null'')"

definition to_json :: "delegation_receipt \<Rightarrow> str" where
  "to_json r =
     ''{'' @ field_str ''schema_version'' (dl_schema_version r) @ '',''
     @ field_outcome ''outcome'' (dl_outcome r) @ '',''
     @ field_requested ''requested'' (dl_requested r) @ '',''
     @ field_effective ''effective'' (dl_effective r) @ '',''
     @ field_attestation_string ''provider_run_id'' (dl_provider_run_id r) @ '',''
     @ field_sqz ''sqz'' (dl_sqz r) @ '',''
     @ field_inline ''inline_result'' (dl_inline_result r) @ '',''
     @ field_stored ''stored_result_ref'' (dl_stored_ref r) @ '',''
     @ field_bool ''no_session'' (dl_no_session r) @ '',''
     @ field_strings ''provenance'' (dl_provenance r) @ ''}''"

section \<open>The trees\<close>

definition j_strings :: "str list \<Rightarrow> json" where
  "j_strings xs = JArr (map JStr xs)"

definition j_attest :: "('a \<Rightarrow> json) \<Rightarrow> 'a attestation \<Rightarrow> json" where
  "j_attest f x =
     (case x of
        Attested v \<Rightarrow> JObj [(''state'', JStr ''attested''), (''value'', f v)]
      | AttUnavailable \<Rightarrow> JObj [(''state'', JStr ''unavailable''), (''value'', JNull)])"

definition j_reasoning :: "reasoning_level \<Rightarrow> json" where
  "j_reasoning l = JStr (reasoning_as_str l)"

definition j_policy :: "tool_policy \<Rightarrow> json" where
  "j_policy p = JObj [(''allow'', j_strings (tp_allow p)), (''deny'', j_strings (tp_deny p))]"

definition j_requested :: "requested_execution \<Rightarrow> json" where
  "j_requested r = JObj
     [(''profile_name'', JStr (re_profile_name r)), (''provider'', j_attest JStr (re_provider r)),
      (''model'', j_attest JStr (re_model r)), (''reasoning'', j_attest j_reasoning (re_reasoning r)),
      (''tool_policy'', j_policy (re_tool_policy r))]"

definition j_profile :: "agent_profile \<Rightarrow> json" where
  "j_profile p = JObj
     [(''name'', JStr (ap_name p)), (''provider'', JStr (ap_provider p)),
      (''model'', JStr (ap_model p)), (''default_reasoning_level'', j_reasoning (ap_reasoning p)),
      (''tool_policy'', j_policy (ap_tool_policy p))]"

definition j_effective :: "effective_execution \<Rightarrow> json" where
  "j_effective e = JObj
     [(''profile'', j_attest j_profile (ee_profile e)), (''provider'', j_attest JStr (ee_provider e)),
      (''model'', j_attest JStr (ee_model e)), (''reasoning'', j_attest j_reasoning (ee_reasoning e)),
      (''tool_policy'', j_policy (ee_tool_policy e))]"

definition j_metrics :: "invocation_metrics \<Rightarrow> json" where
  "j_metrics m = JObj
     [(''actual_input_tokens'', jopt JNum (im_actual_input_tokens m)),
      (''actual_output_tokens'', jopt JNum (im_actual_output_tokens m)),
      (''input_bytes'', JNum (im_input_bytes m)), (''output_bytes'', JNum (im_output_bytes m)),
      (''latency_ms'', JNum (im_latency_ms m))]"

definition j_outcome :: "invocation_outcome \<Rightarrow> json" where
  "j_outcome out =
     (case out of
        Outcome_Complete m \<Rightarrow>
          JObj [(''state'', JStr ''complete''), (''failure'', JNull), (''metrics'', j_metrics m)]
      | Outcome_Incomplete f m \<Rightarrow>
          JObj [(''state'', JStr ''incomplete''), (''failure'', JStr (failure_name f)),
                (''metrics'', j_metrics m)])"

definition j_reason :: "sqz_failure_reason \<Rightarrow> json" where
  "j_reason x =
     (case reason_kind x of
        (kind, None) \<Rightarrow> JObj [(''kind'', JStr kind)]
      | (kind, Some e) \<Rightarrow>
          JObj [(''kind'', JStr kind), (''port_error_code'', JStr (port_error_name e))])"

definition j_identity :: "sqz_identity \<Rightarrow> json" where
  "j_identity i = JObj
     [(''source'', JStr (si_source i)), (''version'', JStr (si_version i)),
      (''sha256'', JStr (si_sha256 i))]"

definition j_sqz_id :: "sqz_id \<Rightarrow> json" where
  "j_sqz_id i = JObj [(''algorithm'', JStr (sid_algorithm i)), (''value'', JStr (sid_value i))]"

definition j_sqz :: "sqz_receipt \<Rightarrow> json" where
  "j_sqz r = JObj
     [(''schema_version'', JStr (rc_schema_version r)),
      (''configured_identity'', j_identity (rc_configured_identity r)),
      (''returned_identity'', jopt j_identity (rc_returned_identity r)),
      (''policy'', JStr (policy_name (rc_policy r))), (''status'', JStr (status_name (rc_status r))),
      (''failure_reason'', jopt j_reason (rc_failure_reason r)),
      (''monotonic_call_latency_ns'', JNum (rc_latency r)), (''raw_bytes'', JNum (rc_raw_bytes r)),
      (''candidate_compressed_bytes'', jopt JNum (rc_candidate_bytes r)),
      (''returned_bytes'', JNum (rc_returned_bytes r)),
      (''raw_token_estimate_bytes_divided_by_four_ceiling'', JNum (rc_raw_tokens r)),
      (''candidate_token_estimate_bytes_divided_by_four_ceiling'', jopt JNum (rc_candidate_tokens r)),
      (''returned_token_estimate_bytes_divided_by_four_ceiling'', JNum (rc_returned_tokens r)),
      (''actual_input_tokens'', jopt JNum (rc_actual_input_tokens r)),
      (''actual_output_tokens'', jopt JNum (rc_actual_output_tokens r)),
      (''fidelity_status'', JStr (fidelity_name (rc_fidelity_status r))),
      (''required_fidelity_anchor_ids'', j_strings (rc_required_anchor_ids r)),
      (''missing_fidelity_anchor_ids'', j_strings (rc_missing_anchor_ids r)),
      (''dlp_status'', JStr (dlp_name (rc_dlp_status r))),
      (''dlp_findings'', j_strings (rc_dlp_findings r)),
      (''requested_max_output_bytes'', JNum (rc_requested_max r)),
      (''effective_max_output_bytes'', JNum (rc_effective_max r)),
      (''sqz_id'', jopt j_sqz_id (rc_sqz_id r))]"

definition j_stages :: "sqz_stages \<Rightarrow> json" where
  "j_stages st = JObj [(''input'', jopt j_sqz (st_input st)), (''output'', jopt j_sqz (st_output st))]"

definition j_claim :: "provider_claim \<Rightarrow> json" where
  "j_claim c = JObj
     [(''id'', JStr (cl_id c)), (''text'', JStr (cl_text c)), (''material'', JBool (cl_material c)),
      (''locator'', JStr (cl_locator c)), (''content_digest'', JStr (cl_content_digest c)),
      (''support'', JStr (cl_support c))]"

definition j_inline :: "inline_result \<Rightarrow> json" where
  "j_inline r = JObj
     [(''answer'', JStr (ir_answer r)), (''citations'', j_strings (ir_citations r)),
      (''claims'', JArr (map j_claim (ir_claims r)))]"

definition j_stored :: "stored_result_ref \<Rightarrow> json" where
  "j_stored s = JObj
     [(''result_id'', JStr (id_display (sr_result_id s))),
      (''artifact_ids'', j_strings (map id_display (sr_artifact_ids s)))]"

definition receipt_tree :: "delegation_receipt \<Rightarrow> json" where
  "receipt_tree r = JObj
     [(''schema_version'', JStr (dl_schema_version r)), (''outcome'', j_outcome (dl_outcome r)),
      (''requested'', j_requested (dl_requested r)), (''effective'', j_effective (dl_effective r)),
      (''provider_run_id'', j_attest JStr (dl_provider_run_id r)), (''sqz'', j_stages (dl_sqz r)),
      (''inline_result'', jopt j_inline (dl_inline_result r)),
      (''stored_result_ref'', jopt j_stored (dl_stored_ref r)),
      (''no_session'', JBool (dl_no_session r)), (''provenance'', j_strings (dl_provenance r))]"

section \<open>The writers render the trees\<close>

named_theorems writer_simps \<open>renderings as written texts\<close>

lemma json_char_escape: "json_char c = escape_char c"
  by (auto simp: json_char_def escape_char_def is_ascii_control_def)

lemma json_string_escaped: "write_escaped_string s = json_string s"
  by (simp add: write_escaped_string_def json_string_def json_char_escape [abs_def])

lemma render_JStr [writer_simps]: "render (JStr s) = json_string s"
  by (simp add: json_string_escaped)

lemma comma_separated_join: "comma_separated f True xs = join '','' (map f xs)"
proof -
  have "comma_separated f False xs = (if xs = [] then [] else '','' @ join '','' (map f xs))" for xs
    by (induction xs) (auto simp: join_Cons)
  then show ?thesis by (cases xs) (auto simp: join_Cons)
qed

lemma render_JArr [writer_simps]:
  "render (JArr (map f xs)) = ''['' @ comma_separated (\<lambda>x. render (f x)) True xs @ '']''"
  by (simp add: comma_separated_join comp_def)

lemma render_strings [writer_simps]: "render (j_strings xs) = json_strings xs"
  by (simp add: j_strings_def render_JArr json_strings_def render_JStr del: render.simps)

lemma render_JObj_Nil: "render (JObj []) = ''{}''"
  by simp

definition entries :: "(str \<times> json) list \<Rightarrow> str" where
  "entries es = join '','' (map (\<lambda>e. write_escaped_string (fst e) @ '':'' @ render (snd e)) es)"

lemma entries_simps [writer_simps]:
  "entries [(k, v)] = json_key k @ render v"
  "entries ((k, v) # e # es) = json_key k @ render v @ '','' @ entries (e # es)"
  by (simp_all add: entries_def json_key_def json_string_escaped)

lemma render_JObj [writer_simps]: "render (JObj es) = ''{'' @ entries es @ ''}''"
  by (simp add: entries_def)

lemma render_other [writer_simps]:
  "render JNull = ''null''" "render (JNum n) = dec n"
  "render (JBool b) = (if b then ''true'' else ''false'')"
  by simp_all

lemma render_jopt [writer_simps]:
  "render (jopt f x) = (case x of Some y \<Rightarrow> render (f y) | None \<Rightarrow> ''null'')"
  by (simp add: jopt_def split: option.split)

lemmas field_defs = field_str_def field_bool_def field_usize_def field_u64_def
  field_option_usize_def field_strings_def field_attestation_string_def
  field_attestation_reasoning_def

lemma key_value: "json_key ''value'' = CHR 0x22 # ''value'' @ CHR 0x22 # '':''"
  by code_simp

lemma key_deny: "json_key ''deny'' = CHR 0x22 # ''deny'' @ CHR 0x22 # '':''"
  by code_simp

declare render.simps [simp del]

lemma render_attest [writer_simps]:
  "render (j_attest f x) = write_attestation (\<lambda>v. render (f v)) x"
  by (cases x) (simp_all add: j_attest_def write_attestation_def field_defs writer_simps key_value)

lemma render_reasoning [writer_simps]: "render (j_reasoning l) = json_string (reasoning_as_str l)"
  by (simp add: j_reasoning_def writer_simps)

lemma render_policy [writer_simps]: "render (j_policy p) = write_policy p"
  by (simp add: j_policy_def write_policy_def writer_simps json_strings_def key_deny)

lemma render_requested [writer_simps]: "json_key n @ render (j_requested r) = field_requested n r"
  by (simp add: j_requested_def field_requested_def writer_simps field_defs)

lemma render_profile [writer_simps]: "render (j_profile p) = write_profile p"
  by (simp add: j_profile_def write_profile_def writer_simps field_defs)

lemma render_effective [writer_simps]: "json_key n @ render (j_effective e) = field_effective n e"
  by (simp add: j_effective_def field_effective_def writer_simps field_defs)

lemma render_outcome [writer_simps]: "json_key n @ render (j_outcome out) = field_outcome n out"
  by (cases out) (simp_all add: j_outcome_def j_metrics_def field_outcome_def writer_simps field_defs
      cong: option.case_cong)

lemma render_identity [writer_simps]: "render (j_identity i) = write_identity i"
  by (simp add: j_identity_def write_identity_def writer_simps field_defs)

lemma render_reason [writer_simps]: "render (j_reason x) = write_failure_reason x"
  by (simp add: j_reason_def write_failure_reason_def writer_simps field_defs
      split: prod.split option.split)

lemma render_sqz [writer_simps]: "render (j_sqz r) = write_sqz r"
  by (simp add: j_sqz_def j_sqz_id_def write_sqz_def writer_simps field_defs cong: option.case_cong)

lemma render_stages [writer_simps]: "json_key n @ render (j_stages st) = field_sqz n st"
  by (simp add: j_stages_def field_sqz_def optional_sqz_def writer_simps cong: option.case_cong)

lemma render_claim [writer_simps]: "render (j_claim c) = write_claim c"
  by (simp add: j_claim_def write_claim_def writer_simps field_defs)

lemma render_inline [writer_simps]:
  "json_key n @ render (jopt j_inline x) = field_inline n x"
  by (cases x) (simp_all add: j_inline_def field_inline_def writer_simps field_defs)

lemma render_stored [writer_simps]:
  "json_key n @ render (jopt j_stored x) = field_stored n x"
  by (cases x) (simp_all add: j_stored_def field_stored_def writer_simps field_defs
      json_strings_def comma_separated_join comp_def)

lemma append_rule: "a @ b = c \<Longrightarrow> a @ b @ r = c @ r"
  by (metis append_assoc)

lemmas field_renderings [writer_simps] =
  render_requested [THEN append_rule] render_effective [THEN append_rule]
  render_outcome [THEN append_rule] render_stages [THEN append_rule]
  render_inline [THEN append_rule] render_stored [THEN append_rule]

lemma to_json_renders: "to_json r = render (receipt_tree r)"
  unfolding receipt_tree_def to_json_def
  by (simp add: writer_simps field_defs del: render_jopt)

section \<open>The trees determine the receipts\<close>

lemma jopt_eq:
  "(\<And>v. f v \<noteq> JNull) \<Longrightarrow> (\<And>v w. f v = f w \<longleftrightarrow> v = w) \<Longrightarrow> jopt f a = jopt f b \<longleftrightarrow> a = b"
  by (cases a; cases b) (simp_all add: jopt_def not_sym [of _ JNull])

lemma j_strings_inj [simp]: "j_strings xs = j_strings ys \<longleftrightarrow> xs = ys"
  unfolding j_strings_def by (simp add: inj_map_eq_map inj_def)

lemma j_attest_inj: "j_attest f x = j_attest g y \<longleftrightarrow>
    (case (x, y) of (Attested v, Attested w) \<Rightarrow> f v = g w | (AttUnavailable, AttUnavailable) \<Rightarrow> True
     | _ \<Rightarrow> False)"
  by (cases x; cases y) (simp_all add: j_attest_def)

lemma j_attest_str [simp]: "j_attest JStr x = j_attest JStr y \<longleftrightarrow> x = y"
  by (cases x; cases y) (simp_all add: j_attest_inj)

lemma reasoning_roundtrip: "reasoning_parse (reasoning_as_str l) = Some l"
  by (cases l) (simp_all add: reasoning_parse_def)

lemma j_attest_reasoning [simp]: "j_attest j_reasoning x = j_attest j_reasoning y \<longleftrightarrow> x = y"
  by (cases x; cases y) (auto simp: j_attest_inj j_reasoning_def, metis option.inject reasoning_roundtrip)

lemma j_policy_inj [simp]: "j_policy p = j_policy q \<longleftrightarrow> p = q"
  by (auto simp: j_policy_def intro: tool_policy.equality)

lemma j_requested_inj [simp]: "j_requested r = j_requested s \<longleftrightarrow> r = s"
  by (auto simp: j_requested_def intro: requested_execution.equality)

definition forget_profile :: "agent_profile \<Rightarrow> agent_profile" where
  "forget_profile p = p\<lparr>ap_account_handle := []\<rparr>"

fun forget_attested :: "agent_profile attestation \<Rightarrow> agent_profile attestation" where
  "forget_attested (Attested p) = Attested (forget_profile p)"
| "forget_attested AttUnavailable = AttUnavailable"

definition without_account :: "delegation_receipt \<Rightarrow> delegation_receipt" where
  "without_account r =
     r\<lparr>dl_effective := (dl_effective r)\<lparr>ee_profile := forget_attested (ee_profile (dl_effective r))\<rparr>\<rparr>"

lemma j_profile_inj: "j_profile p = j_profile q \<longleftrightarrow> forget_profile p = forget_profile q"
proof
  assume "j_profile p = j_profile q"
  then have "reasoning_as_str (ap_reasoning p) = reasoning_as_str (ap_reasoning q)"
    by (simp add: j_profile_def j_reasoning_def)
  then have "ap_reasoning p = ap_reasoning q" by (metis option.inject reasoning_roundtrip)
  with \<open>j_profile p = j_profile q\<close> show "forget_profile p = forget_profile q"
    by (cases p, cases q) (simp add: j_profile_def forget_profile_def)
next
  assume "forget_profile p = forget_profile q"
  then show "j_profile p = j_profile q"
    by (cases p, cases q) (simp add: j_profile_def forget_profile_def)
qed

lemma j_effective_inj: "j_effective e = j_effective f \<longleftrightarrow>
    e\<lparr>ee_profile := forget_attested (ee_profile e)\<rparr> = f\<lparr>ee_profile := forget_attested (ee_profile f)\<rparr>"
proof -
  have "j_attest j_profile x = j_attest j_profile y \<longleftrightarrow> forget_attested x = forget_attested y" for x y
    by (cases x; cases y) (simp_all add: j_attest_inj j_profile_inj)
  then show ?thesis by (cases e, cases f) (auto simp add: j_effective_def)
qed

lemma jopt_JNum [simp]: "jopt JNum x = jopt JNum y \<longleftrightarrow> x = y"
  by (cases x; cases y) (simp_all add: jopt_def)

lemma j_metrics_inj [simp]: "j_metrics m = j_metrics n \<longleftrightarrow> m = n"
  by (auto simp: j_metrics_def intro: invocation_metrics.equality)

lemma failure_name_inj [simp]: "failure_name f = failure_name g \<longleftrightarrow> f = g"
  by (cases f; simp; cases g; simp)

lemma j_outcome_inj [simp]: "j_outcome a = j_outcome b \<longleftrightarrow> a = b"
  by (cases a; cases b) (simp_all add: j_outcome_def)

lemma j_identity_inj [simp]: "j_identity i = j_identity j \<longleftrightarrow> i = j"
  by (auto simp: j_identity_def intro: sqz_identity.equality)

lemma names_inj [simp]:
  "policy_name p = policy_name p' \<longleftrightarrow> p = p'" "status_name s = status_name s' \<longleftrightarrow> s = s'"
  "fidelity_name f = fidelity_name f' \<longleftrightarrow> f = f'" "dlp_name d = dlp_name d' \<longleftrightarrow> d = d'"
  "port_error_name e = port_error_name e' \<longleftrightarrow> e = e'"
  by (simp_all add: policy_name_def status_name_def fidelity_name_def dlp_name_def
      port_error_name_def split: sqz_policy.split sqz_status.split fidelity_status.split
      dlp_status.split sqz_port_error_code.split)

lemma j_reason_inj [simp]: "j_reason x = j_reason y \<longleftrightarrow> x = y"
  by (cases x; simp add: j_reason_def reason_kind_def; cases y; simp add: j_reason_def reason_kind_def)

lemma j_sqz_id_inj [simp]: "j_sqz_id i = j_sqz_id j \<longleftrightarrow> i = j"
  by (auto simp: j_sqz_id_def intro: sqz_id.equality)

lemma j_nonnull:
  "j_identity i \<noteq> JNull" "j_reason x \<noteq> JNull" "j_sqz_id s \<noteq> JNull" "j_sqz r \<noteq> JNull"
  "j_inline k \<noteq> JNull" "j_stored t \<noteq> JNull"
  by (simp_all add: j_identity_def j_reason_def j_sqz_id_def j_sqz_def j_inline_def j_stored_def
      split: prod.split option.split)

lemma jopt_sqz_parts [simp]:
  "jopt j_identity a = jopt j_identity b \<longleftrightarrow> a = b" "jopt j_reason c = jopt j_reason d \<longleftrightarrow> c = d"
  "jopt j_sqz_id e = jopt j_sqz_id f \<longleftrightarrow> e = f"
  by (rule jopt_eq; simp add: j_nonnull)+

lemma j_sqz_inj [simp]: "j_sqz r = j_sqz s \<longleftrightarrow> r = s"
  by (cases r; cases s) (simp add: j_sqz_def)

lemma jopt_sqz [simp]: "jopt j_sqz a = jopt j_sqz b \<longleftrightarrow> a = b"
  by (rule jopt_eq) (simp_all add: j_nonnull)

lemma j_stages_inj [simp]: "j_stages s = j_stages t \<longleftrightarrow> s = t"
  by (cases s; cases t) (simp add: j_stages_def)

lemma j_claim_inj [simp]: "j_claim c = j_claim d \<longleftrightarrow> c = d"
  by (cases c; cases d) (simp add: j_claim_def)

lemma j_inline_inj [simp]: "j_inline r = j_inline s \<longleftrightarrow> r = s"
  by (cases r; cases s) (simp add: j_inline_def inj_map_eq_map inj_def)

lemma id_display_inj [simp]: "id_display i = id_display j \<longleftrightarrow> i = j"
proof -
  have "id_algorithm i = id_algorithm j" by (metis result_id_algorithm.exhaust)
  then show ?thesis by (cases i; cases j) (simp add: id_display_def)
qed

lemma j_stored_inj [simp]: "j_stored s = j_stored t \<longleftrightarrow> s = t"
  by (cases s; cases t) (simp add: j_stored_def inj_map_eq_map inj_def)

lemma jopt_results [simp]:
  "jopt j_inline a = jopt j_inline b \<longleftrightarrow> a = b" "jopt j_stored c = jopt j_stored d \<longleftrightarrow> c = d"
  by (rule jopt_eq; simp add: j_nonnull)+

lemma receipt_tree_inj: "receipt_tree r = receipt_tree s \<longleftrightarrow> without_account r = without_account s"
  by (cases r; cases s) (auto simp: receipt_tree_def without_account_def j_effective_inj)

section \<open>Properties\<close>


end
