(* ===== verification/Coordinator.thy ===== *)
theory Coordinator
  imports Receipt Result_Store
begin

text \<open>
  The agent coordinator (\<open>agent/coordinator.rs\<close>): the SQZ stages, the gates before any port
  is built, and \<open>AgentRuntime::invoke\<close>. The ports (credential store, provider, SQZ, result
  store) are arguments in a record; the result store's state is threaded, the other ports
  are called at most once each with given arguments, so functions model them. Every call of
  a port is recorded in a list of events, in order. \<open>None\<close> as a result of \<open>invoke\<close> means
  that a store operation did not return. The library's receipts and requests are those of
  the theories imported here.
\<close>

section \<open>The SQZ seam\<close>

datatype sqz_stage = Stage_Input | Stage_Output

record agent_sqz_output =
  aso_payload :: str
  aso_receipt :: sqz_receipt

datatype agent_sqz_failure_code = Sqz_InputFailed | Sqz_OutputFailed | Sqz_InvalidOutput

record agent_sqz_error =
  ase_code :: agent_sqz_failure_code
  ase_receipt :: "sqz_receipt option"

definition agent_sqz_error_new ::
  "agent_sqz_failure_code \<Rightarrow> sqz_receipt option \<Rightarrow> agent_sqz_error" where
  "agent_sqz_error_new c r = \<lparr>ase_code = c, ase_receipt = r\<rparr>"

definition agent_sqz_output_new :: "str \<Rightarrow> sqz_receipt \<Rightarrow> agent_sqz_error + agent_sqz_output" where
  "agent_sqz_output_new payload r =
     (if trim payload = [] \<or> length payload > 1048576
      then Inl (agent_sqz_error_new Sqz_InvalidOutput None)
      else Inr \<lparr>aso_payload = payload, aso_receipt = r\<rparr>)"

text \<open>The default method of the trait, for a port without anchors.\<close>

definition default_evaluate_with_anchors ::
  "(sqz_stage \<Rightarrow> str \<Rightarrow> nat \<Rightarrow> agent_sqz_error + agent_sqz_output)
   \<Rightarrow> sqz_stage \<Rightarrow> str \<Rightarrow> nat \<Rightarrow> preservation_anchor list \<Rightarrow> agent_sqz_error + agent_sqz_output" where
  "default_evaluate_with_anchors evaluate_port stage payload max_output anchors =
     (if anchors = [] then evaluate_port stage payload max_output
      else Inl (agent_sqz_error_new Sqz_InvalidOutput None))"

definition agent_packet :: "str \<Rightarrow> context_packet" where
  "agent_packet payload =
     \<lparr>pk_items = [], pk_payload = payload,
      pk_receipt =
        \<lparr>pr_schema_version = ''1.0.0'', pr_seed_ids = [], pr_admitted_dependency_ids = [],
         pr_selected_ids = [], pr_omitted_ids = [], pr_dependency_closure_truncated = False,
         pr_dependency_max_depth = 0, pr_dependency_max_nodes = 0,
         pr_raw_bytes = length payload, pr_estimated_tokens = div_ceil (length payload) 4,
         pr_token_estimate_method = BytesDividedByFourCeiling, pr_effective_max_items = 0,
         pr_effective_max_bytes = length payload, pr_runtime_token_ceiling = None,
         pr_truncated = False\<rparr>\<rparr>"

text \<open>\<open>chars().take(n)\<close>: a continuation byte belongs to the character before it.\<close>

fun take_chars :: "nat \<Rightarrow> str \<Rightarrow> str" where
  "take_chars n [] = []"
| "take_chars n (c # s) =
     (if byte_in 128 191 c then c # take_chars n s
      else if n = 0 then [] else c # take_chars (n - 1) s)"

definition stage_anchor_id :: "sqz_stage \<Rightarrow> str" where
  "stage_anchor_id stage =
     (case stage of Stage_Input \<Rightarrow> ''agent-input'' | Stage_Output \<Rightarrow> ''agent-output'')"

definition stage_anchors ::
  "sqz_policy \<Rightarrow> sqz_stage \<Rightarrow> str \<Rightarrow> preservation_anchor list
   \<Rightarrow> agent_sqz_error + preservation_anchor list" where
  "stage_anchors policy stage payload anchors =
     (if anchors \<noteq> [] then Inr anchors
      else if policy = PublicOff then Inr []
      else (case anchor_new (stage_anchor_id stage) (take_chars 128 payload) of
              Inl _ \<Rightarrow> Inl (agent_sqz_error_new Sqz_InvalidOutput None)
            | Inr a \<Rightarrow> Inr [a]))"

definition stage_failure_code :: "sqz_stage \<Rightarrow> agent_sqz_failure_code" where
  "stage_failure_code stage =
     (case stage of Stage_Input \<Rightarrow> Sqz_InputFailed | Stage_Output \<Rightarrow> Sqz_OutputFailed)"

definition agent_evaluate_with_anchors ::
  "sqz_port \<Rightarrow> sqz_policy \<Rightarrow> nat \<Rightarrow> sqz_stage \<Rightarrow> str \<Rightarrow> nat \<Rightarrow> preservation_anchor list
   \<Rightarrow> agent_sqz_error + agent_sqz_output" where
  "agent_evaluate_with_anchors port policy configured_max stage payload max_output anchors0 =
     (case stage_anchors policy stage payload anchors0 of
        Inl e \<Rightarrow> Inl e
      | Inr anchors \<Rightarrow>
          (let cfg = \<lparr>sc_policy = policy, sc_identity = approved_identity,
                      sc_configured_max_output_bytes = configured_max,
                      sc_fidelity_anchors = anchors\<rparr> in
           case evaluate cfg port (agent_packet payload) max_output of
             Inr out \<Rightarrow> agent_sqz_output_new (pk_payload (ev_packet out)) (ev_receipt out)
           | Inl r \<Rightarrow> Inl (agent_sqz_error_new (stage_failure_code stage) (Some r))))"

definition agent_evaluate ::
  "sqz_port \<Rightarrow> sqz_policy \<Rightarrow> nat \<Rightarrow> sqz_stage \<Rightarrow> str \<Rightarrow> nat \<Rightarrow> agent_sqz_error + agent_sqz_output" where
  "agent_evaluate port policy configured_max stage payload max_output =
     agent_evaluate_with_anchors port policy configured_max stage payload max_output []"

section \<open>Configuration and authority\<close>

record runtime_config =
  rt_enabled :: bool
  rt_max_delegation_depth :: nat

definition config_new :: "bool \<Rightarrow> nat \<Rightarrow> runtime_config option" where
  "config_new enabled depth =
     (if \<not> (1 \<le> depth \<and> depth \<le> 8) then None
      else Some \<lparr>rt_enabled = enabled, rt_max_delegation_depth = depth\<rparr>)"

definition default_config :: runtime_config where
  "default_config = \<lparr>rt_enabled = False, rt_max_delegation_depth = 8\<rparr>"

record runtime_authority =
  au_explicit_offline :: bool
  au_project_trusted :: bool
  au_mutation_authorized :: bool

record ('c, 's) runtime_ports =
  auth_resolve :: "str \<Rightarrow> auth_error + 'c"
  provider_invoke :: "provider_request \<Rightarrow> 'c \<Rightarrow> provider_error + provider_output"
  sqz_evaluate :: "sqz_stage \<Rightarrow> str \<Rightarrow> nat \<Rightarrow> agent_sqz_error + agent_sqz_output"
  sqz_evaluate_with_anchors ::
    "sqz_stage \<Rightarrow> str \<Rightarrow> nat \<Rightarrow> preservation_anchor list \<Rightarrow> agent_sqz_error + agent_sqz_output"
  store_limits :: "'s \<Rightarrow> result_store_limits"
  store_batch :: "'s \<Rightarrow> bytes list \<Rightarrow> nat \<Rightarrow> ((result_store_error + result_id list) \<times> 's) option"
  store_fetch :: "'s \<Rightarrow> result_id \<Rightarrow> nat \<Rightarrow> ((result_store_error + bytes) \<times> 's) option"

datatype port_event =
    Ports_Built
  | Auth_Called str
  | Sqz_Called sqz_stage str nat "preservation_anchor list"
  | Provider_Called provider_request
  | Store_Called "bytes list"

datatype internal_error = ReceiptInvariant

section \<open>Helpers of the coordinator\<close>

definition or_else :: "'a option \<Rightarrow> 'a option \<Rightarrow> 'a option" where
  "or_else x y = (case x of Some v \<Rightarrow> Some v | None \<Rightarrow> y)"

definition attest :: "'a option \<Rightarrow> 'a attestation" where
  "attest x = (case x of Some v \<Rightarrow> Attested v | None \<Rightarrow> AttUnavailable)"

definition requested_of ::
  "delegation_request \<Rightarrow> agent_profile option \<Rightarrow> str option \<Rightarrow> str option
   \<Rightarrow> internal_error + requested_execution" where
  "requested_of request profile provider model =
     ok_or ReceiptInvariant
       (requested_with_attestations (dr_profile request)
          (attest (or_else provider
             (or_else (dr_provider_override request) (map_option ap_provider profile))))
          (attest (or_else model
             (or_else (dr_model_override request) (map_option ap_model profile))))
          (attest (or_else (dr_reasoning_override request) (map_option ap_reasoning profile)))
          (dr_tool_policy request))"

definition unavailable_effective :: "tool_policy \<Rightarrow> effective_execution" where
  "unavailable_effective policy =
     \<lparr>ee_profile = AttUnavailable, ee_provider = AttUnavailable, ee_model = AttUnavailable,
      ee_reasoning = AttUnavailable, ee_tool_policy = policy\<rparr>"

definition provider_effective ::
  "agent_profile \<Rightarrow> str \<Rightarrow> provider_output \<Rightarrow> tool_policy \<Rightarrow> profile_registry \<Rightarrow> effective_execution" where
  "provider_effective profile provider out policy registry =
     \<lparr>ee_profile =
        (case o_effective_profile out of
           Some v \<Rightarrow> if v = ap_name profile then Attested profile else AttUnavailable
         | None \<Rightarrow> AttUnavailable),
      ee_provider =
        (case o_effective_provider out of
           Some v \<Rightarrow> if v = provider then Attested provider else AttUnavailable
         | None \<Rightarrow> AttUnavailable),
      ee_model =
        (case o_effective_model out of
           Some m \<Rightarrow>
             if require_for_provider (pr_models registry) provider m \<noteq> Inr () then AttUnavailable
             else Attested m
         | None \<Rightarrow> AttUnavailable),
      ee_reasoning =
        (case o_effective_reasoning out of
           Some t \<Rightarrow> attest (reasoning_parse t)
         | None \<Rightarrow> AttUnavailable),
      ee_tool_policy = policy\<rparr>"

definition denied_tool :: "tool_policy \<Rightarrow> tool_policy \<Rightarrow> bool" where
  "denied_tool request profile \<longleftrightarrow>
     list_ex (\<lambda>tool. \<not> policy_allows profile tool) (tp_allow request)"

definition mutation_requested :: "tool_policy \<Rightarrow> bool" where
  "mutation_requested policy \<longleftrightarrow>
     list_ex (policy_allows policy) [''write'', ''edit'', ''shell'', ''network'']"

definition sqz_failure :: "agent_sqz_failure_code \<Rightarrow> sqz_stage \<Rightarrow> agent_failure" where
  "sqz_failure c stage =
     (case (c, stage) of
        (Sqz_InvalidOutput, Stage_Output) \<Rightarrow> F_InvalidOutput
      | (_, Stage_Input) \<Rightarrow> F_SqzInputFailed
      | _ \<Rightarrow> F_SqzOutputFailed)"

definition provider_failure :: "provider_error \<Rightarrow> agent_failure" where
  "provider_failure e =
     (case e of
        Provider_Timeout \<Rightarrow> F_Timeout
      | Provider_Cancelled \<Rightarrow> F_Cancelled
      | Provider_InvalidOutput \<Rightarrow> F_InvalidOutput
      | Provider_Unavailable \<Rightarrow> F_ProviderUnavailable
      | Provider_Failed \<Rightarrow> F_ProviderFailed)"

definition or_zero :: "nat option \<Rightarrow> nat" where
  "or_zero x = (case x of Some n \<Rightarrow> n | None \<Rightarrow> 0)"

definition enforced_token_budget ::
  "delegation_request \<Rightarrow> provider_output \<Rightarrow> agent_failure option" where
  "enforced_token_budget request out =
     (case dr_hard_total_token_ceiling request of
        None \<Rightarrow> None
      | Some ceiling \<Rightarrow>
          if o_enforced_token_ceiling out \<noteq> Some ceiling then Some F_TokenBudgetUnattested
          else (case checked_add_u64 (or_zero (o_actual_input_tokens out))
                       (or_zero (o_actual_output_tokens out)) of
                  None \<Rightarrow> Some F_TokenCeilingExceeded
                | Some known_total \<Rightarrow>
                    if known_total > ceiling then Some F_TokenCeilingExceeded else None))"

definition some_list :: "'a option \<Rightarrow> 'a list" where
  "some_list x = (case x of Some v \<Rightarrow> [v] | None \<Rightarrow> [])"

definition surface_strings :: "provider_output \<Rightarrow> str list" where
  "surface_strings out =
     o_citations out @ some_list (o_provider_run_id out) @ some_list (o_effective_profile out)
     @ some_list (o_effective_provider out) @ some_list (o_effective_model out)
     @ some_list (o_effective_reasoning out)
     @ concat (map (\<lambda>c. [cl_id c, cl_text c, cl_locator c, cl_content_digest c, cl_support c])
         (o_claims out))"

definition safe_provider_surfaces :: "provider_output \<Rightarrow> bool" where
  "safe_provider_surfaces out \<longleftrightarrow>
     list_all (\<lambda>bs. public_dlp_findings bs = []) (surface_strings out)
     \<and> list_all (\<lambda>a. la_id a = id_sha256 (la_bytes a) \<and> public_dlp_findings (la_bytes a) = [])
         (o_artifacts out)"

definition grounding_input_accepted :: "delegation_request \<Rightarrow> agent_sqz_output \<Rightarrow> bool" where
  "grounding_input_accepted request out =
     (case dr_grounding_contract request of
        None \<Rightarrow> True
      | Some c \<Rightarrow>
          list_all (\<lambda>a. contains (aso_payload out) (a_value a)
              \<and> a_id a \<in> set (rc_required_anchor_ids (aso_receipt out))
              \<and> a_id a \<notin> set (rc_missing_anchor_ids (aso_receipt out))) (gc_anchors c))"

definition grounded_citations_accepted :: "delegation_request \<Rightarrow> str list \<Rightarrow> bool" where
  "grounded_citations_accepted request citations =
     (case dr_grounding_contract request of
        None \<Rightarrow> True
      | Some c \<Rightarrow> citations \<noteq> []
          \<and> list_all (\<lambda>l. is_public_dlp_safe l \<and> admits_citation c l) citations)"

definition same_attested :: "'a attestation \<Rightarrow> 'a attestation \<Rightarrow> bool" where
  "same_attested x y =
     (case (x, y) of (Attested v, Attested w) \<Rightarrow> v = w | _ \<Rightarrow> False)"

definition grounding_execution_attested ::
  "requested_execution \<Rightarrow> effective_execution \<Rightarrow> bool" where
  "grounding_execution_attested req eff \<longleftrightarrow>
     (case ee_profile eff of Attested p \<Rightarrow> ap_name p = re_profile_name req | AttUnavailable \<Rightarrow> False)
     \<and> same_attested (re_provider req) (ee_provider eff)
     \<and> same_attested (re_model req) (ee_model eff)
     \<and> same_attested (re_reasoning req) (ee_reasoning eff)"

definition grounded_claims_accepted ::
  "file_system \<Rightarrow> delegation_request \<Rightarrow> provider_output \<Rightarrow> bool" where
  "grounded_claims_accepted fs request out =
     (case dr_grounding_contract request of
        None \<Rightarrow> True
      | Some c \<Rightarrow>
          has_verifiable_evidence c \<and> o_claims out \<noteq> []
          \<and> o_answer out = join [CHR 0x0A] (map cl_text (o_claims out))
          \<and> list_all (\<lambda>k. cl_material k \<and> cl_text k = cl_support k
                \<and> cl_locator k \<in> set (o_citations out)) (o_claims out)
          \<and> verifies_support fs c
               (map (\<lambda>k. (cl_locator k, cl_content_digest k, cl_support k)) (o_claims out)))"

definition accepted_stage :: "sqz_receipt \<Rightarrow> str \<Rightarrow> bool" where
  "accepted_stage r payload \<longleftrightarrow>
     (if rc_failure_reason r \<noteq> None \<or> rc_fidelity_status r \<noteq> Fid_Passed
         \<or> rc_dlp_status r \<noteq> Dlp_Passed \<or> rc_dlp_findings r \<noteq> []
         \<or> rc_returned_bytes r \<noteq> length payload
      then False
      else if rc_policy r = PublicOff \<and> rc_status r = Sqz_Off then off_receipt_exact r
      else if rc_policy r \<in> {PublicOn, InternalLocked} \<and> rc_status r \<in> {Applied, NotBeneficial}
      then rc_sqz_id r = Some (content_id payload)
      else False)"

section \<open>Receipts of an invocation\<close>

definition receipt_result :: "receipt_parts \<Rightarrow> internal_error + delegation_receipt" where
  "receipt_result parts = ok_or ReceiptInvariant (receipt_new parts)"

definition incomplete ::
  "requested_execution \<Rightarrow> effective_execution \<Rightarrow> agent_failure \<Rightarrow> sqz_receipt option
   \<Rightarrow> sqz_receipt option \<Rightarrow> nat \<Rightarrow> nat \<Rightarrow> bool \<Rightarrow> internal_error + delegation_receipt" where
  "incomplete req eff failure input output input_bytes output_bytes no_session =
     (case lc_incomplete Configured of
        (Inl _, _) \<Rightarrow> Inl ReceiptInvariant
      | (Inr _, _) \<Rightarrow>
          (case outcome_new Incomplete (Some failure)
                  \<lparr>im_actual_input_tokens = None, im_actual_output_tokens = None,
                   im_input_bytes = input_bytes, im_output_bytes = output_bytes,
                   im_latency_ms = 0\<rparr> of
             Inl _ \<Rightarrow> Inl ReceiptInvariant
           | Inr outcome \<Rightarrow>
               receipt_result
                 \<lparr>rp_outcome = outcome, rp_requested = req, rp_effective = eff,
                  rp_sqz = \<lparr>st_input = input, st_output = output\<rparr>, rp_inline_result = None,
                  rp_stored_ref = None, rp_no_session = no_session,
                  rp_provenance = [''bran-agent-runtime'']\<rparr>))"

definition complete_receipt ::
  "invocation_state \<Rightarrow> requested_execution \<Rightarrow> effective_execution \<Rightarrow> sqz_receipt \<Rightarrow> sqz_receipt
   \<Rightarrow> inline_result \<Rightarrow> stored_result_ref \<Rightarrow> nat option \<Rightarrow> nat option \<Rightarrow> nat \<Rightarrow> nat \<Rightarrow> bool \<Rightarrow> bool
   \<Rightarrow> str attestation \<Rightarrow> internal_error + delegation_receipt" where
  "complete_receipt lifecycle req eff input output inline stored in_tokens out_tokens input_bytes
     output_bytes no_session grounded run_id =
     (case lc_complete lifecycle of
        (Inl _, _) \<Rightarrow> Inl ReceiptInvariant
      | (Inr _, _) \<Rightarrow>
          (case outcome_new Complete None
                  \<lparr>im_actual_input_tokens = in_tokens, im_actual_output_tokens = out_tokens,
                   im_input_bytes = input_bytes, im_output_bytes = output_bytes,
                   im_latency_ms = 0\<rparr> of
             Inl _ \<Rightarrow> Inl ReceiptInvariant
           | Inr outcome \<Rightarrow>
               res_bind
                 (receipt_result
                   \<lparr>rp_outcome = outcome, rp_requested = req, rp_effective = eff,
                    rp_sqz = \<lparr>st_input = Some input, st_output = Some output\<rparr>,
                    rp_inline_result = Some inline, rp_stored_ref = Some stored,
                    rp_no_session = no_session,
                    rp_provenance = ''bran-agent-runtime''
                      # (if grounded then [''bran-grounding-validated''] else [])\<rparr>)
                 (\<lambda>r. ok_or ReceiptInvariant (with_provider_run_id r run_id))))"

section \<open>Storing the output\<close>

text \<open>The loop that fetches every stored payload back and compares it.\<close>

fun fetch_back ::
  "('c, 's) runtime_ports \<Rightarrow> 's \<Rightarrow> nat \<Rightarrow> (result_id \<times> bytes) list \<Rightarrow> (bool \<times> 's) option" where
  "fetch_back ports s now [] = Some (True, s)"
| "fetch_back ports s now ((i, payload) # rest) =
     (case store_fetch ports s i now of
        None \<Rightarrow> None
      | Some (r, s') \<Rightarrow>
          if r \<noteq> Inr payload then Some (False, s') else fetch_back ports s' now rest)"

definition limits_refuse :: "result_store_limits \<Rightarrow> bytes list \<Rightarrow> nat \<Rightarrow> bool" where
  "limits_refuse limits batch total_bytes \<longleftrightarrow>
     max_entries limits = 0 \<or> max_total_bytes limits = 0 \<or> max_item_bytes limits = 0
     \<or> max_age_ticks limits = 0 \<or> max_item_bytes limits > max_total_bytes limits
     \<or> length batch > max_entries limits \<or> total_bytes > max_total_bytes limits
     \<or> list_ex (\<lambda>payload. length payload > max_item_bytes limits) batch"

definition store_output ::
  "('c, 's) runtime_ports \<Rightarrow> 's \<Rightarrow> inline_result \<Rightarrow> lossless_artifact list \<Rightarrow> nat
   \<Rightarrow> (stored_result_ref option \<times> port_event list \<times> 's) option" where
  "store_output ports s inline artifacts now =
     (let encoded = encode_canonical inline;
          batch = encoded # map la_bytes artifacts in
      case checked_total (map length batch) 0 of
        None \<Rightarrow> Some (None, [], s)
      | Some total_bytes \<Rightarrow>
          if limits_refuse (store_limits ports s) batch total_bytes then Some (None, [], s)
          else (case store_batch ports s batch now of
             None \<Rightarrow> None
           | Some (Inl _, s1) \<Rightarrow> Some (None, [Store_Called batch], s1)
           | Some (Inr ids, s1) \<Rightarrow>
               if length ids \<noteq> length batch \<or> hd ids \<noteq> id_sha256 encoded
               then Some (None, [Store_Called batch], s1)
               else (case fetch_back ports s1 now (zip ids batch) of
                  None \<Rightarrow> None
                | Some (ok, s2) \<Rightarrow>
                    if \<not> ok then Some (None, [Store_Called batch], s2)
                    else if tl ids \<noteq> map la_id artifacts
                    then Some (None, [Store_Called batch], s2)
                    else Some (stored_ref_new (hd ids) (tl ids), [Store_Called batch], s2))))"

section \<open>The invocation\<close>

record admitted =
  ad_profile :: agent_profile
  ad_provider :: str
  ad_model :: str
  ad_reasoning :: reasoning_level
  ad_requested :: requested_execution

type_synonym invocation = "internal_error + delegation_receipt"

text \<open>The gates before the ports are built: a finished invocation, or what was admitted.\<close>

definition early :: "delegation_request \<Rightarrow> requested_execution \<Rightarrow> agent_failure \<Rightarrow> invocation" where
  "early request req failure =
     incomplete req (unavailable_effective (dr_tool_policy request)) failure None None 0 0
       (dr_no_session request)"

definition finish ::
  "internal_error + requested_execution \<Rightarrow> (requested_execution \<Rightarrow> invocation)
   \<Rightarrow> invocation + admitted" where
  "finish req f = (case req of Inl e \<Rightarrow> Inl (Inl e) | Inr r \<Rightarrow> Inl (f r))"

definition admit_profile ::
  "delegation_request \<Rightarrow> runtime_authority \<Rightarrow> profile_registry \<Rightarrow> agent_profile
   \<Rightarrow> invocation + admitted" where
  "admit_profile request authority registry profile =
     (if denied_tool (dr_tool_policy request) (ap_tool_policy profile)
      then finish (requested_of request (Some profile) None None)
             (\<lambda>r. early request r F_DeniedTool)
      else if \<not> au_mutation_authorized authority \<and> mutation_requested (dr_tool_policy request)
      then finish (requested_of request (Some profile) None None)
             (\<lambda>r. early request r F_DeniedTool)
      else
        (let provider = case_option (ap_provider profile) id (dr_provider_override request);
             model = case_option (ap_model profile) id (dr_model_override request);
             reasoning = case_option (ap_reasoning profile) id (dr_reasoning_override request) in
         case requested_of request (Some profile) (Some provider) (Some model) of
           Inl e \<Rightarrow> Inl (Inl e)
         | Inr req \<Rightarrow>
             if provider_require (pr_providers registry) provider \<noteq> Inr ()
             then Inl (early request req F_UnknownProvider)
             else if require_for_provider (pr_models registry) provider model \<noteq> Inr ()
             then Inl (early request req F_UnknownModel)
             else Inr \<lparr>ad_profile = profile, ad_provider = provider, ad_model = model,
                       ad_reasoning = reasoning, ad_requested = req\<rparr>))"

definition admit ::
  "runtime_config \<Rightarrow> delegation_request \<Rightarrow> runtime_authority \<Rightarrow> profile_registry
   \<Rightarrow> invocation + admitted" where
  "admit cfg request authority registry =
     (case requested_of request None None None of
        Inl e \<Rightarrow> Inl (Inl e)
      | Inr provisional \<Rightarrow>
          if \<not> rt_enabled cfg then Inl (early request provisional F_AgentDisabled)
          else if au_explicit_offline authority then Inl (early request provisional F_ExplicitOffline)
          else if \<not> au_project_trusted authority
          then Inl (early request provisional F_ProjectUntrusted)
          else if dr_delegation_depth request > rt_max_delegation_depth cfg
          then Inl (early request provisional F_DepthExceeded)
          else (case profile_get registry (dr_profile request) of
             Inl _ \<Rightarrow> Inl (early request provisional F_UnknownProfile)
           | Inr profile \<Rightarrow> admit_profile request authority registry profile))"

definition build_provider_request ::
  "delegation_request \<Rightarrow> admitted \<Rightarrow> str \<Rightarrow> provider_request_error + provider_request" where
  "build_provider_request request ad prompt =
     res_bind (provider_request_new (ad_provider ad) (ad_model ad) (ad_reasoning ad)
                 (dr_tool_policy request) prompt (dr_max_output_bytes request)
                 (dr_delegation_depth request))
       (\<lambda>q0. let q = with_no_session q0 (dr_no_session request) in
          case (dr_hard_total_token_ceiling request, dr_max_output_tokens request) of
            (Some ceiling, Some output) \<Rightarrow> with_token_budget q ceiling output
          | (Some ceiling, None) \<Rightarrow> with_total_token_ceiling q ceiling
          | (None, None) \<Rightarrow> Inr q
          | (None, Some _) \<Rightarrow> Inl InvalidTokenBudget)"

text \<open>After the provider's answer was accepted: output stage, result, store, receipt.\<close>

definition invoke_output ::
  "('c, 's) runtime_ports \<Rightarrow> delegation_request \<Rightarrow> admitted \<Rightarrow> invocation_state
   \<Rightarrow> agent_sqz_output \<Rightarrow> provider_output \<Rightarrow> effective_execution \<Rightarrow> nat \<Rightarrow> 's
   \<Rightarrow> (invocation \<times> port_event list \<times> 's) option" where
  "invoke_output ports request ad lifecycle input out effective now s =
     (let fail = (\<lambda>failure o_receipt output_bytes.
            incomplete (ad_requested ad) effective failure (Some (aso_receipt input)) o_receipt
              (length (aso_payload input)) output_bytes (dr_no_session request));
          ev = [Sqz_Called Stage_Output (o_answer out) (dr_max_output_bytes request) []] in
      case sqz_evaluate ports Stage_Output (o_answer out) (dr_max_output_bytes request) of
        Inl e \<Rightarrow> Some (fail (sqz_failure (ase_code e) Stage_Output) (ase_receipt e) 0, ev, s)
      | Inr output \<Rightarrow>
          if \<not> accepted_stage (aso_receipt output) (aso_payload output)
          then Some (fail F_SqzOutputFailed (Some (aso_receipt output)) 0, ev, s)
          else if dr_grounding_contract request \<noteq> None \<and> aso_payload output \<noteq> o_answer out
          then Some (fail F_ClaimUnsupported (Some (aso_receipt output))
                       (length (aso_payload output)), ev, s)
          else (case inline_with_claims (aso_payload output) (o_citations out) (o_claims out) of
             None \<Rightarrow> Some (Inl ReceiptInvariant, ev, s)
           | Some inline \<Rightarrow>
               (case store_output ports s inline (o_artifacts out) now of
                  None \<Rightarrow> None
                | Some (None, sev, s') \<Rightarrow>
                    Some (fail F_ResultStoreFailed (Some (aso_receipt output))
                            (length (aso_payload output)), ev @ sev, s')
                | Some (Some stored, sev, s') \<Rightarrow>
                    Some (complete_receipt lifecycle (ad_requested ad) effective
                            (aso_receipt input) (aso_receipt output) inline stored
                            (o_actual_input_tokens out) (o_actual_output_tokens out)
                            (length (aso_payload input)) (length (aso_payload output))
                            (dr_no_session request) (dr_grounding_contract request \<noteq> None)
                            (attest (o_provider_run_id out)), ev @ sev, s'))))"

text \<open>The checks of the provider's answer, in their order: the failure and whether the
  receipt already shows the effective execution.\<close>

definition answer_failure ::
  "file_system \<Rightarrow> delegation_request \<Rightarrow> admitted \<Rightarrow> provider_output \<Rightarrow> effective_execution
   \<Rightarrow> (agent_failure \<times> bool) option" where
  "answer_failure fs request ad out effective =
     (if \<not> safe_provider_surfaces out then Some (F_DlpRejected, False)
      else if \<not> grounded_citations_accepted request (o_citations out)
      then Some (F_GroundingFailed, False)
      else if dr_grounding_contract request \<noteq> None
              \<and> \<not> grounding_execution_attested (ad_requested ad) effective
      then Some (F_InvalidOutput, True)
      else if \<not> grounded_claims_accepted fs request out then Some (F_ClaimUnsupported, True)
      else (case enforced_token_budget request out of
              Some f \<Rightarrow> Some (f, True) | None \<Rightarrow> None))"

definition lift_lifecycle ::
  "(agent_failure + unit) \<times> invocation_state \<Rightarrow> internal_error + invocation_state" where
  "lift_lifecycle x = (case x of (Inl _, _) \<Rightarrow> Inl ReceiptInvariant | (Inr _, st) \<Rightarrow> Inr st)"

definition invoke_provider ::
  "file_system \<Rightarrow> ('c, 's) runtime_ports \<Rightarrow> delegation_request \<Rightarrow> profile_registry \<Rightarrow> admitted
   \<Rightarrow> 'c \<Rightarrow> agent_sqz_output \<Rightarrow> provider_request \<Rightarrow> nat \<Rightarrow> 's
   \<Rightarrow> (invocation \<times> port_event list \<times> 's) option" where
  "invoke_provider fs ports request registry ad credential input preq now s =
     (let selected = unavailable_effective (dr_tool_policy request);
          fail = (\<lambda>eff failure.
            incomplete (ad_requested ad) eff failure (Some (aso_receipt input)) None
              (length (aso_payload input)) 0 (dr_no_session request)) in
      case res_bind (lift_lifecycle (advance Configured PacketReady))
             (\<lambda>st. lift_lifecycle (advance st Running)) of
        Inl e \<Rightarrow> Some (Inl e, [], s)
      | Inr running \<Rightarrow>
          (case provider_invoke ports preq credential of
             Inl e \<Rightarrow> Some (fail selected (provider_failure e), [Provider_Called preq], s)
           | Inr out \<Rightarrow>
               (case lift_lifecycle (advance running Validating) of
                  Inl e \<Rightarrow> Some (Inl e, [Provider_Called preq], s)
                | Inr validating \<Rightarrow>
                    (let effective = provider_effective (ad_profile ad) (ad_provider ad) out
                                       (dr_tool_policy request) registry in
                     case answer_failure fs request ad out effective of
                       Some (f, shown) \<Rightarrow>
                         Some (fail (if shown then effective else selected) f,
                               [Provider_Called preq], s)
                     | None \<Rightarrow>
                         map_option (\<lambda>(r, ev, s'). (r, Provider_Called preq # ev, s'))
                           (invoke_output ports request ad validating input out effective now s)))))"

definition grounding_anchors :: "delegation_request \<Rightarrow> preservation_anchor list" where
  "grounding_anchors request =
     (case dr_grounding_contract request of Some c \<Rightarrow> gc_anchors c | None \<Rightarrow> [])"

definition invoke_ports ::
  "file_system \<Rightarrow> ('c, 's) runtime_ports \<Rightarrow> delegation_request \<Rightarrow> profile_registry \<Rightarrow> admitted
   \<Rightarrow> nat \<Rightarrow> 's \<Rightarrow> (invocation \<times> port_event list \<times> 's) option" where
  "invoke_ports fs ports request registry ad now s =
     (let handle = ap_account_handle (ad_profile ad);
          fail = (\<lambda>failure receipt input_bytes.
            incomplete (ad_requested ad) (unavailable_effective (dr_tool_policy request)) failure
              receipt None input_bytes 0 (dr_no_session request));
          e1 = [Ports_Built, Auth_Called handle] in
      case auth_resolve ports handle of
        Inl _ \<Rightarrow> Some (fail F_MissingAuth None 0, e1, s)
      | Inr credential \<Rightarrow>
          (let anchors = grounding_anchors request;
               e2 = e1 @ [Sqz_Called Stage_Input (dr_prompt request) (dr_max_output_bytes request)
                            anchors] in
           case sqz_evaluate_with_anchors ports Stage_Input (dr_prompt request)
                  (dr_max_output_bytes request) anchors of
             Inl e \<Rightarrow> Some (fail (sqz_failure (ase_code e) Stage_Input) (ase_receipt e) 0, e2, s)
           | Inr input \<Rightarrow>
               if \<not> grounding_input_accepted request input
               then Some (fail F_GroundingFailed (Some (aso_receipt input))
                            (length (aso_payload input)), e2, s)
               else if \<not> accepted_stage (aso_receipt input) (aso_payload input)
               then Some (fail F_SqzInputFailed (Some (aso_receipt input)) 0, e2, s)
               else (case build_provider_request request ad (aso_payload input) of
                  Inl _ \<Rightarrow> Some (fail F_SqzInputFailed (Some (aso_receipt input))
                                   (length (aso_payload input)), e2, s)
                | Inr preq \<Rightarrow>
                    map_option (\<lambda>(r, ev, s'). (r, e2 @ ev, s'))
                      (invoke_provider fs ports request registry ad credential input preq now s))))"

definition invoke ::
  "runtime_config \<Rightarrow> file_system \<Rightarrow> ('c, 's) runtime_ports \<Rightarrow> delegation_request
   \<Rightarrow> runtime_authority \<Rightarrow> profile_registry \<Rightarrow> nat \<Rightarrow> 's
   \<Rightarrow> (invocation \<times> port_event list \<times> 's) option" where
  "invoke cfg fs ports request authority registry now s =
     (case admit cfg request authority registry of
        Inl result \<Rightarrow> Some (result, [], s)
      | Inr ad \<Rightarrow> invoke_ports fs ports request registry ad now s)"

end
