(* ===== verification/Coordinator_Safety.thy ===== *)
theory Coordinator_Safety
  imports Coordinator
begin

text \<open>
  What an invocation of the coordinator guarantees: the order of its effects, the gates
  before them, that a receipt is always built for validated input, and what a Complete
  receipt says about the stored result, the token budget and the grounded claims. The
  contract of the ports is the locale \<open>agent_ports\<close>, an extension of the result store's.
\<close>

section \<open>Incomplete receipts\<close>

lemma runtime_provenance [simp]:
  "is_valid_identity ''bran-agent-runtime''" "is_valid_identity ''bran-grounding-validated''"
  by code_simp+

definition incomplete_receipt ::
  "requested_execution \<Rightarrow> effective_execution \<Rightarrow> agent_failure \<Rightarrow> sqz_receipt option
   \<Rightarrow> sqz_receipt option \<Rightarrow> nat \<Rightarrow> nat \<Rightarrow> bool \<Rightarrow> delegation_receipt" where
  "incomplete_receipt req eff failure input output ib ob ns =
     \<lparr>dl_schema_version = ''bran-agent-receipt-v1'',
      dl_outcome = Outcome_Incomplete failure
        \<lparr>im_actual_input_tokens = None, im_actual_output_tokens = None, im_input_bytes = ib,
         im_output_bytes = ob, im_latency_ms = 0\<rparr>,
      dl_requested = req, dl_effective = eff, dl_sqz = \<lparr>st_input = input, st_output = output\<rparr>,
      dl_inline_result = None, dl_stored_ref = None, dl_no_session = ns,
      dl_provenance = [''bran-agent-runtime''], dl_provider_run_id = AttUnavailable\<rparr>"

lemma incomplete_eq:
  "incomplete req eff failure input output ib ob ns =
     (if latency_too_long input \<or> latency_too_long output then Inl ReceiptInvariant
      else Inr (incomplete_receipt req eff failure input output ib ob ns))"
  by (simp add: incomplete_def lc_incomplete_def outcome_new_def receipt_result_def
      receipt_new_def outcome_consistent_def incomplete_receipt_def)

definition failed_with :: "delegation_receipt \<Rightarrow> agent_failure \<Rightarrow> bool" where
  "failed_with r f \<longleftrightarrow> (\<exists>m. dl_outcome r = Outcome_Incomplete f m) \<and> dl_inline_result r = None
     \<and> dl_stored_ref r = None"

definition is_complete :: "delegation_receipt \<Rightarrow> bool" where
  "is_complete r \<longleftrightarrow> (\<exists>m. dl_outcome r = Outcome_Complete m)"

lemma incomplete_failed: "incomplete req eff f i out ib ob ns = Inr r \<Longrightarrow> failed_with r f \<and> \<not> is_complete r"
  by (auto simp: incomplete_eq incomplete_receipt_def failed_with_def is_complete_def split: if_splits)

lemma incomplete_no_sqz: "incomplete req eff f None None ib ob ns = Inr (incomplete_receipt req eff f None None ib ob ns)"
  by (simp add: incomplete_eq latency_too_long_def)

section \<open>The gates\<close>

lemma admit_Inr:
  assumes "admit cfg request authority registry = Inr ad"
  shows "rt_enabled cfg \<and> \<not> au_explicit_offline authority \<and> au_project_trusted authority
    \<and> dr_delegation_depth request \<le> rt_max_delegation_depth cfg
    \<and> profile_get registry (dr_profile request) = Inr (ad_profile ad)
    \<and> (\<forall>t \<in> set (tp_allow (dr_tool_policy request)).
         policy_allows (ap_tool_policy (ad_profile ad)) t)
    \<and> (au_mutation_authorized authority
       \<or> (\<forall>t \<in> {''write'', ''edit'', ''shell'', ''network''}. \<not> policy_allows (dr_tool_policy request) t))
    \<and> ad_provider ad = case_option (ap_provider (ad_profile ad)) id (dr_provider_override request)
    \<and> ad_model ad = case_option (ap_model (ad_profile ad)) id (dr_model_override request)
    \<and> ad_reasoning ad = case_option (ap_reasoning (ad_profile ad)) id (dr_reasoning_override request)
    \<and> provider_contains (pr_providers registry) (ad_provider ad)
    \<and> contains_for_provider (pr_models registry) (ad_provider ad) (ad_model ad)
    \<and> requested_of request (Some (ad_profile ad)) (Some (ad_provider ad)) (Some (ad_model ad))
        = Inr (ad_requested ad)"
proof -
  from assms obtain profile where p: "rt_enabled cfg" "\<not> au_explicit_offline authority"
    "au_project_trusted authority" "dr_delegation_depth request \<le> rt_max_delegation_depth cfg"
    "profile_get registry (dr_profile request) = Inr profile"
    "admit_profile request authority registry profile = Inr ad"
    by (auto simp: admit_def not_less split: sum.splits if_splits)
  then have "\<not> denied_tool (dr_tool_policy request) (ap_tool_policy profile)"
    "au_mutation_authorized authority \<or> \<not> mutation_requested (dr_tool_policy request)"
    by (auto simp: admit_profile_def finish_def split: sum.splits if_splits)
  then show ?thesis
    using p unfolding admit_profile_def Let_def
    by (auto simp: denied_tool_def mutation_requested_def list_ex_iff provider_require_def
        require_for_provider_def cong: option.case_cong split: sum.splits if_splits)
qed

lemma admit_Inl:
  assumes "admit cfg request authority registry = Inl (Inr r)"
  shows "\<exists>f. failed_with r f \<and> \<not> is_complete r"
  using assms unfolding admit_def admit_profile_def Let_def finish_def early_def
  by (auto split: sum.splits if_splits dest: incomplete_failed)

section \<open>The order of effects\<close>

fun event_rank :: "port_event \<Rightarrow> nat" where
  "event_rank Ports_Built = 0"
| "event_rank (Auth_Called _) = 1"
| "event_rank (Sqz_Called Stage_Input _ _ _) = 2"
| "event_rank (Provider_Called _) = 3"
| "event_rank (Sqz_Called Stage_Output _ _ _) = 4"
| "event_rank (Store_Called _) = 5"

lemma store_output_trace:
  "store_output ports s inline arts now = Some (r, ev, s')
   \<Longrightarrow> (ev = [] \<and> s' = s) \<or> (\<exists>b. ev = [Store_Called b])"
  by (auto simp: store_output_def Let_def split: option.splits sum.splits prod.splits if_splits)

lemma invoke_output_trace:
  "invoke_output ports request ad lifecycle input out eff now s = Some (r, ev, s')
   \<Longrightarrow> (map event_rank ev = [4] \<and> s' = s) \<or> map event_rank ev = [4, 5]"
  unfolding invoke_output_def Let_def
  by (auto split: sum.splits if_splits option.splits prod.splits dest!: store_output_trace)

lemma advances:
  "lift_lifecycle (advance Configured PacketReady) = Inr PacketReady"
  "lift_lifecycle (advance PacketReady Running) = Inr Running"
  "lift_lifecycle (advance Running Validating) = Inr Validating"
  by (simp_all add: lift_lifecycle_def advance_def)

lemma invoke_provider_trace:
  assumes "invoke_provider fs ports request registry ad credential input preq now s = Some (r, ev, s')"
  shows "\<exists>rest. ev = Provider_Called preq # rest
    \<and> ((rest = [] \<and> s' = s) \<or> (map event_rank rest = [4] \<and> s' = s) \<or> map event_rank rest = [4, 5])"
  using assms unfolding invoke_provider_def Let_def
  by (auto simp: advances res_simps split: sum.splits option.splits if_splits prod.splits
      dest!: invoke_output_trace)

lemma invoke_ports_trace:
  assumes "invoke_ports fs ports request registry ad now s = Some (r, ev, s')"
  shows "\<exists>rest. ev = Ports_Built # Auth_Called (ap_account_handle (ad_profile ad)) # rest
    \<and> prefix (map event_rank rest) [2, 3, 4, 5] \<and> (length rest < 4 \<longrightarrow> s' = s)"
  using assms unfolding invoke_ports_def Let_def
  by (auto split: sum.splits if_splits dest!: invoke_provider_trace)

section \<open>What the provider is asked\<close>

lemma build_provider_request_Inr:
  assumes "build_provider_request request ad prompt = Inr q"
  shows "q_provider q = ad_provider ad \<and> q_model q = ad_model ad \<and> q_requested q = ad_reasoning ad
    \<and> q_tool_policy q = dr_tool_policy request \<and> q_prompt q = prompt
    \<and> q_max_output_bytes q = dr_max_output_bytes request
    \<and> q_no_session q = dr_no_session request
    \<and> q_hard_total_token_ceiling q = dr_hard_total_token_ceiling request
    \<and> q_max_output_tokens q = dr_max_output_tokens request
    \<and> q_delegation_depth q = dr_delegation_depth request
    \<and> is_valid_name (ad_provider ad) \<and> is_valid_name (ad_model ad)"
proof -
  from assms obtain q0 where
    q0: "provider_request_new (ad_provider ad) (ad_model ad) (ad_reasoning ad)
      (dr_tool_policy request) prompt (dr_max_output_bytes request) (dr_delegation_depth request) = Inr q0"
    and q: "(case (dr_hard_total_token_ceiling request, dr_max_output_tokens request) of
            (Some ceiling, Some output) \<Rightarrow>
              with_token_budget (with_no_session q0 (dr_no_session request)) ceiling output
          | (Some ceiling, None) \<Rightarrow>
              with_total_token_ceiling (with_no_session q0 (dr_no_session request)) ceiling
          | (None, None) \<Rightarrow> Inr (with_no_session q0 (dr_no_session request))
          | (None, Some _) \<Rightarrow> Inl InvalidTokenBudget) = Inr q"
    by (auto simp: build_provider_request_def res_simps Let_def)
  from q0 have "q0 = \<lparr>q_provider = ad_provider ad, q_model = ad_model ad,
      q_requested = ad_reasoning ad, q_tool_policy = dr_tool_policy request, q_prompt = prompt,
      q_max_output_bytes = dr_max_output_bytes request, q_no_session = False,
      q_hard_total_token_ceiling = None, q_max_output_tokens = None,
      q_delegation_depth = dr_delegation_depth request\<rparr>
      \<and> is_valid_name (ad_provider ad) \<and> is_valid_name (ad_model ad)"
    by (simp add: provider_request_new_def split: if_splits)
  with q show ?thesis
    by (auto simp: with_no_session_def with_token_budget_def with_total_token_ceiling_def
        split: option.splits if_splits)
qed

lemma invoke_ports_provider:
  assumes "invoke_ports fs ports request registry ad now s = Some (r, ev, s')"
    "Provider_Called q \<in> set ev"
  shows "\<exists>input. sqz_evaluate_with_anchors ports Stage_Input (dr_prompt request)
            (dr_max_output_bytes request) (grounding_anchors request) = Inr input
      \<and> grounding_input_accepted request input
      \<and> accepted_stage (aso_receipt input) (aso_payload input)
      \<and> build_provider_request request ad (aso_payload input) = Inr q"
proof -
  have rest: "Provider_Called q \<notin> set rest" if "map event_rank rest \<in> {[], [4], [4, 5]}" for rest
    using that by auto
  show ?thesis
    using assms unfolding invoke_ports_def Let_def
    by (auto split: sum.splits if_splits dest!: invoke_provider_trace dest: rest)
qed

section \<open>Complete receipts\<close>

lemma complete_receipt_Inr:
  assumes "complete_receipt lc req eff input output inline stored it ot ib ob ns grounded run_id = Inr r"
  shows "lc = Validating
    \<and> dl_outcome r = Outcome_Complete \<lparr>im_actual_input_tokens = it, im_actual_output_tokens = ot,
         im_input_bytes = ib, im_output_bytes = ob, im_latency_ms = 0\<rparr>
    \<and> dl_requested r = req \<and> dl_effective r = eff \<and> dl_inline_result r = Some inline
    \<and> dl_stored_ref r = Some stored \<and> dl_sqz r = \<lparr>st_input = Some input, st_output = Some output\<rparr>
    \<and> dl_provider_run_id r = run_id
    \<and> dl_provenance r = ''bran-agent-runtime'' # (if grounded then [''bran-grounding-validated''] else [])"
proof -
  define parts where "parts =
     \<lparr>rp_outcome = Outcome_Complete \<lparr>im_actual_input_tokens = it, im_actual_output_tokens = ot,
         im_input_bytes = ib, im_output_bytes = ob, im_latency_ms = 0\<rparr>,
      rp_requested = req, rp_effective = eff, rp_sqz = \<lparr>st_input = Some input, st_output = Some output\<rparr>,
      rp_inline_result = Some inline, rp_stored_ref = Some stored, rp_no_session = ns,
      rp_provenance = ''bran-agent-runtime'' # (if grounded then [''bran-grounding-validated''] else [])\<rparr>"
  from assms have v: "lc = Validating"
    by (auto simp: complete_receipt_def lc_complete_def split: if_splits)
  with assms obtain r0 where r0: "receipt_new parts = Some r0" "with_provider_run_id r0 run_id = Some r"
    by (auto simp: complete_receipt_def lc_complete_def outcome_new_def receipt_result_def res_simps
        parts_def)
  then have "r = r0\<lparr>dl_provider_run_id := run_id\<rparr>"
    by (simp add: with_provider_run_id_def split: if_splits)
  moreover have "r0 = \<lparr>dl_schema_version = ''bran-agent-receipt-v1'', dl_outcome = rp_outcome parts,
                 dl_requested = rp_requested parts, dl_effective = rp_effective parts,
                 dl_sqz = rp_sqz parts, dl_inline_result = rp_inline_result parts,
                 dl_stored_ref = rp_stored_ref parts, dl_no_session = rp_no_session parts,
                 dl_provenance = rp_provenance parts, dl_provider_run_id = AttUnavailable\<rparr>"
    using r0(1) by (simp add: receipt_new_def split: if_splits)
  ultimately show ?thesis using v by (simp add: parts_def)
qed

lemma complete_not_failed: "is_complete r \<Longrightarrow> incomplete req eff f i out ib ob ns \<noteq> Inr r"
  using incomplete_failed by blast

text \<open>Everything that holds when an invocation ends with a Complete receipt.\<close>

record completion =
  cp_admitted :: admitted
  cp_input :: agent_sqz_output
  cp_answer :: provider_output
  cp_output :: agent_sqz_output
  cp_inline :: inline_result
  cp_stored :: stored_result_ref

definition completion_ok ::
  "file_system \<Rightarrow> ('c, 's) runtime_ports \<Rightarrow> delegation_request \<Rightarrow> profile_registry \<Rightarrow> nat \<Rightarrow> 's \<Rightarrow> 's
   \<Rightarrow> delegation_receipt \<Rightarrow> completion \<Rightarrow> bool" where
  "completion_ok fs ports request registry now s s' r c \<longleftrightarrow>
     (let ad = cp_admitted c; out = cp_answer c; output = cp_output c;
          eff = provider_effective (ad_profile ad) (ad_provider ad) out (dr_tool_policy request) registry in
      (\<exists>q cred. build_provider_request request ad (aso_payload (cp_input c)) = Inr q
          \<and> provider_invoke ports q cred = Inr out)
      \<and> accepted_stage (aso_receipt (cp_input c)) (aso_payload (cp_input c))
      \<and> answer_failure fs request ad out eff = None
      \<and> sqz_evaluate ports Stage_Output (o_answer out) (dr_max_output_bytes request) = Inr output
      \<and> accepted_stage (aso_receipt output) (aso_payload output)
      \<and> (dr_grounding_contract request \<noteq> None \<longrightarrow> aso_payload output = o_answer out)
      \<and> inline_with_claims (aso_payload output) (o_citations out) (o_claims out) = Some (cp_inline c)
      \<and> (\<exists>sev. store_output ports s (cp_inline c) (o_artifacts out) now = Some (Some (cp_stored c), sev, s'))
      \<and> complete_receipt Validating (ad_requested ad) eff (aso_receipt (cp_input c)) (aso_receipt output)
          (cp_inline c) (cp_stored c) (o_actual_input_tokens out) (o_actual_output_tokens out)
          (length (aso_payload (cp_input c))) (length (aso_payload output)) (dr_no_session request)
          (dr_grounding_contract request \<noteq> None) (attest (o_provider_run_id out)) = Inr r)"

lemma invoke_output_complete:
  assumes "invoke_output ports request ad lc input out eff now s = Some (Inr r, ev, s')" "is_complete r"
  shows "\<exists>output inline stored sev.
      sqz_evaluate ports Stage_Output (o_answer out) (dr_max_output_bytes request) = Inr output
      \<and> accepted_stage (aso_receipt output) (aso_payload output)
      \<and> (dr_grounding_contract request \<noteq> None \<longrightarrow> aso_payload output = o_answer out)
      \<and> inline_with_claims (aso_payload output) (o_citations out) (o_claims out) = Some inline
      \<and> store_output ports s inline (o_artifacts out) now = Some (Some stored, sev, s')
      \<and> complete_receipt lc (ad_requested ad) eff (aso_receipt input) (aso_receipt output) inline stored
          (o_actual_input_tokens out) (o_actual_output_tokens out) (length (aso_payload input))
          (length (aso_payload output)) (dr_no_session request) (dr_grounding_contract request \<noteq> None)
          (attest (o_provider_run_id out)) = Inr r"
  using assms unfolding invoke_output_def Let_def
  by (auto simp: complete_not_failed split: sum.splits if_splits option.splits prod.splits)

lemma invoke_complete:
  assumes "invoke cfg fs ports request authority registry now s = Some (Inr r, ev, s')" "is_complete r"
  shows "\<exists>c. admit cfg request authority registry = Inr (cp_admitted c)
    \<and> completion_ok fs ports request registry now s s' r c"
proof -
  from assms obtain ad where ad: "admit cfg request authority registry = Inr ad"
    "invoke_ports fs ports request registry ad now s = Some (Inr r, ev, s')"
    unfolding invoke_def by (auto split: sum.splits dest: admit_Inl)
  then obtain cred input q ev1 where
    i: "accepted_stage (aso_receipt input) (aso_payload input)"
      "build_provider_request request ad (aso_payload input) = Inr q"
      "invoke_provider fs ports request registry ad cred input q now s = Some (Inr r, ev1, s')"
    using assms(2) unfolding invoke_ports_def Let_def
    by (auto simp: complete_not_failed split: sum.splits if_splits)
  then obtain out ev2 where
    o: "provider_invoke ports q cred = Inr out"
      "answer_failure fs request ad out (provider_effective (ad_profile ad) (ad_provider ad) out
         (dr_tool_policy request) registry) = None"
      "invoke_output ports request ad Validating input out (provider_effective (ad_profile ad)
         (ad_provider ad) out (dr_tool_policy request) registry) now s = Some (Inr r, ev2, s')"
    using assms(2) unfolding invoke_provider_def Let_def
    by (auto simp: complete_not_failed advances res_simps split: sum.splits option.splits)
  from invoke_output_complete [OF o(3) assms(2)] obtain produced inline stored sev where
    f: "sqz_evaluate ports Stage_Output (o_answer out) (dr_max_output_bytes request) = Inr produced"
      "accepted_stage (aso_receipt produced) (aso_payload produced)"
      "dr_grounding_contract request \<noteq> None \<longrightarrow> aso_payload produced = o_answer out"
      "inline_with_claims (aso_payload produced) (o_citations out) (o_claims out) = Some inline"
      "store_output ports s inline (o_artifacts out) now = Some (Some stored, sev, s')"
      "complete_receipt Validating (ad_requested ad) (provider_effective (ad_profile ad)
         (ad_provider ad) out (dr_tool_policy request) registry) (aso_receipt input)
          (aso_receipt produced) inline stored
          (o_actual_input_tokens out) (o_actual_output_tokens out) (length (aso_payload input))
          (length (aso_payload produced)) (dr_no_session request) (dr_grounding_contract request \<noteq> None)
          (attest (o_provider_run_id out)) = Inr r"
    by blast
  show ?thesis
    by (rule exI [of _ "\<lparr>cp_admitted = ad, cp_input = input, cp_answer = out, cp_output = produced,
          cp_inline = inline, cp_stored = stored\<rparr>"])
      (use ad i o f in \<open>simp add: completion_ok_def Let_def; blast\<close>)
qed

section \<open>The result store as the coordinator uses it\<close>

lemma zip_map_self: "zip (map f ps) ps = map (\<lambda>p. (f p, p)) ps"
  by (induction ps) auto

definition wired ::
  "('c, 's) runtime_ports
   \<Rightarrow> ('s \<Rightarrow> bytes list \<Rightarrow> nat \<Rightarrow> ((result_store_error + result_id list) \<times> 's) option)
   \<Rightarrow> ('s \<Rightarrow> result_id \<Rightarrow> nat \<Rightarrow> ((result_store_error + bytes) \<times> 's) option) \<Rightarrow> bool" where
  "wired ports batch fetch \<longleftrightarrow> store_batch ports = batch \<and> store_fetch ports = fetch"

context result_store_port
begin

lemma fetch_back_spec:
  assumes "wired ports batch fetch" "ok s"
  shows "\<exists>b s'. fetch_back ports s now ps = Some (b, s') \<and> ok s' \<and> view s' now = view s now
    \<and> (b \<longrightarrow> (\<forall>(i, payload) \<in> set ps. view s now i = Some payload))"
  using assms(2)
proof (induction ps arbitrary: s)
  case (Cons x ps)
  obtain i payload where x: "x = (i, payload)" by (cases x)
  from fetch_view [OF Cons.prems, of i now] obtain s1 where
    f: "fetch s i now = Some (ok_or NotFound (view s now i), s1)" "ok s1" "view s1 now = view s now"
    by blast
  show ?case
  proof (cases "ok_or NotFound (view s now i) = Inr payload")
    case True
    with Cons.IH [OF f(2)] f assms(1) show ?thesis
      by (auto simp: x wired_def ok_or_Inr)
  next
    case False
    with f assms(1) show ?thesis by (auto simp: x wired_def)
  qed
qed auto

lemma store_output_returns:
  assumes "wired ports batch fetch" "ok s"
  shows "\<exists>r ev s'. store_output ports s inline arts now = Some (r, ev, s') \<and> ok s'"
proof -
  let ?b = "encode_canonical inline # map la_bytes arts"
  obtain r s1 where b: "batch s ?b now = Some (r, s1)" "ok s1"
    using batch_returns [OF assms(2), of ?b now] by blast
  show ?thesis
  proof (cases r)
    case (Inl e)
    with b assms show ?thesis
      by (auto simp: store_output_def wired_def Let_def split: option.split)
  next
    case (Inr ids)
    obtain k s2 where "fetch_back ports s1 now (zip ids ?b) = Some (k, s2)" "ok s2"
      using fetch_back_spec [OF assms(1) b(2)] by blast
    with b Inr assms show ?thesis
      by (auto simp: store_output_def wired_def Let_def split: option.split)
  qed
qed

lemma store_output_stored:
  assumes "wired ports batch fetch" "ok s"
    "store_output ports s inline arts now = Some (Some stored, ev, s')"
  shows "ok s' \<and> sr_result_id stored = id_sha256 (encode_canonical inline)
    \<and> view s' now (sr_result_id stored) = Some (encode_canonical inline)
    \<and> sr_artifact_ids stored = map la_id arts
    \<and> (\<forall>a \<in> set arts. view s' now (la_id a) = Some (la_bytes a))"
proof -
  let ?b = "encode_canonical inline # map la_bytes arts"
  from assms(1,3) obtain ids s1 where
    b: "batch s ?b now = Some (Inr ids, s1)" "length ids = length ?b"
      "hd ids = id_sha256 (encode_canonical inline)"
      "fetch_back ports s1 now (zip ids ?b) = Some (True, s')"
      "tl ids = map la_id arts" "stored_ref_new (hd ids) (tl ids) = Some stored"
    by (auto simp: store_output_def wired_def Let_def
        split: option.splits sum.splits prod.splits if_splits)
  have ok1: "ok s1" using batch_returns [OF assms(2), of ?b now] b(1) by auto
  from fetch_back_spec [OF assms(1) ok1, of now "zip ids ?b"] b(4) have
    f: "ok s'" "view s' now = view s1 now" "\<forall>(i, payload) \<in> set (zip ids ?b). view s1 now i = Some payload"
    by auto
  have st: "sr_result_id stored = hd ids" "sr_artifact_ids stored = tl ids"
    using b(6) by (auto simp: stored_ref_new_def split: if_splits)
  obtain i js where ids: "ids = i # js" using b(2) by (cases ids) auto
  have "view s1 now i = Some (encode_canonical inline)" using f(3) ids by auto
  moreover have "view s1 now (la_id a) = Some (la_bytes a)" if "a \<in> set arts" for a
  proof -
    have "js = map la_id arts" using b(5) ids by simp
    then have "zip js (map la_bytes arts) = map (\<lambda>a. (la_id a, la_bytes a)) arts"
      by (simp add: zip_map_map zip_same_conv_map)
    then have "(la_id a, la_bytes a) \<in> set (zip ids ?b)" using that ids by auto
    with f(3) show ?thesis by auto
  qed
  ultimately show ?thesis using b f st ids by auto
qed

end

section \<open>The contract of the ports\<close>

definition sqz_output_ok :: "agent_sqz_output \<Rightarrow> bool" where
  "sqz_output_ok out \<longleftrightarrow> trim (aso_payload out) \<noteq> [] \<and> length (aso_payload out) \<le> 1048576
     \<and> rc_latency (aso_receipt out) \<le> u64_max"

locale agent_ports =
  result_store_port "store_batch ports" "store_fetch ports" view ok
  for ports :: "('c, 's) runtime_ports" and view :: "'s \<Rightarrow> nat \<Rightarrow> result_id \<Rightarrow> bytes option"
    and ok :: "'s \<Rightarrow> bool" +
  assumes provider_contract: "provider_invoke ports q cred = Inr out \<Longrightarrow> output_ok out"
    and sqz_contract:
      "sqz_evaluate_with_anchors ports stage p n anchors = Inr o1 \<Longrightarrow> sqz_output_ok o1"
      "sqz_evaluate ports stage p n = Inr o1 \<Longrightarrow> sqz_output_ok o1"
    and sqz_error_contract:
      "sqz_evaluate_with_anchors ports stage p n anchors = Inl e1 \<Longrightarrow> \<not> latency_too_long (ase_receipt e1)"
      "sqz_evaluate ports stage p n = Inl e1 \<Longrightarrow> \<not> latency_too_long (ase_receipt e1)"

lemma content_id_hex:
  "sid_algorithm (content_id p) = ''sha256'' \<and> length (sid_value (content_id p)) = 64
   \<and> list_all lower_hex (sid_value (content_id p))"
  using id_sha256_ok [of p] by (simp add: content_id_def Let_def id_ok_def algorithm_as_str_def)

lemma accepted_stage_sqz: "accepted_stage r p \<Longrightarrow> accepted_sqz r"
  using content_id_hex [of p] by (auto simp: accepted_stage_def accepted_sqz_def split: if_splits)

lemma accepted_stage_output_id:
  "accepted_stage r p \<Longrightarrow> ir_answer inline = p \<Longrightarrow> output_id_matches r inline"
  by (auto simp: accepted_stage_def output_id_matches_def split: if_splits)

lemma bad_name_identity: "bad_attested (attest x) \<longleftrightarrow> bad_name x"
  by (cases x) (simp_all add: attest_def bad_attested_def bad_name_def is_valid_name_def
      is_valid_identity_def)

lemma complete_receipt_returns:
  assumes "accepted_stage input p" "accepted_stage output (ir_answer inline)"
    "rc_latency input \<le> u64_max" "rc_latency output \<le> u64_max"
    "sr_result_id stored = id_sha256 (encode_canonical inline)" "\<not> bad_name run_id"
  shows "\<exists>r. complete_receipt Validating req eff input output inline stored it ot ib ob ns grounded
    (attest run_id) = Inr r"
proof -
  have "accepted_sqz input" "accepted_sqz output" "output_id_matches output inline"
    using assms accepted_stage_sqz accepted_stage_output_id by blast+
  with assms show ?thesis
    by (auto simp: complete_receipt_def lc_complete_def outcome_new_def receipt_result_def
        receipt_new_def outcome_consistent_def latency_too_long_def with_provider_run_id_def
        bad_name_identity res_simps)
qed

context agent_ports
begin

lemma own_store: "wired ports (store_batch ports) (store_fetch ports)"
  by (simp add: wired_def)

lemma invoke_output_returns:
  assumes "ok s" "output_ok out" "accepted_stage (aso_receipt input) p"
    "rc_latency (aso_receipt input) \<le> u64_max"
  shows "\<exists>r ev s'. invoke_output ports request ad Validating input out eff now s = Some (Inr r, ev, s') \<and> ok s'"
proof (cases "sqz_evaluate ports Stage_Output (o_answer out) (dr_max_output_bytes request)")
  case (Inl e)
  with sqz_error_contract(2) [OF Inl] assms show ?thesis
    by (auto simp: invoke_output_def incomplete_eq latency_too_long_def)
next
  case (Inr out2)
  note c = sqz_contract(2) [OF Inr, unfolded sqz_output_ok_def]
  have inl: "inline_with_claims (aso_payload out2) (o_citations out) (o_claims out)
      = Some \<lparr>ir_answer = aso_payload out2, ir_citations = o_citations out, ir_claims = o_claims out\<rparr>"
    using c assms(2) by (simp add: inline_with_claims_iff output_ok_def)
  let ?inline = "\<lparr>ir_answer = aso_payload out2, ir_citations = o_citations out, ir_claims = o_claims out\<rparr>"
  from store_output_returns [OF own_store assms(1), of ?inline "o_artifacts out" now] obtain x sev s' where
    st: "store_output ports s ?inline (o_artifacts out) now = Some (x, sev, s')" "ok s'" by blast
  have fail: "incomplete req eff f (Some (aso_receipt input)) (Some (aso_receipt out2)) ib ob ns
      = Inr (incomplete_receipt req eff f (Some (aso_receipt input)) (Some (aso_receipt out2)) ib ob ns)"
    for req f ib ob ns
    using assms(4) c by (simp add: incomplete_eq latency_too_long_def)
  show ?thesis
  proof (cases "accepted_stage (aso_receipt out2) (aso_payload out2) \<and> x \<noteq> None
      \<and> \<not> (dr_grounding_contract request \<noteq> None \<and> aso_payload out2 \<noteq> o_answer out)")
    case True
    then obtain stored where x: "x = Some stored" by blast
    have id: "sr_result_id stored = id_sha256 (encode_canonical ?inline)"
      using store_output_stored [OF own_store assms(1) st(1) [unfolded x]] by blast
    have "\<exists>r. complete_receipt Validating (ad_requested ad) eff (aso_receipt input) (aso_receipt out2)
        ?inline stored (o_actual_input_tokens out) (o_actual_output_tokens out)
        (length (aso_payload input)) (length (aso_payload out2)) (dr_no_session request)
        (dr_grounding_contract request \<noteq> None) (attest (o_provider_run_id out)) = Inr r"
      by (rule complete_receipt_returns [OF assms(3) _ assms(4) _ id])
        (use True c assms(2) in \<open>simp_all add: output_ok_def\<close>)
    with True x st inl Inr show ?thesis
      by (auto simp: invoke_output_def Let_def)
  next
    case False
    with st inl Inr fail assms(1) show ?thesis
      by (auto simp: invoke_output_def Let_def)
  qed
qed

lemma answer_returns:
  assumes "ok s" "accepted_stage (aso_receipt input) p" "rc_latency (aso_receipt input) \<le> u64_max"
  shows "\<exists>r ev s'. invoke_provider fs ports request registry ad cred input q now s
      = Some (Inr r, ev, s') \<and> ok s'"
proof (cases "provider_invoke ports q cred")
  case (Inl e)
  with assms show ?thesis
    by (auto simp: invoke_provider_def advances res_simps incomplete_eq latency_too_long_def)
next
  case (Inr out)
  define eff where "eff = provider_effective (ad_profile ad) (ad_provider ad) out
      (dr_tool_policy request) registry"
  from invoke_output_returns [OF assms(1) provider_contract [OF Inr] assms(2,3), of request ad eff now]
  obtain r ev s' where
    "invoke_output ports request ad Validating input out eff now s = Some (Inr r, ev, s')" "ok s'"
    by blast
  with Inr assms show ?thesis
    by (cases "answer_failure fs request ad out eff")
      (auto simp: invoke_provider_def advances res_simps incomplete_eq latency_too_long_def
        eff_def [symmetric])
qed

lemma invoke_ports_returns:
  assumes "ok s"
  shows "\<exists>r ev s'. invoke_ports fs ports request registry ad now s = Some (Inr r, ev, s') \<and> ok s'"
proof (cases "auth_resolve ports (ap_account_handle (ad_profile ad))")
  case (Inl e)
  with assms show ?thesis by (simp add: invoke_ports_def incomplete_no_sqz)
next
  case auth: (Inr cred)
  show ?thesis
  proof (cases "sqz_evaluate_with_anchors ports Stage_Input (dr_prompt request)
      (dr_max_output_bytes request) (grounding_anchors request)")
    case (Inl e)
    with auth assms sqz_error_contract(1) [OF Inl] show ?thesis
      by (simp add: invoke_ports_def incomplete_eq latency_too_long_def)
  next
    case (Inr input)
    have l: "rc_latency (aso_receipt input) \<le> u64_max"
      using sqz_contract(1) [OF Inr] by (simp add: sqz_output_ok_def)
    have fail: "incomplete req eff f (Some (aso_receipt input)) None ib ob ns
        = Inr (incomplete_receipt req eff f (Some (aso_receipt input)) None ib ob ns)"
      for req eff f ib ob ns
      using l by (simp add: incomplete_eq latency_too_long_def)
    show ?thesis
    proof (cases "accepted_stage (aso_receipt input) (aso_payload input)")
      case True
      note a = answer_returns [OF assms True l, of fs request registry ad cred _ now]
      show ?thesis
      proof (cases "build_provider_request request ad (aso_payload input)")
        case (Inl e)
        with auth Inr fail assms True \<open>sqz_evaluate_with_anchors _ _ _ _ _ = _\<close> show ?thesis
          by (simp add: invoke_ports_def Let_def)
      next
        case q: (Inr q)
        from a [of q] obtain r ev s' where
          "invoke_provider fs ports request registry ad cred input q now s = Some (Inr r, ev, s')" "ok s'"
          by blast
        with q auth Inr fail assms True show ?thesis
          by (simp add: invoke_ports_def Let_def)
      qed
    next
      case False
      with auth Inr fail assms show ?thesis by (simp add: invoke_ports_def Let_def)
    qed
  qed
qed

end

end
