(* ===== verification/Synthetic.thy ===== *)
theory Synthetic
  imports Coordinator_Safety
begin

text \<open>
  The wiring of the coordinator with the program's own adapters, and the deterministic
  in-memory ports of \<open>agent/synthetic.rs\<close>. An \<open>expect\<close> that fails is \<open>None\<close>; the lemmas show
  that none does. The file system is needed only for grounded requests.
\<close>

section \<open>Wiring with the program's adapters\<close>

definition agent_ports_of ::
  "(str \<Rightarrow> auth_error + 'c) \<Rightarrow> (provider_request \<Rightarrow> 'c \<Rightarrow> provider_error + provider_output)
   \<Rightarrow> sqz_port \<Rightarrow> sqz_policy \<Rightarrow> nat \<Rightarrow> ('c, mem_store) runtime_ports" where
  "agent_ports_of auth provider port policy configured_max =
     \<lparr>auth_resolve = auth, provider_invoke = provider,
      sqz_evaluate = agent_evaluate port policy configured_max,
      sqz_evaluate_with_anchors = agent_evaluate_with_anchors port policy configured_max,
      store_limits = s_limits, store_batch = put_batch, store_fetch = get\<rparr>"

section \<open>Fixture ports\<close>

definition fixture_auth :: "str \<Rightarrow> auth_error + unit" where
  "fixture_auth handle = Inr ()"

text \<open>The two constructors of the fixture provider's answer; \<open>None\<close> is a failed \<open>expect\<close>.\<close>

definition fixture_output :: "bool \<Rightarrow> str \<Rightarrow> provider_request \<Rightarrow> provider_output option" where
  "fixture_output attested profile q =
     (let tokens = \<lparr>tu_input = Some 6, tu_output = Some 4\<rparr> in
      if attested then
        Option.bind (evidence_new (Some profile) (Some (q_provider q)) (Some (q_model q))
                       (Some (reasoning_as_str (q_requested q))))
          (\<lambda>e. with_effective_execution ''synthetic connected answer'' [''synthetic-citation'']
                 (Some ''synthetic-run'') e tokens [])
      else output_new ''synthetic connected answer'' [''synthetic-citation'']
             (Some ''synthetic-run'') None None tokens [])"

definition fixture_provider ::
  "bool \<Rightarrow> str \<Rightarrow> provider_request \<Rightarrow> unit \<Rightarrow> (provider_error + provider_output) option" where
  "fixture_provider attested profile q credential =
     map_option
       (\<lambda>out. case q_hard_total_token_ceiling q of
           Some ceiling \<Rightarrow> ok_or Provider_InvalidOutput (with_token_budget_attestation out ceiling)
         | None \<Rightarrow> Inr out)
       (fixture_output attested profile q)"

definition fixture_sqz_receipt :: "str \<Rightarrow> sqz_receipt" where
  "fixture_sqz_receipt payload =
     \<lparr>rc_schema_version = ''1.0.0'', rc_configured_identity = approved_identity,
      rc_returned_identity = Some approved_identity, rc_policy = PublicOn, rc_status = Applied,
      rc_failure_reason = None, rc_latency = 0, rc_raw_bytes = length payload,
      rc_candidate_bytes = None, rc_returned_bytes = length payload,
      rc_raw_tokens = div_ceil (length payload) 4, rc_candidate_tokens = None,
      rc_returned_tokens = div_ceil (length payload) 4, rc_actual_input_tokens = None,
      rc_actual_output_tokens = None, rc_fidelity_status = Fid_Passed,
      rc_required_anchor_ids = [], rc_missing_anchor_ids = [], rc_dlp_status = Dlp_Passed,
      rc_dlp_findings = [], rc_requested_max = 65536, rc_effective_max = 65536,
      rc_sqz_id = Some (content_id payload)\<rparr>"

definition fixture_sqz :: "sqz_stage \<Rightarrow> str \<Rightarrow> nat \<Rightarrow> agent_sqz_error + agent_sqz_output" where
  "fixture_sqz stage payload max_output = agent_sqz_output_new payload (fixture_sqz_receipt payload)"

text \<open>The bundle of ports. A provider whose \<open>expect\<close> failed has no answer at all; the
  lemma \<open>fixture_provider_answers\<close> shows that this never happens.\<close>

definition fixture_ports :: "bool \<Rightarrow> str \<Rightarrow> (unit, mem_store) runtime_ports" where
  "fixture_ports attested profile =
     \<lparr>auth_resolve = fixture_auth,
      provider_invoke = (\<lambda>q c. case_option (Inl Provider_Failed) id (fixture_provider attested profile q c)),
      sqz_evaluate = fixture_sqz,
      sqz_evaluate_with_anchors = default_evaluate_with_anchors fixture_sqz,
      store_limits = s_limits, store_batch = put_batch, store_fetch = get\<rparr>"

definition connected_run ::
  "file_system \<Rightarrow> delegation_request \<Rightarrow> bool
   \<Rightarrow> (invocation \<times> port_event list \<times> mem_store) option" where
  "connected_run fs request attested =
     Option.bind (config_new True 1) (\<lambda>cfg.
     Option.bind (expect_ok (store_new 8 65536 65536 8)) (\<lambda>results.
     Option.bind builtin_profiles (\<lambda>profiles.
       invoke cfg fs (fixture_ports attested (dr_profile request)) request
         \<lparr>au_explicit_offline = False, au_project_trusted = True, au_mutation_authorized = False\<rparr>
         profiles 0 results)))"

definition connected_receipt_for ::
  "file_system \<Rightarrow> delegation_request \<Rightarrow> bool \<Rightarrow> delegation_receipt option" where
  "connected_receipt_for fs request attested =
     Option.bind (connected_run fs request attested) (\<lambda>(r, _). expect_ok r)"

definition headless_run ::
  "file_system \<Rightarrow> delegation_request \<Rightarrow> bool
   \<Rightarrow> (invocation \<times> port_event list \<times> mem_store) option" where
  "headless_run fs request offline =
     Option.bind (if offline then config_new True 1 else Some default_config) (\<lambda>cfg.
     Option.bind builtin_profiles (\<lambda>profiles.
     Option.bind (expect_ok (store_new 8 65536 65536 8)) (\<lambda>results.
       invoke cfg fs (fixture_ports False (dr_profile request)) request
         \<lparr>au_explicit_offline = offline, au_project_trusted = True, au_mutation_authorized = False\<rparr>
         profiles 0 results)))"

definition headless_incomplete_receipt_for ::
  "file_system \<Rightarrow> delegation_request \<Rightarrow> bool \<Rightarrow> delegation_receipt option" where
  "headless_incomplete_receipt_for fs request offline =
     Option.bind (headless_run fs request offline) (\<lambda>(r, _). expect_ok r)"

definition fixture_request :: "delegation_request option" where
  "fixture_request =
     request_new ''sol'' ''synthetic connected request'' (default_options\<lparr>do_no_session := True\<rparr>)"

definition connected_receipt :: "file_system \<Rightarrow> delegation_receipt option" where
  "connected_receipt fs = Option.bind fixture_request (\<lambda>r. connected_receipt_for fs r True)"

definition connected_unattested_receipt :: "file_system \<Rightarrow> delegation_receipt option" where
  "connected_unattested_receipt fs = Option.bind fixture_request (\<lambda>r. connected_receipt_for fs r False)"

section \<open>The adapters keep the contract\<close>

lemma receipt_latency [simp]:
  "rc_latency (sqz_receipt_of cfg raw ret req eff ri lat cand st reason fid rq ms fs) = lat"
  by (simp add: sqz_receipt_of_def Let_def)

lemma evaluate_latency:
  "rc_latency (receipt_of (evaluate cfg port pk n)) \<in> {0, snd (port (pk_payload pk))}"
proof -
  have f: "rc_latency (receipt_of (failed_evaluation cfg pk req eff ri lat cand fid ms fs reason)) = lat"
    for req eff ri lat cand fid ms fs reason
    by (simp add: failed_evaluation_def receipt_of_def Let_def)
  have off: "rc_latency (receipt_of (evaluate_off cfg pk n eff anchors c)) = 0" for eff anchors c
    unfolding evaluate_off_def Let_def
    by (simp add: f) (simp add: receipt_of_def base_receipt_def)
  have j: "rc_latency (receipt_of (judge_output cfg pk n eff anchors lat out)) = lat"
    for eff anchors lat out
    unfolding judge_output_def Let_def
    by (simp add: f split: prod.split) (simp add: receipt_of_def)
  show ?thesis
    unfolding evaluate_def Let_def
    by (simp add: f off j split: prod.split sum.split)
qed

lemma agent_output_ok:
  "agent_sqz_output_new p r = Inr out \<Longrightarrow> rc_latency r \<le> u64_max \<Longrightarrow> sqz_output_ok out"
  by (auto simp: agent_sqz_output_new_def sqz_output_ok_def split: if_splits)

lemma agent_evaluate_contract:
  assumes lat: "\<forall>p. snd (port p) \<le> u64_max"
  shows "agent_evaluate_with_anchors port policy m stage p n anchors = Inr out \<Longrightarrow> sqz_output_ok out"
    and "agent_evaluate_with_anchors port policy m stage p n anchors = Inl e
      \<Longrightarrow> \<not> latency_too_long (ase_receipt e)"
proof -
  have l: "rc_latency (receipt_of (evaluate cfg port pk n)) \<le> u64_max" for cfg pk
    using evaluate_latency [of cfg port pk n] lat by fastforce
  show "agent_evaluate_with_anchors port policy m stage p n anchors = Inr out \<Longrightarrow> sqz_output_ok out"
    using l by (fastforce simp: agent_evaluate_with_anchors_def Let_def receipt_of_def
        intro: agent_output_ok split: sum.splits)
  show "agent_evaluate_with_anchors port policy m stage p n anchors = Inl e
      \<Longrightarrow> \<not> latency_too_long (ase_receipt e)"
  proof -
    assume a: "agent_evaluate_with_anchors port policy m stage p n anchors = Inl e"
    show ?thesis
    proof (cases "stage_anchors policy stage p anchors")
      case (Inl x)
      with a show ?thesis
        by (auto simp: agent_evaluate_with_anchors_def stage_anchors_def latency_too_long_def
            agent_sqz_error_new_def split: sum.splits if_splits)
    next
      case (Inr as)
      define r where "r = evaluate \<lparr>sc_policy = policy, sc_identity = approved_identity,
          sc_configured_max_output_bytes = m, sc_fidelity_anchors = as\<rparr> port (agent_packet p) n"
      have "rc_latency (receipt_of r) \<le> u64_max" unfolding r_def by (rule l)
      with a Inr show ?thesis
        by (cases r) (auto simp: agent_evaluate_with_anchors_def Let_def r_def [symmetric]
            latency_too_long_def agent_sqz_error_new_def agent_sqz_output_new_def receipt_of_def
            split: if_splits)
    qed
  qed
qed

lemma agent_ports_of_contract:
  assumes "\<forall>q c out. provider q c = Inr out \<longrightarrow> output_ok out" "\<forall>p. snd (port p) \<le> u64_max"
  shows "agent_ports (agent_ports_of auth provider port policy m) mem_view store_inv"
proof (unfold agent_ports_def agent_ports_axioms_def, intro conjI)
  show "result_store_port (store_batch (agent_ports_of auth provider port policy m))
      (store_fetch (agent_ports_of auth provider port policy m)) mem_view store_inv"
    using mem.result_store_port_axioms by (simp add: agent_ports_of_def)
qed (use assms agent_evaluate_contract [OF assms(2)] in
    \<open>auto simp: agent_ports_of_def agent_evaluate_def\<close>)

lemma evidence_names:
  "is_valid_name p \<Longrightarrow> is_valid_name v \<Longrightarrow> is_valid_name m \<Longrightarrow>
   evidence_new (Some p) (Some v) (Some m) (Some (reasoning_as_str l))
     = Some \<lparr>xe_profile = Some p, xe_provider = Some v, xe_model = Some m,
             xe_reasoning = Some (reasoning_as_str l)\<rparr>"
proof -
  have "is_valid_name (reasoning_as_str l)" by (cases l) (simp_all, code_simp+)
  then show "is_valid_name p \<Longrightarrow> is_valid_name v \<Longrightarrow> is_valid_name m \<Longrightarrow> ?thesis"
    by (simp add: evidence_new_def bad_name_def)
qed

lemma fixture_text:
  "trim ''synthetic connected answer'' \<noteq> []" "trim ''synthetic-citation'' \<noteq> []"
  "is_valid_name ''synthetic-run''"
  by code_simp+

lemma fixture_provider_answers:
  assumes "is_valid_name profile" "is_valid_name (q_provider q)" "is_valid_name (q_model q)"
  shows "fixture_provider attested profile q c \<noteq> None"
proof -
  have "is_valid_name (reasoning_as_str (q_requested q))"
    by (cases "q_requested q") (simp_all, code_simp+)
  then show ?thesis
    using assms evidence_names fixture_text
    by (simp add: fixture_provider_def fixture_output_def Let_def with_effective_execution_def
        output_new_def bad_name_def)
qed

lemma fixture_provider_ok:
  "fixture_provider attested profile q c = Some (Inr out) \<Longrightarrow> output_ok out"
  unfolding fixture_provider_def fixture_output_def Let_def
  by (auto simp: res_simps bind_eq_Some_conv split: if_splits option.splits
      dest!: output_new_ok with_effective_execution_ok with_attestation_ok)

interpretation fixture: agent_ports "fixture_ports attested profile" mem_view store_inv
  for attested profile
proof (unfold agent_ports_def agent_ports_axioms_def, intro conjI)
  show "result_store_port (store_batch (fixture_ports attested profile))
      (store_fetch (fixture_ports attested profile)) mem_view store_inv"
    using mem.result_store_port_axioms by (simp add: fixture_ports_def)
qed (auto simp: fixture_ports_def fixture_sqz_def default_evaluate_with_anchors_def
    fixture_sqz_receipt_def agent_sqz_error_new_def latency_too_long_def agent_sqz_output_new_def
    split: option.splits if_splits intro: agent_output_ok fixture_provider_ok)

end
