(* ===== verification/Agent_Runs.thy ===== *)
theory Agent_Runs
  imports Synthetic
begin

text \<open>
  Two concrete runs of the coordinator, for the witnesses: the request of
  \<open>agent/synthetic.rs\<close> on its fixture ports, and a grounded request with a token ceiling on
  the program's own SQZ adapter and result store. Everything is evaluated except SHA-256,
  which stays symbolic.
\<close>

section \<open>The run of the fixture request\<close>

definition demo_delegation :: delegation_request where
  "demo_delegation = the fixture_request"

definition demo_profiles :: profile_registry where
  "demo_profiles = the builtin_profiles"

definition demo_runtime :: runtime_config where
  "demo_runtime = \<lparr>rt_enabled = True, rt_max_delegation_depth = 1\<rparr>"

definition demo_authority :: runtime_authority where
  "demo_authority =
     \<lparr>au_explicit_offline = False, au_project_trusted = True, au_mutation_authorized = False\<rparr>"

definition demo_results :: mem_store where
  "demo_results =
     \<lparr>s_limits = \<lparr>max_entries = 8, max_total_bytes = 65536, max_item_bytes = 65536, max_age_ticks = 8\<rparr>,
      s_entries = [], s_age_order = [], s_total_bytes = 0, s_next_order = 0\<rparr>"

lemma demo_values:
  "fixture_request = Some demo_delegation" "builtin_profiles = Some demo_profiles"
  "registry_ok demo_profiles" "config_new True 1 = Some demo_runtime"
  "expect_ok (store_new 8 65536 65536 8) = Some demo_results"
  by code_simp+

lemma demo_results_inv: "store_inv demo_results"
proof -
  have "store_new 8 65536 65536 8 = Inr demo_results" by code_simp
  then show ?thesis
    by (auto simp: store_new_def limits_new_def res_simps u64_max_def Let_def split: if_splits
        intro: with_limits_inv)
qed

definition demo_admitted :: admitted where
  "demo_admitted =
     (case admit demo_runtime demo_delegation demo_authority demo_profiles of Inr ad \<Rightarrow> ad)"

definition demo_query :: provider_request where
  "demo_query =
     (case build_provider_request demo_delegation demo_admitted ''synthetic connected request'' of
        Inr q \<Rightarrow> q)"

definition demo_answer :: "bool \<Rightarrow> provider_output" where
  "demo_answer attested =
     \<lparr>o_answer = ''synthetic connected answer'', o_citations = [''synthetic-citation''],
      o_claims = [], o_provider_run_id = Some ''synthetic-run'',
      o_effective_model = (if attested then Some ''fixture-sol'' else None),
      o_effective_reasoning = (if attested then Some ''high'' else None),
      o_effective_profile = (if attested then Some ''sol'' else None),
      o_effective_provider = (if attested then Some ''fixture-provider'' else None),
      o_actual_input_tokens = Some 6, o_actual_output_tokens = Some 4,
      o_enforced_token_ceiling = None, o_artifacts = []\<rparr>"

definition demo_inline :: inline_result where
  "demo_inline =
     \<lparr>ir_answer = ''synthetic connected answer'', ir_citations = [''synthetic-citation''],
      ir_claims = []\<rparr>"

lemma demo_request_facts:
  "dr_prompt demo_delegation = ''synthetic connected request''"
  "dr_profile demo_delegation = ''sol''" "dr_grounding_contract demo_delegation = None"
  "dr_hard_total_token_ceiling demo_delegation = None"
  by code_simp+

lemma demo_run_facts:
  "admit demo_runtime demo_delegation demo_authority demo_profiles = Inr demo_admitted"
  "build_provider_request demo_delegation demo_admitted ''synthetic connected request'' = Inr demo_query"
  by code_simp+

lemma demo_effective:
  "ee_model (provider_effective (ad_profile demo_admitted) (ad_provider demo_admitted)
     (demo_answer attested) (dr_tool_policy demo_delegation) demo_profiles)
   = (if attested then Attested ''fixture-sol'' else AttUnavailable)"
  by (cases attested) (simp_all only:, code_simp+)

lemma demo_answer_eq: "fixture_provider attested ''sol'' demo_query () = Some (Inr (demo_answer attested))"
  by (cases attested) (simp_all only:, code_simp+)

lemma demo_surfaces:
  "public_dlp_findings ''synthetic-citation'' = []" "public_dlp_findings ''synthetic-run'' = []"
  "public_dlp_findings ''fixture-sol'' = []" "public_dlp_findings ''high'' = []"
  "public_dlp_findings ''sol'' = []" "public_dlp_findings ''fixture-provider'' = []"
  by code_simp+

lemma demo_answer_fields:
  "o_answer (demo_answer attested) = ''synthetic connected answer''"
  "o_citations (demo_answer attested) = [''synthetic-citation'']"
  "o_claims (demo_answer attested) = []" "o_artifacts (demo_answer attested) = []"
  "o_provider_run_id (demo_answer attested) = Some ''synthetic-run''"
  by (simp_all add: demo_answer_def)

lemma demo_answer_safe: "safe_provider_surfaces (demo_answer attested)"
  by (simp add: safe_provider_surfaces_def surface_strings_def demo_answer_def some_list_def
      demo_surfaces)


lemma fixture_stage:
  assumes "trim p \<noteq> []" "length p \<le> 1048576"
  shows "fixture_sqz stage p n = Inr \<lparr>aso_payload = p, aso_receipt = fixture_sqz_receipt p\<rparr>"
    and "accepted_stage (fixture_sqz_receipt p) p"
  using assms by (simp_all add: fixture_sqz_def agent_sqz_output_new_def accepted_stage_def
      fixture_sqz_receipt_def)

lemma demo_texts: "trim ''synthetic connected request'' \<noteq> []" "trim ''synthetic connected answer'' \<noteq> []"
  by code_simp+

lemma demo_lengths:
  "length ''synthetic connected request'' \<le> 1048576" "length ''synthetic connected answer'' \<le> 1048576"
  by simp_all

lemma demo_inline_eq:
  "inline_with_claims ''synthetic connected answer'' [''synthetic-citation''] [] = Some demo_inline"
  by code_simp

lemma demo_encoded: "encode_canonical demo_inline \<noteq> [] \<and> length (encode_canonical demo_inline) \<le> 65536"
  by code_simp

text \<open>The first result in the fixture's store.\<close>

lemma first_store_output:
  assumes "wired ports put_batch get" "store_limits ports = s_limits"
    "encode_canonical inline \<noteq> []" "length (encode_canonical inline) \<le> 65536"
  shows "\<exists>stored ev s'. store_output ports demo_results inline [] 0 = Some (Some stored, ev, s')"
proof -
  let ?bs = "encode_canonical inline"
  note inv = demo_results_inv
  have "\<exists>r s1. put demo_results ?bs 0 = Some (Inr r, s1)"
    using assms by (intro first_put) (simp_all add: demo_results_def limits_bad_def u64_max_def)
  then obtain r s1 where p: "put demo_results ?bs 0 = Some (Inr r, s1)" by blast
  note s1 = put_Inr [OF inv p] put_view [OF inv p]
  then have "put_batch demo_results [?bs] 0 = Some (Inr [id_sha256 ?bs], s1)"
    using p by (auto simp: put_batch_def)
  moreover from get_view [of s1 "id_sha256 ?bs" 0] s1 obtain s2 where
    "get s1 (id_sha256 ?bs) 0 = Some (Inr ?bs, s2)" by auto
  moreover have "checked_total [length ?bs] 0 = Some (length ?bs)"
    using assms by (simp add: checked_add_u64_def u64_max_def)
  moreover have "\<not> limits_refuse (s_limits demo_results) [?bs] (length ?bs)"
    using assms by (simp add: limits_refuse_def demo_results_def)
  ultimately show ?thesis
    using assms by (simp add: store_output_def wired_def stored_ref_new_def Let_def)
qed

lemma fixture_wired: "wired (fixture_ports attested profile) put_batch get"
  "store_limits (fixture_ports attested profile) = s_limits"
  by (simp_all add: wired_def fixture_ports_def)


text \<open>An invocation whose every step succeeds returns a Complete receipt.\<close>

lemma invoke_completes:
  assumes ad: "admit cfg request authority registry = Inr ad"
    and auth: "auth_resolve ports (ap_account_handle (ad_profile ad)) = Inr cred"
    and input: "sqz_evaluate_with_anchors ports Stage_Input (dr_prompt request)
        (dr_max_output_bytes request) (grounding_anchors request) = Inr input"
      "grounding_input_accepted request input"
      "accepted_stage (aso_receipt input) (aso_payload input)" "rc_latency (aso_receipt input) \<le> u64_max"
    and q: "build_provider_request request ad (aso_payload input) = Inr q"
    and out: "provider_invoke ports q cred = Inr out"
      "answer_failure fs request ad out (provider_effective (ad_profile ad) (ad_provider ad) out
         (dr_tool_policy request) registry) = None" "\<not> bad_name (o_provider_run_id out)"
    and produced: "sqz_evaluate ports Stage_Output (o_answer out) (dr_max_output_bytes request) = Inr produced"
      "accepted_stage (aso_receipt produced) (aso_payload produced)"
      "rc_latency (aso_receipt produced) \<le> u64_max"
      "dr_grounding_contract request \<noteq> None \<longrightarrow> aso_payload produced = o_answer out"
    and inline: "inline_with_claims (aso_payload produced) (o_citations out) (o_claims out) = Some inline"
    and store: "wired ports put_batch get" "store_inv s"
      "store_output ports s inline (o_artifacts out) now = Some (Some stored, sev, s')"
  shows "\<exists>r ev. invoke cfg fs ports request authority registry now s = Some (Inr r, ev, s')
    \<and> is_complete r \<and> dl_inline_result r = Some inline \<and> Provider_Called q \<in> set ev
    \<and> dl_effective r = provider_effective (ad_profile ad) (ad_provider ad) out
        (dr_tool_policy request) registry"
proof -
  define eff where "eff = provider_effective (ad_profile ad) (ad_provider ad) out
    (dr_tool_policy request) registry"
  have id: "sr_result_id stored = id_sha256 (encode_canonical inline)"
    using mem.store_output_stored [OF store] by blast
  have a: "accepted_stage (aso_receipt produced) (ir_answer inline)"
    using produced(2) inline by (auto simp: inline_with_claims_iff)
  obtain r where r: "complete_receipt Validating (ad_requested ad) eff (aso_receipt input)
      (aso_receipt produced) inline stored (o_actual_input_tokens out) (o_actual_output_tokens out)
      (length (aso_payload input)) (length (aso_payload produced)) (dr_no_session request)
      (dr_grounding_contract request \<noteq> None) (attest (o_provider_run_id out)) = Inr r"
    using complete_receipt_returns [OF input(3) a input(4) produced(3) id out(3)] by blast
  then have o: "invoke_output ports request ad Validating input out eff now s = Some (Inr r,
      [Sqz_Called Stage_Output (o_answer out) (dr_max_output_bytes request) []] @ sev, s')"
    using produced inline store by (auto simp: invoke_output_def)
  then have "invoke_provider fs ports request registry ad cred input q now s = Some (Inr r,
      Provider_Called q # [Sqz_Called Stage_Output (o_answer out) (dr_max_output_bytes request) []]
        @ sev, s')"
    using out by (simp add: invoke_provider_def advances res_simps Let_def eff_def [symmetric])
  then have "\<exists>ev. invoke_ports fs ports request registry ad now s = Some (Inr r, ev, s')
      \<and> Provider_Called q \<in> set ev"
    using auth input q by (simp add: invoke_ports_def Let_def)
  then show ?thesis
    using complete_receipt_Inr [OF r] ad by (auto simp: invoke_def is_complete_def eff_def)
qed

text \<open>The fixture request runs to a Complete receipt, with or without attestation.\<close>

lemma demo_invoke:
  "\<exists>r ev s'. invoke demo_runtime fs (fixture_ports attested ''sol'') demo_delegation demo_authority
      demo_profiles 0 demo_results = Some (Inr r, ev, s')
    \<and> is_complete r \<and> dl_inline_result r = Some demo_inline \<and> Provider_Called demo_query \<in> set ev
    \<and> dl_effective r = provider_effective (ad_profile demo_admitted) (ad_provider demo_admitted)
        (demo_answer attested) (dr_tool_policy demo_delegation) demo_profiles"
proof -
  let ?ports = "fixture_ports attested ''sol''"
  let ?in = "''synthetic connected request''" and ?out = "''synthetic connected answer''"
  have stage: "sqz_evaluate_with_anchors ?ports Stage_Input ?in n []
      = Inr \<lparr>aso_payload = ?in, aso_receipt = fixture_sqz_receipt ?in\<rparr>"
    "sqz_evaluate ?ports Stage_Output ?out n
      = Inr \<lparr>aso_payload = ?out, aso_receipt = fixture_sqz_receipt ?out\<rparr>" for n
    using fixture_stage demo_texts
    by (simp_all add: fixture_ports_def default_evaluate_with_anchors_def)
  have failure: "answer_failure fs demo_delegation demo_admitted (demo_answer attested) eff = None" for eff
    by (simp add: answer_failure_def demo_answer_safe grounded_citations_accepted_def
        grounded_claims_accepted_def enforced_token_budget_def demo_request_facts)
  obtain stored sev s' where
    "store_output ?ports demo_results demo_inline [] 0 = Some (Some stored, sev, s')"
    using first_store_output [OF fixture_wired] demo_encoded by blast
  moreover have "auth_resolve ?ports h = Inr ()"
    "provider_invoke ?ports demo_query () = Inr (demo_answer attested)" for h
    by (simp_all add: fixture_ports_def fixture_auth_def demo_answer_eq)
  moreover have "rc_latency (fixture_sqz_receipt p) \<le> u64_max" "\<not> bad_name (Some ''synthetic-run'')" for p
    by (simp_all add: fixture_sqz_receipt_def bad_name_def fixture_text)
  ultimately have "\<exists>r ev. invoke demo_runtime fs ?ports demo_delegation demo_authority
      demo_profiles 0 demo_results = Some (Inr r, ev, s')
    \<and> is_complete r \<and> dl_inline_result r = Some demo_inline \<and> Provider_Called demo_query \<in> set ev
    \<and> dl_effective r = provider_effective (ad_profile demo_admitted) (ad_provider demo_admitted)
        (demo_answer attested) (dr_tool_policy demo_delegation) demo_profiles"
    by (intro invoke_completes [where ad = demo_admitted and out = "demo_answer attested"
          and input = "\<lparr>aso_payload = ?in, aso_receipt = fixture_sqz_receipt ?in\<rparr>"
          and produced = "\<lparr>aso_payload = ?out, aso_receipt = fixture_sqz_receipt ?out\<rparr>"])
      (simp_all add: demo_run_facts failure stage demo_request_facts grounding_anchors_def
        grounding_input_accepted_def demo_answer_fields demo_inline_eq fixture_wired demo_results_inv
        fixture_stage(2) [OF demo_texts(1) demo_lengths(1), simplified]
        fixture_stage(2) [OF demo_texts(2) demo_lengths(2), simplified])
  then show ?thesis by blast
qed

section \<open>A grounded run\<close>

text \<open>
  The witnesses of the Complete receipts: a grounded request with a token ceiling, run on
  the program's own SQZ adapter (policy PublicOff) and result store, over a file system
  with one file. The digest of the file stays symbolic.
\<close>

lemma hex_occurs:
  "list_all lower_hex s \<Longrightarrow> list_ex (\<lambda>c. \<not> lower_hex c) p \<Longrightarrow> \<not> contains s p"
  by (auto simp: contains_iff list_ex_iff list_all_iff)

lemma split_by_subset: "w \<in> set (split_by sep s) \<Longrightarrow> set w \<subseteq> set s"
  by (induction s arbitrary: w) (auto split: if_splits list.splits, blast)

lemma hex_chars [simp]:
  "\<not> lower_hex (CHR ''='')" "\<not> lower_hex (CHR '':'')" "\<not> lower_hex (CHR ''/'')"
  "\<not> lower_hex (CHR '' '')" "\<not> lower_hex (CHR ''_'')" "\<not> lower_hex (CHR ''-'')"
  "\<not> lower_hex (CHR ''k'')"
  by code_simp+

lemma hex_clean:
  assumes "list_all lower_hex s"
  shows "public_dlp_findings s = []"
proof -
  note no = hex_occurs [OF assms]
  have "lower_byte c = c" if "c \<in> set s" for c
    using assms that by (auto simp: list_all_iff lower_hex_def lower_byte_def)
  then have low: "to_ascii_lowercase s = s" by (simp add: to_ascii_lowercase_def map_idI)
  have "\<not> prefix p w" if "w \<in> set (split_by sep s)" "list_ex (\<lambda>c. \<not> lower_hex c) p" for p w sep
    using assms that split_by_subset [OF that(1)]
    by (auto simp: prefix_def list_all_iff list_ex_iff)
  then have pre: "\<not> prefixed_token s"
    by (auto simp: prefixed_token_def list_ex_iff TOKEN_PREFIXES_def)
  have "list_all (\<lambda>c. code c < 128) s"
    using assms by (auto simp: list_all_iff lower_hex_def is_ascii_hexdigit_def is_ascii_digit_def)
  then have "utf8_lossy s = s" by (induction s) (simp_all add: utf8_lossy_ascii)
  then show ?thesis
    using pre by (simp add: public_dlp_findings_def dlp_findings_def credential_assignment_def low no)
qed
definition grounded_fact :: str where
  "grounded_fact = ''the grounded fact''"

definition grounded_digest :: str where
  "grounded_digest = id_value (id_sha256 grounded_fact)"

definition grounded_fs :: file_system where
  "grounded_fs = demo_fs\<lparr>fs_open := (\<lambda>p. Some (Some (demo_file_meta False), Some grounded_fact))\<rparr>"

definition grounded_contract :: "str \<Rightarrow> grounding_contract" where
  "grounded_contract digest =
     \<lparr>gc_locators = [''a/b''],
      gc_evidence = [\<lparr>ae_locator = ''a/b'', ae_content_digest = digest\<rparr>],
      gc_root = Some ''/r'', gc_anchors = [\<lparr>a_id = ''k'', a_value = ''fact''\<rparr>]\<rparr>"

definition grounded_options :: "str \<Rightarrow> delegation_options" where
  "grounded_options digest = default_options
     \<lparr>do_no_session := True, do_hard_total_token_ceiling := Some 100, do_max_output_tokens := Some 50,
      do_grounding_contract := Some (grounded_contract digest)\<rparr>"

definition grounded_request :: "str \<Rightarrow> delegation_request" where
  "grounded_request digest = demo_delegation
     \<lparr>dr_prompt := ''state the fact'', dr_hard_total_token_ceiling := Some 100,
      dr_max_output_tokens := Some 50, dr_grounding_contract := Some (grounded_contract digest)\<rparr>"

definition grounded_claim :: "str \<Rightarrow> provider_claim" where
  "grounded_claim digest =
     \<lparr>cl_id = ''c1'', cl_text = grounded_fact, cl_material = True, cl_locator = ''a/b'',
      cl_content_digest = digest, cl_support = grounded_fact\<rparr>"

definition grounded_answer :: "str \<Rightarrow> provider_output" where
  "grounded_answer digest = (demo_answer True)
     \<lparr>o_answer := grounded_fact, o_citations := [''a/b''], o_claims := [grounded_claim digest],
      o_enforced_token_ceiling := Some 100\<rparr>"

definition grounded_ports :: "sqz_port \<Rightarrow> (unit, mem_store) runtime_ports" where
  "grounded_ports port =
     agent_ports_of fixture_auth (\<lambda>q c. Inr (grounded_answer grounded_digest)) port PublicOff 65536"

definition grounded_query :: "str \<Rightarrow> provider_request" where
  "grounded_query digest =
     (case build_provider_request (grounded_request digest) demo_admitted ''state the fact'' of
        Inr q \<Rightarrow> q)"

definition stage_result :: "str \<Rightarrow> preservation_anchor list \<Rightarrow> agent_sqz_output" where
  "stage_result p anchors =
     \<lparr>aso_payload = p,
      aso_receipt = base_receipt
        \<lparr>sc_policy = PublicOff, sc_identity = approved_identity,
         sc_configured_max_output_bytes = 65536, sc_fidelity_anchors = anchors\<rparr>
        (agent_packet p) (length p) (length p) 65536 65536\<rparr>"

lemma grounded_digest_hex: "list_all lower_hex grounded_digest" "length grounded_digest = 64"
  using id_sha256_ok [of grounded_fact] by (simp_all add: grounded_digest_def id_ok_def)

lemma grounded_request_new:
  "request_new ''sol'' ''state the fact'' (grounded_options digest) = Some (grounded_request digest)"
  by code_simp

lemma grounded_admit:
  "admit demo_runtime (grounded_request digest) demo_authority demo_profiles = Inr demo_admitted"
  by code_simp

lemma grounded_build:
  "build_provider_request (grounded_request digest) demo_admitted ''state the fact''
     = Inr (grounded_query digest)"
  by code_simp

lemma grounded_stages:
  "agent_evaluate_with_anchors port PublicOff 65536 Stage_Input ''state the fact'' 65536
     [\<lparr>a_id = ''k'', a_value = ''fact''\<rparr>]
     = Inr (stage_result ''state the fact'' [\<lparr>a_id = ''k'', a_value = ''fact''\<rparr>])"
  "agent_evaluate_with_anchors port PublicOff 65536 Stage_Output grounded_fact 65536 []
     = Inr (stage_result grounded_fact [])"
  by code_simp+

lemma grounded_accepted:
  "accepted_stage (aso_receipt (stage_result ''state the fact'' [\<lparr>a_id = ''k'', a_value = ''fact''\<rparr>]))
     ''state the fact''"
  "accepted_stage (aso_receipt (stage_result grounded_fact [])) grounded_fact"
  "grounding_input_accepted (grounded_request digest)
     (stage_result ''state the fact'' [\<lparr>a_id = ''k'', a_value = ''fact''\<rparr>])"
  by code_simp+

lemma grounded_read: "read_current_file grounded_fs ''/r'' ''a/b'' = Some grounded_fact"
  by code_simp

lemma grounded_facts:
  "dr_prompt (grounded_request d) = ''state the fact''" "dr_profile (grounded_request d) = ''sol''"
  "dr_max_output_bytes (grounded_request d) = 65536"
  "dr_grounding_contract (grounded_request d) = Some (grounded_contract d)"
  "dr_hard_total_token_ceiling (grounded_request d) = Some 100"
  "grounding_anchors (grounded_request d) = [\<lparr>a_id = ''k'', a_value = ''fact''\<rparr>]"
  "o_answer (grounded_answer d) = grounded_fact" "o_citations (grounded_answer d) = [''a/b'']"
  "o_claims (grounded_answer d) = [grounded_claim d]" "o_artifacts (grounded_answer d) = []"
  by code_simp+

lemma grounded_surface:
  "public_dlp_findings ''a/b'' = []" "public_dlp_findings ''c1'' = []"
  "public_dlp_findings grounded_fact = []"
  by code_simp+

lemma grounded_safe: "safe_provider_surfaces (grounded_answer grounded_digest)"
  by (simp add: safe_provider_surfaces_def surface_strings_def grounded_answer_def demo_answer_def
      some_list_def grounded_claim_def demo_surfaces grounded_surface
      hex_clean [OF grounded_digest_hex(1)])

lemma grounded_supported:
  "grounded_claims_accepted grounded_fs (grounded_request grounded_digest) (grounded_answer grounded_digest)"
proof -
  let ?c = "grounded_contract grounded_digest"
  have e: "find_evidence ?c ''a/b'' = Some \<lparr>ae_locator = ''a/b'', ae_content_digest = grounded_digest\<rparr>"
    by (simp add: find_evidence_def grounded_contract_def bsearch.simps)
  have "MIN_CLAIM_SUPPORT_BYTES \<le> length (trim grounded_fact) \<and> length grounded_fact \<le> 65536"
    by code_simp
  with e grounded_read have
    "claim_supported grounded_fs ?c ''/r'' (''a/b'', grounded_digest, grounded_fact)"
    by (simp add: claim_supported_def grounded_digest_def)
  then have "verifies_support grounded_fs ?c [(''a/b'', grounded_digest, grounded_fact)]"
    by (simp add: verifies_support_eq) (simp add: grounded_contract_def)
  then show ?thesis
    by (simp add: grounded_claims_accepted_def grounded_facts)
      (simp add: grounded_claim_def has_verifiable_evidence_def grounded_contract_def)
qed

definition grounded_effective :: "str \<Rightarrow> effective_execution" where
  "grounded_effective d = provider_effective (ad_profile demo_admitted) (ad_provider demo_admitted)
     (grounded_answer d) (dr_tool_policy (grounded_request d)) demo_profiles"

lemma grounded_attested:
  "grounding_execution_attested (ad_requested demo_admitted) (grounded_effective d)"
  by code_simp

lemma grounded_cited: "grounded_citations_accepted (grounded_request d) [''a/b'']"
  by code_simp

lemma grounded_budget: "enforced_token_budget (grounded_request d) (grounded_answer d) = None"
  by code_simp

lemma grounded_answer_failure:
  "answer_failure grounded_fs (grounded_request grounded_digest) demo_admitted
     (grounded_answer grounded_digest) (grounded_effective grounded_digest) = None"
  by (simp add: answer_failure_def grounded_safe grounded_supported grounded_attested grounded_cited
      grounded_budget grounded_facts)

definition grounded_inline :: inline_result where
  "grounded_inline =
     \<lparr>ir_answer = grounded_fact, ir_citations = [''a/b''], ir_claims = [grounded_claim grounded_digest]\<rparr>"

lemma grounded_inline_eq:
  "inline_with_claims grounded_fact [''a/b''] [grounded_claim grounded_digest] = Some grounded_inline"
proof -
  have "trim grounded_fact \<noteq> []" "length grounded_fact \<le> 1048576" "citation_ok ''a/b''"
    by code_simp+
  then show ?thesis by (simp add: inline_with_claims_iff grounded_inline_def)
qed

lemma grounded_encoded:
  "encode_canonical grounded_inline \<noteq> [] \<and> length (encode_canonical grounded_inline) \<le> 65536"
  by (simp add: encode_canonical_def grounded_inline_def encode_claim_def encode_field_def
      grounded_claim_def grounded_digest_hex grounded_fact_def)

lemma grounded_wired:
  "wired (grounded_ports port) put_batch get" "store_limits (grounded_ports port) = s_limits"
  by (simp_all add: grounded_ports_def agent_ports_of_def wired_def)

lemma grounded_output_ok: "output_ok (grounded_answer grounded_digest)"
proof -
  have d: "valid_sha256 grounded_digest"
    using grounded_digest_hex by (auto simp: valid_sha256_def list_all_iff lower_hex_def
        is_ascii_hexdigit_def is_ascii_uppercase_def is_ascii_digit_def)
  have "is_valid_name ''c1''" "trim grounded_fact \<noteq> []" "length grounded_fact \<le> 65536"
    "trim ''a/b'' \<noteq> []" "MIN_CLAIM_SUPPORT_BYTES \<le> length (trim grounded_fact)"
    "\<not> bad_name (Some ''synthetic-run'')" "\<not> bad_name (Some ''fixture-sol'')"
    "\<not> bad_name (Some ''high'')"
    by code_simp+
  with d show ?thesis
    by (simp add: output_ok_def grounded_answer_def demo_answer_def grounded_claim_def claim_ok_def
        citation_ok_def)
qed

lemma stage_latency: "rc_latency (aso_receipt (stage_result p anchors)) = 0"
  by (simp add: stage_result_def base_receipt_def)

lemma grounded_invoke:
  "\<exists>r ev s'. invoke demo_runtime grounded_fs (grounded_ports port) (grounded_request grounded_digest)
      demo_authority demo_profiles 0 demo_results = Some (Inr r, ev, s')
    \<and> is_complete r \<and> dl_inline_result r = Some grounded_inline
    \<and> Provider_Called (grounded_query grounded_digest) \<in> set ev"
proof -
  let ?ports = "grounded_ports port" and ?k = "[\<lparr>a_id = ''k'', a_value = ''fact''\<rparr>]"
  have ports: "auth_resolve ?ports h = Inr ()"
    "provider_invoke ?ports q c = Inr (grounded_answer grounded_digest)"
    "sqz_evaluate_with_anchors ?ports = agent_evaluate_with_anchors port PublicOff 65536"
    "sqz_evaluate ?ports Stage_Output p n
      = agent_evaluate_with_anchors port PublicOff 65536 Stage_Output p n []" for h q c p n
    by (simp_all add: grounded_ports_def agent_ports_of_def fixture_auth_def agent_evaluate_def)
  have run: "\<not> bad_name (o_provider_run_id (grounded_answer grounded_digest))"
    using grounded_output_ok by (simp add: output_ok_def)
  have payload: "aso_payload (stage_result p anchors) = p" for p anchors by (simp add: stage_result_def)
  obtain stored sev s' where
    "store_output ?ports demo_results grounded_inline [] 0 = Some (Some stored, sev, s')"
    using first_store_output [OF grounded_wired] grounded_encoded by blast
  then have "\<exists>r ev. invoke demo_runtime grounded_fs ?ports (grounded_request grounded_digest)
      demo_authority demo_profiles 0 demo_results = Some (Inr r, ev, s')
    \<and> is_complete r \<and> dl_inline_result r = Some grounded_inline
    \<and> Provider_Called (grounded_query grounded_digest) \<in> set ev
    \<and> dl_effective r = grounded_effective grounded_digest"
    unfolding grounded_effective_def
    by (intro invoke_completes [where ad = demo_admitted and out = "grounded_answer grounded_digest"
          and input = "stage_result ''state the fact'' ?k" and produced = "stage_result grounded_fact []"])
      (simp_all add: ports run payload grounded_admit grounded_stages grounded_accepted grounded_facts
        grounded_build grounded_answer_failure [unfolded grounded_effective_def] grounded_inline_eq
        grounded_wired demo_results_inv stage_latency)
  then show ?thesis by blast
qed

end
