(* ===== verification/Agent_Properties.thy ===== *)
theory Agent_Properties
  imports Agent_Runs
begin

text \<open>
  The properties of a whole invocation: the order of its effects and the gates before
  them, what the provider is asked, that a receipt is always returned, and what a Complete
  receipt says about the stored result, the token budget, the grounded claims and the
  privacy of what it carries. The witnesses are the runs of the theory imported here.
\<close>

section \<open>Properties of the effects\<close>






section \<open>A receipt is always returned\<close>

lemma requested_of_valid:
  assumes "request_new name prompt options = Some request" "\<forall>p. profile = Some p \<longrightarrow> profile_ok p"
    "\<not> bad_identity provider" "\<not> bad_identity model"
  shows "\<exists>r. requested_of request profile provider model = Inr r"
  using assms
  by (cases provider; cases model; cases profile; cases "do_provider_override options";
      cases "do_model_override options")
    (auto simp: request_new_def requested_of_def requested_with_attestations_def attest_def or_else_def
      bad_attested_def bad_identity_def profile_ok_def split: if_splits)

lemma admit_returns:
  assumes "request_new name prompt options = Some request" "registry_ok registry"
  shows "(\<exists>r. admit cfg request authority registry = Inl (Inr r))
    \<or> (\<exists>ad. admit cfg request authority registry = Inr ad)"
proof -
  note req = requested_of_valid [OF assms(1)]
  have over: "\<not> bad_identity (dr_provider_override request)" "\<not> bad_identity (dr_model_override request)"
    using assms(1) by (auto simp: request_new_def split: if_splits)
  obtain r0 where r0: "requested_of request None None None = Inr r0"
    using req [of None None None] by (auto simp: bad_identity_def)
  have prof: "(\<exists>r. admit_profile request authority registry p = Inl (Inr r))
      \<or> (\<exists>ad. admit_profile request authority registry p = Inr ad)"
    if p: "profile_get registry (dr_profile request) = Inr p" for p
  proof -
    have ok: "profile_ok p" using profile_get_ok [OF assms(2) p] by blast
    obtain r1 where r1: "requested_of request (Some p) None None = Inr r1"
      using req [of "Some p" None None] ok by (auto simp: bad_identity_def)
    obtain r2 where r2: "requested_of request (Some p)
        (Some (case_option (ap_provider p) id (dr_provider_override request)))
        (Some (case_option (ap_model p) id (dr_model_override request))) = Inr r2"
      using req [of "Some p" "Some (case_option (ap_provider p) id (dr_provider_override request))"
          "Some (case_option (ap_model p) id (dr_model_override request))"] ok over
      by (auto simp: bad_identity_def profile_ok_def split: option.splits)
    show ?thesis
      by (simp add: admit_profile_def finish_def early_def incomplete_no_sqz r1 r2 Let_def)
  qed
  show ?thesis
    using prof by (auto simp: admit_def r0 early_def incomplete_no_sqz split: sum.split)
qed

lemma complete_is_complete: "complete_receipt lc req eff i out inline st it ot ib ob ns g run = Inr r \<Longrightarrow> is_complete r"
  by (auto dest: complete_receipt_Inr simp: is_complete_def)

lemma invoke_outcome:
  assumes "invoke cfg fs ports request authority registry now s = Some (Inr r, ev, s')"
  shows "is_complete r \<or> (\<exists>f. failed_with r f)"
proof -
  have out: "is_complete r \<or> (\<exists>f. failed_with r f)"
    if "invoke_output ports request ad lc input ans eff now s = Some (Inr r, ev, s')"
    for ad lc input ans eff ev
    using that unfolding invoke_output_def Let_def
    by (auto split: sum.splits if_splits option.splits prod.splits
        dest: complete_is_complete incomplete_failed)
  have prov: "is_complete r \<or> (\<exists>f. failed_with r f)"
    if "invoke_provider fs ports request registry ad cred input q now s = Some (Inr r, ev, s')"
    for ad cred input q ev
    using that unfolding invoke_provider_def Let_def
    by (auto simp: advances res_simps split: sum.splits option.splits
        dest!: out incomplete_failed)
  have port: "is_complete r \<or> (\<exists>f. failed_with r f)"
    if "invoke_ports fs ports request registry ad now s = Some (Inr r, ev, s')" for ad ev
    using that unfolding invoke_ports_def Let_def
    by (auto split: sum.splits if_splits dest!: prov incomplete_failed)
  from assms show ?thesis
    unfolding invoke_def by (auto split: sum.splits dest!: port admit_Inl)
qed

text \<open>
  C3. Wired with the program's SQZ adapter and result store, an invocation always ends and
  always returns a receipt: for every request the constructor accepts, every consistent
  registry and store, every provider whose answers were built by their constructors and
  every SQZ executable, the internal error (a violated receipt invariant) cannot happen.
  The receipt is Complete, or it is Incomplete with a failure code and no result; the
  store stays consistent.
\<close>

theorem invoke_returns_receipt:
  assumes "request_new name prompt options = Some request" "registry_ok registry" "store_inv s"
    "\<forall>q c out. provider q c = Inr out \<longrightarrow> output_ok out" "\<forall>p. snd (port p) \<le> u64_max"
  shows "\<exists>r ev s'. invoke cfg fs (agent_ports_of auth provider port policy max_bytes) request
      authority registry now s = Some (Inr r, ev, s')
    \<and> store_inv s' \<and> (is_complete r \<or> (\<exists>f. failed_with r f))"
proof -
  let ?ports = "agent_ports_of auth provider port policy max_bytes"
  have c: "agent_ports ?ports mem_view store_inv" by (rule agent_ports_of_contract [OF assms(4,5)])
  have "\<exists>r ev s'. invoke cfg fs ?ports request authority registry now s = Some (Inr r, ev, s')
      \<and> store_inv s'"
    using admit_returns [OF assms(1,2), of cfg authority]
      agent_ports.invoke_ports_returns [OF c assms(3), of fs request registry _ now] assms(3)
    by (auto simp: invoke_def)
  then show ?thesis using invoke_outcome by (elim exE conjE) (intro exI conjI; assumption?; blast)
qed


definition valid_texts :: "inline_result \<Rightarrow> bool" where
  "valid_texts r \<longleftrightarrow> valid_utf8 (ir_answer r) \<and> list_all valid_utf8 (ir_citations r)
     \<and> list_all (\<lambda>k. list_all valid_utf8 [cl_id k, cl_text k, cl_locator k, cl_content_digest k,
                      cl_support k]) (ir_claims r)"

lemma inline_ok_of:
  "inline_with_claims a cs cl = Some r \<Longrightarrow> list_all claim_ok cl \<Longrightarrow> valid_texts r \<Longrightarrow> inline_ok r"
  by (auto simp: inline_with_claims_iff inline_ok_def valid_texts_def claim_wire_def list_all_iff)

lemma agent_evaluate_clean:
  assumes "agent_evaluate_with_anchors port policy m stage p n anchors = Inr out"
    "accepted_stage (aso_receipt out) (aso_payload out)"
  shows "is_public_dlp_safe (aso_payload out)"
proof -
  obtain cfg ev where ev: "evaluate cfg port (agent_packet p) n = Inr ev"
    "agent_sqz_output_new (pk_payload (ev_packet ev)) (ev_receipt ev) = Inr out"
    using assms(1) by (auto simp: agent_evaluate_with_anchors_def Let_def split: sum.splits)
  then have o: "aso_payload out = pk_payload (ev_packet ev)" "aso_receipt out = ev_receipt ev"
    by (auto simp: agent_sqz_output_new_def split: if_splits)
  have "rc_status (ev_receipt ev) \<noteq> Sqz_Failed"
    using assms(2) o by (auto simp: accepted_stage_def split: if_splits)
  with evaluate_good [OF ev(1)] o show ?thesis
    by (simp add: good_evaluation_def Let_def is_public_dlp_safe_def)
qed

section \<open>What a Complete receipt says\<close>

text \<open>
  C15. The result of a Complete receipt is in the store: with the program's result store,
  the stored reference is the SHA-256 identifier of the canonical bytes of the inline
  result in the receipt, reading it back at the same tick gives exactly these bytes, they
  decode to that result (when its texts are UTF-8), and every artifact identifier reads
  back bytes with that identifier in which no data-loss check finds anything.
\<close>

theorem complete_receipt_stored:
  assumes "invoke cfg fs ports request authority registry now s = Some (Inr r, ev, s')"
    "is_complete r" "store_inv s" "wired ports put_batch get"
    "\<forall>q c out. provider_invoke ports q c = Inr out \<longrightarrow> output_ok out"
  shows "\<exists>inline stored. dl_inline_result r = Some inline \<and> dl_stored_ref r = Some stored
    \<and> sr_result_id stored = id_sha256 (encode_canonical inline)
    \<and> (\<exists>s''. get s' (sr_result_id stored) now = Some (Inr (encode_canonical inline), s''))
    \<and> (valid_texts inline \<longrightarrow> decode_canonical (encode_canonical inline) = Some inline)
    \<and> (\<forall>i \<in> set (sr_artifact_ids stored). \<exists>b s''. get s' i now = Some (Inr b, s'')
         \<and> i = id_sha256 b \<and> public_dlp_findings b = [])"
proof -
  obtain c where c: "completion_ok fs ports request registry now s s' r c"
    using invoke_complete [OF assms(1,2)] by blast
  let ?inline = "cp_inline c" and ?stored = "cp_stored c" and ?out = "cp_answer c"
  obtain sev where st: "store_output ports s ?inline (o_artifacts ?out) now = Some (Some ?stored, sev, s')"
    using c by (auto simp: completion_ok_def Let_def)
  note stored = mem.store_output_stored [OF assms(4,3) st]
  then have inv: "store_inv s'" by blast
  have read: "\<exists>s''. get s' i now = Some (Inr b, s'')" if "mem_view s' now i = Some b" for i b
    using mem.fetch_view [OF inv, of i now] that by auto
  have out: "output_ok ?out"
    using c assms(5) by (auto simp: completion_ok_def Let_def)
  have safe: "safe_provider_surfaces ?out"
    using c by (auto simp: completion_ok_def answer_failure_def Let_def split: if_splits)
  have inl: "inline_with_claims (aso_payload (cp_output c)) (o_citations ?out) (o_claims ?out) = Some ?inline"
    using c by (simp add: completion_ok_def Let_def)
  have "valid_texts ?inline \<longrightarrow> decode_canonical (encode_canonical ?inline) = Some ?inline"
    using inline_ok_of [OF inl] out decode_encode by (auto simp: output_ok_def)
  moreover have "dl_inline_result r = Some ?inline" "dl_stored_ref r = Some ?stored"
    using c by (auto simp: completion_ok_def Let_def dest: complete_receipt_Inr)
  moreover have "\<exists>b s''. get s' i now = Some (Inr b, s'') \<and> i = id_sha256 b \<and> public_dlp_findings b = []"
    if "i \<in> set (sr_artifact_ids ?stored)" for i
  proof -
    from that stored obtain a where a: "a \<in> set (o_artifacts ?out)" "i = la_id a" by auto
    with stored have "mem_view s' now i = Some (la_bytes a)" by blast
    with a read safe show ?thesis by (fastforce simp: safe_provider_surfaces_def list_all_iff)
  qed
  ultimately show ?thesis using stored read by metis
qed

text \<open>
  C2. A Complete receipt of a grounded request is grounded: its execution attests the
  requested profile, provider, model and reasoning level, its provenance says so, and its
  answer is the concatenation of its claims, each of which is verbatim in the current
  file at its locator under the contract's root, a file with the admitted SHA-256 digest;
  every citation is admitted by the contract. Without a contract the grounding marker is
  absent.
\<close>

theorem complete_receipt_grounded:
  assumes "invoke cfg fs ports request authority registry now s = Some (Inr r, ev, s')"
    "is_complete r"
  shows "case dr_grounding_contract request of
      None \<Rightarrow> dl_provenance r = [''bran-agent-runtime'']
    | Some c \<Rightarrow> dl_provenance r = [''bran-agent-runtime'', ''bran-grounding-validated'']
        \<and> grounding_execution_attested (dl_requested r) (dl_effective r)
        \<and> (\<exists>inline root. dl_inline_result r = Some inline \<and> gc_root c = Some root
             \<and> ir_claims inline \<noteq> []
             \<and> ir_answer inline = join [CHR 0x0A] (map cl_text (ir_claims inline))
             \<and> (\<forall>l \<in> set (ir_citations inline). admits_citation c l)
             \<and> (\<forall>k \<in> set (ir_claims inline). cl_locator k \<in> set (ir_citations inline)
                  \<and> (\<exists>e b. find_evidence c (cl_locator k) = Some e
                       \<and> read_current_file fs root (cl_locator k) = Some b
                       \<and> id_value (id_sha256 b) = ae_content_digest e
                       \<and> cl_content_digest k = ae_content_digest e \<and> contains b (cl_text k))))"
proof -
  obtain d where d: "completion_ok fs ports request registry now s s' r d"
    using invoke_complete [OF assms] by blast
  define out where "out = cp_answer d"
  define eff where "eff = provider_effective (ad_profile (cp_admitted d)) (ad_provider (cp_admitted d))
      out (dr_tool_policy request) registry"
  have af: "answer_failure fs request (cp_admitted d) out eff = None"
    using d by (simp add: completion_ok_def Let_def out_def eff_def)
  have inl: "inline_with_claims (aso_payload (cp_output d)) (o_citations out) (o_claims out) = Some (cp_inline d)"
    "dr_grounding_contract request \<noteq> None \<longrightarrow> aso_payload (cp_output d) = o_answer out"
    using d by (simp_all add: completion_ok_def Let_def out_def)
  have cr: "dl_requested r = ad_requested (cp_admitted d)" "dl_effective r = eff"
    "dl_inline_result r = Some (cp_inline d)"
    "dl_provenance r = ''bran-agent-runtime'' # (if dr_grounding_contract request \<noteq> None
        then [''bran-grounding-validated''] else [])"
    using d by (auto simp: completion_ok_def Let_def out_def eff_def dest: complete_receipt_Inr)
  show ?thesis
  proof (cases "dr_grounding_contract request")
    case (Some c)
    from af Some have g: "grounded_citations_accepted request (o_citations out)"
      "grounding_execution_attested (ad_requested (cp_admitted d)) eff"
      "grounded_claims_accepted fs request out"
      by (auto simp: answer_failure_def split: if_splits)
    have i: "ir_answer (cp_inline d) = o_answer out" "ir_citations (cp_inline d) = o_citations out"
      "ir_claims (cp_inline d) = o_claims out"
      using inl Some by (auto simp: inline_with_claims_iff)
    from g(3) Some obtain root where root: "gc_root c = Some root"
      "\<forall>k \<in> set (o_claims out). claim_supported fs c root (cl_locator k, cl_content_digest k, cl_support k)"
      by (auto simp: grounded_claims_accepted_def verifies_support_eq list_all_iff)
    have "\<exists>e b. find_evidence c (cl_locator k) = Some e \<and> read_current_file fs root (cl_locator k) = Some b
        \<and> id_value (id_sha256 b) = ae_content_digest e \<and> cl_content_digest k = ae_content_digest e
        \<and> contains b (cl_text k)" if "k \<in> set (o_claims out)" for k
      using root(2) that g(3) Some
      by (auto simp: claim_supported_def grounded_claims_accepted_def list_all_iff)
    with g Some i cr root(1) show ?thesis
      by (auto simp: grounded_claims_accepted_def grounded_citations_accepted_def list_all_iff)
  qed (use cr in simp)
qed

text \<open>
  C29. A Complete receipt keeps the token budget: with a hard ceiling the provider attested
  exactly this ceiling, and the tokens it reported, input and output together, do not
  exceed it and did not overflow. (The bound on output tokens is passed to the provider
  but not compared with its report.)
\<close>

theorem complete_receipt_budget:
  assumes "invoke cfg fs ports request authority registry now s = Some (Inr r, ev, s')"
    "is_complete r" "dr_hard_total_token_ceiling request = Some ceiling"
  shows "\<exists>m q cred out. dl_outcome r = Outcome_Complete m
    \<and> provider_invoke ports q cred = Inr out \<and> o_enforced_token_ceiling out = Some ceiling
    \<and> q_hard_total_token_ceiling q = Some ceiling
    \<and> or_zero (im_actual_input_tokens m) + or_zero (im_actual_output_tokens m) \<le> ceiling
    \<and> or_zero (im_actual_input_tokens m) + or_zero (im_actual_output_tokens m) \<le> u64_max"
proof -
  obtain d where d: "completion_ok fs ports request registry now s s' r d"
    using invoke_complete [OF assms(1,2)] by blast
  then obtain q cred where q: "build_provider_request request (cp_admitted d) (aso_payload (cp_input d)) = Inr q"
    "provider_invoke ports q cred = Inr (cp_answer d)"
    by (auto simp: completion_ok_def Let_def)
  have "enforced_token_budget request (cp_answer d) = None"
    using d by (auto simp: completion_ok_def answer_failure_def Let_def split: if_splits option.splits)
  then have b: "o_enforced_token_ceiling (cp_answer d) = Some ceiling"
    "or_zero (o_actual_input_tokens (cp_answer d)) + or_zero (o_actual_output_tokens (cp_answer d)) \<le> ceiling"
    "or_zero (o_actual_input_tokens (cp_answer d)) + or_zero (o_actual_output_tokens (cp_answer d)) \<le> u64_max"
    using assms(3)
    by (auto simp: enforced_token_budget_def checked_add_u64_def not_less split: if_splits option.splits)
  have "\<exists>m. dl_outcome r = Outcome_Complete m
      \<and> im_actual_input_tokens m = o_actual_input_tokens (cp_answer d)
      \<and> im_actual_output_tokens m = o_actual_output_tokens (cp_answer d)"
    using d by (auto simp: completion_ok_def Let_def dest: complete_receipt_Inr)
  with b q build_provider_request_Inr [OF q(1)] assms(3) show ?thesis by metis
qed



section \<open>Witnesses\<close>

text \<open>One port for all of them; the policy PublicOff never calls it.\<close>

definition silent_port :: sqz_port where
  "silent_port = (\<lambda>_. (Inl (SqzPortError Port_Timeout), 0))"

theorem invoke_returns_receipt_witness:
  "\<exists>r ev s'. invoke demo_runtime grounded_fs (grounded_ports silent_port)
      (grounded_request grounded_digest) demo_authority demo_profiles 0 demo_results
      = Some (Inr r, ev, s') \<and> store_inv s'"
proof -
  have "\<forall>q c out. (\<lambda>q c. Inr (grounded_answer grounded_digest)) q c = Inr out \<longrightarrow> output_ok out"
    "\<forall>p. snd (silent_port p) \<le> u64_max"
    using grounded_output_ok by (simp_all add: silent_port_def)
  from invoke_returns_receipt [OF grounded_request_new demo_values(3) demo_results_inv this,
      of demo_runtime grounded_fs fixture_auth PublicOff 65536 grounded_digest demo_authority 0]
  show ?thesis unfolding grounded_ports_def by blast
qed

theorem complete_receipt_stored_witness:
  "\<exists>(stored :: stored_result_ref) s' s''. sr_result_id stored = id_sha256 (encode_canonical grounded_inline)
     \<and> get s' (sr_result_id stored) 0 = Some (Inr (encode_canonical grounded_inline), s'')"
proof -
  obtain r ev s' where i: "invoke demo_runtime grounded_fs (grounded_ports silent_port)
      (grounded_request grounded_digest) demo_authority demo_profiles 0 demo_results = Some (Inr r, ev, s')"
    "is_complete r" "dl_inline_result r = Some grounded_inline" using grounded_invoke by blast
  have "\<forall>q c out. provider_invoke (grounded_ports silent_port) q c = Inr out \<longrightarrow> output_ok out"
    using grounded_output_ok by (simp add: grounded_ports_def agent_ports_of_def)
  from complete_receipt_stored [OF i(1,2) demo_results_inv grounded_wired(1) this]
  obtain inline and stored :: stored_result_ref and s'' where s: "dl_inline_result r = Some inline"
    "sr_result_id stored = id_sha256 (encode_canonical inline)"
    "get s' (sr_result_id stored) 0 = Some (Inr (encode_canonical inline), s'')" by blast
  from s(1) i(3) have "inline = grounded_inline" by simp
  with s(2,3) show ?thesis by blast
qed

theorem complete_receipt_grounded_witness:
  "\<exists>b. read_current_file grounded_fs ''/r'' ''a/b'' = Some b \<and> contains b grounded_fact"
proof -
  obtain r ev s' where i: "invoke demo_runtime grounded_fs (grounded_ports silent_port)
      (grounded_request grounded_digest) demo_authority demo_profiles 0 demo_results = Some (Inr r, ev, s')"
    "is_complete r" "dl_inline_result r = Some grounded_inline" using grounded_invoke by blast
  have f: "gc_root (grounded_contract grounded_digest) = Some ''/r''"
    "ir_claims grounded_inline = [grounded_claim grounded_digest]"
    "cl_locator (grounded_claim grounded_digest) = ''a/b''"
    "cl_text (grounded_claim grounded_digest) = grounded_fact"
    by (simp_all add: grounded_contract_def grounded_inline_def grounded_claim_def)
  from complete_receipt_grounded [OF i(1,2)] i(3) show ?thesis
    by (auto simp: grounded_facts f)
qed

theorem complete_receipt_budget_witness:
  "\<exists>r ev s'. invoke demo_runtime grounded_fs (grounded_ports silent_port)
      (grounded_request grounded_digest) demo_authority demo_profiles 0 demo_results = Some (Inr r, ev, s')
    \<and> (\<exists>m. dl_outcome r = Outcome_Complete m
         \<and> or_zero (im_actual_input_tokens m) + or_zero (im_actual_output_tokens m) \<le> 100)"
proof -
  obtain r ev s' where i: "invoke demo_runtime grounded_fs (grounded_ports silent_port)
      (grounded_request grounded_digest) demo_authority demo_profiles 0 demo_results = Some (Inr r, ev, s')"
    "is_complete r" using grounded_invoke by blast
  from complete_receipt_budget [OF i, of 100] i show ?thesis by (auto simp: grounded_facts)
qed


section \<open>The fixture paths\<close>

text \<open>
  The fixture request runs from end to end on the fixture ports: with and without
  execution attestation the receipt is built (no expectation fails), is Complete, carries
  the fixture's answer, and only the attested run shows an effective model.
\<close>

theorem connected_receipts_complete:
  "\<exists>r u. connected_receipt fs = Some r \<and> connected_unattested_receipt fs = Some u
    \<and> is_complete r \<and> is_complete u
    \<and> dl_inline_result r = Some demo_inline \<and> dl_inline_result u = Some demo_inline
    \<and> ee_model (dl_effective r) = Attested ''fixture-sol''
    \<and> ee_model (dl_effective u) = AttUnavailable"
proof -
  have c: "\<exists>r. connected_receipt_for fs demo_delegation attested = Some r \<and> is_complete r
      \<and> dl_inline_result r = Some demo_inline
      \<and> ee_model (dl_effective r) = (if attested then Attested ''fixture-sol'' else AttUnavailable)"
    for attested
  proof -
    obtain r ev s' where i: "invoke demo_runtime fs (fixture_ports attested ''sol'') demo_delegation
        demo_authority demo_profiles 0 demo_results = Some (Inr r, ev, s')" "is_complete r"
      "dl_inline_result r = Some demo_inline"
      "dl_effective r = provider_effective (ad_profile demo_admitted) (ad_provider demo_admitted)
        (demo_answer attested) (dr_tool_policy demo_delegation) demo_profiles"
      using demo_invoke by blast
    have "connected_receipt_for fs demo_delegation attested = Some r"
      using i(1) by (simp add: connected_receipt_for_def connected_run_def demo_values
          demo_request_facts demo_authority_def [symmetric] expect_ok_def [of "Inr r"] del: One_nat_def)
    with i demo_effective show ?thesis by simp
  qed
  from c [of True] c [of False] show ?thesis
    by (auto simp: connected_receipt_def connected_unattested_receipt_def demo_values)
qed

text \<open>
  The headless path reaches no port and stores nothing: for every accepted request the
  receipt is Incomplete, with the code ExplicitOffline when offline was asked for and
  AgentDisabled otherwise.
\<close>

theorem headless_receipts:
  assumes "request_new name prompt options = Some request"
  shows "\<exists>r s. headless_run fs request offline = Some (Inr r, [], s) \<and> s_entries s = []
    \<and> headless_incomplete_receipt_for fs request offline = Some r
    \<and> failed_with r (if offline then F_ExplicitOffline else F_AgentDisabled)"
proof -
  obtain q where q: "requested_of request None None None = Inr q"
    using requested_of_valid [OF assms, of None None None] by (auto simp: bad_identity_def)
  define f where "f = (if offline then F_ExplicitOffline else F_AgentDisabled)"
  have "headless_run fs request offline = Some (early request q f, [], demo_results)"
    by (cases offline) (simp_all add: headless_run_def demo_values invoke_def admit_def q f_def
        demo_runtime_def default_config_def del: One_nat_def)
  moreover obtain r where "early request q f = Inr r" by (simp add: early_def incomplete_no_sqz)
  moreover from this have "failed_with r f" by (auto simp: early_def dest: incomplete_failed)
  moreover have "s_entries demo_results = []" by (simp add: demo_results_def)
  ultimately show ?thesis by (simp add: headless_incomplete_receipt_for_def expect_ok_def f_def)
qed

theorem headless_receipts_witness:
  "headless_incomplete_receipt_for grounded_fs demo_delegation True \<noteq> None"
  using headless_receipts [OF demo_values(1) [unfolded fixture_request_def], of grounded_fs True] by auto

end
