(* ===== verification/Graph.thy ===== *)
theory Graph
  imports Graph_Model "HOL-Library.Multiset"
begin

text \<open>
  The immutable topology of \<open>graph/mod.rs\<close>: \<open>KnowledgeGraph::build\<close> sorts the nodes and
  the edges by identity, indexes them and refuses duplicates, dangling sources and targets
  whose certainty contradicts their presence. The hash maps are used by key alone and are
  ordered association lists here. The lemmas show that a graph is built exactly when the
  input is well formed, that its lookups and adjacency lists are those of the input, and
  that the order of the input records does not matter.
\<close>

section \<open>Building a graph\<close>

record knowledge_graph =
  kg_nodes :: "node_input list"
  kg_node_index :: "(str, nat) omap"
  kg_edges :: "edge_input list"
  kg_edge_index :: "(str, nat) omap"
  kg_forward :: "(str, str list) omap"
  kg_reverse :: "(str, str list) omap"

fun index_nodes ::
  "nat \<Rightarrow> node_input list \<Rightarrow> (str, nat) omap \<Rightarrow> graph_error + (str, nat) omap" where
  "index_nodes position [] m = Inr m"
| "index_nodes position (n # ns) m =
     (if om_get m (n_id n) \<noteq> None then Inl (DuplicateNodeId (n_id n))
      else index_nodes (Suc position) ns (om_put (n_id n) position m))"

definition push_entry :: "(str, str list) omap \<Rightarrow> str \<Rightarrow> str \<Rightarrow> (str, str list) omap" where
  "push_entry m key value =
     om_put key ((case om_get m key of None \<Rightarrow> [] | Some vs \<Rightarrow> vs) @ [value]) m"

record edge_indexes =
  ei_index :: "(str, nat) omap"
  ei_forward :: "(str, str list) omap"
  ei_reverse :: "(str, str list) omap"

definition no_edges :: edge_indexes where
  "no_edges = \<lparr>ei_index = [], ei_forward = [], ei_reverse = []\<rparr>"

definition add_edge :: "nat \<Rightarrow> edge_input \<Rightarrow> edge_indexes \<Rightarrow> edge_indexes" where
  "add_edge position e s =
     \<lparr>ei_index = om_put (e_id e) position (ei_index s),
      ei_forward = push_entry (ei_forward s) (e_source e) (e_id e),
      ei_reverse = push_entry (ei_reverse s) (e_target e) (e_id e)\<rparr>"

fun index_edges ::
  "(str, nat) omap \<Rightarrow> nat \<Rightarrow> edge_input list \<Rightarrow> edge_indexes \<Rightarrow> graph_error + edge_indexes" where
  "index_edges nodes position [] s = Inr s"
| "index_edges nodes position (e # es) s =
     (let target_present = om_get nodes (e_target e) \<noteq> None in
      if om_get nodes (e_source e) = None then Inl (MissingSource (e_source e))
      else if \<not> target_present \<and> e_certainty e \<noteq> Cert_MissingTarget
      then Inl (MissingTargetMustBeExplicit (e_id e) (e_target e))
      else if target_present \<and> e_certainty e = Cert_MissingTarget
      then Inl (MissingTargetMustBeAbsent (e_id e) (e_target e))
      else if om_get (ei_index s) (e_id e) \<noteq> None then Inl (DuplicateEdgeId (e_id e))
      else index_edges nodes (Suc position) es (add_edge position e s))"

definition graph_build :: "graph_input \<Rightarrow> graph_limits \<Rightarrow> graph_error + knowledge_graph" where
  "graph_build input limits =
     (if length (gi_nodes input) > gl_max_nodes limits
      then Inl (NodeLimitExceeded (gl_max_nodes limits) (length (gi_nodes input)))
      else if length (gi_edges input) > gl_max_edges limits
      then Inl (EdgeLimitExceeded (gl_max_edges limits) (length (gi_edges input)))
      else let nodes = sort_key n_id (gi_nodes input); edges = sort_key e_id (gi_edges input) in
        res_bind (index_nodes 0 nodes []) (\<lambda>node_index.
        res_bind (index_edges node_index 0 edges no_edges) (\<lambda>s.
          Inr \<lparr>kg_nodes = nodes, kg_node_index = node_index, kg_edges = edges,
               kg_edge_index = ei_index s, kg_forward = ei_forward s,
               kg_reverse = ei_reverse s\<rparr>)))"

definition graph_node :: "knowledge_graph \<Rightarrow> str \<Rightarrow> node_input option" where
  "graph_node g i = map_option (\<lambda>p. kg_nodes g ! p) (om_get (kg_node_index g) i)"
definition graph_edge :: "knowledge_graph \<Rightarrow> str \<Rightarrow> edge_input option" where
  "graph_edge g i = map_option (\<lambda>p. kg_edges g ! p) (om_get (kg_edge_index g) i)"
definition graph_node_ids :: "knowledge_graph \<Rightarrow> str list" where
  "graph_node_ids g = map n_id (kg_nodes g)"
definition graph_edge_ids :: "knowledge_graph \<Rightarrow> str list" where
  "graph_edge_ids g = map e_id (kg_edges g)"
definition forward_edges :: "knowledge_graph \<Rightarrow> str \<Rightarrow> str list" where
  "forward_edges g i = (case om_get (kg_forward g) i of None \<Rightarrow> [] | Some es \<Rightarrow> es)"
definition reverse_edges :: "knowledge_graph \<Rightarrow> str \<Rightarrow> str list" where
  "reverse_edges g i = (case om_get (kg_reverse g) i of None \<Rightarrow> [] | Some es \<Rightarrow> es)"

section \<open>When a graph is built, and what it holds\<close>

text \<open>The well-formedness of an input, without the order of the checks.\<close>

definition edge_ok :: "str set \<Rightarrow> edge_input \<Rightarrow> bool" where
  "edge_ok ids e \<longleftrightarrow> e_source e \<in> ids
     \<and> (e_target e \<in> ids \<longleftrightarrow> e_certainty e \<noteq> Cert_MissingTarget)"

definition graph_input_ok :: "graph_input \<Rightarrow> graph_limits \<Rightarrow> bool" where
  "graph_input_ok i l \<longleftrightarrow> length (gi_nodes i) \<le> gl_max_nodes l
     \<and> length (gi_edges i) \<le> gl_max_edges l
     \<and> distinct (map n_id (gi_nodes i)) \<and> distinct (map e_id (gi_edges i))
     \<and> list_all (edge_ok (n_id ` set (gi_nodes i))) (gi_edges i)"

lemma index_nodes_ids:
  "map n_id ns = map n_id ms \<Longrightarrow> index_nodes p ns m = index_nodes p ms m"
proof (induction ns arbitrary: p ms m)
  case (Cons n ns)
  then obtain x xs where "ms = x # xs" "n_id x = n_id n" "map n_id ns = map n_id xs"
    by (cases ms) auto
  with Cons.IH [of xs] show ?case by simp
qed simp

lemma index_nodes_ok:
  "is_ok (index_nodes p ns m) \<longleftrightarrow> distinct (map n_id ns) \<and> (\<forall>n \<in> set ns. om_get m (n_id n) = None)"
  by (induction p ns m rule: index_nodes.induct) (auto simp: om_get_put image_iff)

lemma index_nodes_get:
  assumes "index_nodes p ns m = Inr r"
  shows "\<forall>k < length ns. om_get r (n_id (ns ! k)) = Some (p + k)"
    and "\<forall>i. i \<notin> n_id ` set ns \<longrightarrow> om_get r i = om_get m i"
  using assms
proof (induction p ns m rule: index_nodes.induct)
  case (2 p n ns m)
  {
    case 1
    then have r: "index_nodes (Suc p) ns (om_put (n_id n) p m) = Inr r" "om_get m (n_id n) = None"
      by (simp_all split: if_splits)
    then have "n_id n \<notin> n_id ` set ns"
      using index_nodes_ok [of "Suc p" ns "om_put (n_id n) p m"]
      by (auto simp: om_get_put split: if_splits)
    with r 2 show ?case by (auto simp: om_get_put nth_Cons split: nat.split)
  next
    case 2
    with "2.IH" show ?case by (auto simp: om_get_put split: if_splits)
  }
qed simp_all

text \<open>An absent adjacency entry reads as the empty list.\<close>

definition entry :: "(str, str list) omap \<Rightarrow> str \<Rightarrow> str list" where
  "entry m i = (case om_get m i of None \<Rightarrow> [] | Some es \<Rightarrow> es)"

lemma entry_push: "entry (push_entry m k v) i = entry m i @ (if i = k then [v] else [])"
  by (simp add: entry_def push_entry_def om_get_put split: option.split)

lemma add_edge_sel [simp]:
  "ei_index (add_edge p e s) = om_put (e_id e) p (ei_index s)"
  "ei_forward (add_edge p e s) = push_entry (ei_forward s) (e_source e) (e_id e)"
  "ei_reverse (add_edge p e s) = push_entry (ei_reverse s) (e_target e) (e_id e)"
  by (simp_all add: add_edge_def)

lemma index_edges_ok:
  "is_ok (index_edges nodes p es s) \<longleftrightarrow>
     list_all (edge_ok {i. om_get nodes i \<noteq> None}) es
     \<and> distinct (map e_id es) \<and> (\<forall>e \<in> set es. om_get (ei_index s) (e_id e) = None)"
  by (induction nodes p es s rule: index_edges.induct)
    (auto simp: om_get_put image_iff edge_ok_def Let_def)

lemma index_edges_get:
  assumes "index_edges nodes p es s = Inr t"
  shows "\<forall>k < length es. om_get (ei_index t) (e_id (es ! k)) = Some (p + k)"
    and "\<forall>i. i \<notin> e_id ` set es \<longrightarrow> om_get (ei_index t) i = om_get (ei_index s) i"
    and "entry (ei_forward t) i = entry (ei_forward s) i @ map e_id (filter (\<lambda>e. e_source e = i) es)"
    and "entry (ei_reverse t) i = entry (ei_reverse s) i @ map e_id (filter (\<lambda>e. e_target e = i) es)"
  using assms
proof (induction nodes p es s rule: index_edges.induct)
  case (2 nodes p e es s)
  {
    case 1
    then have t: "index_edges nodes (Suc p) es (add_edge p e s) = Inr t"
      by (simp add: Let_def split: if_splits)
    then have "e_id e \<notin> e_id ` set es"
      using index_edges_ok [of nodes "Suc p" es "add_edge p e s"]
      by (auto simp: om_get_put split: if_splits)
    with t 1 "2.IH" show ?case by (auto simp: Let_def om_get_put nth_Cons split: nat.split if_splits)
  next
    case 2
    with "2.IH" show ?case by (auto simp: Let_def om_get_put split: if_splits)
  next
    case 3
    with "2.IH" show ?case by (auto simp: Let_def entry_push split: if_splits)
  next
    case 4
    with "2.IH" show ?case by (auto simp: Let_def entry_push split: if_splits)
  }
qed simp_all

lemma map_sort_key: "map f (sort_key f xs) = sort (map f xs)"
  by (rule properties_for_sort [symmetric]) simp_all

lemma find_distinct:
  "distinct (map f xs) \<Longrightarrow> find (\<lambda>x. f x = i) xs = Some x \<longleftrightarrow> x \<in> set xs \<and> f x = i"
  by (induction xs) auto

lemma distinct_map_mset: "mset xs = mset ys \<Longrightarrow> distinct (map f xs) = distinct (map f ys)"
  by (metis mset_map mset_eq_imp_distinct_iff)

lemma find_mset:
  assumes "distinct (map f xs)" "mset ys = mset xs"
  shows "find (\<lambda>x. f x = i) ys = find (\<lambda>x. f x = i) xs"
proof -
  have "find (\<lambda>x. f x = i) ys = Some x \<longleftrightarrow> find (\<lambda>x. f x = i) xs = Some x" for x
    using assms distinct_map_mset [OF assms(2), of f] mset_eq_setD [OF assms(2)]
    by (simp add: find_distinct)
  then show ?thesis by (metis option.exhaust)
qed

lemma sort_key_distinct_eq:
  assumes "mset xs = mset ys" "distinct (map f xs)"
  shows "sort_key f xs = sort_key f ys"
proof (rule map_inj_on [of f])
  show "map f (sort_key f xs) = map f (sort_key f ys)"
    using assms(1) by (simp add: map_sort_key) (metis mset_map sorted_list_of_multiset_mset)
  show "inj_on f (set (sort_key f xs) \<union> set (sort_key f ys))"
    using assms by (metis distinct_map mset_eq_setD set_sort sup.idem)
qed

lemma position_lookup:
  assumes "distinct (map f xs)" "\<forall>k < length xs. get (f (xs ! k)) = Some k"
    "\<forall>i. i \<notin> f ` set xs \<longrightarrow> get i = None"
  shows "map_option (\<lambda>p. xs ! p) (get i) = find (\<lambda>x. f x = i) xs"
proof (cases "i \<in> f ` set xs")
  case True
  then obtain k where "k < length xs" "i = f (xs ! k)" by (auto simp: in_set_conv_nth)
  then show ?thesis using assms(1,2) find_distinct [of f xs i "xs ! k"] by simp
next
  case False
  then have "find (\<lambda>x. f x = i) xs = None" by (auto simp: find_None_iff)
  with False show ?thesis using assms(3) by simp
qed


lemma graph_build_Inr:
  assumes "graph_build i l = Inr g"
  obtains m s where "index_nodes 0 (sort_key n_id (gi_nodes i)) [] = Inr m"
    "index_edges m 0 (sort_key e_id (gi_edges i)) no_edges = Inr s"
    "g = \<lparr>kg_nodes = sort_key n_id (gi_nodes i), kg_node_index = m,
          kg_edges = sort_key e_id (gi_edges i), kg_edge_index = ei_index s,
          kg_forward = ei_forward s, kg_reverse = ei_reverse s\<rparr>"
  using assms by (auto simp: graph_build_def Let_def res_simps split: if_splits)

lemma index_nodes_dom:
  "index_nodes 0 ns [] = Inr m \<Longrightarrow> {i. om_get m i \<noteq> None} = n_id ` set ns"
  using index_nodes_get [of 0 ns "[]" m] by (fastforce simp: in_set_conv_nth)

lemma graph_build_ok: "is_ok (graph_build i l) \<longleftrightarrow> graph_input_ok i l"
proof (cases "index_nodes 0 (sort_key n_id (gi_nodes i)) []")
  case (Inl e)
  then have "\<not> distinct (map n_id (sort_key n_id (gi_nodes i)))"
    using index_nodes_ok [of 0 "sort_key n_id (gi_nodes i)" "[]"] by auto
  then have "\<not> graph_input_ok i l"
    using distinct_map_mset [of "sort_key n_id (gi_nodes i)" "gi_nodes i" n_id]
    by (simp add: graph_input_ok_def)
  with Inl show ?thesis by (simp add: graph_build_def Let_def)
next
  case (Inr m)
  have "distinct (map n_id (gi_nodes i))"
    using index_nodes_ok [of 0 "sort_key n_id (gi_nodes i)" "[]"] Inr
      distinct_map_mset [of "sort_key n_id (gi_nodes i)" "gi_nodes i" n_id] by simp
  moreover have "is_ok (index_edges m 0 (sort_key e_id (gi_edges i)) no_edges)
      \<longleftrightarrow> list_all (edge_ok (n_id ` set (gi_nodes i))) (gi_edges i) \<and> distinct (map e_id (gi_edges i))"
    using distinct_map_mset [of "sort_key e_id (gi_edges i)" "gi_edges i" e_id]
      index_nodes_dom [OF Inr] by (simp add: index_edges_ok no_edges_def list_all_iff)
  ultimately show ?thesis using Inr
    by (auto simp: graph_build_def graph_input_ok_def Let_def is_ok_iff res_simps)
qed

lemma graph_built:
  assumes "graph_build i l = Inr g"
  shows "graph_node g j = find (\<lambda>n. n_id n = j) (gi_nodes i)"
    and "graph_edge g j = find (\<lambda>e. e_id e = j) (gi_edges i)"
    and "forward_edges g j = sort (map e_id (filter (\<lambda>e. e_source e = j) (gi_edges i)))"
    and "reverse_edges g j = sort (map e_id (filter (\<lambda>e. e_target e = j) (gi_edges i)))"
    and "graph_node_ids g = sort (map n_id (gi_nodes i))"
    and "graph_edge_ids g = sort (map e_id (gi_edges i))"
proof -
  obtain m s where m: "index_nodes 0 (sort_key n_id (gi_nodes i)) [] = Inr m"
    and s: "index_edges m 0 (sort_key e_id (gi_edges i)) no_edges = Inr s"
    and g: "g = \<lparr>kg_nodes = sort_key n_id (gi_nodes i), kg_node_index = m,
          kg_edges = sort_key e_id (gi_edges i), kg_edge_index = ei_index s,
          kg_forward = ei_forward s, kg_reverse = ei_reverse s\<rparr>"
    using graph_build_Inr [OF assms] .
  have d: "distinct (map n_id (sort_key n_id (gi_nodes i)))"
    "distinct (map e_id (sort_key e_id (gi_edges i)))"
    using m s index_nodes_ok [of 0 "sort_key n_id (gi_nodes i)" "[]"]
      index_edges_ok [of m 0 "sort_key e_id (gi_edges i)" no_edges] by simp_all
  show "graph_node g j = find (\<lambda>n. n_id n = j) (gi_nodes i)"
    using position_lookup [OF d(1), of "om_get m" j] index_nodes_get [OF m]
      find_mset [of n_id "gi_nodes i" "sort_key n_id (gi_nodes i)" j]
      d(1) distinct_map_mset [of "sort_key n_id (gi_nodes i)" "gi_nodes i" n_id]
    by (simp add: graph_node_def g)
  show "graph_edge g j = find (\<lambda>e. e_id e = j) (gi_edges i)"
    using position_lookup [OF d(2), of "om_get (ei_index s)" j] index_edges_get(1,2) [OF s]
      find_mset [of e_id "gi_edges i" "sort_key e_id (gi_edges i)" j]
      d(2) distinct_map_mset [of "sort_key e_id (gi_edges i)" "gi_edges i" e_id]
    by (simp add: graph_edge_def g no_edges_def)
  show "forward_edges g j = sort (map e_id (filter (\<lambda>e. e_source e = j) (gi_edges i)))"
    "reverse_edges g j = sort (map e_id (filter (\<lambda>e. e_target e = j) (gi_edges i)))"
    using index_edges_get(3,4) [OF s, of j]
    by (simp_all add: forward_edges_def reverse_edges_def entry_def g no_edges_def
        filter_sort map_sort_key)
  show "graph_node_ids g = sort (map n_id (gi_nodes i))" "graph_edge_ids g = sort (map e_id (gi_edges i))"
    by (simp_all add: graph_node_ids_def graph_edge_ids_def g map_sort_key)
qed

text \<open>
  C6. A knowledge graph is built exactly when the input is within its limits, node and edge
  identities are distinct, every source is a node, and every target is a node unless the
  edge says that it is missing. The graph then finds exactly the records of the input by
  their identity, lists the identities in order, and its forward and reverse adjacency
  lists are exactly the identities, in order, of the edges that leave or enter a node.
\<close>

theorem graph_build_exact:
  "case graph_build input limits of
     Inl e \<Rightarrow> \<not> graph_input_ok input limits
   | Inr g \<Rightarrow> graph_input_ok input limits
       \<and> graph_node_ids g = sort (map n_id (gi_nodes input))
       \<and> graph_edge_ids g = sort (map e_id (gi_edges input))
       \<and> (\<forall>i. graph_node g i = find (\<lambda>n. n_id n = i) (gi_nodes input)
            \<and> graph_edge g i = find (\<lambda>e. e_id e = i) (gi_edges input)
            \<and> forward_edges g i
                = sort (map e_id (filter (\<lambda>e. e_source e = i) (gi_edges input)))
            \<and> reverse_edges g i
                = sort (map e_id (filter (\<lambda>e. e_target e = i) (gi_edges input))))"
  using graph_build_ok [of input limits] graph_built [of input limits]
  by (cases "graph_build input limits") (simp_all add: is_ok_def)

text \<open>
  The graph depends on the records of the input and not on their order: two inputs with
  the same nodes and the same edges, the edges with distinct identities, build the same
  graph or fail with the same error.
\<close>

theorem graph_order_irrelevant:
  assumes "mset (gi_nodes i) = mset (gi_nodes j)" "mset (gi_edges i) = mset (gi_edges j)"
    "distinct (map e_id (gi_edges i))"
  shows "graph_build i limits = graph_build j limits"
proof -
  have e: "sort_key e_id (gi_edges i) = sort_key e_id (gi_edges j)"
    by (rule sort_key_distinct_eq [OF assms(2,3)])
  have len: "length (gi_nodes i) = length (gi_nodes j)" "length (gi_edges i) = length (gi_edges j)"
    using assms(1,2) by (metis size_mset)+
  have n: "index_nodes 0 (sort_key n_id (gi_nodes i)) [] = index_nodes 0 (sort_key n_id (gi_nodes j)) []"
    by (rule index_nodes_ids, simp add: map_sort_key)
      (metis assms(1) mset_map sorted_list_of_multiset_mset)
  show ?thesis
  proof (cases "distinct (map n_id (gi_nodes i))")
    case True
    from sort_key_distinct_eq [OF assms(1) this] e len show ?thesis by (simp add: graph_build_def)
  next
    case False
    then obtain d where "index_nodes 0 (sort_key n_id (gi_nodes i)) [] = Inl d"
      using index_nodes_ok [of 0 "sort_key n_id (gi_nodes i)" "[]"]
        distinct_map_mset [of "sort_key n_id (gi_nodes i)" "gi_nodes i" n_id]
      by (cases "index_nodes 0 (sort_key n_id (gi_nodes i)) []") auto
    moreover from this n have "index_nodes 0 (sort_key n_id (gi_nodes j)) [] = Inl d" by simp
    ultimately show ?thesis using e len by (simp add: graph_build_def)
  qed
qed

definition demo_provenance :: provenance where
  "demo_provenance = \<lparr>pv_source = ''scanner'', pv_locator = ''a.md''\<rparr>"

definition demo_node :: "str \<Rightarrow> node_input" where
  "demo_node i = node_input_new i Role_Document demo_provenance 90"

definition demo_edge :: "str \<Rightarrow> str \<Rightarrow> str \<Rightarrow> edge_input" where
  "demo_edge i s t = with_relationship
     (edge_input_new i s t demo_provenance 80 Cert_Known) Rel_Dependency"

definition demo_graph :: graph_input where
  "demo_graph = \<lparr>gi_nodes = [demo_node ''b'', demo_node ''a'', demo_node ''c''],
     gi_edges = [demo_edge ''bc'' ''b'' ''c'', demo_edge ''ab'' ''a'' ''b'']\<rparr>"

definition demo_graph_swapped :: graph_input where
  "demo_graph_swapped = \<lparr>gi_nodes = [demo_node ''c'', demo_node ''a'', demo_node ''b''],
     gi_edges = [demo_edge ''ab'' ''a'' ''b'', demo_edge ''bc'' ''b'' ''c'']\<rparr>"

theorem graph_order_irrelevant_witness:
  "is_ok (graph_build demo_graph \<lparr>gl_max_nodes = 3, gl_max_edges = 2\<rparr>)
   \<and> graph_build demo_graph \<lparr>gl_max_nodes = 3, gl_max_edges = 2\<rparr>
     = graph_build demo_graph_swapped \<lparr>gl_max_nodes = 3, gl_max_edges = 2\<rparr>"
proof
  show "is_ok (graph_build demo_graph \<lparr>gl_max_nodes = 3, gl_max_edges = 2\<rparr>)"
    unfolding graph_build_ok by code_simp
  show "graph_build demo_graph \<lparr>gl_max_nodes = 3, gl_max_edges = 2\<rparr>
      = graph_build demo_graph_swapped \<lparr>gl_max_nodes = 3, gl_max_edges = 2\<rparr>"
    by (rule graph_order_irrelevant) (simp_all add: demo_graph_def demo_graph_swapped_def demo_edge_def
        with_relationship_def edge_input_new_def add_mset_commute)
qed

end
