(* ===== verification/View.thy ===== *)
theory View
  imports Graph Json "HOL-Library.Option_ord" "HOL-Library.Product_Lexorder"
begin

text \<open>
  Persistent knowledge views, \<open>view/mod.rs\<close>: the declaration of a view and its validation,
  and the compiler that selects, filters, sorts, groups, projects and bounds the nodes of a
  graph. The lemmas show that validation is the order-free bound on the declaration, that
  the compiled items are the longest prefix of the sorted matching nodes that fits both
  ceilings, and that the canonical item bytes determine the item.
\<close>

section \<open>Declarations\<close>

datatype view_source =
    Src_All
  | Src_NodeIds "str list"
  | Src_Roles "node_role list"
  | Src_ProvenanceSourceContains str
  | Src_SemanticFieldValue str str

datatype view_filter =
    Flt_All
  | Flt_Role node_role
  | Flt_IdPrefix str
  | Flt_ProvenanceSourceContains str
  | Flt_ProvenanceLocatorContains str
  | Flt_MinimumConfidence nat
  | Flt_SemanticFieldValue str str
  | Flt_AllOf "view_filter list"
  | Flt_AnyOf "view_filter list"
  | Flt_Not view_filter

datatype view_sort =
    Sort_NodeId | Sort_RoleThenNodeId | Sort_ProvenanceSourceThenNodeId
  | Sort_ConfidenceDescendingThenNodeId | Sort_SemanticFieldThenNodeId str

datatype view_grouping = Grp_None | Grp_Role | Grp_ProvenanceSource | Grp_SemanticField str

datatype view_field =
    Fld_NodeId | Fld_Role | Fld_ProvenanceSource | Fld_ProvenanceLocator | Fld_Confidence
  | Fld_SemanticField str

datatype presentation = Pres_Markdown | Pres_Json | Pres_Terminal | Pres_Obsidian

record view_spec =
  vs_source :: view_source
  vs_filter :: view_filter
  vs_sort :: view_sort
  vs_grouping :: view_grouping
  vs_fields :: "view_field list"
  vs_presentation :: presentation
  vs_max_items :: nat
  vs_max_bytes :: nat

definition MAX_SOURCE_NODE_IDS :: nat where "MAX_SOURCE_NODE_IDS = 256"
definition MAX_SOURCE_ROLES :: nat where "MAX_SOURCE_ROLES = 16"
definition MAX_PROJECTED_FIELDS :: nat where "MAX_PROJECTED_FIELDS = 64"
definition MAX_FILTER_DEPTH :: nat where "MAX_FILTER_DEPTH = 16"
definition MAX_FILTER_CLAUSES :: nat where "MAX_FILTER_CLAUSES = 128"
definition MAX_OUTPUT_ITEMS :: nat where "MAX_OUTPUT_ITEMS = 4096"
definition MAX_OUTPUT_BYTES :: nat where "MAX_OUTPUT_BYTES = 1048576"
definition MAX_DECLARATION_STRING_BYTES :: nat where "MAX_DECLARATION_STRING_BYTES = 256"

lemmas view_limits = MAX_SOURCE_NODE_IDS_def MAX_SOURCE_ROLES_def MAX_PROJECTED_FIELDS_def
  MAX_FILTER_DEPTH_def MAX_FILTER_CLAUSES_def MAX_OUTPUT_ITEMS_def MAX_OUTPUT_BYTES_def
  MAX_DECLARATION_STRING_BYTES_def

datatype view_error =
    SourceNodeIdLimitExceeded nat nat
  | SourceRoleLimitExceeded nat nat
  | ProjectedFieldLimitExceeded nat nat
  | FilterDepthLimitExceeded nat nat
  | FilterClauseLimitExceeded nat nat
  | OutputItemLimitExceeded nat nat
  | OutputByteLimitExceeded nat nat
  | InvalidDeclarationString str nat nat

section \<open>Validation\<close>

definition validate_declaration_string :: "str \<Rightarrow> str \<Rightarrow> nat \<Rightarrow> view_error + unit" where
  "validate_declaration_string value field limit =
     (if trim value = [] \<or> length value > limit
      then Inl (InvalidDeclarationString field limit (length value)) else Inr ())"

definition validate_semantic_key :: "str \<Rightarrow> str \<Rightarrow> view_error + unit" where
  "validate_semantic_key key field = validate_declaration_string key field MAX_FIELD_KEY_BYTES"

definition validate_semantic_selector :: "str \<Rightarrow> str \<Rightarrow> str \<Rightarrow> view_error + unit" where
  "validate_semantic_selector key value field =
     res_bind (validate_semantic_key key field) (\<lambda>_.
       validate_declaration_string value field MAX_VALUE_BYTES)"

text \<open>The counter of clauses is passed in and returned.\<close>

fun validate_filter :: "view_filter \<Rightarrow> nat \<Rightarrow> nat \<Rightarrow> view_error + nat"
and validate_filters :: "view_filter list \<Rightarrow> nat \<Rightarrow> nat \<Rightarrow> view_error + nat" where
  "validate_filter f depth clauses0 =
     (if depth > MAX_FILTER_DEPTH then Inl (FilterDepthLimitExceeded MAX_FILTER_DEPTH depth)
      else let clauses = saturating_add clauses0 1 in
      if clauses > MAX_FILTER_CLAUSES
      then Inl (FilterClauseLimitExceeded MAX_FILTER_CLAUSES clauses)
      else (case f of
          Flt_IdPrefix value \<Rightarrow>
            res_bind (validate_declaration_string value ''filter.id_prefix''
              MAX_DECLARATION_STRING_BYTES) (\<lambda>_. Inr clauses)
        | Flt_ProvenanceSourceContains value \<Rightarrow>
            res_bind (validate_declaration_string value ''filter.provenance_source_contains''
              MAX_DECLARATION_STRING_BYTES) (\<lambda>_. Inr clauses)
        | Flt_ProvenanceLocatorContains value \<Rightarrow>
            res_bind (validate_declaration_string value ''filter.provenance_locator_contains''
              MAX_DECLARATION_STRING_BYTES) (\<lambda>_. Inr clauses)
        | Flt_SemanticFieldValue key value \<Rightarrow>
            res_bind (validate_semantic_selector key value ''filter.semantic'') (\<lambda>_. Inr clauses)
        | Flt_AllOf fs \<Rightarrow> validate_filters fs (depth + 1) clauses
        | Flt_AnyOf fs \<Rightarrow> validate_filters fs (depth + 1) clauses
        | Flt_Not g \<Rightarrow> validate_filter g (depth + 1) clauses
        | _ \<Rightarrow> Inr clauses))"
| "validate_filters [] depth clauses = Inr clauses"
| "validate_filters (f # fs) depth clauses =
     res_bind (validate_filter f depth clauses) (validate_filters fs depth)"

definition validate_source :: "view_source \<Rightarrow> view_error + unit" where
  "validate_source s = (case s of
       Src_NodeIds ids \<Rightarrow>
         if length ids > MAX_SOURCE_NODE_IDS
         then Inl (SourceNodeIdLimitExceeded MAX_SOURCE_NODE_IDS (length ids)) else Inr ()
     | Src_Roles roles \<Rightarrow>
         if length roles > MAX_SOURCE_ROLES
         then Inl (SourceRoleLimitExceeded MAX_SOURCE_ROLES (length roles)) else Inr ()
     | Src_ProvenanceSourceContains value \<Rightarrow>
         validate_declaration_string value ''source.provenance_contains'' MAX_DECLARATION_STRING_BYTES
     | Src_SemanticFieldValue key value \<Rightarrow> validate_semantic_selector key value ''source.semantic''
     | Src_All \<Rightarrow> Inr ())"

fun validate_fields :: "view_field list \<Rightarrow> view_error + unit" where
  "validate_fields [] = Inr ()"
| "validate_fields (Fld_SemanticField key # fs) =
     res_bind (validate_semantic_key key ''projection.semantic_key'') (\<lambda>_. validate_fields fs)"
| "validate_fields (_ # fs) = validate_fields fs"

definition view_spec_validate :: "view_spec \<Rightarrow> view_error + unit" where
  "view_spec_validate s =
     res_bind (validate_source (vs_source s)) (\<lambda>_.
     if length (vs_fields s) > MAX_PROJECTED_FIELDS
     then Inl (ProjectedFieldLimitExceeded MAX_PROJECTED_FIELDS (length (vs_fields s)))
     else if vs_max_items s > MAX_OUTPUT_ITEMS
     then Inl (OutputItemLimitExceeded MAX_OUTPUT_ITEMS (vs_max_items s))
     else if vs_max_bytes s > MAX_OUTPUT_BYTES
     then Inl (OutputByteLimitExceeded MAX_OUTPUT_BYTES (vs_max_bytes s))
     else
       res_bind (case vs_sort s of
           Sort_SemanticFieldThenNodeId key \<Rightarrow> validate_semantic_key key ''sort.semantic_key''
         | _ \<Rightarrow> Inr ()) (\<lambda>_.
       res_bind (case vs_grouping s of
           Grp_SemanticField key \<Rightarrow> validate_semantic_key key ''group.semantic_key''
         | _ \<Rightarrow> Inr ()) (\<lambda>_.
       res_bind (validate_fields (vs_fields s)) (\<lambda>_.
       res_bind (validate_filter (vs_filter s) 1 0) (\<lambda>_. Inr ())))))"

declare validate_filter.simps [simp del]

section \<open>Selection, order, groups and projection\<close>

definition role_name :: "node_role \<Rightarrow> str" where
  "role_name r = (case r of
       Role_Document \<Rightarrow> ''document'' | Role_Section \<Rightarrow> ''section'' | Role_Symbol \<Rightarrow> ''symbol''
     | Role_External \<Rightarrow> ''external'' | Role_Entrypoint \<Rightarrow> ''entrypoint'' | Role_Test \<Rightarrow> ''test''
     | Role_Generated \<Rightarrow> ''generated'' | Role_Archived \<Rightarrow> ''archived'')"

definition source_matches :: "view_source \<Rightarrow> node_input \<Rightarrow> bool" where
  "source_matches s n = (case s of
       Src_All \<Rightarrow> True
     | Src_NodeIds ids \<Rightarrow> n_id n \<in> set ids
     | Src_Roles roles \<Rightarrow> n_role n \<in> set roles
     | Src_ProvenanceSourceContains value \<Rightarrow> contains (pv_source (n_provenance n)) value
     | Src_SemanticFieldValue key value \<Rightarrow> contains_value (n_facts n) key value)"

fun filter_matches :: "view_filter \<Rightarrow> node_input \<Rightarrow> bool" where
  "filter_matches Flt_All n \<longleftrightarrow> True"
| "filter_matches (Flt_Role r) n \<longleftrightarrow> n_role n = r"
| "filter_matches (Flt_IdPrefix value) n \<longleftrightarrow> prefix value (n_id n)"
| "filter_matches (Flt_ProvenanceSourceContains value) n
     \<longleftrightarrow> contains (pv_source (n_provenance n)) value"
| "filter_matches (Flt_ProvenanceLocatorContains value) n
     \<longleftrightarrow> contains (pv_locator (n_provenance n)) value"
| "filter_matches (Flt_MinimumConfidence value) n \<longleftrightarrow> n_confidence n \<ge> value"
| "filter_matches (Flt_SemanticFieldValue key value) n \<longleftrightarrow> contains_value (n_facts n) key value"
| "filter_matches (Flt_AllOf fs) n \<longleftrightarrow> list_all (\<lambda>f. filter_matches f n) fs"
| "filter_matches (Flt_AnyOf fs) n \<longleftrightarrow> list_ex (\<lambda>f. filter_matches f n) fs"
| "filter_matches (Flt_Not f) n \<longleftrightarrow> \<not> filter_matches f n"

definition semantic_first :: "node_input \<Rightarrow> str \<Rightarrow> str option" where
  "semantic_first n key = first_value (n_facts n) key"

text \<open>\<open>Reverse(confidence)\<close> is the negated number.\<close>

definition view_order :: "view_sort \<Rightarrow> node_input list \<Rightarrow> node_input list" where
  "view_order s ns = (case s of
       Sort_NodeId \<Rightarrow> sort_key n_id ns
     | Sort_RoleThenNodeId \<Rightarrow> sort_key (\<lambda>n. (role_name (n_role n), n_id n)) ns
     | Sort_ProvenanceSourceThenNodeId \<Rightarrow> sort_key (\<lambda>n. (pv_source (n_provenance n), n_id n)) ns
     | Sort_ConfidenceDescendingThenNodeId \<Rightarrow>
         sort_key (\<lambda>n. (- int (n_confidence n), n_id n)) ns
     | Sort_SemanticFieldThenNodeId key \<Rightarrow> sort_key (\<lambda>n. (semantic_first n key, n_id n)) ns)"

definition group_key :: "view_grouping \<Rightarrow> node_input \<Rightarrow> str" where
  "group_key g n = (case g of
       Grp_None \<Rightarrow> []
     | Grp_Role \<Rightarrow> role_name (n_role n)
     | Grp_ProvenanceSource \<Rightarrow> pv_source (n_provenance n)
     | Grp_SemanticField key \<Rightarrow> (case semantic_first n key of None \<Rightarrow> [] | Some v \<Rightarrow> v))"

definition group_value :: "view_grouping \<Rightarrow> str \<Rightarrow> str option" where
  "group_value g key = (if g = Grp_None then None else Some key)"

definition view_field_name :: "view_field \<Rightarrow> str" where
  "view_field_name f = (case f of
       Fld_NodeId \<Rightarrow> ''node_id'' | Fld_Role \<Rightarrow> ''role''
     | Fld_ProvenanceSource \<Rightarrow> ''provenance_source''
     | Fld_ProvenanceLocator \<Rightarrow> ''provenance_locator''
     | Fld_Confidence \<Rightarrow> ''confidence'' | Fld_SemanticField key \<Rightarrow> key)"

definition view_field_value :: "view_field \<Rightarrow> node_input \<Rightarrow> str" where
  "view_field_value f n = (case f of
       Fld_NodeId \<Rightarrow> n_id n | Fld_Role \<Rightarrow> role_name (n_role n)
     | Fld_ProvenanceSource \<Rightarrow> pv_source (n_provenance n)
     | Fld_ProvenanceLocator \<Rightarrow> pv_locator (n_provenance n)
     | Fld_Confidence \<Rightarrow> dec (n_confidence n)
     | Fld_SemanticField key \<Rightarrow>
         (case fact_values (n_facts n) key of None \<Rightarrow> [] | Some vs \<Rightarrow> join '', '' vs))"

record projected_field =
  pf_field :: view_field
  pf_name :: str
  pf_value :: str

record view_item =
  vi_id :: str
  vi_group :: "str option"
  vi_provenance :: provenance
  vi_fields :: "projected_field list"
  vi_rendered_bytes :: nat

definition canonical_component :: "str \<Rightarrow> str \<Rightarrow> str" where
  "canonical_component label value =
     label @ '':'' @ dec (length value) @ '':'' @ value @ [CHR 0x0A]"

definition canonical_item_utf8 ::
  "str \<Rightarrow> str option \<Rightarrow> provenance \<Rightarrow> projected_field list \<Rightarrow> str" where
  "canonical_item_utf8 i grp p flds =
     canonical_component ''i'' i
     @ (case grp of Some g \<Rightarrow> canonical_component ''g'' g | None \<Rightarrow> ''g:-'' @ [CHR 0x0A])
     @ canonical_component ''s'' (pv_source p)
     @ canonical_component ''l'' (pv_locator p)
     @ concat (map (\<lambda>f. canonical_component ''n'' (pf_name f)
                        @ canonical_component ''v'' (pf_value f)) flds)"

definition canonical_item_bytes ::
  "str \<Rightarrow> str option \<Rightarrow> provenance \<Rightarrow> projected_field list \<Rightarrow> nat" where
  "canonical_item_bytes i grp p flds = length (canonical_item_utf8 i grp p flds)"

definition project_item :: "node_input \<Rightarrow> str option \<Rightarrow> view_field list \<Rightarrow> view_item" where
  "project_item n grp fs =
     (let flds = map (\<lambda>f. \<lparr>pf_field = f, pf_name = view_field_name f, pf_value = view_field_value f n\<rparr>) fs
      in \<lparr>vi_id = n_id n, vi_group = grp, vi_provenance = n_provenance n, vi_fields = flds,
          vi_rendered_bytes = canonical_item_bytes (n_id n) grp (n_provenance n) flds\<rparr>)"

section \<open>The compiler\<close>

record compiled_view =
  cv_spec :: view_spec
  cv_items :: "view_item list"
  cv_groups :: "(str, str list) omap"
  cv_selected_bytes :: nat
  cv_truncated :: bool

text \<open>The loop of \<open>compile\<close>: it stops at the first item that does not fit.\<close>

fun select_items :: "node_input list \<Rightarrow> compiled_view \<Rightarrow> compiled_view" where
  "select_items [] v = v"
| "select_items (n # ns) v =
     (let spec = cv_spec v; key = group_key (vs_grouping spec) n;
          item = project_item n (group_value (vs_grouping spec) key) (vs_fields spec) in
      case checked_add_u64 (cv_selected_bytes v) (vi_rendered_bytes item) of
        None \<Rightarrow> v\<lparr>cv_truncated := True\<rparr>
      | Some nbytes \<Rightarrow>
          if length (cv_items v) = vs_max_items spec \<or> nbytes > vs_max_bytes spec
          then v\<lparr>cv_truncated := True\<rparr>
          else select_items ns
                 (v\<lparr>cv_items := cv_items v @ [item],
                    cv_groups := push_entry (cv_groups v) key (vi_id item),
                    cv_selected_bytes := nbytes\<rparr>))"

definition view_candidates :: "view_spec \<Rightarrow> knowledge_graph \<Rightarrow> node_input list" where
  "view_candidates spec g =
     view_order (vs_sort spec)
       (filter (filter_matches (vs_filter spec))
         (filter (source_matches (vs_source spec))
           (List.map_filter (graph_node g) (graph_node_ids g))))"

definition view_compile :: "view_spec \<Rightarrow> knowledge_graph \<Rightarrow> view_error + compiled_view" where
  "view_compile spec g =
     res_bind (view_spec_validate spec) (\<lambda>_.
       Inr (select_items (view_candidates spec g)
              \<lparr>cv_spec = spec, cv_items = [], cv_groups = [], cv_selected_bytes = 0,
               cv_truncated = False\<rparr>))"

record render_model =
  rm_presentation :: presentation
  rm_node_ids :: "str list"
  rm_items :: "view_item list"
  rm_groups :: "(str, str list) omap"
  rm_selected_bytes :: nat
  rm_truncated :: bool

definition view_render_model :: "compiled_view \<Rightarrow> presentation \<Rightarrow> render_model" where
  "view_render_model v p =
     \<lparr>rm_presentation = p, rm_node_ids = map vi_id (cv_items v), rm_items = cv_items v,
      rm_groups = cv_groups v, rm_selected_bytes = cv_selected_bytes v,
      rm_truncated = cv_truncated v\<rparr>"

definition preferred_render_model :: "compiled_view \<Rightarrow> render_model" where
  "preferred_render_model v = view_render_model v (vs_presentation (cv_spec v))"

section \<open>Validation is a bound on the declaration\<close>

text \<open>The strings a filter holds, its size and its depth, each by plain recursion.\<close>

fun filter_size :: "view_filter \<Rightarrow> nat" where
  "filter_size (Flt_AllOf fs) = Suc (sum_list (map filter_size fs))"
| "filter_size (Flt_AnyOf fs) = Suc (sum_list (map filter_size fs))"
| "filter_size (Flt_Not f) = Suc (filter_size f)"
| "filter_size _ = 1"

fun filter_depth :: "view_filter \<Rightarrow> nat" where
  "filter_depth (Flt_AllOf fs) = Suc (foldr (\<lambda>f m. max (filter_depth f) m) fs 0)"
| "filter_depth (Flt_AnyOf fs) = Suc (foldr (\<lambda>f m. max (filter_depth f) m) fs 0)"
| "filter_depth (Flt_Not f) = Suc (filter_depth f)"
| "filter_depth _ = 1"

definition good_string :: "nat \<Rightarrow> str \<Rightarrow> bool" where
  "good_string limit s \<longleftrightarrow> trim s \<noteq> [] \<and> length s \<le> limit"

fun filter_strings :: "view_filter \<Rightarrow> bool" where
  "filter_strings (Flt_IdPrefix v) \<longleftrightarrow> good_string 256 v"
| "filter_strings (Flt_ProvenanceSourceContains v) \<longleftrightarrow> good_string 256 v"
| "filter_strings (Flt_ProvenanceLocatorContains v) \<longleftrightarrow> good_string 256 v"
| "filter_strings (Flt_SemanticFieldValue k v) \<longleftrightarrow> good_string 64 k \<and> good_string 256 v"
| "filter_strings (Flt_AllOf fs) \<longleftrightarrow> list_all filter_strings fs"
| "filter_strings (Flt_AnyOf fs) \<longleftrightarrow> list_all filter_strings fs"
| "filter_strings (Flt_Not f) \<longleftrightarrow> filter_strings f"
| "filter_strings _ \<longleftrightarrow> True"

lemma good_string_iff:
  "validate_declaration_string v field limit = Inr u \<longleftrightarrow> good_string limit v"
  by (auto simp: validate_declaration_string_def good_string_def)

lemma good_selector_iff:
  "validate_semantic_selector k v field = Inr u \<longleftrightarrow> good_string 64 k \<and> good_string 256 v"
  by (simp add: validate_semantic_selector_def validate_semantic_key_def good_string_iff
      res_simps fact_limits)

lemma validate_filter_exact:
  "validate_filter f d c = Inr r \<longleftrightarrow> d + filter_depth f \<le> Suc MAX_FILTER_DEPTH
     \<and> r = c + filter_size f \<and> r \<le> MAX_FILTER_CLAUSES \<and> filter_strings f"
  "validate_filters fs d c = Inr r \<longleftrightarrow>
     (fs \<noteq> [] \<longrightarrow> d + foldr (\<lambda>f m. max (filter_depth f) m) fs 0 \<le> Suc MAX_FILTER_DEPTH)
     \<and> r = c + sum_list (map filter_size fs) \<and> (fs \<noteq> [] \<longrightarrow> r \<le> MAX_FILTER_CLAUSES)
     \<and> list_all filter_strings fs"
proof (induction f d c and fs d c arbitrary: r and r rule: validate_filter_validate_filters.induct)
  case (1 f d c)
  have c: "saturating_add c 1 > MAX_FILTER_CLAUSES \<longleftrightarrow> Suc c > MAX_FILTER_CLAUSES"
    "Suc c \<le> MAX_FILTER_CLAUSES \<Longrightarrow> saturating_add c 1 = Suc c"
    by (auto simp: saturating_add_def u64_max_def view_limits)
  show ?case
  proof (cases "d > MAX_FILTER_DEPTH \<or> Suc c > MAX_FILTER_CLAUSES")
    case True
    have "filter_depth f > 0" "filter_size f > 0" by (cases f; simp)+
    with True c show ?thesis by (auto simp: validate_filter.simps [of f] Let_def)
  next
    case False
    with c have "saturating_add c 1 = Suc c" by simp
    with False "1.IH" c show ?thesis unfolding validate_filter.simps [of f d c]
      by (cases f) (auto simp: Let_def good_string_iff good_selector_iff
          res_simps MAX_DECLARATION_STRING_BYTES_def)
  qed
next
  case (3 f fs d c)
  then show ?case by (auto simp: res_simps)
qed auto

text \<open>What validation accepts, without the order of its checks.\<close>

definition view_spec_ok :: "view_spec \<Rightarrow> bool" where
  "view_spec_ok s \<longleftrightarrow>
     (case vs_source s of
        Src_All \<Rightarrow> True
      | Src_NodeIds ids \<Rightarrow> length ids \<le> 256
      | Src_Roles roles \<Rightarrow> length roles \<le> 16
      | Src_ProvenanceSourceContains v \<Rightarrow> good_string 256 v
      | Src_SemanticFieldValue k v \<Rightarrow> good_string 64 k \<and> good_string 256 v)
     \<and> length (vs_fields s) \<le> 64 \<and> vs_max_items s \<le> 4096 \<and> vs_max_bytes s \<le> 1048576
     \<and> (\<forall>k. vs_sort s = Sort_SemanticFieldThenNodeId k \<longrightarrow> good_string 64 k)
     \<and> (\<forall>k. vs_grouping s = Grp_SemanticField k \<longrightarrow> good_string 64 k)
     \<and> (\<forall>k. Fld_SemanticField k \<in> set (vs_fields s) \<longrightarrow> good_string 64 k)
     \<and> filter_depth (vs_filter s) \<le> 16 \<and> filter_size (vs_filter s) \<le> 128
     \<and> filter_strings (vs_filter s)"

lemma semantic_key_iff: "validate_semantic_key k field = Inr u \<longleftrightarrow> good_string 64 k"
  by (simp add: validate_semantic_key_def good_string_iff fact_limits)

lemma validate_source_iff:
  "validate_source s = Inr u \<longleftrightarrow>
     (case s of Src_All \<Rightarrow> True
      | Src_NodeIds ids \<Rightarrow> length ids \<le> 256
      | Src_Roles roles \<Rightarrow> length roles \<le> 16
      | Src_ProvenanceSourceContains v \<Rightarrow> good_string 256 v
      | Src_SemanticFieldValue k v \<Rightarrow> good_string 64 k \<and> good_string 256 v)"
  by (cases s) (simp_all add: validate_source_def good_string_iff good_selector_iff view_limits not_less)

lemma validate_fields_iff:
  "validate_fields fs = Inr u \<longleftrightarrow> (\<forall>k. Fld_SemanticField k \<in> set fs \<longrightarrow> good_string 64 k)"
  by (induction fs rule: validate_fields.induct) (auto simp: res_simps semantic_key_iff)

lemma view_spec_validate_Inr: "view_spec_validate s = Inr u \<longleftrightarrow> view_spec_ok s"
proof -
  have s: "(case vs_sort s of Sort_SemanticFieldThenNodeId key \<Rightarrow> validate_semantic_key key f
      | _ \<Rightarrow> Inr ()) = Inr w \<longleftrightarrow> (\<forall>k. vs_sort s = Sort_SemanticFieldThenNodeId k \<longrightarrow> good_string 64 k)" for f w
    by (cases "vs_sort s") (simp_all add: semantic_key_iff)
  have g: "(case vs_grouping s of Grp_SemanticField key \<Rightarrow> validate_semantic_key key f
      | _ \<Rightarrow> Inr ()) = Inr w \<longleftrightarrow> (\<forall>k. vs_grouping s = Grp_SemanticField k \<longrightarrow> good_string 64 k)" for f w
    by (cases "vs_grouping s") (simp_all add: semantic_key_iff)
  show ?thesis
    unfolding view_spec_validate_def view_spec_ok_def
    by (auto simp: res_simps validate_source_iff s g validate_fields_iff validate_filter_exact
        view_limits split: if_splits)
qed

text \<open>
  A view declaration is accepted exactly when every caller-controlled part of it is
  bounded: at most 256 source nodes or 16 roles, 64 fields, 4096 items and 1 MiB, every
  string non-blank and within its limit, and a filter of at most 16 levels and 128 clauses.
  The recursive walk of the filter counts each clause exactly once and never goes deeper
  than the limit.
\<close>

theorem view_validation_exact: "is_ok (view_spec_validate s) \<longleftrightarrow> view_spec_ok s"
  by (simp add: is_ok_iff view_spec_validate_Inr)

section \<open>Canonical item bytes\<close>

lemma component_cancel:
  "canonical_component [l] v @ x = canonical_component [l] w @ y \<longleftrightarrow> v = w \<and> x = y"
proof
  assume "canonical_component [l] v @ x = canonical_component [l] w @ y"
  then have "dec (length v) @ CHR '':'' # v @ CHR 0x0A # x = dec (length w) @ CHR '':'' # w @ CHR 0x0A # y"
    by (simp add: canonical_component_def)
  from dec_prefix_free [OF _ _ this] show "v = w \<and> x = y" by auto
qed simp

lemma component_neq: "l \<noteq> m \<Longrightarrow> canonical_component [l] v @ x \<noteq> canonical_component [m] w @ y"
  by (simp add: canonical_component_def)

lemma no_group_neq: "''g:-'' @ [CHR 0x0A] @ x \<noteq> canonical_component ''g'' v @ y"
proof
  assume "''g:-'' @ [CHR 0x0A] @ x = canonical_component ''g'' v @ y"
  then have "hd (dec (length v) @ CHR '':'' # v) = CHR ''-''"
    using dec_all_digits [of "length v"] by (cases "dec (length v)") (simp_all add: canonical_component_def)
  then show False
    using dec_all_digits [of "length v"]
    by (cases "dec (length v)") (auto simp: is_ascii_digit_def code_def)
qed

lemma fields_cancel:
  "concat (map (\<lambda>f. canonical_component ''n'' (pf_name f) @ canonical_component ''v'' (pf_value f)) fs)
     = concat (map (\<lambda>f. canonical_component ''n'' (pf_name f) @ canonical_component ''v'' (pf_value f)) gs)
   \<longleftrightarrow> map (\<lambda>f. (pf_name f, pf_value f)) fs = map (\<lambda>f. (pf_name f, pf_value f)) gs"
proof (induction fs arbitrary: gs)
  case Nil
  then show ?case by (cases gs) (auto simp: canonical_component_def)
next
  case (Cons f fs)
  then show ?case by (cases gs) (auto simp: component_cancel, simp add: canonical_component_def)
qed

text \<open>
  The canonical bytes of a view item determine it: two items with the same canonical
  bytes have the same identity, group, provenance and projected names and values, so the
  length-delimited record can be compared and measured in place of the item.
\<close>

theorem canonical_item_injective:
  "canonical_item_utf8 i g p fs = canonical_item_utf8 j h q gs \<longleftrightarrow>
     i = j \<and> g = h \<and> p = q
     \<and> map (\<lambda>f. (pf_name f, pf_value f)) fs = map (\<lambda>f. (pf_name f, pf_value f)) gs"
proof -
  have "p = q \<longleftrightarrow> pv_source p = pv_source q \<and> pv_locator p = pv_locator q" by auto
  then show ?thesis
    using no_group_neq no_group_neq [symmetric]
    by (cases g; cases h) (simp_all add: canonical_item_utf8_def component_cancel fields_cancel)
qed

section \<open>The compiled view\<close>

definition item_of :: "view_spec \<Rightarrow> node_input \<Rightarrow> view_item" where
  "item_of spec n =
     project_item n (group_value (vs_grouping spec) (group_key (vs_grouping spec) n)) (vs_fields spec)"

lemma item_of_id [simp]: "vi_id (item_of spec n) = n_id n"
  by (simp add: item_of_def project_item_def Let_def)

definition items_bytes :: "view_item list \<Rightarrow> nat" where
  "items_bytes items = sum_list (map vi_rendered_bytes items)"

text \<open>What the loop has added after the first \<open>k\<close> candidates.\<close>

definition extends_view :: "node_input list \<Rightarrow> compiled_view \<Rightarrow> compiled_view \<Rightarrow> bool" where
  "extends_view chosen v w \<longleftrightarrow> cv_spec w = cv_spec v
     \<and> cv_items w = cv_items v @ map (item_of (cv_spec v)) chosen
     \<and> cv_selected_bytes w = cv_selected_bytes v + items_bytes (map (item_of (cv_spec v)) chosen)
     \<and> (\<forall>key. entry (cv_groups w) key = entry (cv_groups v) key
          @ map n_id (filter (\<lambda>n. group_key (vs_grouping (cv_spec v)) n = key) chosen))"

lemma select_items_prefix:
  assumes "vs_max_bytes (cv_spec v) \<le> u64_max" "\<not> cv_truncated v"
    "length (cv_items v) \<le> vs_max_items (cv_spec v)" "cv_selected_bytes v \<le> vs_max_bytes (cv_spec v)"
  shows "\<exists>k \<le> length ns. extends_view (take k ns) v (select_items ns v)
    \<and> length (cv_items (select_items ns v)) \<le> vs_max_items (cv_spec v)
    \<and> cv_selected_bytes (select_items ns v) \<le> vs_max_bytes (cv_spec v)
    \<and> (cv_truncated (select_items ns v) \<longleftrightarrow> k < length ns)
    \<and> (k < length ns \<longrightarrow> length (cv_items (select_items ns v)) = vs_max_items (cv_spec v)
         \<or> cv_selected_bytes (select_items ns v) + vi_rendered_bytes (item_of (cv_spec v) (ns ! k))
             > vs_max_bytes (cv_spec v))"
  using assms
proof (induction ns arbitrary: v)
  case Nil
  then show ?case by (simp add: extends_view_def items_bytes_def)
next
  case (Cons n ns)
  let ?s = "cv_spec v"
  let ?item = "item_of ?s n"
  let ?sum = "cv_selected_bytes v + vi_rendered_bytes ?item"
  let ?v = "v\<lparr>cv_items := cv_items v @ [?item],
      cv_groups := push_entry (cv_groups v) (group_key (vs_grouping ?s) n) (vi_id ?item),
      cv_selected_bytes := ?sum\<rparr>"
  show ?case
  proof (cases "length (cv_items v) = vs_max_items ?s \<or> ?sum > vs_max_bytes ?s")
    case True
    then have "select_items (n # ns) v = v\<lparr>cv_truncated := True\<rparr>"
      by (auto simp: Let_def item_of_def checked_add_u64_def split: option.split)
    with True Cons.prems show ?thesis
      by (intro exI [of _ 0]) (auto simp: extends_view_def items_bytes_def)
  next
    case False
    then have add: "checked_add_u64 (cv_selected_bytes v) (vi_rendered_bytes ?item) = Some ?sum"
      using Cons.prems by (simp add: checked_add_u64_def)
    have step: "select_items (n # ns) v = select_items ns ?v"
      using False by (simp add: Let_def item_of_def add [unfolded item_of_def])
    have "length (cv_items ?v) \<le> vs_max_items (cv_spec ?v)" "cv_selected_bytes ?v \<le> vs_max_bytes (cv_spec ?v)"
      using False Cons.prems(3) by auto
    with Cons.IH [of ?v] Cons.prems obtain k where k: "k \<le> length ns"
      "extends_view (take k ns) ?v (select_items ns ?v)"
      "length (cv_items (select_items ns ?v)) \<le> vs_max_items ?s"
      "cv_selected_bytes (select_items ns ?v) \<le> vs_max_bytes ?s"
      "cv_truncated (select_items ns ?v) \<longleftrightarrow> k < length ns"
      "k < length ns \<longrightarrow> length (cv_items (select_items ns ?v)) = vs_max_items ?s
         \<or> cv_selected_bytes (select_items ns ?v) + vi_rendered_bytes (item_of ?s (ns ! k)) > vs_max_bytes ?s"
      by auto
    then show ?thesis unfolding step
      by (intro exI [of _ "Suc k"]) (auto simp: extends_view_def items_bytes_def entry_push)
  qed
qed

text \<open>The comparison a view's sort stands for: its key, then the identity.\<close>

definition view_le :: "view_sort \<Rightarrow> node_input \<Rightarrow> node_input \<Rightarrow> bool" where
  "view_le s m n = (case s of
       Sort_NodeId \<Rightarrow> n_id m \<le> n_id n
     | Sort_RoleThenNodeId \<Rightarrow> (role_name (n_role m), n_id m) \<le> (role_name (n_role n), n_id n)
     | Sort_ProvenanceSourceThenNodeId \<Rightarrow>
         (pv_source (n_provenance m), n_id m) \<le> (pv_source (n_provenance n), n_id n)
     | Sort_ConfidenceDescendingThenNodeId \<Rightarrow>
         n_confidence m > n_confidence n
         \<or> n_confidence m = n_confidence n \<and> n_id m \<le> n_id n
     | Sort_SemanticFieldThenNodeId key \<Rightarrow>
         (semantic_first m key, n_id m) \<le> (semantic_first n key, n_id n))"

lemma sorted_wrt_key: "sorted (map f xs) \<longleftrightarrow> sorted_wrt (\<lambda>x y. f x \<le> f y) xs"
  by (simp add: sorted_map)

lemma view_order_sorted: "sorted_wrt (view_le s) (view_order s ns)"
proof -
  have "sorted_wrt (\<lambda>x y. f x \<le> f y) (sort_key f ns)" for f :: "node_input \<Rightarrow> 'k::linorder"
    using sorted_sort_key [of f ns] by (simp add: sorted_wrt_key)
  then show ?thesis
    by (cases s; simp add: view_order_def)
      (rule sorted_wrt_mono_rel [rotated], assumption, force simp: view_le_def less_eq_prod_def)+
qed

lemma view_order_mset: "mset (view_order s ns) = mset ns"
  by (cases s) (simp_all add: view_order_def)

lemma graph_nodes_listed:
  assumes "graph_build i l = Inr g"
  shows "List.map_filter (graph_node g) (graph_node_ids g) = sort_key n_id (gi_nodes i)"
proof -
  have d: "distinct (map n_id (gi_nodes i))"
    using graph_build_ok [of i l] assms by (simp add: graph_input_ok_def)
  have "graph_node g (n_id n) = Some n" if "n \<in> set (gi_nodes i)" for n
    using that d by (simp add: graph_built(1) [OF assms] find_distinct)
  moreover have "List.map_filter f (map h xs) = xs" if "\<forall>x \<in> set xs. f (h x) = Some x"
    for f and h :: "node_input \<Rightarrow> str" and xs
    using that by (induction xs) simp_all
  moreover have "kg_nodes g = sort_key n_id (gi_nodes i)"
    using graph_build_Inr [OF assms] by (metis knowledge_graph.select_convs(1))
  ultimately show ?thesis by (simp add: graph_node_ids_def)
qed

lemma view_candidates_mset:
  assumes "graph_build i l = Inr g"
  shows "mset (view_candidates spec g) = filter_mset
    (\<lambda>n. source_matches (vs_source spec) n \<and> filter_matches (vs_filter spec) n) (mset (gi_nodes i))"
  by (simp add: view_candidates_def view_order_mset graph_nodes_listed [OF assms] conj_commute)

lemma view_candidates_sorted: "sorted_wrt (view_le (vs_sort spec)) (view_candidates spec g)"
  by (simp add: view_candidates_def view_order_sorted)

text \<open>
  C7. A compiled view of a built graph holds the longest prefix of the matching nodes, in
  the view's order, that fits both ceilings. The matching nodes are exactly the input's
  nodes that the source and the filter accept, sorted by the view's key and then identity;
  the items and their byte total stay within the declared limits; the view is marked
  truncated exactly when a candidate was left out, and then the next one did not fit; and
  every group lists, in item order, exactly the items with its key.
\<close>

theorem view_compile_exact:
  assumes "graph_build input limits = Inr g" "view_compile spec g = Inr v"
  shows "\<exists>matching k.
    mset matching = filter_mset (\<lambda>n. source_matches (vs_source spec) n
        \<and> filter_matches (vs_filter spec) n) (mset (gi_nodes input))
    \<and> sorted_wrt (view_le (vs_sort spec)) matching
    \<and> k \<le> length matching
    \<and> cv_items v = map (item_of spec) (take k matching)
    \<and> length (cv_items v) \<le> vs_max_items spec
    \<and> cv_selected_bytes v = items_bytes (cv_items v)
    \<and> cv_selected_bytes v \<le> vs_max_bytes spec
    \<and> (cv_truncated v \<longleftrightarrow> k < length matching)
    \<and> (k < length matching \<longrightarrow> length (cv_items v) = vs_max_items spec
         \<or> items_bytes (cv_items v @ [item_of spec (matching ! k)]) > vs_max_bytes spec)
    \<and> (\<forall>key. entry (cv_groups v) key
         = map n_id (filter (\<lambda>n. group_key (vs_grouping spec) n = key) (take k matching)))"
proof -
  let ?v = "\<lparr>cv_spec = spec, cv_items = [], cv_groups = [], cv_selected_bytes = 0,
      cv_truncated = False\<rparr>"
  let ?ns = "view_candidates spec g"
  have v: "v = select_items ?ns ?v" "view_spec_ok spec"
    using assms(2) by (auto simp: view_compile_def res_simps view_spec_validate_Inr)
  have "vs_max_bytes spec \<le> u64_max" using v(2) by (simp add: view_spec_ok_def u64_max_def)
  with select_items_prefix [of ?v ?ns] obtain k where k: "k \<le> length ?ns"
    "extends_view (take k ?ns) ?v v" "length (cv_items v) \<le> vs_max_items spec"
    "cv_selected_bytes v \<le> vs_max_bytes spec" "cv_truncated v \<longleftrightarrow> k < length ?ns"
    "k < length ?ns \<longrightarrow> length (cv_items v) = vs_max_items spec
       \<or> cv_selected_bytes v + vi_rendered_bytes (item_of spec (?ns ! k)) > vs_max_bytes spec"
    unfolding v(1) [symmetric] by auto
  then show ?thesis
    by (intro exI [of _ ?ns] exI [of _ k])
      (auto simp: extends_view_def items_bytes_def entry_def view_candidates_mset [OF assms(1)]
        view_candidates_sorted)
qed

definition demo_view_spec :: view_spec where
  "demo_view_spec = \<lparr>vs_source = Src_All, vs_filter = Flt_Not (Flt_IdPrefix ''c''),
     vs_sort = Sort_ConfidenceDescendingThenNodeId, vs_grouping = Grp_Role,
     vs_fields = [Fld_NodeId], vs_presentation = Pres_Markdown, vs_max_items = 1,
     vs_max_bytes = 1000\<rparr>"

definition demo_limits :: graph_limits where
  "demo_limits = \<lparr>gl_max_nodes = 10, gl_max_edges = 10\<rparr>"

lemma demo_view_compiles:
  "case graph_build demo_graph demo_limits of Inl e \<Rightarrow> False
   | Inr g \<Rightarrow> (case view_compile demo_view_spec g of Inl e \<Rightarrow> False
              | Inr v \<Rightarrow> map vi_id (cv_items v) = [''a''] \<and> cv_truncated v)"
  by code_simp

theorem view_compile_exact_witness:
  "\<exists>g v matching. graph_build demo_graph demo_limits = Inr g
    \<and> view_compile demo_view_spec g = Inr v
    \<and> map vi_id (cv_items v) = [''a''] \<and> cv_truncated v
    \<and> mset matching = filter_mset (\<lambda>n. \<not> prefix ''c'' (n_id n)) (mset (gi_nodes demo_graph))
    \<and> length (cv_items v) < length matching"
proof -
  obtain g v where g: "graph_build demo_graph demo_limits = Inr g"
    and v: "view_compile demo_view_spec g = Inr v"
    and i: "map vi_id (cv_items v) = [''a'']" "cv_truncated v"
    using demo_view_compiles by (auto split: sum.splits)
  from view_compile_exact [OF g v] obtain matching k where
    "mset matching = filter_mset (\<lambda>n. source_matches (vs_source demo_view_spec) n
        \<and> filter_matches (vs_filter demo_view_spec) n) (mset (gi_nodes demo_graph))"
    "cv_items v = map (item_of demo_view_spec) (take k matching)" "cv_truncated v \<longleftrightarrow> k < length matching"
    by blast
  with g v i show ?thesis
    by (intro exI [of _ g] exI [of _ v] exI [of _ matching])
      (simp add: demo_view_spec_def source_matches_def)
qed

end
