(* ===== verification/Packet_Closure.thy ===== *)
theory Packet_Closure
  imports View Packet_Types
begin

text \<open>
  Dependency expansion of \<open>packet/mod.rs\<close>: from the items of a compiled view, the packet
  assembler admits the nodes that known edges of a positive relationship lead to, breadth
  first, within a depth and a node limit. The lemmas follow the frontier of the search and
  show that it admits exactly what is reachable unless it says that it was cut, and that a
  cut by depth alone still admits every node within that distance.
\<close>

section \<open>Requests and errors\<close>

record evidence_content =
  ev_id :: str
  ev_content :: str
  ev_priority :: evidence_priority
  ev_authority :: nat
  ev_freshness :: nat
  ev_anchors :: "preservation_anchor list"

record packet_limits =
  pl_max_items :: nat
  pl_max_bytes :: nat
  pl_runtime_token_ceiling :: "nat option"

record dependency_closure_limits =
  dl_max_depth :: nat
  dl_max_nodes :: nat

record packet_assembly_request =
  ar_view :: compiled_view
  ar_graph :: knowledge_graph
  ar_evidence :: "evidence_content list"
  ar_limits :: packet_limits
  ar_dependency_limits :: dependency_closure_limits

datatype packet_bound = Bound_Items | Bound_Bytes | Bound_RuntimeTokens

text \<open>\<open>PacketPanic\<close> stands for an \<open>expect\<close> of the source that fails.\<close>

datatype packet_error =
    InvalidDependencyClosureLimits nat nat
  | ViewSeedNotInGraph str
  | MissingSelectedEvidence str
  | DuplicateSelectedEvidence str
  | EvidenceNotInView str
  | UnrelatedEvidence str
  | RequiredEvidenceMissingPreservationAnchors str
  | PreservationAnchorNotInEvidence str str
  | RequiredEvidenceDoesNotFit str packet_bound
  | ArithmeticOverflow str
  | PacketPanic str

definition HARD_MAX_DEPTH :: nat where "HARD_MAX_DEPTH = 64"
definition HARD_MAX_NODES :: nat where "HARD_MAX_NODES = 4096"

definition dependency_limits_new :: "nat \<Rightarrow> nat \<Rightarrow> packet_error + dependency_closure_limits" where
  "dependency_limits_new max_depth max_nodes =
     (if max_depth > HARD_MAX_DEPTH \<or> max_nodes = 0 \<or> max_nodes > HARD_MAX_NODES
      then Inl (InvalidDependencyClosureLimits max_depth max_nodes)
      else Inr \<lparr>dl_max_depth = max_depth, dl_max_nodes = max_nodes\<rparr>)"

section \<open>The search\<close>

definition positive_context_relationship :: "edge_relationship \<Rightarrow> bool" where
  "positive_context_relationship r \<longleftrightarrow>
     r \<in> {Rel_Dependency, Rel_Implementation, Rel_Replacement, Rel_Supersedes, Rel_Validation,
          Rel_Reachability}"

text \<open>The sets are duplicate-free lists; \<open>admitted\<close> is kept sorted as a \<open>BTreeSet\<close> is.\<close>

record closure_state =
  cs_visited :: "str list"
  cs_frontier :: "(str \<times> nat) list"
  cs_admitted :: "str list"
  cs_truncated :: bool

fun expand_edges ::
  "knowledge_graph \<Rightarrow> dependency_closure_limits \<Rightarrow> nat \<Rightarrow> str list \<Rightarrow> closure_state
   \<Rightarrow> packet_error + closure_state" where
  "expand_edges g l depth [] s = Inr s"
| "expand_edges g l depth (edge_id # ids) s =
     (case graph_edge g edge_id of
        None \<Rightarrow> Inl (PacketPanic ''graph adjacency references a present edge'')
      | Some e \<Rightarrow>
          if e_certainty e \<noteq> Cert_Known \<or> \<not> positive_context_relationship (e_relationship e)
             \<or> graph_node g (e_target e) = None \<or> e_target e \<in> set (cs_visited s)
          then expand_edges g l depth ids s
          else if depth = dl_max_depth l \<or> length (cs_admitted s) = dl_max_nodes l
          then expand_edges g l depth ids (s\<lparr>cs_truncated := True\<rparr>)
          else expand_edges g l depth ids
                 (s\<lparr>cs_visited := e_target e # cs_visited s,
                    cs_frontier := cs_frontier s @ [(e_target e, depth + 1)],
                    cs_admitted := insort_insert (e_target e) (cs_admitted s)\<rparr>))"

definition unvisited :: "knowledge_graph \<Rightarrow> closure_state \<Rightarrow> nat" where
  "unvisited g s = length (filter (\<lambda>i. i \<notin> set (cs_visited s)) (om_keys (kg_node_index g)))"

lemma expand_edges_measure:
  "expand_edges g l d ids s = Inr t \<Longrightarrow>
     unvisited g t + length (cs_frontier t) \<le> unvisited g s + length (cs_frontier s)"
proof (induction g l d ids s rule: expand_edges.induct)
  case (2 g l d i ids s)
  have visit: "unvisited g (s\<lparr>cs_visited := x # cs_visited s, cs_frontier := f, cs_admitted := a\<rparr>)
      < unvisited g s" if "graph_node g x \<noteq> None" "x \<notin> set (cs_visited s)" for x f a
  proof -
    have "x \<in> set (om_keys (kg_node_index g))"
      using that(1) by (simp add: graph_node_def om_keys_get)
    with that(2) show ?thesis unfolding unvisited_def
      using length_filter_less [of x "filter (\<lambda>i. i \<notin> set (cs_visited s)) (om_keys (kg_node_index g))" "\<lambda>i. i \<noteq> x"]
      by (simp add: conj_commute)
  qed
  show ?case
    using 2 visit by (fastforce split: option.splits if_splits simp: unvisited_def)
qed simp

function closure_loop ::
  "knowledge_graph \<Rightarrow> dependency_closure_limits \<Rightarrow> nat \<Rightarrow> closure_state
   \<Rightarrow> packet_error + closure_state" where
  "closure_loop g l cursor s =
     (if cursor < length (cs_frontier s) then
        (let (source, depth) = cs_frontier s ! cursor in
         case expand_edges g l depth (forward_edges g source) s of
           Inl e \<Rightarrow> Inl e
         | Inr t \<Rightarrow> closure_loop g l (cursor + 1) t)
      else Inr s)"
  by pat_completeness auto
termination
  by (relation "measure (\<lambda>(g, l, cursor, s). unvisited g s + length (cs_frontier s) - cursor)")
    (auto dest: expand_edges_measure)

declare closure_loop.simps [simp del]

definition view_ids :: "compiled_view \<Rightarrow> str list" where
  "view_ids v = map vi_id (cv_items v)"

record dependency_closure =
  dc_admitted_ids :: "str list"
  dc_truncated :: bool

definition closure_start :: "str list \<Rightarrow> closure_state" where
  "closure_start seeds =
     \<lparr>cs_visited = seeds, cs_frontier = map (\<lambda>i. (i, 0)) seeds, cs_admitted = [],
      cs_truncated = False\<rparr>"

definition dependency_closure :: "packet_assembly_request \<Rightarrow> packet_error + dependency_closure" where
  "dependency_closure r =
     (let g = ar_graph r; seeds = btree_set (view_ids (ar_view r)) in
      case find (\<lambda>i. graph_node g i = None) seeds of
        Some i \<Rightarrow> Inl (ViewSeedNotInGraph i)
      | None \<Rightarrow>
          res_bind (closure_loop g (ar_dependency_limits r) 0 (closure_start seeds)) (\<lambda>s.
            Inr \<lparr>dc_admitted_ids = cs_admitted s, dc_truncated = cs_truncated s\<rparr>))"

definition evidence_ids ::
  "compiled_view \<Rightarrow> knowledge_graph \<Rightarrow> dependency_closure_limits \<Rightarrow> packet_error + str list" where
  "evidence_ids v g l =
     res_bind (dependency_closure
       \<lparr>ar_view = v, ar_graph = g, ar_evidence = [],
        ar_limits = \<lparr>pl_max_items = 0, pl_max_bytes = 0, pl_runtime_token_ceiling = None\<rparr>,
        ar_dependency_limits = l\<rparr>) (\<lambda>c.
       Inr (btree_set (view_ids v @ dc_admitted_ids c)))"

section \<open>One node's edges\<close>

definition successors :: "knowledge_graph \<Rightarrow> str list \<Rightarrow> str set" where
  "successors g ids = {e_target e | i e. i \<in> set ids \<and> graph_edge g i = Some e
     \<and> e_certainty e = Cert_Known \<and> positive_context_relationship (e_relationship e)
     \<and> graph_node g (e_target e) \<noteq> None}"

lemma successors_Nil [simp]: "successors g [] = {}"
  by (simp add: successors_def)

lemma successors_Cons: "graph_edge g i = Some e \<Longrightarrow> successors g (i # ids) =
    (if e_certainty e = Cert_Known \<and> positive_context_relationship (e_relationship e)
        \<and> graph_node g (e_target e) \<noteq> None then insert (e_target e) (successors g ids)
     else successors g ids)"
  by (auto simp: successors_def)

definition at_limit :: "dependency_closure_limits \<Rightarrow> nat \<Rightarrow> closure_state \<Rightarrow> bool" where
  "at_limit l d s \<longleftrightarrow> d = dl_max_depth l \<or> length (cs_admitted s) = dl_max_nodes l"

definition sets_ok :: "dependency_closure_limits \<Rightarrow> closure_state \<Rightarrow> bool" where
  "sets_ok l s \<longleftrightarrow> sorted (cs_admitted s) \<and> distinct (cs_admitted s)
     \<and> set (cs_admitted s) \<subseteq> set (cs_visited s) \<and> length (cs_admitted s) \<le> dl_max_nodes l"

lemma length_insort_insert: "x \<notin> set xs \<Longrightarrow> length (insort_insert x xs) = Suc (length xs)"
  by (simp add: insort_insert_insort)

text \<open>What the walk over one node's edges has done, with \<open>new\<close> the nodes it admitted.\<close>

definition expands ::
  "knowledge_graph \<Rightarrow> dependency_closure_limits \<Rightarrow> nat \<Rightarrow> str list \<Rightarrow> closure_state \<Rightarrow> str list
   \<Rightarrow> closure_state \<Rightarrow> bool" where
  "expands g l d ids s new t \<longleftrightarrow> sets_ok l t
     \<and> cs_frontier t = cs_frontier s @ map (\<lambda>x. (x, d + 1)) new
     \<and> set (cs_visited t) = set (cs_visited s) \<union> set new
     \<and> set (cs_admitted t) = set (cs_admitted s) \<union> set new
     \<and> distinct new \<and> set new \<inter> set (cs_visited s) = {} \<and> set new \<subseteq> successors g ids
     \<and> (at_limit l d s \<longrightarrow> new = [])
     \<and> (successors g ids \<subseteq> set (cs_visited t) \<or> at_limit l d t)
     \<and> (cs_truncated t \<longleftrightarrow> cs_truncated s \<or> \<not> successors g ids \<subseteq> set (cs_visited t))"

lemma expand_edges_spec:
  assumes "expand_edges g l d ids s = Inr t" "sets_ok l s"
  shows "\<exists>new. expands g l d ids s new t"
  using assms
proof (induction g l d ids s rule: expand_edges.induct)
  case (1 g l d s)
  then show ?case by (auto simp: expands_def)
next
  case (2 g l d i ids s)
  then obtain e where e: "graph_edge g i = Some e" by (auto split: option.splits)
  let ?x = "e_target e"
  let ?skip = "e_certainty e \<noteq> Cert_Known \<or> \<not> positive_context_relationship (e_relationship e)
             \<or> graph_node g ?x = None \<or> ?x \<in> set (cs_visited s)"
  let ?cut = "d = dl_max_depth l \<or> length (cs_admitted s) = dl_max_nodes l"
  consider (skip) "?skip" | (full) "\<not> ?skip" ?cut | (new) "\<not> ?skip" "\<not> ?cut" by blast
  then show ?case
  proof cases
    case skip
    then have "expand_edges g l d ids s = Inr t" using 2 e by simp
    from "2.IH"(1) [OF e skip this "2.prems"(2)] obtain new where "expands g l d ids s new t" ..
    with skip show ?thesis
      by (intro exI [of _ new]) (auto simp: expands_def successors_Cons [OF e])
  next
    case full
    let ?s = "s\<lparr>cs_truncated := True\<rparr>"
    have step: "expand_edges g l d ids ?s = Inr t" using "2.prems" e full by auto
    have ok: "sets_ok l ?s" using "2.prems" by (simp add: sets_ok_def)
    from "2.IH"(2) [OF e full step ok] obtain new where n: "expands g l d ids ?s new t" ..
    have nil: "new = []" using n full(2) by (auto simp: expands_def at_limit_def)
    then have "cs_admitted t = cs_admitted s"
      using n "2.prems" by (intro sorted_distinct_set_unique) (auto simp: expands_def sets_ok_def)
    then have "at_limit l d t" using full(2) by (simp add: at_limit_def)
    with n nil full(1) show ?thesis
      by (intro exI [of _ "[]"]) (auto simp: expands_def successors_Cons [OF e])
  next
    case new
    let ?s = "s\<lparr>cs_visited := ?x # cs_visited s, cs_frontier := cs_frontier s @ [(?x, d + 1)],
                cs_admitted := insort_insert ?x (cs_admitted s)\<rparr>"
    have step: "expand_edges g l d ids ?s = Inr t" using "2.prems" e new by auto
    have "?x \<notin> set (cs_admitted s)" using new(1) "2.prems"(2) by (auto simp: sets_ok_def)
    with "2.prems"(2) new(2) have ok: "sets_ok l ?s"
      by (auto simp: sets_ok_def length_insort_insert set_insort_insert
          sorted_insort_insert distinct_insort_insert)
    from "2.IH"(3) [OF e new step ok] obtain ns where n: "expands g l d ids ?s ns t" ..
    with new show ?thesis
      by (intro exI [of _ "?x # ns"])
        (auto simp: expands_def successors_Cons [OF e] set_insort_insert at_limit_def)
  qed
qed

section \<open>The frontier\<close>

definition context_step :: "knowledge_graph \<Rightarrow> str \<Rightarrow> str \<Rightarrow> bool" where
  "context_step g a b \<longleftrightarrow> b \<in> successors g (forward_edges g a)"

text \<open>The nodes met are the seeds and the admitted ones, each at a depth it can be reached in.\<close>

definition frontier_ok ::
  "knowledge_graph \<Rightarrow> dependency_closure_limits \<Rightarrow> str set \<Rightarrow> closure_state \<Rightarrow> bool" where
  "frontier_ok g l seeds s \<longleftrightarrow> sets_ok l s
     \<and> fst ` set (cs_frontier s) = set (cs_visited s)
     \<and> seeds \<subseteq> set (cs_visited s) \<and> set (cs_admitted s) = set (cs_visited s) - seeds
     \<and> (\<forall>x \<in> seeds. (x, 0) \<in> set (cs_frontier s))
     \<and> (\<forall>(x, d) \<in> set (cs_frontier s). d \<le> dl_max_depth l
          \<and> (\<exists>a \<in> seeds. (context_step g ^^ d) a x))"

text \<open>The frontier is in breadth-first layers.\<close>

definition layers_ok :: "nat \<Rightarrow> closure_state \<Rightarrow> bool" where
  "layers_ok cursor s \<longleftrightarrow> sorted (map snd (cs_frontier s))
     \<and> (cursor < length (cs_frontier s) \<longrightarrow>
          (\<forall>p \<in> set (cs_frontier s). snd p \<le> snd (cs_frontier s ! cursor) + 1))"

text \<open>Every edge of a node already expanded was followed, unless a limit was met.\<close>

definition expanded_ok ::
  "knowledge_graph \<Rightarrow> dependency_closure_limits \<Rightarrow> nat \<Rightarrow> closure_state \<Rightarrow> bool" where
  "expanded_ok g l cursor s \<longleftrightarrow>
     (\<forall>i < cursor. \<forall>y. context_step g (fst (cs_frontier s ! i)) y \<longrightarrow>
        (\<exists>e. (y, e) \<in> set (cs_frontier s) \<and> e \<le> snd (cs_frontier s ! i) + 1)
        \<or> at_limit l (snd (cs_frontier s ! i)) s \<and> y \<notin> set (cs_visited s))
     \<and> (cs_truncated s \<longleftrightarrow> (\<exists>i < cursor. \<exists>y. context_step g (fst (cs_frontier s ! i)) y
          \<and> y \<notin> set (cs_visited s)))"

lemma expand_frontier:
  assumes "frontier_ok g l seeds s" "(x, d) \<in> set (cs_frontier s)"
    "expands g l d (forward_edges g x) s new t"
  shows "frontier_ok g l seeds t"
proof -
  obtain a where a: "a \<in> seeds" "(context_step g ^^ d) a x" and d: "d \<le> dl_max_depth l"
    using assms(1,2) unfolding frontier_ok_def by blast
  have "(context_step g ^^ Suc d) a y" "Suc d \<le> dl_max_depth l" if "y \<in> set new" for y
  proof -
    have "context_step g x y" using that assms(3) by (auto simp: expands_def context_step_def)
    with a(2) show "(context_step g ^^ Suc d) a y" by auto
    show "Suc d \<le> dl_max_depth l" using that d assms(3) by (auto simp: expands_def at_limit_def)
  qed
  then have "\<forall>(y, e) \<in> set (map (\<lambda>x. (x, d + 1)) new). e \<le> dl_max_depth l
      \<and> (\<exists>a \<in> seeds. (context_step g ^^ e) a y)"
    using a(1) by fastforce
  moreover have f: "cs_frontier t = cs_frontier s @ map (\<lambda>x. (x, d + 1)) new"
    "set (cs_visited t) = set (cs_visited s) \<union> set new"
    "set (cs_admitted t) = set (cs_admitted s) \<union> set new"
    "set new \<inter> set (cs_visited s) = {}" "sets_ok l t"
    using assms(3) by (auto simp: expands_def)
  ultimately have "\<forall>(y, e) \<in> set (cs_frontier t). e \<le> dl_max_depth l
      \<and> (\<exists>a \<in> seeds. (context_step g ^^ e) a y)"
    using assms(1) by (simp only: f(1) set_append ball_Un frontier_ok_def) blast
  moreover have "fst ` set (cs_frontier t) = set (cs_visited t)"
    using assms(1) f(1,2) by (simp add: frontier_ok_def image_Un image_image)
  moreover have "seeds \<subseteq> set (cs_visited t)" "set (cs_admitted t) = set (cs_visited t) - seeds"
    "\<forall>x \<in> seeds. (x, 0) \<in> set (cs_frontier t)"
  proof -
    have s: "seeds \<subseteq> set (cs_visited s)" "set (cs_admitted s) = set (cs_visited s) - seeds"
      "\<forall>x \<in> seeds. (x, 0) \<in> set (cs_frontier s)" using assms(1) by (auto simp: frontier_ok_def)
    show "seeds \<subseteq> set (cs_visited t)" using s(1) f(2) by blast
    show "set (cs_admitted t) = set (cs_visited t) - seeds" using s(1,2) f(2-4) by blast
    show "\<forall>x \<in> seeds. (x, 0) \<in> set (cs_frontier t)" using s(3) f(1) by simp
  qed
  ultimately show ?thesis
    using f(5) unfolding frontier_ok_def by blast
qed

lemma sorted_const: "sorted (map (\<lambda>_. c :: nat) xs)"
  by (induction xs) auto

lemma expand_layers:
  assumes "layers_ok cursor s" "cursor < length (cs_frontier s)" "cs_frontier s ! cursor = (x, d)"
    "expands g l d (forward_edges g x) s new t"
  shows "layers_ok (Suc cursor) t"
proof -
  have f: "cs_frontier t = cs_frontier s @ map (\<lambda>x. (x, d + 1)) new"
    using assms(4) by (simp add: expands_def)
  have le: "\<forall>p \<in> set (cs_frontier s). snd p \<le> d + 1" using assms(1-3) by (simp add: layers_ok_def)
  have s: "sorted (map snd (cs_frontier t))"
    using assms(1) le sorted_const [of "Suc d" new]
    by (auto simp: f layers_ok_def sorted_append comp_def)
  have "d \<le> snd (cs_frontier t ! Suc cursor)" if "Suc cursor < length (cs_frontier t)"
  proof -
    have "map snd (cs_frontier t) ! cursor \<le> map snd (cs_frontier t) ! Suc cursor"
      using s that by (intro sorted_nth_mono) auto
    moreover have "cs_frontier t ! cursor = (x, d)" using assms(2,3) by (simp add: f nth_append)
    ultimately show ?thesis using that by (simp add: nth_map)
  qed
  with s le show ?thesis by (auto simp: layers_ok_def f)
qed

lemma at_limit_mono:
  assumes "expands g l d ids s new t" "sets_ok l s" "at_limit l e s"
  shows "at_limit l e t"
proof -
  have "length (cs_admitted s) \<le> length (cs_admitted t)" "length (cs_admitted t) \<le> dl_max_nodes l"
    using assms(1,2) by (auto simp: expands_def sets_ok_def distinct_card [symmetric] intro!: card_mono)
  with assms(3) show ?thesis by (auto simp: at_limit_def)
qed

lemma expand_expanded:
  assumes "frontier_ok g l seeds s" "layers_ok cursor s" "expanded_ok g l cursor s"
    and c: "cursor < length (cs_frontier s)" "cs_frontier s ! cursor = (x, d)"
    and e: "expands g l d (forward_edges g x) s new t"
  shows "expanded_ok g l (Suc cursor) t"
proof -
  have f: "cs_frontier t = cs_frontier s @ map (\<lambda>x. (x, d + 1)) new"
    "set (cs_visited t) = set (cs_visited s) \<union> set new"
    "set (cs_visited s) = fst ` set (cs_frontier s)"
    using e assms(1) by (auto simp: expands_def frontier_ok_def)
  have old: "cs_frontier t ! i = cs_frontier s ! i" if "i \<le> cursor" for i
    using that c(1) by (simp add: f nth_append)
  have mono: "snd (cs_frontier s ! i) \<le> d" if "i < cursor" for i
  proof -
    have "map snd (cs_frontier s) ! i \<le> map snd (cs_frontier s) ! cursor"
      using assms(2) that c(1) by (intro sorted_nth_mono) (auto simp: layers_ok_def)
    with that c show ?thesis by simp
  qed
  have deep: "d \<le> dl_max_depth l" using assms(1) c nth_mem [of cursor "cs_frontier s"]
    by (fastforce simp: frontier_ok_def)
  have stuck: "new = []" if "i < cursor" "context_step g (fst (cs_frontier s ! i)) y"
      "y \<notin> set (cs_visited s)" for i y
  proof -
    have "at_limit l (snd (cs_frontier s ! i)) s"
    proof -
      have "(\<exists>e. (y, e) \<in> set (cs_frontier s) \<and> e \<le> snd (cs_frontier s ! i) + 1)
          \<or> at_limit l (snd (cs_frontier s ! i)) s \<and> y \<notin> set (cs_visited s)"
        using assms(3) that(1,2) unfolding expanded_ok_def by blast
      moreover have "(y, e) \<notin> set (cs_frontier s)" for e using that(3) f(3) by force
      ultimately show ?thesis by blast
    qed
    with mono [OF that(1)] deep have "at_limit l d s" by (auto simp: at_limit_def)
    with e show ?thesis by (simp add: expands_def)
  qed
  have seen: "\<exists>e'. (y, e') \<in> set (cs_frontier t) \<and> e' \<le> d + 1" if "y \<in> set (cs_visited t)" for y
  proof (cases "y \<in> set new")
    case True
    then show ?thesis by (auto simp: f(1))
  next
    case False
    with that f(2,3) obtain e' where "(y, e') \<in> set (cs_frontier s)" by auto
    moreover from this have "e' \<le> d + 1" using assms(2) c by (fastforce simp: layers_ok_def)
    ultimately show ?thesis by (auto simp: f(1))
  qed
  have goal1: "(\<exists>e'. (y, e') \<in> set (cs_frontier t) \<and> e' \<le> snd (cs_frontier t ! i) + 1)
        \<or> at_limit l (snd (cs_frontier t ! i)) t \<and> y \<notin> set (cs_visited t)"
    if i: "i < Suc cursor" "context_step g (fst (cs_frontier t ! i)) y" for i y
  proof (cases "i = cursor")
    case True
    with i c old have "y \<in> successors g (forward_edges g x)" by (simp add: context_step_def)
    with e True c seen [of y] old show ?thesis by (fastforce simp: expands_def)
  next
    case False
    then have lt: "i < cursor" using i(1) by simp
    with i old have st: "context_step g (fst (cs_frontier s ! i)) y" by simp
    then consider "\<exists>e'. (y, e') \<in> set (cs_frontier s) \<and> e' \<le> snd (cs_frontier s ! i) + 1"
      | "at_limit l (snd (cs_frontier s ! i)) s" "y \<notin> set (cs_visited s)"
      using assms(3) lt unfolding expanded_ok_def by blast
    then show ?thesis
    proof cases
      case 1
      with lt old show ?thesis by (auto simp: f(1))
    next
      case 2
      with stuck [OF lt st] at_limit_mono [OF e _ 2(1)] assms(1) lt old show ?thesis
        by (auto simp: f(2) frontier_ok_def)
    qed
  qed
  have "cs_truncated t \<longleftrightarrow> cs_truncated s \<or> (\<exists>y. context_step g x y \<and> y \<notin> set (cs_visited t))"
    using e by (auto simp: expands_def context_step_def)
  also have "\<dots> \<longleftrightarrow> (\<exists>i < Suc cursor. \<exists>y. context_step g (fst (cs_frontier t ! i)) y
      \<and> y \<notin> set (cs_visited t))" (is "?l \<longleftrightarrow> ?r")
  proof
    assume ?l
    then show ?r
    proof
      assume "cs_truncated s"
      then obtain i y where "i < cursor" "context_step g (fst (cs_frontier s ! i)) y"
        "y \<notin> set (cs_visited s)" using assms(3) by (auto simp: expanded_ok_def)
      with stuck [OF this] old [of i] f(2) show ?r by (intro exI [of _ i]) auto
    next
      assume "\<exists>y. context_step g x y \<and> y \<notin> set (cs_visited t)"
      then show ?r using c old [of cursor] by (intro exI [of _ cursor]) auto
    qed
  next
    assume ?r
    then obtain i y where i: "i < Suc cursor" "context_step g (fst (cs_frontier t ! i)) y"
      "y \<notin> set (cs_visited t)" by blast
    show ?l
    proof (cases "i = cursor")
      case True
      with i c old show ?l by auto
    next
      case False
      with i old f(2) have "i < cursor" "context_step g (fst (cs_frontier s ! i)) y"
        "y \<notin> set (cs_visited s)" by auto
      with assms(3) show ?l by (auto simp: expanded_ok_def)
    qed
  qed
  finally show ?thesis using goal1 unfolding expanded_ok_def by blast
qed

lemma closure_loop_inv:
  assumes "closure_loop g l cursor s = Inr t" "frontier_ok g l seeds s" "layers_ok cursor s"
    "expanded_ok g l cursor s" "cursor \<le> length (cs_frontier s)"
  shows "frontier_ok g l seeds t \<and> expanded_ok g l (length (cs_frontier t)) t"
  using assms
proof (induction g l cursor s rule: closure_loop.induct)
  case (1 g l cursor s)
  show ?case
  proof (cases "cursor < length (cs_frontier s)")
    case False
    with 1 show ?thesis by (subst (asm) (2) closure_loop.simps) auto
  next
    case True
    obtain x d where xd: "cs_frontier s ! cursor = (x, d)" by fastforce
    from True 1(2) xd obtain u where u: "expand_edges g l d (forward_edges g x) s = Inr u"
      "closure_loop g l (cursor + 1) u = Inr t"
      by (subst (asm) closure_loop.simps) (auto split: sum.splits)
    have mem: "(x, d) \<in> set (cs_frontier s)" using True xd nth_mem by metis
    from expand_edges_spec [OF u(1)] 1(3) obtain new where
      e: "expands g l d (forward_edges g x) s new u" by (auto simp: frontier_ok_def)
    have "cursor + 1 \<le> length (cs_frontier u)" using True e by (simp add: expands_def)
    with 1(1) [OF True xd [symmetric] refl u(1) u(2) expand_frontier [OF 1(3) mem e]]
      expand_layers [OF 1(4) True xd e] expand_expanded [OF 1(3-5) True xd e]
    show ?thesis by simp
  qed
qed

lemma closure_loop_total:
  assumes "\<forall>a. \<forall>i \<in> set (forward_edges g a). graph_edge g i \<noteq> None"
  shows "is_ok (closure_loop g l cursor s)"
  using assms
proof (induction g l cursor s rule: closure_loop.induct)
  case (1 g l cursor s)
  have "is_ok (expand_edges g l d ids s)" if "\<forall>i \<in> set ids. graph_edge g i \<noteq> None" for d ids s
    using that by (induction g l d ids s rule: expand_edges.induct) (auto split: option.split)
  then have e: "is_ok (expand_edges g l d (forward_edges g x) s)" for x d using 1(2) by blast
  show ?case
  proof (cases "cursor < length (cs_frontier s)")
    case True
    obtain x d where xd: "cs_frontier s ! cursor = (x, d)" by fastforce
    obtain u where u: "expand_edges g l d (forward_edges g x) s = Inr u"
      using e [of d x] by (auto simp: is_ok_iff)
    from 1(1) [OF True xd [symmetric] refl u 1(2)] True xd u
    show ?thesis by (subst closure_loop.simps) simp
  qed (simp add: closure_loop.simps)
qed

section \<open>The closure of a built graph\<close>

definition depends :: "graph_input \<Rightarrow> str \<Rightarrow> str \<Rightarrow> bool" where
  "depends i a b \<longleftrightarrow> (\<exists>e \<in> set (gi_edges i). e_source e = a \<and> e_target e = b
     \<and> e_certainty e = Cert_Known \<and> positive_context_relationship (e_relationship e))"

lemma context_step_depends:
  assumes "graph_build i l = Inr g"
  shows "context_step g = depends i"
proof (intro ext)
  fix a b
  have ok: "graph_input_ok i l" using graph_build_ok [of i l] assms by simp
  then have d: "distinct (map n_id (gi_nodes i))" "distinct (map e_id (gi_edges i))"
    by (simp_all add: graph_input_ok_def)
  have present: "graph_node g (e_target e) \<noteq> None"
    if "e \<in> set (gi_edges i)" "e_certainty e = Cert_Known" for e
  proof -
    from that ok obtain n where n: "n \<in> set (gi_nodes i)" "n_id n = e_target e"
      by (auto simp: graph_input_ok_def list_all_iff edge_ok_def)
    then have "graph_node g (n_id n) = Some n" by (simp add: graph_built(1) [OF assms] find_distinct [OF d(1)])
    then show ?thesis by (simp add: n(2))
  qed
  show "context_step g a b \<longleftrightarrow> depends i a b"
  proof
    assume "context_step g a b"
    then obtain j e where j: "j \<in> set (forward_edges g a)" "graph_edge g j = Some e"
      "e_certainty e = Cert_Known" "positive_context_relationship (e_relationship e)" "e_target e = b"
      by (auto simp: context_step_def successors_def)
    then obtain f where f: "f \<in> set (gi_edges i)" "e_id f = j" "e_source f = a"
      by (auto simp: graph_built(3) [OF assms])
    from j(2) have "e \<in> set (gi_edges i)" "e_id e = j"
      by (auto simp: graph_built(2) [OF assms] find_distinct [OF d(2)])
    with f d(2) have "e = f" by (auto simp: distinct_map dest: inj_onD)
    with f j show "depends i a b" by (auto simp: depends_def)
  next
    assume "depends i a b"
    then obtain e where e: "e \<in> set (gi_edges i)" "e_source e = a" "e_target e = b"
      "e_certainty e = Cert_Known" "positive_context_relationship (e_relationship e)"
      by (auto simp: depends_def)
    then have "e_id e \<in> set (forward_edges g a)" "graph_edge g (e_id e) = Some e"
      by (auto simp: graph_built(2,3) [OF assms] find_distinct [OF d(2)])
    with e present [OF e(1,4)] show "context_step g a b"
      unfolding context_step_def successors_def by blast
  qed
qed

lemma graph_edges_present:
  assumes "graph_build i l = Inr g" "j \<in> set (forward_edges g a)"
  shows "graph_edge g j \<noteq> None"
proof -
  have d: "distinct (map e_id (gi_edges i))"
    using graph_build_ok [of i l] assms by (simp add: graph_input_ok_def)
  obtain e where "e \<in> set (gi_edges i)" "e_id e = j" using assms by (auto simp: graph_built(3))
  then have "graph_edge g j = Some e" by (simp add: graph_built(2) [OF assms(1)] find_distinct [OF d])
  then show ?thesis by simp
qed

text \<open>The nodes within \<open>k\<close> steps of the seeds.\<close>

definition within :: "graph_input \<Rightarrow> str set \<Rightarrow> nat \<Rightarrow> str set" where
  "within i seeds k = {x. \<exists>a \<in> seeds. \<exists>j \<le> k. (depends i ^^ j) a x}"

definition reachable_from :: "graph_input \<Rightarrow> str set \<Rightarrow> str set" where
  "reachable_from i seeds = {x. \<exists>a \<in> seeds. rtranclp (depends i) a x}"

lemma closure_start_ok:
  assumes "distinct seeds"
  shows "frontier_ok g l (set seeds) (closure_start seeds)" "layers_ok 0 (closure_start seeds)"
    "expanded_ok g l 0 (closure_start seeds)"
proof -
  show "frontier_ok g l (set seeds) (closure_start seeds)"
    by (auto simp: frontier_ok_def closure_start_def sets_ok_def image_image)
  show "layers_ok 0 (closure_start seeds)"
    using sorted_const [of 0 seeds] by (auto simp: layers_ok_def closure_start_def comp_def)
  show "expanded_ok g l 0 (closure_start seeds)"
    by (simp add: expanded_ok_def closure_start_def)
qed

lemma expanded_all:
  assumes "expanded_ok g l (length (cs_frontier s)) s"
  shows "(x, d) \<in> set (cs_frontier s) \<Longrightarrow> context_step g x y \<Longrightarrow>
      (\<exists>e. (y, e) \<in> set (cs_frontier s) \<and> e \<le> d + 1) \<or> at_limit l d s \<and> y \<notin> set (cs_visited s)"
    and "cs_truncated s \<longleftrightarrow>
      (\<exists>p \<in> set (cs_frontier s). \<exists>y. context_step g (fst p) y \<and> y \<notin> set (cs_visited s))"
proof -
  show "(\<exists>e. (y, e) \<in> set (cs_frontier s) \<and> e \<le> d + 1) \<or> at_limit l d s \<and> y \<notin> set (cs_visited s)"
    if m: "(x, d) \<in> set (cs_frontier s)" and st: "context_step g x y"
  proof -
    from m obtain i where "i < length (cs_frontier s)" "cs_frontier s ! i = (x, d)"
      by (auto simp: in_set_conv_nth)
    moreover from this st have "context_step g (fst (cs_frontier s ! i)) y" by simp
    ultimately show ?thesis using assms unfolding expanded_ok_def by (metis snd_conv)
  qed
  show "cs_truncated s \<longleftrightarrow>
      (\<exists>p \<in> set (cs_frontier s). \<exists>y. context_step g (fst p) y \<and> y \<notin> set (cs_visited s))"
    using assms by (simp only: expanded_ok_def) (metis in_set_conv_nth)
qed

lemma closure_complete:
  assumes "frontier_ok g l seeds s" "expanded_ok g l (length (cs_frontier s)) s"
  shows "cs_truncated s \<longleftrightarrow>
      \<not> {x. \<exists>a \<in> seeds. rtranclp (context_step g) a x} \<subseteq> set (cs_visited s)"
    and "length (cs_admitted s) < dl_max_nodes l \<Longrightarrow> k \<le> dl_max_depth l \<Longrightarrow> a \<in> seeds
      \<Longrightarrow> (context_step g ^^ k) a y \<Longrightarrow> \<exists>e \<le> k. (y, e) \<in> set (cs_frontier s)"
proof -
  have F: "fst ` set (cs_frontier s) = set (cs_visited s)" "seeds \<subseteq> set (cs_visited s)"
    "\<forall>x \<in> seeds. (x, 0) \<in> set (cs_frontier s)"
    and reach: "\<forall>(x, d) \<in> set (cs_frontier s). \<exists>a \<in> seeds. (context_step g ^^ d) a x"
    using assms(1) by (auto simp: frontier_ok_def)
  show "cs_truncated s \<longleftrightarrow>
      \<not> {x. \<exists>a \<in> seeds. rtranclp (context_step g) a x} \<subseteq> set (cs_visited s)"
  proof
    assume "cs_truncated s"
    then obtain x d y where x: "(x, d) \<in> set (cs_frontier s)" "context_step g x y" "y \<notin> set (cs_visited s)"
      using expanded_all(2) [OF assms(2)] by auto
    with reach obtain a where "a \<in> seeds" "(context_step g ^^ d) a x" by blast
    with x(2) have "rtranclp (context_step g) a y"
      by (metis relpowp_imp_rtranclp rtranclp.rtrancl_into_rtrancl)
    with x(3) \<open>a \<in> seeds\<close> show "\<not> {x. \<exists>a \<in> seeds. rtranclp (context_step g) a x} \<subseteq> set (cs_visited s)"
      by blast
  next
    assume n: "\<not> {x. \<exists>a \<in> seeds. rtranclp (context_step g) a x} \<subseteq> set (cs_visited s)"
    show "cs_truncated s"
    proof (rule ccontr)
      assume "\<not> cs_truncated s"
      then have closed: "y \<in> set (cs_visited s)" if "x \<in> set (cs_visited s)" "context_step g x y" for x y
      proof -
        from that(1) have "x \<in> fst ` set (cs_frontier s)" by (simp only: F(1))
        then obtain p where "p \<in> set (cs_frontier s)" "fst p = x" by blast
        with that(2) \<open>\<not> cs_truncated s\<close> expanded_all(2) [OF assms(2)] show ?thesis by blast
      qed
      have "x \<in> set (cs_visited s)" if "rtranclp (context_step g) a x" "a \<in> seeds" for a x
        using that by (induction rule: rtranclp_induct) (use F(2) closed in blast)+
      with n show False by blast
    qed
  qed
  show "\<exists>e \<le> k. (y, e) \<in> set (cs_frontier s)"
    if "length (cs_admitted s) < dl_max_nodes l" "k \<le> dl_max_depth l" "a \<in> seeds"
      "(context_step g ^^ k) a y"
    using that
  proof (induction k arbitrary: y)
    case 0
    then show ?case using F(3) by auto
  next
    case (Suc k)
    then obtain x where x: "(context_step g ^^ k) a x" "context_step g x y" by auto
    with Suc obtain e where e: "e \<le> k" "(x, e) \<in> set (cs_frontier s)" by auto
    with Suc.prems have "\<not> at_limit l e s" by (simp add: at_limit_def)
    with expanded_all(1) [OF assms(2) e(2) x(2)] obtain e'
      where "(y, e') \<in> set (cs_frontier s)" "e' \<le> e + 1" by blast
    with e(1) show ?case by (intro exI [of _ e']) simp
  qed
qed

lemma closure_exact_at:
  assumes b: "graph_build i k = Inr g"
    and c: "closure_loop g l 0 (closure_start seeds) = Inr s" and "distinct seeds"
  shows "sorted (cs_admitted s) \<and> distinct (cs_admitted s) \<and> length (cs_admitted s) \<le> dl_max_nodes l
    \<and> set (cs_admitted s) \<subseteq> within i (set seeds) (dl_max_depth l) - set seeds
    \<and> (cs_truncated s \<longleftrightarrow> \<not> reachable_from i (set seeds) \<subseteq> set seeds \<union> set (cs_admitted s))
    \<and> (length (cs_admitted s) < dl_max_nodes l
        \<longrightarrow> set (cs_admitted s) = within i (set seeds) (dl_max_depth l) - set seeds)"
proof -
  have f: "frontier_ok g l (set seeds) s" and e: "expanded_ok g l (length (cs_frontier s)) s"
    using closure_loop_inv [OF c closure_start_ok [OF assms(3)]] by auto
  have sets: "sets_ok l s" "set (cs_admitted s) = set (cs_visited s) - set seeds"
    "set seeds \<subseteq> set (cs_visited s)" "fst ` set (cs_frontier s) = set (cs_visited s)"
    "\<forall>(x, d) \<in> set (cs_frontier s). d \<le> dl_max_depth l \<and> (\<exists>a \<in> set seeds. (depends i ^^ d) a x)"
    using f context_step_depends [OF b] by (auto simp: frontier_ok_def)
  have "set (cs_visited s) \<subseteq> within i (set seeds) (dl_max_depth l)"
    using sets(4,5) unfolding within_def by fastforce
  then have sub: "set (cs_admitted s) \<subseteq> within i (set seeds) (dl_max_depth l) - set seeds"
    using sets(2) by blast
  have un: "set seeds \<union> set (cs_admitted s) = set (cs_visited s)" using sets(2,3) by blast
  have "within i (set seeds) (dl_max_depth l) \<subseteq> set (cs_visited s)"
    if n: "length (cs_admitted s) < dl_max_nodes l"
  proof
    fix x assume "x \<in> within i (set seeds) (dl_max_depth l)"
    then obtain a j where "a \<in> set seeds" "j \<le> dl_max_depth l" "(context_step g ^^ j) a x"
      unfolding within_def context_step_depends [OF b] by blast
    then obtain d where "(x, d) \<in> set (cs_frontier s)" using closure_complete(2) [OF f e n] by blast
    then show "x \<in> set (cs_visited s)" using sets(4) by (metis fst_conv image_eqI)
  qed
  then have full: "set (cs_admitted s) = within i (set seeds) (dl_max_depth l) - set seeds"
    if "length (cs_admitted s) < dl_max_nodes l"
    using that sub sets(2) by blast
  have "cs_truncated s \<longleftrightarrow> \<not> reachable_from i (set seeds) \<subseteq> set seeds \<union> set (cs_admitted s)"
    using closure_complete(1) [OF f e] unfolding reachable_from_def un context_step_depends [OF b] .
  with full sub sets(1) show ?thesis by (simp add: sets_ok_def)
qed

lemma find_SomeD: "find P xs = Some x \<Longrightarrow> x \<in> set xs \<and> P x"
  by (induction xs) (auto split: if_splits)

text \<open>
  C4. Dependency expansion over a built graph never panics and fails only for a seed that
  is not a node. The admitted nodes are sorted, without repeats, within the node limit, not
  seeds, and each within the depth limit of a seed along known edges of a positive
  relationship. The closure says that it is truncated exactly when something reachable was
  left out; and unless the node limit was used up, the admitted nodes are exactly those
  within the depth limit.
\<close>

theorem dependency_closure_exact:
  assumes "graph_build input limits = Inr (ar_graph r)"
  shows "let seeds = set (view_ids (ar_view r)); l = ar_dependency_limits r in
    case dependency_closure r of
      Inl e \<Rightarrow> \<exists>x \<in> seeds. x \<notin> n_id ` set (gi_nodes input) \<and> e = ViewSeedNotInGraph x
    | Inr c \<Rightarrow> sorted (dc_admitted_ids c) \<and> distinct (dc_admitted_ids c)
        \<and> length (dc_admitted_ids c) \<le> dl_max_nodes l
        \<and> set (dc_admitted_ids c) \<subseteq> within input seeds (dl_max_depth l) - seeds
        \<and> (dc_truncated c \<longleftrightarrow>
             \<not> reachable_from input seeds \<subseteq> seeds \<union> set (dc_admitted_ids c))
        \<and> (length (dc_admitted_ids c) < dl_max_nodes l \<longrightarrow>
             set (dc_admitted_ids c) = within input seeds (dl_max_depth l) - seeds)"
proof -
  let ?g = "ar_graph r" and ?seeds = "btree_set (view_ids (ar_view r))"
  have seeds: "distinct ?seeds" "set ?seeds = set (view_ids (ar_view r))"
    by (simp_all add: btree_set_def)
  show ?thesis
  proof (cases "find (\<lambda>i. graph_node ?g i = None) ?seeds")
    case (Some x)
    from find_SomeD [OF this] have x: "x \<in> set (view_ids (ar_view r))" "graph_node ?g x = None" by (simp_all add: seeds(2))
    have "x \<notin> n_id ` set (gi_nodes input)"
      using x(2) by (auto simp: graph_built(1) [OF assms] find_None_iff)
    with Some x show ?thesis by (auto simp: dependency_closure_def)
  next
    case None
    obtain s where s: "closure_loop ?g (ar_dependency_limits r) 0 (closure_start ?seeds) = Inr s"
      using closure_loop_total [of ?g] graph_edges_present [OF assms] by (metis is_ok_iff)
    from closure_exact_at [OF assms s seeds(1)] None s show ?thesis
      by (simp add: dependency_closure_def Let_def seeds(2))
  qed
qed

definition demo_request :: "nat \<Rightarrow> packet_assembly_request" where
  "demo_request depth =
     (case graph_build demo_graph demo_limits of Inr g \<Rightarrow>
        (case view_compile demo_view_spec g of Inr v \<Rightarrow>
           \<lparr>ar_view = v, ar_graph = g,
            ar_evidence = map (\<lambda>i. \<lparr>ev_id = i, ev_content = ''text '' @ i, ev_priority = Related,
                ev_authority = 1, ev_freshness = 1, ev_anchors = []\<rparr>) [''b'', ''a''],
            ar_limits = \<lparr>pl_max_items = 9, pl_max_bytes = 500, pl_runtime_token_ceiling = None\<rparr>,
            ar_dependency_limits = \<lparr>dl_max_depth = depth, dl_max_nodes = 9\<rparr>\<rparr>))"

lemma demo_request_graph: "graph_build demo_graph demo_limits = Inr (ar_graph (demo_request depth))"
proof -
  obtain g v where "graph_build demo_graph demo_limits = Inr g" "view_compile demo_view_spec g = Inr v"
    using demo_view_compiles by (auto split: sum.splits)
  then show ?thesis by (simp add: demo_request_def)
qed

theorem dependency_closure_exact_witness:
  "dependency_closure (demo_request 1) = Inr \<lparr>dc_admitted_ids = [''b''], dc_truncated = True\<rparr>
   \<and> \<not> reachable_from demo_graph {''a''} \<subseteq> {''a''} \<union> {''b''}"
proof -
  have c: "dependency_closure (demo_request 1) = Inr \<lparr>dc_admitted_ids = [''b''], dc_truncated = True\<rparr>"
    by code_simp
  have s: "set (view_ids (ar_view (demo_request 1))) = {''a''}" by code_simp
  from dependency_closure_exact [OF demo_request_graph, of 1] c show ?thesis
    unfolding s by (simp add: Let_def)
qed

end
