(* ===== verification/Packet.thy ===== *)
theory Packet
  imports Packet_Closure
begin

text \<open>
  Packet assembly of \<open>packet/mod.rs\<close>: the evidence of a request is indexed and checked,
  the candidates are ordered by requiredness, authority, freshness and identity, and packed
  greedily below the effective ceilings. The lemmas show the accounting and the bounds of a
  packet, that no required evidence is ever left out silently, that evidence is refused
  exactly when it is not what \<open>evidence_ids\<close> asks for, and that its order does not matter.
\<close>

section \<open>Evidence\<close>

text \<open>\<open>BTreeMap::insert\<close> replaces; the identities inserted again are collected.\<close>

fun insert_evidence ::
  "evidence_content list \<Rightarrow> (str, evidence_content) omap \<Rightarrow> str list
   \<Rightarrow> (str, evidence_content) omap \<times> str list" where
  "insert_evidence [] m dups = (m, dups)"
| "insert_evidence (e # es) m dups =
     insert_evidence es (om_put (ev_id e) e m)
       (if om_get m (ev_id e) \<noteq> None then insort_insert (ev_id e) dups else dups)"

definition missing_anchor :: "evidence_content \<Rightarrow> preservation_anchor option" where
  "missing_anchor e = find (\<lambda>a. \<not> contains (ev_content e) (a_value a)) (ev_anchors e)"

definition index_evidence ::
  "packet_assembly_request \<Rightarrow> str list \<Rightarrow> packet_error + (str, evidence_content) omap" where
  "index_evidence r dependency_ids =
     (let selected = btree_set (view_ids (ar_view r) @ dependency_ids);
          (evidence, duplicates) = insert_evidence (ar_evidence r) [] [] in
      case duplicates of
        i # _ \<Rightarrow> Inl (DuplicateSelectedEvidence i)
      | [] \<Rightarrow>
      (case find (\<lambda>i. om_get evidence i = None) selected of
        Some i \<Rightarrow> Inl (MissingSelectedEvidence i)
      | None \<Rightarrow>
      (case find (\<lambda>i. i \<notin> set selected) (om_keys evidence) of
        Some i \<Rightarrow> Inl (UnrelatedEvidence i)
      | None \<Rightarrow>
      (case find (\<lambda>e. ev_priority e = Required \<and> ev_anchors e = []) (map snd evidence) of
        Some e \<Rightarrow> Inl (RequiredEvidenceMissingPreservationAnchors (ev_id e))
      | None \<Rightarrow>
      (case find (\<lambda>e. missing_anchor e \<noteq> None) (map snd evidence) of
        Some e \<Rightarrow> (case missing_anchor e of
            Some a \<Rightarrow> Inl (PreservationAnchorNotInEvidence (ev_id e) (a_id a))
          | None \<Rightarrow> Inr evidence)
      | None \<Rightarrow> Inr evidence)))))"

definition effective_limits ::
  "packet_assembly_request \<Rightarrow> nat \<Rightarrow> packet_error + packet_limits" where
  "effective_limits r admitted_dependencies =
     res_bind (ok_or (ArithmeticOverflow ''expanded packet item ceiling'')
       (checked_add_u64 (vs_max_items (cv_spec (ar_view r))) admitted_dependencies)) (\<lambda>ceiling.
     Inr \<lparr>pl_max_items = min (pl_max_items (ar_limits r)) ceiling,
          pl_max_bytes = min (pl_max_bytes (ar_limits r)) (vs_max_bytes (cv_spec (ar_view r))),
          pl_runtime_token_ceiling = pl_runtime_token_ceiling (ar_limits r)\<rparr>)"

section \<open>Candidates\<close>

record candidate =
  cd_provenance :: provenance
  cd_evidence :: evidence_content

definition priority_rank :: "evidence_priority \<Rightarrow> nat" where
  "priority_rank p = (case p of Required \<Rightarrow> 0 | Recommended \<Rightarrow> 1 | Related \<Rightarrow> 2)"

text \<open>The key of \<open>candidate_order\<close>; authority and freshness compare in reverse.\<close>

definition candidate_key :: "candidate \<Rightarrow> nat \<times> int \<times> int \<times> str" where
  "candidate_key c = (let e = cd_evidence c in
     (priority_rank (ev_priority e), - int (ev_authority e), - int (ev_freshness e), ev_id e))"

definition encode_item :: "str \<Rightarrow> provenance \<Rightarrow> evidence_content \<Rightarrow> str" where
  "encode_item i p e =
     ''node='' @ i @ [CHR 0x0A] @ ''source='' @ pv_source p @ [CHR 0x0A]
     @ ''locator='' @ pv_locator p @ [CHR 0x0A] @ ''content='' @ ev_content e @ [CHR 0x0A]"

definition view_candidate ::
  "(str, evidence_content) omap \<Rightarrow> view_item \<Rightarrow> packet_error + candidate" where
  "view_candidate evidence item =
     res_bind (ok_or (PacketPanic ''seed evidence was validated before sorting'')
       (om_get evidence (vi_id item))) (\<lambda>e.
     Inr \<lparr>cd_provenance = vi_provenance item, cd_evidence = e\<rparr>)"

definition dependency_candidate ::
  "knowledge_graph \<Rightarrow> (str, evidence_content) omap \<Rightarrow> str \<Rightarrow> packet_error + candidate" where
  "dependency_candidate g evidence i =
     res_bind (ok_or (PacketPanic ''admitted dependency is a present graph node'') (graph_node g i)) (\<lambda>n.
     res_bind (ok_or (PacketPanic ''dependency evidence was validated before sorting'')
       (om_get evidence i)) (\<lambda>e.
     Inr \<lparr>cd_provenance = n_provenance n, cd_evidence = e\<rparr>))"

section \<open>Packing\<close>

record pack_state =
  ps_items :: "context_item list"
  ps_payload :: str
  ps_selected_ids :: "str list"
  ps_omitted_ids :: "str list"
  ps_raw_bytes :: nat

definition pack_start :: pack_state where
  "pack_start = \<lparr>ps_items = [], ps_payload = [], ps_selected_ids = [], ps_omitted_ids = [],
     ps_raw_bytes = 0\<rparr>"

definition candidate_text :: "candidate \<Rightarrow> str" where
  "candidate_text c = encode_item (ev_id (cd_evidence c)) (cd_provenance c) (cd_evidence c)"

definition context_item_of :: "candidate \<Rightarrow> context_item" where
  "context_item_of c = (let e = cd_evidence c in
     \<lparr>ci_id = ev_id e, ci_provenance = cd_provenance c, ci_content = ev_content e,
      ci_priority = ev_priority e, ci_authority = ev_authority e, ci_freshness = ev_freshness e,
      ci_anchors = ev_anchors e, ci_raw_bytes = length (candidate_text c)\<rparr>)"

definition estimate_packet_tokens :: "nat \<Rightarrow> nat" where
  "estimate_packet_tokens raw_bytes = raw_bytes div 4 + (if raw_bytes mod 4 \<noteq> 0 then 1 else 0)"

definition rejection :: "packet_limits \<Rightarrow> pack_state \<Rightarrow> nat \<Rightarrow> packet_bound option" where
  "rejection l s next_bytes =
     (if length (ps_items s) = pl_max_items l then Some Bound_Items
      else if next_bytes > pl_max_bytes l then Some Bound_Bytes
      else if (case pl_runtime_token_ceiling l of None \<Rightarrow> False
               | Some ceiling \<Rightarrow> estimate_packet_tokens next_bytes > ceiling)
      then Some Bound_RuntimeTokens
      else None)"

fun pack :: "packet_limits \<Rightarrow> candidate list \<Rightarrow> pack_state \<Rightarrow> packet_error + pack_state" where
  "pack l [] s = Inr s"
| "pack l (c # cs) s =
     (case checked_add_u64 (ps_raw_bytes s) (length (candidate_text c)) of
        None \<Rightarrow> Inl (ArithmeticOverflow ''packet raw byte count'')
      | Some next_bytes \<Rightarrow>
        (case rejection l s next_bytes of
           Some bound \<Rightarrow>
             if ev_priority (cd_evidence c) = Required
             then Inl (RequiredEvidenceDoesNotFit (ev_id (cd_evidence c)) bound)
             else pack l cs (s\<lparr>ps_omitted_ids := ps_omitted_ids s @ [ev_id (cd_evidence c)]\<rparr>)
         | None \<Rightarrow>
             pack l cs
               (s\<lparr>ps_raw_bytes := next_bytes, ps_payload := ps_payload s @ candidate_text c,
                  ps_selected_ids := ps_selected_ids s @ [ev_id (cd_evidence c)],
                  ps_items := ps_items s @ [context_item_of c]\<rparr>)))"

definition PACKET_RECEIPT_SCHEMA_VERSION :: str where
  "PACKET_RECEIPT_SCHEMA_VERSION = ''1.0.0''"

text \<open>The seed candidates in view order, then the dependency candidates in identity order.\<close>

definition candidates_of ::
  "packet_assembly_request \<Rightarrow> dependency_closure \<Rightarrow> (str, evidence_content) omap
   \<Rightarrow> packet_error + candidate list" where
  "candidates_of r c evidence =
     res_bind (ok_or (ArithmeticOverflow ''packet candidate capacity'')
       (checked_add_u64 (length (cv_items (ar_view r))) (length (dc_admitted_ids c)))) (\<lambda>_.
     res_bind (res_map (view_candidate evidence) (cv_items (ar_view r))) (\<lambda>seeds.
     res_bind (res_map (dependency_candidate (ar_graph r) evidence) (dc_admitted_ids c)) (\<lambda>deps.
       Inr (seeds @ deps))))"

definition assemble :: "packet_assembly_request \<Rightarrow> packet_error + context_packet" where
  "assemble r =
     res_bind (dependency_closure r) (\<lambda>c.
     res_bind (index_evidence r (dc_admitted_ids c)) (\<lambda>evidence.
     res_bind (effective_limits r (length (dc_admitted_ids c))) (\<lambda>l.
     res_bind (candidates_of r c evidence) (\<lambda>candidates.
     res_bind (pack l (sort_key candidate_key candidates) pack_start) (\<lambda>s.
       Inr \<lparr>pk_items = ps_items s, pk_payload = ps_payload s,
            pk_receipt =
              \<lparr>pr_schema_version = PACKET_RECEIPT_SCHEMA_VERSION,
               pr_seed_ids = view_ids (ar_view r),
               pr_admitted_dependency_ids = dc_admitted_ids c,
               pr_selected_ids = ps_selected_ids s, pr_omitted_ids = ps_omitted_ids s,
               pr_dependency_closure_truncated = dc_truncated c,
               pr_dependency_max_depth = dl_max_depth (ar_dependency_limits r),
               pr_dependency_max_nodes = dl_max_nodes (ar_dependency_limits r),
               pr_raw_bytes = ps_raw_bytes s,
               pr_estimated_tokens = estimate_packet_tokens (ps_raw_bytes s),
               pr_token_estimate_method = BytesDividedByFourCeiling,
               pr_effective_max_items = pl_max_items l, pr_effective_max_bytes = pl_max_bytes l,
               pr_runtime_token_ceiling = pl_runtime_token_ceiling l,
               pr_truncated = cv_truncated (ar_view r) \<or> dc_truncated c
                 \<or> ps_omitted_ids s \<noteq> []\<rparr>\<rparr>)))))"

section \<open>Indexing\<close>

lemma om_ext:
  assumes "om_inv m" "om_inv n" "om_get m = om_get n"
  shows "m = n"
proof -
  have "set m = set n"
    using assms om_get_Some_iff [of m] om_get_Some_iff [of n] by (auto 0 4)
  moreover have "inj_on fst (set m)" "distinct (map fst m)" "distinct (map fst n)"
    "sorted (map fst m)" "sorted (map fst n)"
    using assms(1,2) by (auto simp: om_inv_def strict_sorted_iff distinct_map)
  ultimately show ?thesis by (intro map_sorted_distinct_set_unique [of fst]) auto
qed

lemma insert_evidence_om:
  "om_inv m \<Longrightarrow> om_inv (fst (insert_evidence es m d))"
  by (induction es m d rule: insert_evidence.induct) (auto simp: om_put_inv)

lemma insert_evidence_dups:
  assumes "sorted d" "distinct d"
  shows "sorted (snd (insert_evidence es m d)) \<and> distinct (snd (insert_evidence es m d))
    \<and> set (snd (insert_evidence es m d)) = set d
        \<union> {i. count (mset (map ev_id es)) i + (if om_get m i = None then 0 else 1) > 1}"
  using assms
proof (induction es m d rule: insert_evidence.induct)
  case (2 e es m d)
  let ?d = "if om_get m (ev_id e) \<noteq> None then insort_insert (ev_id e) d else d"
  have d: "sorted ?d" "distinct ?d" using 2(2,3) by (auto simp: sorted_insort_insert distinct_insort_insert)
  have s: "set ?d = set d \<union> (if om_get m (ev_id e) \<noteq> None then {ev_id e} else {})"
    by (auto simp: set_insort_insert)
  let ?A = "\<lambda>i. count (mset (map ev_id es)) i
    + (if om_get (om_put (ev_id e) e m) i = None then 0 else 1) > 1"
  let ?B = "\<lambda>i. count (mset (map ev_id (e # es))) i + (if om_get m i = None then 0 else 1) > 1"
  have eq: "?B i \<longleftrightarrow> ?A i \<or> i = ev_id e \<and> om_get m i \<noteq> None" for i
    by (auto simp: om_get_put)
  have "Collect ?B = Collect ?A \<union> {i. i = ev_id e \<and> om_get m i \<noteq> None}"
    by (simp only: eq Collect_disj_eq)
  also have "{i. i = ev_id e \<and> om_get m i \<noteq> None}
      = (if om_get m (ev_id e) \<noteq> None then {ev_id e} else {})" by auto
  finally have "set d \<union> Collect ?B = set ?d \<union> Collect ?A" unfolding s by (simp only: Un_ac)
  with 2(1) [OF d] show ?case by simp
qed auto

lemma insert_evidence_get:
  "distinct (map ev_id es) \<Longrightarrow> om_get (fst (insert_evidence es m d)) i
     = (case find (\<lambda>e. ev_id e = i) es of None \<Rightarrow> om_get m i | Some e \<Rightarrow> Some e)"
proof (induction es m d rule: insert_evidence.induct)
  case (2 e es m d)
  from 2(2) have "ev_id e \<notin> ev_id ` set es" by simp
  then have n: "find (\<lambda>x. ev_id x = ev_id e) es = None" by (induction es) auto
  show ?case
  proof (cases "ev_id e = i")
    case True
    with 2 n show ?thesis by (auto simp: om_get_put)
  next
    case False
    with 2 show ?thesis by (simp add: om_get_put split: option.split)
  qed
qed simp

lemma insert_evidence_distinct:
  "snd (insert_evidence es [] []) = [] \<longleftrightarrow> distinct (map ev_id es)"
proof -
  have "snd (insert_evidence es [] []) = [] \<longleftrightarrow> (\<forall>i. count (mset (map ev_id es)) i \<le> 1)"
    using insert_evidence_dups [of "[]" es "[]"] by (auto simp: not_less simp flip: set_empty)
  also have "\<dots> \<longleftrightarrow> distinct (map ev_id es)"
    by (metis distinct_count_atmost_1 count_eq_zero_iff le_eq_less_or_eq less_one set_mset_mset zero_le_one)
  finally show ?thesis .
qed

lemma insert_evidence_mset:
  assumes "mset es = mset fs"
  shows "snd (insert_evidence es [] []) = snd (insert_evidence fs [] [])"
    and "distinct (map ev_id es) \<Longrightarrow> insert_evidence es [] [] = insert_evidence fs [] []"
proof -
  have m: "mset (map ev_id es) = mset (map ev_id fs)" using assms by (metis mset_map)
  show s: "snd (insert_evidence es [] []) = snd (insert_evidence fs [] [])"
    using insert_evidence_dups [of "[]" es "[]"] insert_evidence_dups [of "[]" fs "[]"] m
    by (intro sorted_distinct_set_unique) auto
  assume d: "distinct (map ev_id es)"
  then have "distinct (map ev_id fs)" using distinct_map_mset [OF assms] by blast
  then have "om_get (fst (insert_evidence es [] [])) = om_get (fst (insert_evidence fs [] []))"
    using insert_evidence_get [OF d] insert_evidence_get [of fs]
      find_mset [OF d assms [symmetric]] by (intro ext) simp
  then have "fst (insert_evidence es [] []) = fst (insert_evidence fs [] [])"
    by (intro om_ext insert_evidence_om) simp_all
  with s show "insert_evidence es [] [] = insert_evidence fs [] []" by (rule prod_eqI [rotated])
qed

definition evidence_sound :: "evidence_content \<Rightarrow> bool" where
  "evidence_sound e \<longleftrightarrow> (ev_priority e = Required \<longrightarrow> ev_anchors e \<noteq> [])
     \<and> (\<forall>a \<in> set (ev_anchors e). contains (ev_content e) (a_value a))"

lemma missing_anchor_None:
  "missing_anchor e = None \<longleftrightarrow> (\<forall>a \<in> set (ev_anchors e). contains (ev_content e) (a_value a))"
  by (auto simp: missing_anchor_def find_None_iff)

lemma find_reject:
  "(case find P xs of Some x \<Rightarrow> Inl (f x) | None \<Rightarrow> R) = Inr y \<longleftrightarrow> (\<forall>x \<in> set xs. \<not> P x) \<and> R = Inr y"
proof (cases "find P xs")
  case None
  then have "\<forall>x \<in> set xs. \<not> P x" by (auto simp: find_None_iff)
  with None show ?thesis by simp
next
  case (Some x)
  from find_SomeD [OF this] Some show ?thesis by auto
qed

lemma find_missing_anchor:
  "(case find (\<lambda>e. missing_anchor e \<noteq> None) xs of
      Some e \<Rightarrow> (case missing_anchor e of Some a \<Rightarrow> Inl (f e a) | None \<Rightarrow> R)
    | None \<Rightarrow> R) = Inr y \<longleftrightarrow> (\<forall>e \<in> set xs. missing_anchor e = None) \<and> R = Inr y"
proof (cases "find (\<lambda>e. missing_anchor e \<noteq> None) xs")
  case (Some e)
  from find_SomeD [OF this] Some show ?thesis by auto
next
  case None
  then have "\<forall>e \<in> set xs. missing_anchor e = None" by (auto simp: find_None_iff)
  with None show ?thesis by simp
qed

lemma index_evidence_cases:
  "index_evidence r deps = Inr m \<longleftrightarrow>
     insert_evidence (ar_evidence r) [] [] = (m, [])
     \<and> (\<forall>i \<in> set (view_ids (ar_view r) @ deps). om_get m i \<noteq> None)
     \<and> set (om_keys m) \<subseteq> set (view_ids (ar_view r) @ deps)
     \<and> (\<forall>e \<in> snd ` set m. evidence_sound e)"
proof -
  obtain n d where nd: "insert_evidence (ar_evidence r) [] [] = (n, d)" by fastforce
  show ?thesis
  proof (cases d)
    case Nil
    show ?thesis
      by (simp only: index_evidence_def Let_def nd Nil find_reject find_missing_anchor
          prod.case list.case not_not)
        (auto simp: missing_anchor_None btree_set_def evidence_sound_def)
  qed (simp add: index_evidence_def Let_def nd)
qed

lemma indexed_evidence:
  assumes "insert_evidence es [] [] = (m, [])"
  shows "distinct (map ev_id es)" "om_inv m" "om_get m i = find (\<lambda>e. ev_id e = i) es"
    "snd ` set m = set es" "set (om_keys m) = ev_id ` set es"
proof -
  show d: "distinct (map ev_id es)" using insert_evidence_distinct [of es] assms by simp
  show inv: "om_inv m" using insert_evidence_om [of "[]" es "[]"] assms by simp
  have get: "om_get m i = find (\<lambda>e. ev_id e = i) es" for i
    using insert_evidence_get [OF d, of "[]" "[]" i] assms by (auto split: option.splits)
  then show "om_get m i = find (\<lambda>e. ev_id e = i) es" .
  have "(i, e) \<in> set m \<longleftrightarrow> e \<in> set es \<and> ev_id e = i" for i e
    using om_get_Some_iff [OF inv, of i e] get [of i] by (simp add: find_distinct [OF d])
  then have "set m = (\<lambda>e. (ev_id e, e)) ` set es" by (auto simp: image_iff)
  then show "snd ` set m = set es" "set (om_keys m) = ev_id ` set es"
    by (simp_all add: om_keys_def image_image)
qed

lemma index_evidence_ok:
  "is_ok (index_evidence r deps) \<longleftrightarrow> distinct (map ev_id (ar_evidence r))
     \<and> ev_id ` set (ar_evidence r) = set (view_ids (ar_view r)) \<union> set deps
     \<and> (\<forall>e \<in> set (ar_evidence r). evidence_sound e)"
proof
  assume "is_ok (index_evidence r deps)"
  then obtain m where m: "index_evidence r deps = Inr m" by (auto simp: is_ok_iff)
  then have i: "insert_evidence (ar_evidence r) [] [] = (m, [])" by (simp add: index_evidence_cases)
  from m have "set (view_ids (ar_view r) @ deps) = set (om_keys m)" "\<forall>e \<in> snd ` set m. evidence_sound e"
    unfolding index_evidence_cases om_keys_get by blast+
  then show "distinct (map ev_id (ar_evidence r))
     \<and> ev_id ` set (ar_evidence r) = set (view_ids (ar_view r)) \<union> set deps
     \<and> (\<forall>e \<in> set (ar_evidence r). evidence_sound e)"
    by (simp add: indexed_evidence [OF i])
next
  assume a: "distinct (map ev_id (ar_evidence r))
     \<and> ev_id ` set (ar_evidence r) = set (view_ids (ar_view r)) \<union> set deps
     \<and> (\<forall>e \<in> set (ar_evidence r). evidence_sound e)"
  then obtain m where i: "insert_evidence (ar_evidence r) [] [] = (m, [])"
    using insert_evidence_distinct [of "ar_evidence r"] by (metis prod.collapse)
  have "index_evidence r deps = Inr m"
  proof -
    have "set (om_keys m) = set (view_ids (ar_view r) @ deps)" using a by (simp add: indexed_evidence [OF i])
    moreover from this have "\<forall>j \<in> set (view_ids (ar_view r) @ deps). om_get m j \<noteq> None"
      unfolding om_keys_get by blast
    ultimately show ?thesis
      using i a unfolding index_evidence_cases indexed_evidence(4) [OF i] by blast
  qed
  then show "is_ok (index_evidence r deps)" by simp
qed

section \<open>Packing keeps the bounds\<close>

definition fits :: "packet_limits \<Rightarrow> pack_state \<Rightarrow> bool" where
  "fits l s \<longleftrightarrow> length (ps_items s) \<le> pl_max_items l \<and> ps_raw_bytes s \<le> pl_max_bytes l
     \<and> (\<forall>c. pl_runtime_token_ceiling l = Some c \<longrightarrow> estimate_packet_tokens (ps_raw_bytes s) \<le> c)"

text \<open>The state after packing \<open>chosen\<close> and leaving out \<open>rest\<close>.\<close>

definition packed :: "candidate list \<Rightarrow> candidate list \<Rightarrow> pack_state \<Rightarrow> pack_state \<Rightarrow> bool" where
  "packed chosen rest s t \<longleftrightarrow>
     ps_items t = ps_items s @ map context_item_of chosen
     \<and> ps_payload t = ps_payload s @ concat (map candidate_text chosen)
     \<and> ps_selected_ids t = ps_selected_ids s @ map (\<lambda>c. ev_id (cd_evidence c)) chosen
     \<and> ps_omitted_ids t = ps_omitted_ids s @ map (\<lambda>c. ev_id (cd_evidence c)) rest
     \<and> ps_raw_bytes t = ps_raw_bytes s + sum_list (map (\<lambda>c. length (candidate_text c)) chosen)"

lemma pack_spec:
  assumes "pack l cs s = Inr t" "fits l s"
  shows "fits l t \<and> (\<exists>chosen rest. packed chosen rest s t \<and> mset cs = mset chosen + mset rest
      \<and> subseq chosen cs \<and> (\<forall>c \<in> set rest. ev_priority (cd_evidence c) \<noteq> Required))"
  using assms
proof (induction l cs s rule: pack.induct)
  case (1 l s)
  then show ?case by (intro conjI exI [of _ "[]"]) (auto simp: packed_def)
next
  case (2 l c cs s)
  then obtain n where n: "checked_add_u64 (ps_raw_bytes s) (length (candidate_text c)) = Some n"
    by (auto split: option.splits)
  then have n': "n = ps_raw_bytes s + length (candidate_text c)"
    by (auto simp: checked_add_u64_def split: if_splits)
  show ?case
  proof (cases "rejection l s n")
    case (Some b)
    let ?s = "s\<lparr>ps_omitted_ids := ps_omitted_ids s @ [ev_id (cd_evidence c)]\<rparr>"
    have p: "ev_priority (cd_evidence c) \<noteq> Required" "pack l cs ?s = Inr t"
      using 2(3) n Some by (auto split: if_splits)
    have "fits l ?s" using 2(4) by (simp add: fits_def)
    from 2(2) [OF n Some p(1) p(2) this] obtain ch re where "fits l t" "packed ch re ?s t"
      "mset cs = mset ch + mset re" "subseq ch cs" "\<forall>c \<in> set re. ev_priority (cd_evidence c) \<noteq> Required"
      by blast
    with p(1) show ?thesis
      by (intro conjI exI [of _ ch] exI [of _ "c # re"]) (auto simp: packed_def)
  next
    case None
    let ?s = "s\<lparr>ps_raw_bytes := n, ps_payload := ps_payload s @ candidate_text c,
                ps_selected_ids := ps_selected_ids s @ [ev_id (cd_evidence c)],
                ps_items := ps_items s @ [context_item_of c]\<rparr>"
    have p: "pack l cs ?s = Inr t" using 2(3) n None by simp
    have "fits l ?s" using 2(4) None by (auto simp: fits_def rejection_def split: if_splits option.splits)
    from 2(1) [OF n None p this] obtain ch re where "fits l t" "packed ch re ?s t"
      "mset cs = mset ch + mset re" "subseq ch cs" "\<forall>c \<in> set re. ev_priority (cd_evidence c) \<noteq> Required"
      by blast
    with n' show ?thesis
      by (intro conjI exI [of _ "c # ch"] exI [of _ re]) (auto simp: packed_def)
  qed
qed

section \<open>Assembly\<close>

lemma res_map_all2: "res_map f xs = Inr ys \<Longrightarrow> list_all2 (\<lambda>x y. f x = Inr y) xs ys"
  by (induction xs arbitrary: ys) (auto simp: res_simps)

lemma candidates_ids:
  assumes "candidates_of r c m = Inr cs" "index_evidence r deps = Inr m"
  shows "map (\<lambda>c. ev_id (cd_evidence c)) cs = view_ids (ar_view r) @ dc_admitted_ids c"
    and "cd_evidence ` set cs \<subseteq> set (ar_evidence r)"
proof -
  have i: "insert_evidence (ar_evidence r) [] [] = (m, [])"
    using assms(2) by (simp add: index_evidence_cases)
  obtain seeds ds where s: "res_map (view_candidate m) (cv_items (ar_view r)) = Inr seeds"
    and d: "res_map (dependency_candidate (ar_graph r) m) (dc_admitted_ids c) = Inr ds"
    and cs: "cs = seeds @ ds"
    using assms(1) by (auto simp: candidates_of_def res_simps)
  have get: "om_get m j = Some e \<Longrightarrow> ev_id e = j \<and> e \<in> set (ar_evidence r)" for j e
    using indexed_evidence(1,3) [OF i] by (auto simp: find_distinct dest: find_SomeD)
  have "list_all2 (\<lambda>x y. ev_id (cd_evidence y) = vi_id x \<and> cd_evidence y \<in> set (ar_evidence r))
      (cv_items (ar_view r)) seeds"
    using res_map_all2 [OF s] by (rule list_all2_mono) (auto simp: view_candidate_def res_simps dest: get)
  moreover have "list_all2 (\<lambda>x y. ev_id (cd_evidence y) = x \<and> cd_evidence y \<in> set (ar_evidence r))
      (dc_admitted_ids c) ds"
    using res_map_all2 [OF d] by (rule list_all2_mono) (auto simp: dependency_candidate_def res_simps dest: get)
  ultimately show "map (\<lambda>c. ev_id (cd_evidence c)) cs = view_ids (ar_view r) @ dc_admitted_ids c"
    "cd_evidence ` set cs \<subseteq> set (ar_evidence r)"
    by (auto simp: cs view_ids_def list_all2_conv_all_nth in_set_conv_nth intro!: nth_equalityI)
qed

lemma assemble_Inr:
  assumes "assemble r = Inr p"
  obtains c m l cs s chosen rest where "dependency_closure r = Inr c"
    "index_evidence r (dc_admitted_ids c) = Inr m"
    "effective_limits r (length (dc_admitted_ids c)) = Inr l" "candidates_of r c m = Inr cs"
    "fits l s" "packed chosen rest pack_start s" "mset cs = mset chosen + mset rest"
    "subseq chosen (sort_key candidate_key cs)"
    "\<forall>c \<in> set rest. ev_priority (cd_evidence c) \<noteq> Required"
    "pk_items p = ps_items s" "pk_payload p = ps_payload s"
    "pr_seed_ids (pk_receipt p) = view_ids (ar_view r)"
    "pr_admitted_dependency_ids (pk_receipt p) = dc_admitted_ids c"
    "pr_selected_ids (pk_receipt p) = ps_selected_ids s"
    "pr_omitted_ids (pk_receipt p) = ps_omitted_ids s"
    "pr_raw_bytes (pk_receipt p) = ps_raw_bytes s"
    "pr_estimated_tokens (pk_receipt p) = estimate_packet_tokens (ps_raw_bytes s)"
    "pr_effective_max_items (pk_receipt p) = pl_max_items l"
    "pr_effective_max_bytes (pk_receipt p) = pl_max_bytes l"
    "pr_runtime_token_ceiling (pk_receipt p) = pl_runtime_token_ceiling l"
    "pr_truncated (pk_receipt p) \<longleftrightarrow> cv_truncated (ar_view r) \<or> dc_truncated c \<or> ps_omitted_ids s \<noteq> []"
proof -
  from assms obtain c m l cs s where a: "dependency_closure r = Inr c"
    "index_evidence r (dc_admitted_ids c) = Inr m"
    "effective_limits r (length (dc_admitted_ids c)) = Inr l" "candidates_of r c m = Inr cs"
    "pack l (sort_key candidate_key cs) pack_start = Inr s"
    unfolding assemble_def by (auto simp: res_simps)
  have "fits l pack_start" by (simp add: fits_def pack_start_def estimate_packet_tokens_def)
  from pack_spec [OF a(5) this] obtain chosen rest where "fits l s" "packed chosen rest pack_start s"
    "mset cs = mset chosen + mset rest" "subseq chosen (sort_key candidate_key cs)"
    "\<forall>c \<in> set rest. ev_priority (cd_evidence c) \<noteq> Required" by auto
  then show ?thesis
    using assms a by (intro that [of c m l cs s chosen rest]) (auto simp: assemble_def)
qed

definition item_text :: "context_item \<Rightarrow> str" where
  "item_text i = ''node='' @ ci_id i @ [CHR 0x0A] @ ''source='' @ pv_source (ci_provenance i)
     @ [CHR 0x0A] @ ''locator='' @ pv_locator (ci_provenance i) @ [CHR 0x0A]
     @ ''content='' @ ci_content i @ [CHR 0x0A]"

lemma item_text_of [simp]: "item_text (context_item_of c) = candidate_text c"
  by (simp add: item_text_def context_item_of_def candidate_text_def encode_item_def Let_def)

lemma context_item_of_sel [simp]:
  "ci_id (context_item_of c) = ev_id (cd_evidence c)"
  "ci_raw_bytes (context_item_of c) = length (candidate_text c)"
  "ci_content (context_item_of c) = ev_content (cd_evidence c)"
  "ci_anchors (context_item_of c) = ev_anchors (cd_evidence c)"
  by (simp_all add: context_item_of_def Let_def)

text \<open>
  C5. Every assembled packet is exactly accounted and within its limits. The effective item
  ceiling is the caller's or the view's plus the admitted dependencies, the byte ceiling the
  smaller of the two, and items, bytes and estimated tokens stay below them. The payload is
  the concatenation of the items' texts, its length the recorded bytes; the selected
  identities are those of the items, and selected and omitted together are exactly the
  seeds and the admitted dependencies, each once.
\<close>

theorem packet_accounted:
  assumes "assemble r = Inr p"
  shows "let rc = pk_receipt p; l = ar_limits r; spec = cv_spec (ar_view r) in
    pr_effective_max_items rc
        = min (pl_max_items l) (vs_max_items spec + length (pr_admitted_dependency_ids rc))
    \<and> pr_effective_max_bytes rc = min (pl_max_bytes l) (vs_max_bytes spec)
    \<and> length (pk_items p) \<le> pr_effective_max_items rc
    \<and> pr_raw_bytes rc \<le> pr_effective_max_bytes rc
    \<and> pr_estimated_tokens rc = (pr_raw_bytes rc + 3) div 4
    \<and> (\<forall>c. pl_runtime_token_ceiling l = Some c \<longrightarrow> pr_estimated_tokens rc \<le> c)
    \<and> pk_payload p = concat (map item_text (pk_items p))
    \<and> pr_raw_bytes rc = length (pk_payload p)
    \<and> (\<forall>i \<in> set (pk_items p). ci_raw_bytes i = length (item_text i))
    \<and> pr_selected_ids rc = map ci_id (pk_items p)
    \<and> mset (pr_selected_ids rc @ pr_omitted_ids rc)
        = mset (pr_seed_ids rc @ pr_admitted_dependency_ids rc)"
proof (rule assemble_Inr [OF assms], goal_cases)
  case (1 c m l cs s chosen rest)
  note pk = 1(6) [unfolded packed_def pack_start_def, simplified]
  have l: "pl_max_items l = min (pl_max_items (ar_limits r))
        (vs_max_items (cv_spec (ar_view r)) + length (dc_admitted_ids c))"
    "pl_max_bytes l = min (pl_max_bytes (ar_limits r)) (vs_max_bytes (cv_spec (ar_view r)))"
    "pl_runtime_token_ceiling l = pl_runtime_token_ceiling (ar_limits r)"
    using 1(3) by (auto simp: effective_limits_def res_simps checked_add_u64_def split: if_splits)
  have "image_mset (\<lambda>c. ev_id (cd_evidence c)) (mset cs)
      = mset (view_ids (ar_view r) @ dc_admitted_ids c)"
    by (metis candidates_ids(1) [OF 1(4,2)] mset_map)
  then have ids: "mset (ps_selected_ids s @ ps_omitted_ids s) = mset (view_ids (ar_view r) @ dc_admitted_ids c)"
    by (simp add: pk 1(7))
  have t: "estimate_packet_tokens n = (n + 3) div 4" for n
    unfolding estimate_packet_tokens_def by (cases "n mod 4 = 0") (simp_all, presburger+)
  show ?case
    using 1(5) ids
    by (simp add: Let_def 1(10-) l [symmetric] fits_def t pk comp_def length_concat)
qed

lemma contains_concat: "contains t p \<Longrightarrow> t \<in> set ts \<Longrightarrow> contains (concat ts) p"
  by (auto simp: contains_iff dest!: split_list) (metis append.assoc)

lemma item_text_contains: "contains (ci_content i) p \<Longrightarrow> contains (item_text i) p"
  unfolding item_text_def contains_iff by (metis append.assoc)

text \<open>
  C26. Required evidence is never left out of a packet: each is an item with its content and
  its anchors, of which there is at least one, and every anchor's text is in the payload.
  When it does not fit, no packet is made.
\<close>

theorem required_evidence_kept:
  assumes "assemble r = Inr p" "e \<in> set (ar_evidence r)" "ev_priority e = Required"
  shows "\<exists>i \<in> set (pk_items p). ci_id i = ev_id e \<and> ci_content i = ev_content e
    \<and> ci_anchors i = ev_anchors e \<and> ev_anchors e \<noteq> []
    \<and> (\<forall>a \<in> set (ev_anchors e). contains (pk_payload p) (a_value a))"
proof (rule assemble_Inr [OF assms(1)], goal_cases)
  case (1 c m l cs s chosen rest)
  note pk = 1(6) [unfolded packed_def pack_start_def, simplified]
  have ok: "distinct (map ev_id (ar_evidence r))" "evidence_sound e"
    "ev_id e \<in> set (view_ids (ar_view r) @ dc_admitted_ids c)"
    using index_evidence_ok [of r "dc_admitted_ids c"] 1(2) assms(2) by auto
  then obtain d where d: "d \<in> set cs" "ev_id (cd_evidence d) = ev_id e"
    unfolding candidates_ids(1) [OF 1(4,2), symmetric] by auto
  then have "cd_evidence d \<in> set (ar_evidence r)" using candidates_ids(2) [OF 1(4,2)] by auto
  with ok(1) assms(2) d(2) have e: "cd_evidence d = e" by (auto simp: distinct_map dest: inj_onD)
  have "set cs = set chosen \<union> set rest" using 1(7) by (metis set_mset_mset set_mset_union)
  with d(1) e assms(3) 1(9) have "d \<in> set chosen" by auto
  then have i: "context_item_of d \<in> set (pk_items p)" by (simp add: 1(10) pk)
  have "contains (pk_payload p) (a_value a)" if "a \<in> set (ev_anchors e)" for a
  proof -
    have "contains (ci_content (context_item_of d)) (a_value a)"
      using ok(2) that e by (simp add: evidence_sound_def)
    then have "contains (candidate_text d) (a_value a)" using item_text_contains by fastforce
    with \<open>d \<in> set chosen\<close> show ?thesis by (auto simp: 1(11) pk intro: contains_concat)
  qed
  with i ok(2) assms(3) e show ?case
    by (intro bexI [of _ "context_item_of d"]) (auto simp: evidence_sound_def)
qed

text \<open>
  The order in which evidence is given does not matter: permuted evidence makes the
  same packet or the same error.
\<close>

theorem evidence_order_irrelevant:
  assumes "mset es = mset fs"
  shows "assemble (r\<lparr>ar_evidence := es\<rparr>) = assemble (r\<lparr>ar_evidence := fs\<rparr>)"
proof -
  have i: "index_evidence (r\<lparr>ar_evidence := es\<rparr>) d = index_evidence (r\<lparr>ar_evidence := fs\<rparr>) d" for d
  proof (cases "distinct (map ev_id es)")
    case True
    then show ?thesis using insert_evidence_mset(2) [OF assms] by (simp add: index_evidence_def)
  next
    case False
    obtain m n d' where "insert_evidence es [] [] = (m, d')" "insert_evidence fs [] [] = (n, d')"
      using insert_evidence_mset(1) [OF assms] by (metis prod.collapse)
    moreover from this False have "d' \<noteq> []" using insert_evidence_distinct [of es] by simp
    ultimately show ?thesis by (cases d') (simp_all add: index_evidence_def Let_def)
  qed
  have "dependency_closure (r\<lparr>ar_evidence := es\<rparr>) = dependency_closure (r\<lparr>ar_evidence := fs\<rparr>)"
    "effective_limits (r\<lparr>ar_evidence := es\<rparr>) = effective_limits (r\<lparr>ar_evidence := fs\<rparr>)"
    "candidates_of (r\<lparr>ar_evidence := es\<rparr>) = candidates_of (r\<lparr>ar_evidence := fs\<rparr>)"
    by (simp_all add: dependency_closure_def effective_limits_def candidates_of_def fun_eq_iff Let_def
        split: option.split)
  then show ?thesis by (simp add: assemble_def i)
qed

section \<open>Errors\<close>

lemma pack_Inl:
  assumes "pack l cs s = Inl e"
  shows "(\<exists>c \<in> set cs. \<exists>b. ev_priority (cd_evidence c) = Required
      \<and> e = RequiredEvidenceDoesNotFit (ev_id (cd_evidence c)) b)
    \<or> e = ArithmeticOverflow ''packet raw byte count''
      \<and> ps_raw_bytes s + sum_list (map (\<lambda>c. length (candidate_text c)) cs) > u64_max"
  using assms
proof (induction l cs s rule: pack.induct)
  case (2 l c cs s)
  then show ?case
    by (fastforce simp: checked_add_u64_def split: option.splits if_splits)
qed simp

lemma candidates_of_Inl:
  assumes "candidates_of r c m = Inl e" "index_evidence r (dc_admitted_ids c) = Inr m"
    "\<forall>i \<in> set (dc_admitted_ids c). graph_node (ar_graph r) i \<noteq> None"
  shows "e = ArithmeticOverflow ''packet candidate capacity''
    \<and> length (cv_items (ar_view r)) + length (dc_admitted_ids c) > u64_max"
proof -
  have get: "\<forall>i \<in> set (view_ids (ar_view r) @ dc_admitted_ids c). om_get m i \<noteq> None"
    using assms(2) by (simp add: index_evidence_cases)
  have tot: "is_ok (res_map f xs)" if "\<forall>x \<in> set xs. is_ok (f x)" for f :: "'x \<Rightarrow> packet_error + 'y" and xs
    using that by (induction xs) (auto simp: is_ok_iff)
  have "is_ok (res_map (view_candidate m) (cv_items (ar_view r)))"
    using get by (intro tot) (fastforce simp: view_candidate_def view_ids_def is_ok_iff res_simps)
  moreover have "is_ok (res_map (dependency_candidate (ar_graph r) m) (dc_admitted_ids c))"
    using get assms(3) by (intro tot) (fastforce simp: dependency_candidate_def is_ok_iff res_simps)
  ultimately show ?thesis
    using assms(1) by (auto simp: candidates_of_def is_ok_iff res_simps ok_or_def checked_add_u64_def
        split: option.splits if_splits)
qed

definition evidence_error :: "packet_error \<Rightarrow> bool" where
  "evidence_error e \<longleftrightarrow> (\<exists>i j. e \<in> {DuplicateSelectedEvidence i, MissingSelectedEvidence i,
     UnrelatedEvidence i, RequiredEvidenceMissingPreservationAnchors i,
     PreservationAnchorNotInEvidence i j})"

lemma index_evidence_Inl: "index_evidence r d = Inl e \<Longrightarrow> evidence_error e"
  by (auto simp: index_evidence_def Let_def evidence_error_def
      split: prod.splits list.splits option.splits)

lemma admitted_are_nodes:
  assumes "graph_build input limits = Inr (ar_graph r)" "dependency_closure r = Inr c"
    "i \<in> set (dc_admitted_ids c)"
  shows "graph_node (ar_graph r) i \<noteq> None"
proof -
  obtain s where s: "frontier_ok (ar_graph r) (ar_dependency_limits r)
      (set (btree_set (view_ids (ar_view r)))) s" "dc_admitted_ids c = cs_admitted s"
  proof -
    from assms(2) obtain s where "closure_loop (ar_graph r) (ar_dependency_limits r) 0
        (closure_start (btree_set (view_ids (ar_view r)))) = Inr s" "dc_admitted_ids c = cs_admitted s"
      by (auto simp: dependency_closure_def Let_def res_simps split: option.splits)
    with closure_loop_inv [OF this(1) closure_start_ok] show ?thesis
      by (intro that [of s]) (auto simp: btree_set_def)
  qed
  let ?seeds = "set (btree_set (view_ids (ar_view r)))"
  have i: "i \<in> fst ` set (cs_frontier s)" "i \<notin> ?seeds"
    using s assms(3) by (auto simp: frontier_ok_def)
  then obtain d where "(i, d) \<in> set (cs_frontier s)" by auto
  moreover have "\<forall>(x, d) \<in> set (cs_frontier s). d \<le> dl_max_depth (ar_dependency_limits r)
      \<and> (\<exists>a \<in> ?seeds. (context_step (ar_graph r) ^^ d) a x)"
    using s(1) unfolding frontier_ok_def by blast
  ultimately obtain a where d: "(context_step (ar_graph r) ^^ d) a i" "a \<in> ?seeds" "i \<notin> ?seeds"
    using i(2) by blast
  then obtain d' where "d = Suc d'" by (cases d) auto
  with d(1) obtain x where "context_step (ar_graph r) x i" by auto
  then show ?thesis by (auto simp: context_step_def successors_def)
qed

text \<open>
  C27. Assembly over a built graph fails only for a reason of the request, and never by a
  failed expectation: a view item that is not a node; evidence that is not, exactly once
  each, what \<open>evidence_ids\<close> lists, or required evidence without anchors or with an anchor
  that its content lacks; required evidence that does not fit; or a count beyond 64 bits.
\<close>

theorem assemble_errors:
  assumes "graph_build input limits = Inr (ar_graph r)" "assemble r = Inl e"
  shows "(\<exists>x \<in> set (view_ids (ar_view r)). x \<notin> n_id ` set (gi_nodes input) \<and> e = ViewSeedNotInGraph x)
    \<or> evidence_error e \<and> (\<exists>ids. evidence_ids (ar_view r) (ar_graph r) (ar_dependency_limits r) = Inr ids
        \<and> \<not> (distinct (map ev_id (ar_evidence r)) \<and> ev_id ` set (ar_evidence r) = set ids
            \<and> list_all evidence_sound (ar_evidence r)))
    \<or> (\<exists>x \<in> set (ar_evidence r). \<exists>b. ev_priority x = Required
        \<and> e = RequiredEvidenceDoesNotFit (ev_id x) b)
    \<or> (\<exists>operation. e = ArithmeticOverflow operation)"
proof (cases "dependency_closure r")
  case (Inl d)
  let ?seeds = "btree_set (view_ids (ar_view r))"
  have "is_ok (closure_loop (ar_graph r) (ar_dependency_limits r) 0 (closure_start ?seeds))"
    using closure_loop_total graph_edges_present [OF assms(1)] by metis
  with Inl obtain x where x: "find (\<lambda>i. graph_node (ar_graph r) i = None) ?seeds = Some x"
    "d = ViewSeedNotInGraph x"
    by (auto simp: dependency_closure_def Let_def is_ok_iff split: option.splits)
  from find_SomeD [OF x(1)] have "x \<in> set (view_ids (ar_view r))" "x \<notin> n_id ` set (gi_nodes input)"
    by (auto simp: btree_set_def graph_built(1) [OF assms(1)] find_None_iff)
  with Inl x assms(2) show ?thesis by (auto simp: assemble_def)
next
  case (Inr c)
  have ids: "evidence_ids (ar_view r) (ar_graph r) (ar_dependency_limits r)
      = Inr (btree_set (view_ids (ar_view r) @ dc_admitted_ids c))"
    using Inr by (simp add: evidence_ids_def dependency_closure_def Let_def cong: option.case_cong)
  show ?thesis
  proof (cases "index_evidence r (dc_admitted_ids c)")
    case (Inl d)
    then have "\<not> (distinct (map ev_id (ar_evidence r))
        \<and> ev_id ` set (ar_evidence r) = set (view_ids (ar_view r)) \<union> set (dc_admitted_ids c)
        \<and> (\<forall>e \<in> set (ar_evidence r). evidence_sound e))"
      using index_evidence_ok [of r "dc_admitted_ids c"] by simp
    moreover have "d = e" using Inl Inr assms(2) by (simp add: assemble_def)
    ultimately show ?thesis
      using ids index_evidence_Inl [OF Inl] by (simp add: btree_set_def list_all_iff)
  next
    case m: (Inr m)
    show ?thesis
    proof (cases "effective_limits r (length (dc_admitted_ids c))")
      case (Inl d)
      with Inr m assms(2) show ?thesis
        by (auto simp: assemble_def effective_limits_def ok_or_def split: option.splits)
    next
      case l: (Inr l)
      show ?thesis
      proof (cases "candidates_of r c m")
        case (Inl d)
        with candidates_of_Inl [OF Inl m] admitted_are_nodes [OF assms(1) Inr] Inr m l assms(2)
        show ?thesis by (auto simp: assemble_def)
      next
        case cs: (Inr cs)
        with Inr m l assms(2) have "pack l (sort_key candidate_key cs) pack_start = Inl e"
          by (cases "pack l (sort_key candidate_key cs) pack_start") (auto simp: assemble_def)
        from pack_Inl [OF this] candidates_ids(2) [OF cs m] show ?thesis by fastforce
      qed
    qed
  qed
qed

lemma demo_assembles: "case assemble (demo_request 1) of Inl e \<Rightarrow> False
   | Inr p \<Rightarrow> pr_selected_ids (pk_receipt p) = [''a'', ''b''] \<and> pr_omitted_ids (pk_receipt p) = []"
  by code_simp

theorem packet_accounted_witness:
  "\<exists>p. assemble (demo_request 1) = Inr p
     \<and> mset (pr_selected_ids (pk_receipt p) @ pr_omitted_ids (pk_receipt p)) = {#''a'', ''b''#}
     \<and> pr_raw_bytes (pk_receipt p) = length (pk_payload p) \<and> pr_raw_bytes (pk_receipt p) \<le> 500"
proof -
  obtain p where p: "assemble (demo_request 1) = Inr p"
    using demo_assembles by (auto split: sum.splits)
  then have ids: "pr_selected_ids (pk_receipt p) = [''a'', ''b'']" "pr_omitted_ids (pk_receipt p) = []"
    using demo_assembles by simp_all
  have l: "pl_max_bytes (ar_limits (demo_request 1)) = 500" by code_simp
  show ?thesis
    using packet_accounted [OF p] p ids
    by (intro exI [of _ p]) (auto simp: Let_def l simp del: One_nat_def)
qed

definition required_evidence :: evidence_content where
  "required_evidence = \<lparr>ev_id = ''a'', ev_content = ''keep me'', ev_priority = Required,
     ev_authority = 1, ev_freshness = 1, ev_anchors = [\<lparr>a_id = ''k'', a_value = ''keep''\<rparr>]\<rparr>"

definition required_request :: packet_assembly_request where
  "required_request = (demo_request 0)\<lparr>ar_evidence := [required_evidence]\<rparr>"

theorem required_evidence_kept_witness:
  "\<exists>p. assemble required_request = Inr p \<and> contains (pk_payload p) ''keep''"
proof -
  have "is_ok (assemble required_request)" by code_simp
  then obtain p where p: "assemble required_request = Inr p" by (auto simp: is_ok_iff)
  have "required_evidence \<in> set (ar_evidence required_request)"
    by (simp add: required_request_def)
  from required_evidence_kept [OF p this] p show ?thesis by (auto simp: required_evidence_def)
qed

theorem evidence_order_irrelevant_witness:
  "assemble ((demo_request 1)\<lparr>ar_evidence := ar_evidence (demo_request 1)\<rparr>)
   = assemble ((demo_request 1)\<lparr>ar_evidence := rev (ar_evidence (demo_request 1))\<rparr>)"
  by (rule evidence_order_irrelevant) simp

theorem assemble_errors_witness:
  "\<exists>e. assemble ((demo_request 1)\<lparr>ar_evidence := []\<rparr>) = Inl e \<and> evidence_error e"
proof -
  let ?r = "(demo_request 1)\<lparr>ar_evidence := []\<rparr>"
  have e: "assemble ?r = Inl (MissingSelectedEvidence ''a'')" by code_simp
  have "graph_build demo_graph demo_limits = Inr (ar_graph ?r)"
    using demo_request_graph [of 1] by simp
  from assemble_errors [OF this e] e show ?thesis by auto
qed

end
