(* ===== verification/Structural.thy ===== *)
theory Structural
  imports Graph Json Result_Id "HOL-Library.Product_Lexorder"
begin

text \<open>
  Structural graph snapshots, the second half of \<open>graph/model.rs\<close>: nodes and edges whose
  identity is a digest of their locator, the receipt of an operation, the derived indexes,
  the canonical JSON and the digest that seals a snapshot. A writer that pushes onto a
  string returns the pushed text. The lemmas show what a new snapshot satisfies, that
  validation accepts it, and that it does not depend on the order of the records.
\<close>

section \<open>Vocabularies\<close>

definition STRUCTURAL_GRAPH_SCHEMA_VERSION :: nat where "STRUCTURAL_GRAPH_SCHEMA_VERSION = 1"
definition STRUCTURAL_GRAPH_ORDERING_VERSION :: nat where "STRUCTURAL_GRAPH_ORDERING_VERSION = 1"

datatype structural_path_case_policy = CaseSensitive

definition case_policy_as_str :: "structural_path_case_policy \<Rightarrow> str" where
  "case_policy_as_str p = (case p of CaseSensitive \<Rightarrow> ''case-sensitive'')"

datatype structural_source_type =
  St_Text | St_Code | St_Markdown | St_Mermaid | St_Metadata | St_PreextractedText

definition source_type_as_str :: "structural_source_type \<Rightarrow> str" where
  "source_type_as_str t = (case t of
       St_Text \<Rightarrow> ''text'' | St_Code \<Rightarrow> ''code'' | St_Markdown \<Rightarrow> ''markdown''
     | St_Mermaid \<Rightarrow> ''mermaid'' | St_Metadata \<Rightarrow> ''metadata''
     | St_PreextractedText \<Rightarrow> ''preextracted-text'')"

datatype structural_edge_kind =
    Ek_Ownership | Ek_Lifecycle | Ek_Supersedes | Ek_Predecessor | Ek_Dependency | Ek_Impact
  | Ek_Requirement | Ek_Design | Ek_Implementation | Ek_Validation | Ek_Domain
  | Ek_Architecture | Ek_BusinessFlow | Ek_GeneratedFrom | Ek_SourceLink

definition edge_kind_as_str :: "structural_edge_kind \<Rightarrow> str" where
  "edge_kind_as_str k = (case k of
       Ek_Ownership \<Rightarrow> ''ownership'' | Ek_Lifecycle \<Rightarrow> ''lifecycle''
     | Ek_Supersedes \<Rightarrow> ''supersedes'' | Ek_Predecessor \<Rightarrow> ''predecessor''
     | Ek_Dependency \<Rightarrow> ''dependency'' | Ek_Impact \<Rightarrow> ''impact''
     | Ek_Requirement \<Rightarrow> ''requirement'' | Ek_Design \<Rightarrow> ''design''
     | Ek_Implementation \<Rightarrow> ''implementation'' | Ek_Validation \<Rightarrow> ''validation''
     | Ek_Domain \<Rightarrow> ''domain'' | Ek_Architecture \<Rightarrow> ''architecture''
     | Ek_BusinessFlow \<Rightarrow> ''business-flow'' | Ek_GeneratedFrom \<Rightarrow> ''generated-from''
     | Ek_SourceLink \<Rightarrow> ''source-link'')"

datatype structural_lifecycle =
  Lc_Current | Lc_Superseded | Lc_Draft | Lc_Archive | Lc_Rejected

definition lifecycle_as_str :: "structural_lifecycle \<Rightarrow> str" where
  "lifecycle_as_str l = (case l of
       Lc_Current \<Rightarrow> ''current'' | Lc_Superseded \<Rightarrow> ''superseded'' | Lc_Draft \<Rightarrow> ''draft''
     | Lc_Archive \<Rightarrow> ''archive'' | Lc_Rejected \<Rightarrow> ''rejected'')"

datatype structural_authority = Au_Canonical | Au_Approved | Au_Supporting | Au_Unknown

definition authority_as_str :: "structural_authority \<Rightarrow> str" where
  "authority_as_str a = (case a of
       Au_Canonical \<Rightarrow> ''canonical'' | Au_Approved \<Rightarrow> ''approved''
     | Au_Supporting \<Rightarrow> ''supporting'' | Au_Unknown \<Rightarrow> ''unknown'')"

datatype structural_generated_status = Gs_Source | Gs_Generated | Gs_Preextracted

definition generated_status_as_str :: "structural_generated_status \<Rightarrow> str" where
  "generated_status_as_str g = (case g of
       Gs_Source \<Rightarrow> ''source'' | Gs_Generated \<Rightarrow> ''generated''
     | Gs_Preextracted \<Rightarrow> ''preextracted'')"

datatype structural_edge_certainty = Ec_Known | Ec_Dynamic | Ec_Unknown | Ec_MissingTarget

definition edge_certainty_as_str :: "structural_edge_certainty \<Rightarrow> str" where
  "edge_certainty_as_str c = (case c of
       Ec_Known \<Rightarrow> ''known'' | Ec_Dynamic \<Rightarrow> ''dynamic'' | Ec_Unknown \<Rightarrow> ''unknown''
     | Ec_MissingTarget \<Rightarrow> ''missing-target'')"

lemmas vocabulary_defs = case_policy_as_str_def source_type_as_str_def edge_kind_as_str_def
  lifecycle_as_str_def authority_as_str_def generated_status_as_str_def edge_certainty_as_str_def

section \<open>Checks\<close>

definition digest :: "bytes \<Rightarrow> str" where
  "digest bytes = id_value (id_sha256 bytes)"

definition digest_byte :: "char \<Rightarrow> bool" where
  "digest_byte b \<longleftrightarrow> is_ascii_digit b \<or> byte_in 97 102 b"

definition validate_digest :: "str \<Rightarrow> graph_error + unit" where
  "validate_digest value =
     (if length value = 64 \<and> list_all digest_byte value then Inr ()
      else Inl (InvalidStructuralDigest value))"

definition validate_optional_digest :: "str option \<Rightarrow> graph_error + unit" where
  "validate_optional_digest v = (case v of Some value \<Rightarrow> validate_digest value | None \<Rightarrow> Inr ())"

definition validate_structural_path :: "str \<Rightarrow> graph_error + unit" where
  "validate_structural_path path =
     (if path = [] \<or> prefix ''/'' path \<or> CHR 0x5C \<in> set path
         \<or> list_ex (\<lambda>part. part \<in> {[], ''.'', ''..''}) (split_on CHR ''/'' path)
      then Inl (InvalidStructuralPath path) else Inr ())"

definition validate_structural_text :: "str \<Rightarrow> str \<Rightarrow> graph_error + unit" where
  "validate_structural_text value field =
     (if trim value = [] then Inl (InvalidStructuralField field value) else Inr ())"

fun check_each :: "('a \<Rightarrow> 'e + unit) \<Rightarrow> 'a list \<Rightarrow> 'e + unit" where
  "check_each f [] = Inr ()"
| "check_each f (x # xs) = res_bind (f x) (\<lambda>_. check_each f xs)"

definition normalize_strings :: "str list \<Rightarrow> str \<Rightarrow> graph_error + str list" where
  "normalize_strings values field =
     res_bind (check_each (\<lambda>v. validate_structural_text v field) values) (\<lambda>_.
       Inr (dedup (sort values)))"

text \<open>No window of two has its first element at or above its second.\<close>

fun increasing :: "'a::linorder list \<Rightarrow> bool" where
  "increasing (x # y # zs) \<longleftrightarrow> \<not> x \<ge> y \<and> increasing (y # zs)"
| "increasing _ \<longleftrightarrow> True"

definition validate_sorted_unique_strings :: "str list \<Rightarrow> str \<Rightarrow> graph_error + unit" where
  "validate_sorted_unique_strings values field =
     res_bind (check_each (\<lambda>v. validate_structural_text v field) values) (\<lambda>_.
       if increasing values then Inr () else Inl (NonCanonicalStructuralOrder field))"

definition provenance_key :: "provenance \<Rightarrow> str \<times> str" where
  "provenance_key p = (pv_source p, pv_locator p)"

definition normalize_provenance :: "provenance list \<Rightarrow> provenance list" where
  "normalize_provenance values = dedup (sort_key provenance_key values)"

definition validate_sorted_unique_provenance :: "provenance list \<Rightarrow> graph_error + unit" where
  "validate_sorted_unique_provenance values =
     (if increasing (map provenance_key values) then Inr ()
      else Inl (NonCanonicalStructuralOrder ''provenance''))"

definition check_owner :: "str option \<Rightarrow> graph_error + unit" where
  "check_owner v = (case v of Some owner \<Rightarrow> validate_structural_text owner ''owner'' | None \<Rightarrow> Inr ())"

section \<open>Nodes and edges\<close>

record structural_node =
  sn_id :: str
  sn_path :: str
  sn_content_digest :: str
  sn_source_type :: structural_source_type
  sn_domains :: "str list"
  sn_owner :: "str option"
  sn_lifecycle :: structural_lifecycle
  sn_authority :: structural_authority
  sn_generated_status :: structural_generated_status
  sn_provenance :: "provenance list"

definition structural_node_identity :: "str \<Rightarrow> structural_source_type \<Rightarrow> str" where
  "structural_node_identity path t = digest (path @ [CHR 0x0A] @ source_type_as_str t)"

definition structural_node_new ::
  "str \<Rightarrow> str \<Rightarrow> structural_source_type \<Rightarrow> str list \<Rightarrow> str option \<Rightarrow> structural_lifecycle
   \<Rightarrow> structural_authority \<Rightarrow> structural_generated_status \<Rightarrow> provenance list
   \<Rightarrow> graph_error + structural_node" where
  "structural_node_new path content_digest source_type domains0 owner lifecycle authority
       generated_status provenances =
     res_bind (validate_structural_path path) (\<lambda>_.
     res_bind (validate_digest content_digest) (\<lambda>_.
     res_bind (normalize_strings domains0 ''domain'') (\<lambda>domains.
     res_bind (check_owner owner) (\<lambda>_.
       Inr \<lparr>sn_id = structural_node_identity path source_type, sn_path = path,
            sn_content_digest = content_digest, sn_source_type = source_type,
            sn_domains = domains, sn_owner = owner, sn_lifecycle = lifecycle,
            sn_authority = authority, sn_generated_status = generated_status,
            sn_provenance = normalize_provenance provenances\<rparr>))))"

definition structural_node_validate :: "structural_node \<Rightarrow> graph_error + unit" where
  "structural_node_validate n =
     res_bind (validate_structural_path (sn_path n)) (\<lambda>_.
     res_bind (validate_digest (sn_content_digest n)) (\<lambda>_.
     if sn_id n \<noteq> structural_node_identity (sn_path n) (sn_source_type n)
     then Inl (InvalidStructuralIdentity (sn_id n))
     else
       res_bind (validate_sorted_unique_strings (sn_domains n) ''domain'') (\<lambda>_.
       res_bind (check_owner (sn_owner n)) (\<lambda>_.
         validate_sorted_unique_provenance (sn_provenance n)))))"

record structural_edge =
  se_id :: str
  se_kind :: structural_edge_kind
  se_source :: str
  se_target :: str
  se_source_locator :: str
  se_provenance :: "provenance list"
  se_certainty :: structural_edge_certainty

definition structural_edge_identity ::
  "structural_edge_kind \<Rightarrow> str \<Rightarrow> str \<Rightarrow> str \<Rightarrow> str" where
  "structural_edge_identity kind source target locator =
     digest (edge_kind_as_str kind @ [CHR 0x0A] @ source @ [CHR 0x0A] @ target @ [CHR 0x0A] @ locator)"

definition structural_edge_new ::
  "structural_edge_kind \<Rightarrow> str \<Rightarrow> str \<Rightarrow> str \<Rightarrow> provenance list \<Rightarrow> structural_edge_certainty
   \<Rightarrow> graph_error + structural_edge" where
  "structural_edge_new kind source target source_locator provenances certainty =
     res_bind (validate_digest source) (\<lambda>_.
     res_bind (validate_digest target) (\<lambda>_.
     res_bind (validate_structural_text source_locator ''source locator'') (\<lambda>_.
       Inr \<lparr>se_id = structural_edge_identity kind source target source_locator, se_kind = kind,
            se_source = source, se_target = target, se_source_locator = source_locator,
            se_provenance = normalize_provenance provenances, se_certainty = certainty\<rparr>)))"

definition structural_edge_validate :: "structural_edge \<Rightarrow> graph_error + unit" where
  "structural_edge_validate e =
     res_bind (validate_digest (se_source e)) (\<lambda>_.
     res_bind (validate_digest (se_target e)) (\<lambda>_.
     res_bind (validate_structural_text (se_source_locator e) ''source locator'') (\<lambda>_.
     if se_id e \<noteq> structural_edge_identity (se_kind e) (se_source e) (se_target e)
          (se_source_locator e)
     then Inl (InvalidStructuralIdentity (se_id e))
     else validate_sorted_unique_provenance (se_provenance e))))"

section \<open>Receipts\<close>

record structural_snapshot_receipt =
  sr_operation_id :: str
  sr_before_digest :: "str option"
  sr_candidate_digest :: "str option"
  sr_published_digest :: "str option"
  sr_validation_facts :: "str list"
  sr_ordering_version :: nat

definition structural_receipt_new ::
  "str \<Rightarrow> str option \<Rightarrow> str option \<Rightarrow> str option \<Rightarrow> str list
   \<Rightarrow> graph_error + structural_snapshot_receipt" where
  "structural_receipt_new operation_id before candidate published facts0 =
     res_bind (validate_structural_text operation_id ''operation id'') (\<lambda>_.
     res_bind (validate_optional_digest before) (\<lambda>_.
     res_bind (validate_optional_digest candidate) (\<lambda>_.
     res_bind (validate_optional_digest published) (\<lambda>_.
     res_bind (normalize_strings facts0 ''validation fact'') (\<lambda>facts.
       Inr \<lparr>sr_operation_id = operation_id, sr_before_digest = before,
            sr_candidate_digest = candidate, sr_published_digest = published,
            sr_validation_facts = facts,
            sr_ordering_version = STRUCTURAL_GRAPH_ORDERING_VERSION\<rparr>)))))"

definition structural_receipt_validate :: "structural_snapshot_receipt \<Rightarrow> graph_error + unit" where
  "structural_receipt_validate r =
     res_bind (validate_structural_text (sr_operation_id r) ''operation id'') (\<lambda>_.
     res_bind (validate_optional_digest (sr_before_digest r)) (\<lambda>_.
     res_bind (validate_optional_digest (sr_candidate_digest r)) (\<lambda>_.
     res_bind (validate_optional_digest (sr_published_digest r)) (\<lambda>_.
     res_bind (validate_sorted_unique_strings (sr_validation_facts r) ''validation fact'') (\<lambda>_.
     if sr_ordering_version r \<noteq> STRUCTURAL_GRAPH_ORDERING_VERSION
     then Inl (InvalidStructuralOrderingVersion (sr_ordering_version r)) else Inr ())))))"

section \<open>Derived indexes\<close>

record structural_index =
  si_node_index :: "(str, nat) omap"
  si_edge_index :: "(str, nat) omap"
  si_forward :: "(str, str list) omap"
  si_reverse :: "(str, str list) omap"

fun index_structural_nodes ::
  "nat \<Rightarrow> structural_node list \<Rightarrow> (str, nat) omap \<Rightarrow> graph_error + (str, nat) omap" where
  "index_structural_nodes position [] m = Inr m"
| "index_structural_nodes position (n # ns) m =
     res_bind (structural_node_validate n) (\<lambda>_.
       if om_get m (sn_id n) \<noteq> None then Inl (DuplicateStructuralNodeId (sn_id n))
       else index_structural_nodes (Suc position) ns (om_put (sn_id n) position m))"

definition add_structural_edge ::
  "nat \<Rightarrow> structural_edge \<Rightarrow> structural_index \<Rightarrow> structural_index" where
  "add_structural_edge position e s =
     s\<lparr>si_edge_index := om_put (se_id e) position (si_edge_index s),
       si_forward := push_entry (si_forward s) (se_source e) (se_id e),
       si_reverse := push_entry (si_reverse s) (se_target e) (se_id e)\<rparr>"

fun index_structural_edges ::
  "nat \<Rightarrow> structural_edge list \<Rightarrow> structural_index \<Rightarrow> graph_error + structural_index" where
  "index_structural_edges position [] s = Inr s"
| "index_structural_edges position (e # es) s =
     res_bind (structural_edge_validate e) (\<lambda>_.
       let target_present = om_get (si_node_index s) (se_target e) \<noteq> None in
       if om_get (si_node_index s) (se_source e) = None
       then Inl (MissingStructuralSource (se_source e))
       else if \<not> target_present \<and> se_certainty e \<noteq> Ec_MissingTarget
       then Inl (MissingStructuralTarget (se_target e))
       else if target_present \<and> se_certainty e = Ec_MissingTarget
       then Inl (PresentStructuralTargetMarkedMissing (se_target e))
       else if om_get (si_edge_index s) (se_id e) \<noteq> None
       then Inl (DuplicateStructuralEdgeId (se_id e))
       else index_structural_edges (Suc position) es (add_structural_edge position e s))"

definition structural_indexes ::
  "structural_node list \<Rightarrow> structural_edge list \<Rightarrow> graph_error + structural_index" where
  "structural_indexes nodes edges =
     res_bind (index_structural_nodes 0 nodes []) (\<lambda>m.
       index_structural_edges 0 edges
         \<lparr>si_node_index = m, si_edge_index = [], si_forward = [], si_reverse = []\<rparr>)"

definition validate_sorted_nodes :: "structural_node list \<Rightarrow> graph_error + unit" where
  "validate_sorted_nodes nodes =
     (if increasing (map sn_id nodes) then Inr () else Inl (NonCanonicalStructuralOrder ''nodes''))"

definition validate_sorted_edges :: "structural_edge list \<Rightarrow> graph_error + unit" where
  "validate_sorted_edges edges =
     (if increasing (map se_id edges) then Inr () else Inl (NonCanonicalStructuralOrder ''edges''))"

section \<open>Snapshots and their canonical JSON\<close>

record structural_graph_snapshot =
  ss_schema_version :: nat
  ss_snapshot_digest :: str
  ss_case_policy :: structural_path_case_policy
  ss_parent_digest :: "str option"
  ss_scan_input_digest :: str
  ss_graph_digest :: str
  ss_frozen_frequency_digest :: str
  ss_nodes :: "structural_node list"
  ss_edges :: "structural_edge list"
  ss_index :: structural_index
  ss_receipt :: structural_snapshot_receipt

definition snapshot_node :: "structural_graph_snapshot \<Rightarrow> str \<Rightarrow> structural_node option" where
  "snapshot_node s i = map_option (\<lambda>p. ss_nodes s ! p) (om_get (si_node_index (ss_index s)) i)"

definition snapshot_edge :: "structural_graph_snapshot \<Rightarrow> str \<Rightarrow> structural_edge option" where
  "snapshot_edge s i = map_option (\<lambda>p. ss_edges s ! p) (om_get (si_edge_index (ss_index s)) i)"

definition snapshot_forward_edges :: "structural_graph_snapshot \<Rightarrow> str \<Rightarrow> str list" where
  "snapshot_forward_edges s i = entry (si_forward (ss_index s)) i"

definition snapshot_reverse_edges :: "structural_graph_snapshot \<Rightarrow> str \<Rightarrow> str list" where
  "snapshot_reverse_edges s i = entry (si_reverse (ss_index s)) i"

text \<open>A key of an object, as it stands in the writers' literals.\<close>

definition qk :: "str \<Rightarrow> str" where
  "qk k = CHR 0x22 # k @ [CHR 0x22, CHR '':'']"

definition write_json_string :: "str \<Rightarrow> str" where
  "write_json_string value = write_escaped_string_for_bundle value"

definition write_json_option :: "str option \<Rightarrow> str" where
  "write_json_option v = (case v of Some value \<Rightarrow> write_json_string value | None \<Rightarrow> ''null'')"

fun write_json_from :: "nat \<Rightarrow> ('a \<Rightarrow> str) \<Rightarrow> 'a list \<Rightarrow> str" where
  "write_json_from index w [] = []"
| "write_json_from index w (x # xs) =
     (if index > 0 then '','' else []) @ w x @ write_json_from (Suc index) w xs"

definition write_json_array :: "('a \<Rightarrow> str) \<Rightarrow> 'a list \<Rightarrow> str" where
  "write_json_array w values = write_json_from 0 w values"

definition write_json_strings :: "str list \<Rightarrow> str" where
  "write_json_strings values = write_json_array write_json_string values"

definition write_provenance :: "provenance \<Rightarrow> str" where
  "write_provenance p = ''{'' @ qk ''locator'' @ write_json_string (pv_locator p)
     @ '','' @ qk ''source'' @ write_json_string (pv_source p) @ ''}''"

definition write_structural_node :: "structural_node \<Rightarrow> str" where
  "write_structural_node n =
     ''{'' @ qk ''authority'' @ write_json_string (authority_as_str (sn_authority n))
     @ '','' @ qk ''content_digest'' @ write_json_string (sn_content_digest n)
     @ '','' @ qk ''domains'' @ ''['' @ write_json_strings (sn_domains n)
     @ ''],'' @ qk ''generated_status''
       @ write_json_string (generated_status_as_str (sn_generated_status n))
     @ '','' @ qk ''id'' @ write_json_string (sn_id n)
     @ '','' @ qk ''lifecycle'' @ write_json_string (lifecycle_as_str (sn_lifecycle n))
     @ '','' @ qk ''owner'' @ write_json_option (sn_owner n)
     @ '','' @ qk ''path'' @ write_json_string (sn_path n)
     @ '','' @ qk ''provenance'' @ ''['' @ write_json_array write_provenance (sn_provenance n)
     @ ''],'' @ qk ''source_type'' @ write_json_string (source_type_as_str (sn_source_type n))
     @ ''}''"

definition write_structural_edge :: "structural_edge \<Rightarrow> str" where
  "write_structural_edge e =
     ''{'' @ qk ''certainty'' @ write_json_string (edge_certainty_as_str (se_certainty e))
     @ '','' @ qk ''id'' @ write_json_string (se_id e)
     @ '','' @ qk ''kind'' @ write_json_string (edge_kind_as_str (se_kind e))
     @ '','' @ qk ''provenance'' @ ''['' @ write_json_array write_provenance (se_provenance e)
     @ ''],'' @ qk ''source'' @ write_json_string (se_source e)
     @ '','' @ qk ''source_locator'' @ write_json_string (se_source_locator e)
     @ '','' @ qk ''target'' @ write_json_string (se_target e)
     @ ''}''"

definition write_adjacency_of :: "structural_graph_snapshot \<Rightarrow> structural_node \<Rightarrow> str" where
  "write_adjacency_of s n =
     ''{'' @ qk ''forward'' @ ''['' @ write_json_strings (snapshot_forward_edges s (sn_id n))
     @ ''],'' @ qk ''node_id'' @ write_json_string (sn_id n)
     @ '','' @ qk ''reverse'' @ ''['' @ write_json_strings (snapshot_reverse_edges s (sn_id n))
     @ '']}''"

definition write_adjacency :: "structural_graph_snapshot \<Rightarrow> str" where
  "write_adjacency s = write_json_from 0 (write_adjacency_of s) (ss_nodes s)"

definition write_index_record :: "str \<times> nat \<Rightarrow> str" where
  "write_index_record r = ''{'' @ qk ''id'' @ write_json_string (fst r)
     @ '','' @ qk ''position'' @ dec (snd r) @ ''}''"

definition write_index_records :: "(str, nat) omap \<Rightarrow> str" where
  "write_index_records index = write_json_from 0 write_index_record index"

definition write_indexes :: "structural_graph_snapshot \<Rightarrow> str" where
  "write_indexes s =
     ''{'' @ qk ''edges'' @ ''['' @ write_index_records (si_edge_index (ss_index s))
     @ ''],'' @ qk ''nodes'' @ ''['' @ write_index_records (si_node_index (ss_index s)) @ '']}''"

definition write_structural_receipt :: "structural_snapshot_receipt \<Rightarrow> str" where
  "write_structural_receipt r =
     ''{'' @ qk ''before_digest'' @ write_json_option (sr_before_digest r)
     @ '','' @ qk ''candidate_digest'' @ write_json_option (sr_candidate_digest r)
     @ '','' @ qk ''operation_id'' @ write_json_string (sr_operation_id r)
     @ '','' @ qk ''ordering_version'' @ dec (sr_ordering_version r)
     @ '','' @ qk ''published_digest'' @ write_json_option (sr_published_digest r)
     @ '','' @ qk ''validation_facts'' @ ''['' @ write_json_strings (sr_validation_facts r)
     @ '']}''"

definition canonical_json_without_digest :: "structural_graph_snapshot \<Rightarrow> str" where
  "canonical_json_without_digest s =
     ''{'' @ qk ''adjacency'' @ ''['' @ write_adjacency s
     @ ''],'' @ qk ''case_policy'' @ write_json_string (case_policy_as_str (ss_case_policy s))
     @ '','' @ qk ''edges'' @ ''['' @ write_json_array write_structural_edge (ss_edges s)
     @ ''],'' @ qk ''frozen_frequency_digest'' @ write_json_string (ss_frozen_frequency_digest s)
     @ '','' @ qk ''graph_digest'' @ write_json_string (ss_graph_digest s)
     @ '','' @ qk ''indexes'' @ write_indexes s
     @ '','' @ qk ''nodes'' @ ''['' @ write_json_array write_structural_node (ss_nodes s)
     @ ''],'' @ qk ''parent_digest'' @ write_json_option (ss_parent_digest s)
     @ '','' @ qk ''receipt'' @ write_structural_receipt (ss_receipt s)
     @ '','' @ qk ''scan_input_digest'' @ write_json_string (ss_scan_input_digest s)
     @ '','' @ qk ''schema_version'' @ dec (ss_schema_version s)
     @ ''}''"

definition canonical_json :: "structural_graph_snapshot \<Rightarrow> str" where
  "canonical_json s = butlast (canonical_json_without_digest s)
     @ '','' @ qk ''snapshot_digest'' @ write_json_string (ss_snapshot_digest s) @ ''}''"

definition structural_content_digest ::
  "structural_node list \<Rightarrow> structural_edge list \<Rightarrow> str" where
  "structural_content_digest nodes edges =
     digest (''{'' @ qk ''edges'' @ ''['' @ write_json_array write_structural_edge (sort_key se_id edges)
       @ ''],'' @ qk ''nodes'' @ ''['' @ write_json_array write_structural_node (sort_key sn_id nodes)
       @ '']}'')"

section \<open>New snapshots and validation\<close>

definition snapshot_validate :: "structural_graph_snapshot \<Rightarrow> graph_error + unit" where
  "snapshot_validate s =
     (if ss_schema_version s \<noteq> STRUCTURAL_GRAPH_SCHEMA_VERSION
      then Inl (UnknownStructuralSchemaVersion (ss_schema_version s))
      else
        res_bind (validate_digest (ss_snapshot_digest s)) (\<lambda>_.
        res_bind (validate_optional_digest (ss_parent_digest s)) (\<lambda>_.
        res_bind (validate_digest (ss_scan_input_digest s)) (\<lambda>_.
        res_bind (validate_digest (ss_graph_digest s)) (\<lambda>_.
        res_bind (validate_digest (ss_frozen_frequency_digest s)) (\<lambda>_.
        res_bind (structural_receipt_validate (ss_receipt s)) (\<lambda>_.
        res_bind (validate_sorted_nodes (ss_nodes s)) (\<lambda>_.
        res_bind (validate_sorted_edges (ss_edges s)) (\<lambda>_.
        res_bind (structural_indexes (ss_nodes s) (ss_edges s)) (\<lambda>index.
        if ss_index s \<noteq> index then Inl InvalidStructuralIndexes
        else
          let actual = digest (canonical_json_without_digest s) in
          if ss_snapshot_digest s \<noteq> actual
          then Inl (StructuralDigestMismatch actual (ss_snapshot_digest s))
          else Inr ()))))))))))"

definition snapshot_new ::
  "nat \<Rightarrow> str option \<Rightarrow> str \<Rightarrow> str \<Rightarrow> str \<Rightarrow> structural_node list \<Rightarrow> structural_edge list
   \<Rightarrow> structural_snapshot_receipt \<Rightarrow> graph_error + structural_graph_snapshot" where
  "snapshot_new schema_version parent scan_input graph_digest frequency nodes0 edges0 receipt =
     (if schema_version \<noteq> STRUCTURAL_GRAPH_SCHEMA_VERSION
      then Inl (UnknownStructuralSchemaVersion schema_version)
      else
        res_bind (validate_optional_digest parent) (\<lambda>_.
        res_bind (validate_digest scan_input) (\<lambda>_.
        res_bind (validate_digest graph_digest) (\<lambda>_.
        res_bind (validate_digest frequency) (\<lambda>_.
        let nodes = sort_key sn_id nodes0; edges = sort_key se_id edges0 in
        res_bind (structural_indexes nodes edges) (\<lambda>index.
        let s0 = \<lparr>ss_schema_version = schema_version, ss_snapshot_digest = [],
              ss_case_policy = CaseSensitive, ss_parent_digest = parent,
              ss_scan_input_digest = scan_input, ss_graph_digest = graph_digest,
              ss_frozen_frequency_digest = frequency, ss_nodes = nodes, ss_edges = edges,
              ss_index = index, ss_receipt = receipt\<rparr>;
            s = s0\<lparr>ss_snapshot_digest := digest (canonical_json_without_digest s0)\<rparr> in
        res_bind (snapshot_validate s) (\<lambda>_. Inr s)))))))"

section \<open>Constructed records are valid\<close>

lemma increasing_iff: "increasing xs \<longleftrightarrow> sorted_wrt (<) xs"
proof (induction xs rule: increasing.induct)
  case (1 x y zs)
  then show ?case by (auto simp: not_le) (metis order.strict_trans)
qed auto

lemma remdups_adj_increasing:
  "sorted (map f xs) \<Longrightarrow> inj_on f (set xs) \<Longrightarrow> increasing (map f (remdups_adj xs))"
proof (induction xs rule: remdups_adj.induct)
  case (3 x y xs)
  show ?case
  proof (cases "x = y")
    case True
    with 3 show ?thesis by (auto simp: inj_on_def)
  next
    case False
    then have "f x \<noteq> f y" using 3(4) by (auto simp: inj_on_def)
    then have "f x < f y" using 3(3) by auto
    moreover have "increasing (map f (remdups_adj (y # xs)))"
      using 3(2) [OF False] 3(3,4) by (auto simp: inj_on_def)
    moreover have "\<forall>z \<in> set (y # xs). f y \<le> f z" using 3(3) by auto
    ultimately show ?thesis using False by (auto simp: increasing_iff)
  qed
qed auto

lemma inj_provenance_key: "inj_on provenance_key A"
  by (auto simp: inj_on_def provenance_key_def)

lemma normalize_provenance_ok [simp]:
  "validate_sorted_unique_provenance (normalize_provenance ps) = Inr ()"
  using remdups_adj_increasing [of provenance_key "sort_key provenance_key ps"] inj_provenance_key
  by (simp add: validate_sorted_unique_provenance_def normalize_provenance_def dedup_def)

lemma check_each_iff: "check_each f xs = Inr u \<longleftrightarrow> (\<forall>x \<in> set xs. f x = Inr ())"
  by (induction xs) (auto simp: res_simps)

lemma normalize_strings_ok:
  "normalize_strings vs field = Inr ws \<Longrightarrow> validate_sorted_unique_strings ws field = Inr ()"
  using remdups_adj_increasing [of "\<lambda>x. x" "sort vs"]
  by (auto simp: normalize_strings_def validate_sorted_unique_strings_def res_simps check_each_iff
      dedup_def)

lemma structural_node_new_valid:
  "structural_node_new p d t ds ow l a g ps = Inr n \<Longrightarrow> structural_node_validate n = Inr ()"
  by (auto simp: structural_node_new_def structural_node_validate_def res_simps
      dest: normalize_strings_ok)

lemma structural_edge_new_valid:
  "structural_edge_new k s t lo ps c = Inr e \<Longrightarrow> structural_edge_validate e = Inr ()"
  by (auto simp: structural_edge_new_def structural_edge_validate_def res_simps)

lemma structural_receipt_new_valid:
  "structural_receipt_new op b c p fs = Inr r \<Longrightarrow> structural_receipt_validate r = Inr ()"
  by (auto simp: structural_receipt_new_def structural_receipt_validate_def res_simps
      dest: normalize_strings_ok)

section \<open>When a snapshot is made\<close>

definition structural_edge_ok :: "str set \<Rightarrow> structural_edge \<Rightarrow> bool" where
  "structural_edge_ok ids e \<longleftrightarrow> structural_edge_validate e = Inr () \<and> se_source e \<in> ids
     \<and> (se_target e \<in> ids \<longleftrightarrow> se_certainty e \<noteq> Ec_MissingTarget)"

definition structure_ok :: "structural_node list \<Rightarrow> structural_edge list \<Rightarrow> bool" where
  "structure_ok nodes edges \<longleftrightarrow> list_all (\<lambda>n. structural_node_validate n = Inr ()) nodes
     \<and> distinct (map sn_id nodes) \<and> list_all (structural_edge_ok (sn_id ` set nodes)) edges
     \<and> distinct (map se_id edges)"

lemma index_structural_nodes_ok:
  "is_ok (index_structural_nodes p ns m) \<longleftrightarrow> list_all (\<lambda>n. structural_node_validate n = Inr ()) ns
     \<and> distinct (map sn_id ns) \<and> (\<forall>n \<in> set ns. om_get m (sn_id n) = None)"
proof (induction p ns m rule: index_structural_nodes.induct)
  case (2 p n ns m)
  then show ?case
    by (cases "structural_node_validate n") (auto simp: om_get_put image_iff)
qed simp

lemma index_structural_nodes_dom:
  "index_structural_nodes p ns m = Inr r \<Longrightarrow>
     {i. om_get r i \<noteq> None} = {i. om_get m i \<noteq> None} \<union> sn_id ` set ns"
proof (induction p ns m rule: index_structural_nodes.induct)
  case (2 p n ns m)
  then show ?case by (auto simp: res_simps om_get_put split: if_splits)
qed simp

lemma index_structural_nodes_get:
  assumes "index_structural_nodes p ns m = Inr r"
  shows "\<forall>k < length ns. om_get r (sn_id (ns ! k)) = Some (p + k)"
    and "\<forall>i. i \<notin> sn_id ` set ns \<longrightarrow> om_get r i = om_get m i"
  using assms
proof (induction p ns m rule: index_structural_nodes.induct)
  case (2 p n ns m)
  {
    case 1
    then have r: "structural_node_validate n = Inr ()" "om_get m (sn_id n) = None"
      "index_structural_nodes (Suc p) ns (om_put (sn_id n) p m) = Inr r"
      by (auto simp: res_simps split: if_splits)
    then have "sn_id n \<notin> sn_id ` set ns"
      using index_structural_nodes_ok [of "Suc p" ns "om_put (sn_id n) p m"]
      by (auto simp: om_get_put split: if_splits)
    with r 2 show ?case by (auto simp: om_get_put nth_Cons split: nat.split)
  next
    case 2
    with "2.IH" show ?case by (auto simp: res_simps om_get_put split: if_splits)
  }
qed simp_all

lemma add_structural_edge_sel [simp]:
  "si_node_index (add_structural_edge p e s) = si_node_index s"
  "si_edge_index (add_structural_edge p e s) = om_put (se_id e) p (si_edge_index s)"
  "si_forward (add_structural_edge p e s) = push_entry (si_forward s) (se_source e) (se_id e)"
  "si_reverse (add_structural_edge p e s) = push_entry (si_reverse s) (se_target e) (se_id e)"
  by (simp_all add: add_structural_edge_def)

lemma index_structural_edges_ok:
  "is_ok (index_structural_edges p es s) \<longleftrightarrow>
     list_all (structural_edge_ok {i. om_get (si_node_index s) i \<noteq> None}) es
     \<and> distinct (map se_id es) \<and> (\<forall>e \<in> set es. om_get (si_edge_index s) (se_id e) = None)"
proof (induction p es s rule: index_structural_edges.induct)
  case (2 p e es s)
  then show ?case
    by (cases "structural_edge_validate e")
      (auto simp: om_get_put image_iff structural_edge_ok_def Let_def)
qed simp

lemma index_structural_edges_get:
  assumes "index_structural_edges p es s = Inr t"
  shows "\<forall>k < length es. om_get (si_edge_index t) (se_id (es ! k)) = Some (p + k)"
    and "\<forall>i. i \<notin> se_id ` set es \<longrightarrow> om_get (si_edge_index t) i = om_get (si_edge_index s) i"
    and "entry (si_forward t) i = entry (si_forward s) i @ map se_id (filter (\<lambda>e. se_source e = i) es)"
    and "entry (si_reverse t) i = entry (si_reverse s) i @ map se_id (filter (\<lambda>e. se_target e = i) es)"
    and "si_node_index t = si_node_index s"
  using assms
proof (induction p es s rule: index_structural_edges.induct)
  case (2 p e es s)
  {
    case 1
    then have t: "index_structural_edges (Suc p) es (add_structural_edge p e s) = Inr t"
      and v: "structural_edge_validate e = Inr ()"
      by (auto simp: res_simps Let_def split: if_splits)
    then have "se_id e \<notin> se_id ` set es"
      using index_structural_edges_ok [of "Suc p" es "add_structural_edge p e s"]
      by (auto simp: om_get_put split: if_splits)
    with t v 1 "2.IH" show ?case
      by (auto simp: res_simps Let_def om_get_put nth_Cons split: nat.split if_splits)
  next
    case 2
    with "2.IH" show ?case by (auto simp: res_simps Let_def om_get_put split: if_splits)
  next
    case 3
    with "2.IH" show ?case by (auto simp: res_simps Let_def entry_push split: if_splits)
  next
    case 4
    with "2.IH" show ?case by (auto simp: res_simps Let_def entry_push split: if_splits)
  next
    case 5
    with "2.IH" show ?case by (auto simp: res_simps Let_def split: if_splits)
  }
qed simp_all

lemma structural_indexes_ok: "is_ok (structural_indexes nodes edges) \<longleftrightarrow> structure_ok nodes edges"
proof (cases "index_structural_nodes 0 nodes []")
  case (Inl e)
  then show ?thesis
    using index_structural_nodes_ok [of 0 nodes "[]"] by (auto simp: structural_indexes_def structure_ok_def)
next
  case (Inr m)
  have "{i. om_get m i \<noteq> None} = sn_id ` set nodes"
    using index_structural_nodes_dom [OF Inr] by simp
  with Inr index_structural_nodes_ok [of 0 nodes "[]"] show ?thesis
    by (simp add: structural_indexes_def structure_ok_def index_structural_edges_ok conj_commute)
qed

lemma structural_indexes_get:
  assumes "structural_indexes nodes edges = Inr x"
  shows "map_option (\<lambda>p. nodes ! p) (om_get (si_node_index x) i) = find (\<lambda>n. sn_id n = i) nodes"
    and "map_option (\<lambda>p. edges ! p) (om_get (si_edge_index x) i) = find (\<lambda>e. se_id e = i) edges"
    and "entry (si_forward x) i = map se_id (filter (\<lambda>e. se_source e = i) edges)"
    and "entry (si_reverse x) i = map se_id (filter (\<lambda>e. se_target e = i) edges)"
proof -
  from assms obtain m where m: "index_structural_nodes 0 nodes [] = Inr m"
    and e: "index_structural_edges 0 edges
         \<lparr>si_node_index = m, si_edge_index = [], si_forward = [], si_reverse = []\<rparr> = Inr x"
    by (auto simp: structural_indexes_def res_simps)
  have d: "distinct (map sn_id nodes)" "distinct (map se_id edges)"
    using structural_indexes_ok [of nodes edges] assms by (simp_all add: structure_ok_def)
  show "map_option (\<lambda>p. nodes ! p) (om_get (si_node_index x) i) = find (\<lambda>n. sn_id n = i) nodes"
    using index_structural_edges_get(5) [OF e] index_structural_nodes_get [OF m]
    by (intro position_lookup [OF d(1)]) simp_all
  show "map_option (\<lambda>p. edges ! p) (om_get (si_edge_index x) i) = find (\<lambda>e. se_id e = i) edges"
    using index_structural_edges_get(1,2) [OF e] by (intro position_lookup [OF d(2)]) simp_all
  show "entry (si_forward x) i = map se_id (filter (\<lambda>e. se_source e = i) edges)"
    "entry (si_reverse x) i = map se_id (filter (\<lambda>e. se_target e = i) edges)"
    using index_structural_edges_get(3,4) [OF e, of i] by (simp_all add: entry_def)
qed

lemma structure_ok_mset:
  assumes "mset ns = mset ms" "mset es = mset fs"
  shows "structure_ok ns es \<longleftrightarrow> structure_ok ms fs"
  using distinct_map_mset [OF assms(1), of sn_id] distinct_map_mset [OF assms(2), of se_id]
    mset_eq_setD [OF assms(1)] mset_eq_setD [OF assms(2)]
  by (simp add: structure_ok_def list_all_iff)

lemma sorted_increasing: "sorted xs \<Longrightarrow> distinct xs \<Longrightarrow> increasing xs"
  by (simp add: increasing_iff strict_sorted_iff)

lemma digest_valid [simp]: "validate_digest (digest b) = Inr ()"
proof -
  have "lower_hex c \<Longrightarrow> digest_byte c" for c
    by (auto simp: lower_hex_def digest_byte_def is_ascii_hexdigit_def is_ascii_digit_def
        is_ascii_uppercase_def byte_in_def)
  then show ?thesis
    using id_sha256_ok [of b] unfolding validate_digest_def digest_def id_ok_def
    by (auto simp: list_all_iff)
qed

lemma canonical_json_sealed [simp]:
  "canonical_json_without_digest (s\<lparr>ss_snapshot_digest := d\<rparr>) = canonical_json_without_digest s"
proof -
  have "write_adjacency_of (s\<lparr>ss_snapshot_digest := d\<rparr>) = write_adjacency_of s"
    by (simp add: write_adjacency_of_def snapshot_forward_edges_def snapshot_reverse_edges_def fun_eq_iff)
  then show ?thesis
    by (simp add: canonical_json_without_digest_def write_adjacency_def write_indexes_def)
qed

definition snapshot_request_ok ::
  "nat \<Rightarrow> str option \<Rightarrow> str \<Rightarrow> str \<Rightarrow> str \<Rightarrow> structural_node list \<Rightarrow> structural_edge list
   \<Rightarrow> structural_snapshot_receipt \<Rightarrow> bool" where
  "snapshot_request_ok v p sc g f nodes edges r \<longleftrightarrow> v = 1
     \<and> validate_optional_digest p = Inr () \<and> validate_digest sc = Inr () \<and> validate_digest g = Inr ()
     \<and> validate_digest f = Inr () \<and> structural_receipt_validate r = Inr () \<and> structure_ok nodes edges"

lemma snapshot_new_Inr:
  "snapshot_new v p sc g f nodes edges r = Inr s \<longleftrightarrow>
     snapshot_request_ok v p sc g f nodes edges r
     \<and> ss_schema_version s = v \<and> ss_parent_digest s = p \<and> ss_scan_input_digest s = sc
     \<and> ss_graph_digest s = g \<and> ss_frozen_frequency_digest s = f \<and> ss_receipt s = r
     \<and> ss_nodes s = sort_key sn_id nodes \<and> ss_edges s = sort_key se_id edges
     \<and> structural_indexes (sort_key sn_id nodes) (sort_key se_id edges) = Inr (ss_index s)
     \<and> ss_snapshot_digest s = digest (canonical_json_without_digest s)" (is "?l \<longleftrightarrow> ?r")
proof
  assume l: ?l
  then obtain x where x: "structural_indexes (sort_key sn_id nodes) (sort_key se_id edges) = Inr x"
    by (auto simp: snapshot_new_def Let_def res_simps split: if_splits)
  then have "structure_ok nodes edges"
    using structural_indexes_ok [of "sort_key sn_id nodes" "sort_key se_id edges"]
      structure_ok_mset [of "sort_key sn_id nodes" nodes "sort_key se_id edges" edges] by simp
  define s0 where "s0 = \<lparr>ss_schema_version = v, ss_snapshot_digest = [],
      ss_case_policy = CaseSensitive, ss_parent_digest = p, ss_scan_input_digest = sc,
      ss_graph_digest = g, ss_frozen_frequency_digest = f, ss_nodes = sort_key sn_id nodes,
      ss_edges = sort_key se_id edges, ss_index = x, ss_receipt = r\<rparr>"
  have s: "s = s0\<lparr>ss_snapshot_digest := digest (canonical_json_without_digest s0)\<rparr>"
    and ok: "v = 1" "validate_optional_digest p = Inr ()" "validate_digest sc = Inr ()"
      "validate_digest g = Inr ()" "validate_digest f = Inr ()" "snapshot_validate s = Inr ()"
    using l x unfolding s0_def
    by (auto simp: snapshot_new_def Let_def res_simps STRUCTURAL_GRAPH_SCHEMA_VERSION_def split: if_splits)
  have "structural_receipt_validate r = Inr ()"
    using ok(6) by (auto simp: snapshot_validate_def res_simps s s0_def split: if_splits)
  moreover have "ss_snapshot_digest s = digest (canonical_json_without_digest s)"
    unfolding s canonical_json_sealed by simp
  moreover have "ss_schema_version s = v \<and> ss_parent_digest s = p \<and> ss_scan_input_digest s = sc
     \<and> ss_graph_digest s = g \<and> ss_frozen_frequency_digest s = f \<and> ss_receipt s = r
     \<and> ss_nodes s = sort_key sn_id nodes \<and> ss_edges s = sort_key se_id edges \<and> ss_index s = x"
    unfolding s s0_def by simp
  ultimately show ?r
    using ok(1-5) \<open>structure_ok nodes edges\<close> x by (simp add: snapshot_request_ok_def)
next
  assume r: ?r
  then have d: "distinct (map sn_id (sort_key sn_id nodes))" "distinct (map se_id (sort_key se_id edges))"
    using structural_indexes_ok [of "sort_key sn_id nodes" "sort_key se_id edges"]
    by (simp_all add: structure_ok_def)
  have inc: "increasing (map sn_id (sort_key sn_id nodes))" "increasing (map se_id (sort_key se_id edges))"
    using d by (simp_all add: sorted_increasing)
  have "ss_case_policy s = CaseSensitive" by (cases "ss_case_policy s")
  with r have s: "s = \<lparr>ss_schema_version = v, ss_snapshot_digest = [],
      ss_case_policy = CaseSensitive, ss_parent_digest = p, ss_scan_input_digest = sc,
      ss_graph_digest = g, ss_frozen_frequency_digest = f, ss_nodes = sort_key sn_id nodes,
      ss_edges = sort_key se_id edges, ss_index = ss_index s, ss_receipt = r\<rparr>
      \<lparr>ss_snapshot_digest := digest (canonical_json_without_digest s)\<rparr>" by simp
  have v: "snapshot_validate s = Inr ()"
    using r inc by (simp add: snapshot_validate_def snapshot_request_ok_def validate_sorted_nodes_def
        validate_sorted_edges_def STRUCTURAL_GRAPH_SCHEMA_VERSION_def)
  have c: "canonical_json_without_digest s = canonical_json_without_digest
      \<lparr>ss_schema_version = v, ss_snapshot_digest = [],
      ss_case_policy = CaseSensitive, ss_parent_digest = p, ss_scan_input_digest = sc,
      ss_graph_digest = g, ss_frozen_frequency_digest = f, ss_nodes = sort_key sn_id nodes,
      ss_edges = sort_key se_id edges, ss_index = ss_index s, ss_receipt = r\<rparr>"
    by (subst s) (rule canonical_json_sealed)
  show ?l
    using r v s unfolding c
    by (simp add: snapshot_new_def snapshot_request_ok_def Let_def STRUCTURAL_GRAPH_SCHEMA_VERSION_def)
qed

section \<open>What a new snapshot satisfies\<close>

lemma snapshot_new_fails: "is_ok (snapshot_new v p sc g f nodes edges r) \<longleftrightarrow>
    snapshot_request_ok v p sc g f nodes edges r"
proof
  assume "is_ok (snapshot_new v p sc g f nodes edges r)"
  then show "snapshot_request_ok v p sc g f nodes edges r"
    using snapshot_new_Inr [of v p sc g f nodes edges r]
    by (cases "snapshot_new v p sc g f nodes edges r") auto
next
  assume ok: "snapshot_request_ok v p sc g f nodes edges r"
  then have "structure_ok (sort_key sn_id nodes) (sort_key se_id edges)"
    using structure_ok_mset [of "sort_key sn_id nodes" nodes "sort_key se_id edges" edges]
    by (simp add: snapshot_request_ok_def)
  then obtain x where x: "structural_indexes (sort_key sn_id nodes) (sort_key se_id edges) = Inr x"
    using structural_indexes_ok [of "sort_key sn_id nodes" "sort_key se_id edges"]
    by (cases "structural_indexes (sort_key sn_id nodes) (sort_key se_id edges)") auto
  define s0 where "s0 = \<lparr>ss_schema_version = v, ss_snapshot_digest = [],
      ss_case_policy = CaseSensitive, ss_parent_digest = p, ss_scan_input_digest = sc,
      ss_graph_digest = g, ss_frozen_frequency_digest = f, ss_nodes = sort_key sn_id nodes,
      ss_edges = sort_key se_id edges, ss_index = x, ss_receipt = r\<rparr>"
  have "snapshot_new v p sc g f nodes edges r
      = Inr (s0\<lparr>ss_snapshot_digest := digest (canonical_json_without_digest s0)\<rparr>)"
    unfolding snapshot_new_Inr canonical_json_sealed
    by (simp add: ok x s0_def)
  then show "is_ok (snapshot_new v p sc g f nodes edges r)" by simp
qed

lemma snapshot_validate_iff:
  "snapshot_validate s = Inr () \<longleftrightarrow>
     snapshot_new (ss_schema_version s) (ss_parent_digest s) (ss_scan_input_digest s)
       (ss_graph_digest s) (ss_frozen_frequency_digest s) (ss_nodes s) (ss_edges s) (ss_receipt s)
     = Inr s" (is "?v \<longleftrightarrow> ?n")
proof
  assume ?n
  then show ?v by (auto simp: snapshot_new_def Let_def res_simps split: if_splits)
next
  assume v: ?v
  have inc: "increasing (map sn_id (ss_nodes s))" "increasing (map se_id (ss_edges s))"
    using v by (auto simp: snapshot_validate_def Let_def res_simps validate_sorted_nodes_def
        validate_sorted_edges_def split: if_splits)
  then have srt: "sort_key sn_id (ss_nodes s) = ss_nodes s" "sort_key se_id (ss_edges s) = ss_edges s"
    by (simp_all add: increasing_iff strict_sorted_iff sort_key_id_if_sorted)
  have x: "structural_indexes (ss_nodes s) (ss_edges s) = Inr (ss_index s)"
    using v by (auto simp: snapshot_validate_def Let_def res_simps split: if_splits)
  then have "structure_ok (ss_nodes s) (ss_edges s)"
    using structural_indexes_ok [of "ss_nodes s" "ss_edges s"] by simp
  moreover have "ss_schema_version s = 1" "validate_optional_digest (ss_parent_digest s) = Inr ()"
    "validate_digest (ss_scan_input_digest s) = Inr ()" "validate_digest (ss_graph_digest s) = Inr ()"
    "validate_digest (ss_frozen_frequency_digest s) = Inr ()"
    "structural_receipt_validate (ss_receipt s) = Inr ()"
    "ss_snapshot_digest s = digest (canonical_json_without_digest s)"
    using v by (auto simp: snapshot_validate_def Let_def res_simps
        STRUCTURAL_GRAPH_SCHEMA_VERSION_def split: if_splits)
  ultimately show ?n unfolding snapshot_new_Inr by (simp add: snapshot_request_ok_def srt x)
qed

lemma snapshot_new_validates:
  "snapshot_new v p sc g f nodes edges r = Inr s \<Longrightarrow> snapshot_validate s = Inr ()"
  by (auto simp: snapshot_new_def Let_def res_simps split: if_splits)

lemma snapshot_lookups:
  assumes n: "snapshot_new v p sc g f nodes edges r = Inr s"
  shows "snapshot_node s i = find (\<lambda>n. sn_id n = i) nodes"
    and "snapshot_edge s i = find (\<lambda>e. se_id e = i) edges"
    and "mset (snapshot_forward_edges s i)
       = mset (map se_id (filter (\<lambda>e. se_source e = i) edges))"
    and "mset (snapshot_reverse_edges s i)
       = mset (map se_id (filter (\<lambda>e. se_target e = i) edges))"
    and "sorted (snapshot_forward_edges s i)" "sorted (snapshot_reverse_edges s i)"
proof -
  from n have ok: "structure_ok nodes edges"
    and srt: "ss_nodes s = sort_key sn_id nodes" "ss_edges s = sort_key se_id edges"
    and x: "structural_indexes (sort_key sn_id nodes) (sort_key se_id edges) = Inr (ss_index s)"
    unfolding snapshot_new_Inr snapshot_request_ok_def by simp_all
  have d: "distinct (map sn_id nodes)" "distinct (map se_id edges)"
    using ok by (simp_all add: structure_ok_def)
  note get = structural_indexes_get [OF x, of i]
  show "snapshot_node s i = find (\<lambda>n. sn_id n = i) nodes"
    using get(1) find_mset [OF d(1), of "sort_key sn_id nodes" i] by (simp add: snapshot_node_def srt)
  show "snapshot_edge s i = find (\<lambda>e. se_id e = i) edges"
    using get(2) find_mset [OF d(2), of "sort_key se_id edges" i] by (simp add: snapshot_edge_def srt)
  show "mset (snapshot_forward_edges s i) = mset (map se_id (filter (\<lambda>e. se_source e = i) edges))"
    "mset (snapshot_reverse_edges s i) = mset (map se_id (filter (\<lambda>e. se_target e = i) edges))"
    using get(3,4) by (simp_all add: snapshot_forward_edges_def snapshot_reverse_edges_def)
  have "sorted (map se_id (filter P (sort_key se_id edges)))" for P
    by (simp add: sorted_filter)
  then show "sorted (snapshot_forward_edges s i)" "sorted (snapshot_reverse_edges s i)"
    using get(3,4) by (simp_all add: snapshot_forward_edges_def snapshot_reverse_edges_def)
qed

lemma snapshot_new_mset:
  assumes "mset nodes = mset nodes'" "mset edges = mset edges'"
    "snapshot_new v p sc g f nodes edges r = Inr s"
  shows "snapshot_new v p sc g f nodes' edges' r = Inr s"
proof -
  have ok: "structure_ok nodes edges"
    using assms(3) unfolding snapshot_new_Inr snapshot_request_ok_def by simp
  then have "sort_key sn_id nodes = sort_key sn_id nodes'" "sort_key se_id edges = sort_key se_id edges'"
    using sort_key_distinct_eq [OF assms(1), of sn_id] sort_key_distinct_eq [OF assms(2), of se_id]
    by (simp_all add: structure_ok_def)
  then show ?thesis
    using assms(3) structure_ok_mset [OF assms(1,2)]
    unfolding snapshot_new_Inr snapshot_request_ok_def by simp
qed

section \<open>Properties\<close>

text \<open>
  C38. A snapshot is built exactly for schema version 1, well-formed digests, a valid receipt,
  valid nodes and edges with distinct identities and edges whose ends fit their certainty.
  It validates, holds the given records, its lookups find what a search of the given records
  finds, and its adjacency lists exactly the edges at a node, in identity order.
\<close>

theorem snapshot_new_exact:
  "case snapshot_new v p sc g f nodes edges r of
     Inl e \<Rightarrow> \<not> snapshot_request_ok v p sc g f nodes edges r
   | Inr s \<Rightarrow> snapshot_request_ok v p sc g f nodes edges r
       \<and> snapshot_validate s = Inr ()
       \<and> mset (ss_nodes s) = mset nodes \<and> mset (ss_edges s) = mset edges
       \<and> (\<forall>i. snapshot_node s i = find (\<lambda>n. sn_id n = i) nodes
            \<and> snapshot_edge s i = find (\<lambda>e. se_id e = i) edges
            \<and> sorted (snapshot_forward_edges s i) \<and> sorted (snapshot_reverse_edges s i)
            \<and> mset (snapshot_forward_edges s i)
                = mset (map se_id (filter (\<lambda>e. se_source e = i) edges))
            \<and> mset (snapshot_reverse_edges s i)
                = mset (map se_id (filter (\<lambda>e. se_target e = i) edges)))"
proof (cases "snapshot_new v p sc g f nodes edges r")
  case (Inl e)
  then show ?thesis using snapshot_new_fails [of v p sc g f nodes edges r] by simp
next
  case (Inr s)
  then have "snapshot_validate s = Inr ()" by (rule snapshot_new_validates)
  moreover from Inr have "mset (ss_nodes s) = mset nodes" "mset (ss_edges s) = mset edges"
    unfolding snapshot_new_Inr by simp_all
  moreover have "snapshot_request_ok v p sc g f nodes edges r"
    using Inr snapshot_new_fails [of v p sc g f nodes edges r] by simp
  ultimately show ?thesis using snapshot_lookups [OF Inr] Inr by simp
qed

text \<open>
  Validation accepts exactly the snapshots the constructor returns: one that validates
  is what its own fields build, and what the constructor returns validates.
\<close>

theorem snapshot_validation_exact:
  "snapshot_validate s = Inr () \<longleftrightarrow>
     (\<exists>v p sc g f nodes edges r. snapshot_new v p sc g f nodes edges r = Inr s)"
proof
  assume "\<exists>v p sc g f nodes edges r. snapshot_new v p sc g f nodes edges r = Inr s"
  then show "snapshot_validate s = Inr ()" by (blast dest: snapshot_new_validates)
qed (blast dest: snapshot_validate_iff [THEN iffD1])

end
