(* ===== verification/Lineage.thy ===== *)
theory Lineage
  imports Prelude
begin

text \<open>
  The cycle check of the structural graph builder, \<open>directed_cycle\<close> and \<open>visit_lineage\<close> in
  \<open>graph/mod.rs\<close>: a depth-first search with three colours (0 new, 1 on the stack, 2 done).
  The lemmas show that it ends, that a trail it returns is a closed walk of the lineage, and
  that it returns none exactly when the lineage has no cycle.
\<close>

type_synonym lineage = "(str, str list) omap"
type_synonym colours = "(str, nat) omap"

definition colour :: "colours \<Rightarrow> str \<Rightarrow> nat" where
  "colour c x = (case om_get c x of None \<Rightarrow> 0 | Some n \<Rightarrow> n)"

definition targets :: "lineage \<Rightarrow> str \<Rightarrow> str list" where
  "targets adj x = (case om_get adj x of None \<Rightarrow> [] | Some ts \<Rightarrow> ts)"

text \<open>\<open>position(..).unwrap_or(0)\<close>.\<close>

fun position_of :: "str \<Rightarrow> str list \<Rightarrow> nat option" where
  "position_of t [] = None"
| "position_of t (x # xs) = (if x = t then Some 0 else map_option Suc (position_of t xs))"

definition back_trail :: "str \<Rightarrow> str list \<Rightarrow> str list" where
  "back_trail t stack =
     (let start = (case position_of t stack of None \<Rightarrow> 0 | Some i \<Rightarrow> i) in drop start stack @ [t])"

text \<open>
  The loop over the targets of a node. The visit of a new target is the recursive call
  between colouring it 1 and pushing it, and popping it and colouring it 2.
\<close>

function visit_targets ::
  "lineage \<Rightarrow> str list \<Rightarrow> colours \<Rightarrow> str list \<Rightarrow> str list option \<times> colours \<times> str list" where
  "visit_targets adj [] c stack = (None, c, stack)"
| "visit_targets adj (t # ts) c stack =
     (if colour c t = 0 then
        (case visit_targets adj (targets adj t) (om_put t 1 c) (stack @ [t]) of
           (Some trail, d, k) \<Rightarrow> (Some trail, d, k)
         | (None, d, k) \<Rightarrow> visit_targets adj ts (om_put t 2 d) (butlast k))
      else if colour c t = 1 then (Some (back_trail t stack), c, stack)
      else visit_targets adj ts c stack)"
  by pat_completeness auto

lemma colour_put: "colour (om_put x n c) y = (if y = x then n else colour c y)"
  by (simp add: colour_def om_get_put)

lemma visit_keeps_coloured:
  "visit_targets_dom (adj, ts, c, stack) \<Longrightarrow> colour c x \<noteq> 0 \<Longrightarrow>
     colour (fst (snd (visit_targets adj ts c stack))) x \<noteq> 0"
proof (induction adj ts c stack rule: visit_targets.pinduct)
  case (2 adj t ts c stack)
  show ?case
  proof (cases "colour c t = 0")
    case True
    obtain o' d k where v: "visit_targets adj (targets adj t) (om_put t 1 c) (stack @ [t]) = (o', d, k)"
      by (rule prod_cases3)
    have d: "colour d x \<noteq> 0"
      using "2.IH"(1) [OF True] "2.prems" v by (simp add: colour_put)
    show ?thesis
    proof (cases o')
      case None
      then have "colour (fst (snd (visit_targets adj ts (om_put t 2 d) (butlast k)))) x \<noteq> 0"
        using "2.IH"(2) [OF True v [symmetric] None refl] d by (simp add: colour_put)
      with True v None 2(1) show ?thesis by (simp add: visit_targets.psimps)
    qed (use True v d 2(1) in \<open>simp add: visit_targets.psimps\<close>)
  next
    case False
    with 2 show ?thesis by (simp add: visit_targets.psimps)
  qed
qed (simp add: visit_targets.psimps)

definition white :: "lineage \<Rightarrow> colours \<Rightarrow> nat" where
  "white adj c = length (filter (\<lambda>x. colour c x = 0) (om_keys adj))"

lemma filter_length_le:
  "(\<And>y. Q y \<Longrightarrow> P y) \<Longrightarrow> length (filter Q xs) \<le> length (filter P xs)"
  by (induction xs) auto

lemma filter_length_less:
  assumes "x \<in> set xs" "P x" "\<not> Q x" "\<And>y. Q y \<Longrightarrow> P y"
  shows "length (filter Q xs) < length (filter P xs)"
  using assms(1)
proof (induction xs)
  case (Cons y ys)
  then show ?case
    using assms(2-4) filter_length_le [of Q P ys] by (cases "x = y") (auto simp: less_Suc_eq_le)
qed simp

lemma white_put: "n \<noteq> 0 \<Longrightarrow> white adj (om_put t n c) \<le> white adj c"
  unfolding white_def by (intro filter_length_le) (simp add: colour_put split: if_splits)

termination visit_targets
proof (relation "measures [\<lambda>(adj, ts, c, stack). white adj c, \<lambda>(adj, ts, c, stack). length ts]",
    goal_cases)
  case (2 adj t ts c stack)
  show ?case
  proof (cases "t \<in> set (om_keys adj)")
    case True
    then have "white adj (om_put t 1 c) < white adj c"
      unfolding white_def using 2 by (intro filter_length_less [of t]) (auto simp: colour_put split: if_splits)
    then show ?thesis by simp
  next
    case False
    then have "targets adj t = []" by (simp add: targets_def om_keys_get)
    with white_put [of 1 adj t c] show ?thesis by auto
  qed
next
  case (3 adj t ts c stack x1 x2 d k)
  then have v: "visit_targets adj (targets adj t) (om_put t 1 c) (stack @ [t]) = (None, d, k)"
    "visit_targets_dom (adj, targets adj t, om_put t 1 c, stack @ [t])" by simp_all
  have "colour (om_put t 2 d) x = 0 \<Longrightarrow> colour c x = 0" for x
    using visit_keeps_coloured [OF v(2), of x] v(1) by (auto simp: colour_put split: if_splits)
  then have "white adj (om_put t 2 d) \<le> white adj c"
    unfolding white_def by (intro filter_length_le)
  then show ?case by auto
qed auto

definition visit_lineage ::
  "str \<Rightarrow> lineage \<Rightarrow> colours \<Rightarrow> str list \<Rightarrow> str list option \<times> colours \<times> str list" where
  "visit_lineage node adj c stack =
     (case visit_targets adj (targets adj node) (om_put node 1 c) (stack @ [node]) of
        (Some trail, d, k) \<Rightarrow> (Some trail, d, k)
      | (None, d, k) \<Rightarrow> (None, om_put node 2 d, butlast k))"

fun cycle_loop :: "lineage \<Rightarrow> str list \<Rightarrow> colours \<Rightarrow> str list \<Rightarrow> str list option" where
  "cycle_loop adj [] c stack = None"
| "cycle_loop adj (node # nodes) c stack =
     (if colour c node = 0 then
        (case visit_lineage node adj c stack of
           (Some trail, d, k) \<Rightarrow> Some trail
         | (None, d, k) \<Rightarrow> cycle_loop adj nodes d k)
      else cycle_loop adj nodes c stack)"

definition directed_cycle :: "lineage \<Rightarrow> str list option" where
  "directed_cycle adj = cycle_loop adj (om_keys adj) [] []"

text \<open>The loop body of \<open>visit_targets\<close> is a call of \<open>visit_lineage\<close>, as in the source.\<close>

lemma visit_targets_lineage:
  "visit_targets adj (t # ts) c stack =
     (if colour c t = 0 then
        (case visit_lineage t adj c stack of
           (Some trail, d, k) \<Rightarrow> (Some trail, d, k)
         | (None, d, k) \<Rightarrow> visit_targets adj ts d k)
      else if colour c t = 1 then (Some (back_trail t stack), c, stack)
      else visit_targets adj ts c stack)"
  by (auto simp: visit_lineage_def split: prod.split option.split)

section \<open>The search is a cycle check\<close>

definition arrow :: "lineage \<Rightarrow> (str \<times> str) set" where
  "arrow adj = {(a, b). b \<in> set (targets adj a)}"

definition walk_of :: "lineage \<Rightarrow> str list \<Rightarrow> bool" where
  "walk_of adj p \<longleftrightarrow> (\<forall>i. Suc i < length p \<longrightarrow> (p ! i, p ! Suc i) \<in> arrow adj)"

definition closed_walk :: "lineage \<Rightarrow> str list \<Rightarrow> bool" where
  "closed_walk adj p \<longleftrightarrow> length p \<ge> 2 \<and> hd p = last p \<and> walk_of adj p"

definition search_ok :: "lineage \<Rightarrow> colours \<Rightarrow> str list \<Rightarrow> bool" where
  "search_ok adj c stack \<longleftrightarrow> distinct stack \<and> walk_of adj stack
     \<and> (\<forall>x. colour c x = 1 \<longleftrightarrow> x \<in> set stack) \<and> (\<forall>x. colour c x \<le> 2)
     \<and> (\<forall>x y. colour c x = 2 \<longrightarrow> (x, y) \<in> arrow adj \<longrightarrow> colour c y = 2)
     \<and> acyclic {(x, y) \<in> arrow adj. colour c x = 2}"

lemma walk_of_append:
  "walk_of adj (p @ [t]) \<longleftrightarrow> walk_of adj p \<and> (p \<noteq> [] \<longrightarrow> (last p, t) \<in> arrow adj)"
proof -
  have "(\<forall>i. Suc i < length (p @ [t]) \<longrightarrow> ((p @ [t]) ! i, (p @ [t]) ! Suc i) \<in> arrow adj)
    \<longleftrightarrow> (\<forall>i. Suc i < length p \<longrightarrow> (p ! i, p ! Suc i) \<in> arrow adj)
        \<and> (p \<noteq> [] \<longrightarrow> (last p, t) \<in> arrow adj)" (is "?l \<longleftrightarrow> ?r")
  proof
    assume l: ?l
    show ?r
    proof (intro conjI allI impI)
      fix i assume "Suc i < length p"
      with l [rule_format, of i] show "(p ! i, p ! Suc i) \<in> arrow adj" by (simp add: nth_append)
    next
      assume "p \<noteq> []"
      then have "Suc (length p - 1) < length (p @ [t])" by simp
      from l [rule_format, OF this] \<open>p \<noteq> []\<close> show "(last p, t) \<in> arrow adj"
        by (simp add: nth_append last_conv_nth)
    qed
  next
    assume r: ?r
    show ?l
    proof (intro allI impI)
      fix i assume i: "Suc i < length (p @ [t])"
      show "((p @ [t]) ! i, (p @ [t]) ! Suc i) \<in> arrow adj"
      proof (cases "Suc i < length p")
        case False
        with i have "Suc i = length p" "i = length p - 1" "p \<noteq> []" by auto
        with r show ?thesis by (simp add: nth_append last_conv_nth)
      qed (use r in \<open>simp add: nth_append\<close>)
    qed
  qed
  then show ?thesis by (simp add: walk_of_def)
qed

lemma walk_of_drop: "walk_of adj p \<Longrightarrow> walk_of adj (drop n p)"
  by (auto simp: walk_of_def)

lemma position_of_mem: "t \<in> set k \<Longrightarrow> \<exists>i < length k. position_of t k = Some i \<and> k ! i = t"
  by (induction k) auto

lemma back_trail_closed:
  assumes "walk_of adj k" "t \<in> set k" "(last k, t) \<in> arrow adj"
  shows "closed_walk adj (back_trail t k)"
proof -
  obtain i where i: "i < length k" "position_of t k = Some i" "k ! i = t"
    using position_of_mem [OF assms(2)] by blast
  have "walk_of adj (drop i k @ [t])"
    using walk_of_drop [OF assms(1)] assms(3) i(1) by (simp add: walk_of_append)
  with i show ?thesis by (simp add: closed_walk_def back_trail_def hd_append hd_drop_conv_nth)
qed

lemma acyclic_blacken:
  assumes "acyclic {(x, y) \<in> R. B x}" "\<And>y. (t, y) \<in> R \<Longrightarrow> B y"
    "\<And>x y. B x \<Longrightarrow> (x, y) \<in> R \<Longrightarrow> B y" "\<not> B t"
  shows "acyclic {(x, y) \<in> R. B x \<or> x = t}"
proof (rule acyclicI, intro allI notI)
  let ?S = "{(x, y) \<in> R. B x \<or> x = t}"
  fix x assume c: "(x, x) \<in> ?S\<^sup>+"
  have black: "(a, b) \<in> ?S\<^sup>+ \<Longrightarrow> B b" for a b
    by (induction rule: trancl_induct) (use assms(2,3) in auto)
  have stay: "(a, b) \<in> ?S\<^sup>+ \<Longrightarrow> B a \<Longrightarrow> (a, b) \<in> {(x, y) \<in> R. B x}\<^sup>+" for a b
  proof (induction rule: trancl_induct)
    case (base b)
    then show ?case by (auto intro: r_into_trancl)
  next
    case (step b d)
    have "B b" using black [OF step(1)] .
    with step(2) have "(b, d) \<in> {(x, y) \<in> R. B x}" by auto
    with step(3) [OF step(4)] show ?case by (rule trancl_into_trancl)
  qed
  from stay [OF c black [OF c]] assms(1) show False by (simp add: acyclic_def)
qed

lemma push_ok:
  assumes "search_ok adj c k" "colour c t = 0" "k \<noteq> [] \<Longrightarrow> (last k, t) \<in> arrow adj"
  shows "search_ok adj (om_put t 1 c) (k @ [t])"
proof -
  have "{(x, y) \<in> arrow adj. colour (om_put t 1 c) x = 2} = {(x, y) \<in> arrow adj. colour c x = 2}"
    using assms(2) by (auto simp: colour_put split: if_splits)
  moreover have "t \<notin> set k" using assms(1,2) by (metis search_ok_def zero_neq_one)
  ultimately show ?thesis
    using assms unfolding search_ok_def by (auto simp: colour_put walk_of_append)
qed

lemma pop_ok:
  assumes "search_ok adj d (k @ [t])" "\<forall>y \<in> set (targets adj t). colour d y = 2"
  shows "search_ok adj (om_put t 2 d) k"
proof -
  have t: "colour d t = 1" "t \<notin> set k" using assms(1) by (auto simp: search_ok_def)
  have "{(x, y) \<in> arrow adj. colour (om_put t 2 d) x = 2}
      = {(x, y) \<in> arrow adj. colour d x = 2 \<or> x = t}" by (auto simp: colour_put)
  moreover have "acyclic {(x, y) \<in> arrow adj. colour d x = 2 \<or> x = t}"
    using assms t by (intro acyclic_blacken) (auto simp: search_ok_def arrow_def)
  ultimately show ?thesis
    using assms t unfolding search_ok_def by (auto simp: colour_put walk_of_append arrow_def)
qed

definition visit_post ::
  "lineage \<Rightarrow> str list \<Rightarrow> colours \<Rightarrow> str list \<Rightarrow> str list option \<Rightarrow> colours \<Rightarrow> str list \<Rightarrow> bool" where
  "visit_post adj ts c k r d j \<longleftrightarrow> (case r of
       Some trail \<Rightarrow> closed_walk adj trail
     | None \<Rightarrow> j = k \<and> search_ok adj d k \<and> (\<forall>x. colour c x = 2 \<longrightarrow> colour d x = 2)
         \<and> (\<forall>t \<in> set ts. colour d t = 2))"

lemma visit_targets_spec:
  "search_ok adj c k \<Longrightarrow> (\<forall>t \<in> set ts. k \<noteq> [] \<longrightarrow> (last k, t) \<in> arrow adj)
   \<Longrightarrow> k \<noteq> [] \<or> (\<forall>x. colour c x \<noteq> 1)
   \<Longrightarrow> (case visit_targets adj ts c k of (r, d, j) \<Rightarrow> visit_post adj ts c k r d j)"
proof (induction adj ts c k rule: visit_targets.induct)
  case (1 adj c k)
  then show ?case by (simp add: visit_post_def)
next
  case (2 adj t ts c k)
  consider (new) "colour c t = 0" | (grey) "colour c t = 1" | (black) "colour c t = 2"
    using 2(4) unfolding search_ok_def by (metis One_nat_def le_neq_implies_less less_2_cases)
  then show ?case
  proof cases
    case new
    obtain r d j where v: "visit_targets adj (targets adj t) (om_put t 1 c) (k @ [t]) = (r, d, j)"
      by (rule prod_cases3)
    have "search_ok adj (om_put t 1 c) (k @ [t])" using 2(4,5) new by (intro push_ok) auto
    then have "visit_post adj (targets adj t) (om_put t 1 c) (k @ [t]) r d j"
      using 2(1) [OF new] v by (simp add: arrow_def)
    note p = this [unfolded visit_post_def]
    show ?thesis
    proof (cases r)
      case None
      with p have j: "j = k @ [t]" "search_ok adj d (k @ [t])" "\<forall>y \<in> set (targets adj t). colour d y = 2"
        "\<forall>x. colour (om_put t 1 c) x = 2 \<longrightarrow> colour d x = 2" by auto
      have ok: "search_ok adj (om_put t 2 d) k" by (rule pop_ok [OF j(2,3)])
      have mono: "\<forall>x. colour c x = 2 \<longrightarrow> colour (om_put t 2 d) x = 2"
        using j(4) new by (auto simp: colour_put)
      have "k \<noteq> [] \<or> (\<forall>x. colour (om_put t 2 d) x \<noteq> 1)" using ok by (auto simp: search_ok_def)
      then have "case visit_targets adj ts (om_put t 2 d) k of
          (r, e, i) \<Rightarrow> visit_post adj ts (om_put t 2 d) k r e i"
        using 2(2) [OF new v [symmetric] None refl] ok 2(5) j(1) by simp
      with mono show ?thesis
        using new v None j(1) by (auto simp: visit_post_def colour_put split: prod.splits option.splits)
    next
      case (Some trail)
      with p new v show ?thesis by (simp add: visit_post_def)
    qed
  next
    case grey
    with 2(4,6) have "t \<in> set k" "k \<noteq> []" by (auto simp: search_ok_def)
    with 2(4,5) have "closed_walk adj (back_trail t k)"
      by (intro back_trail_closed) (auto simp: search_ok_def)
    with grey show ?thesis by (simp add: visit_post_def)
  next
    case black
    with 2 have "case visit_targets adj ts c k of (r, d, j) \<Rightarrow> visit_post adj ts c k r d j" by simp
    with black show ?thesis by (auto simp: visit_post_def split: prod.splits option.splits)
  qed
qed

lemma visit_lineage_spec:
  assumes "search_ok adj c []" "colour c t = 0"
  shows "case visit_lineage t adj c [] of (r, d, j) \<Rightarrow> visit_post adj [t] c [] r d j"
proof -
  have "case visit_targets adj [t] c [] of (r, d, j) \<Rightarrow> visit_post adj [t] c [] r d j"
    using assms by (intro visit_targets_spec) (auto simp: search_ok_def)
  then show ?thesis
    using assms(2) by (auto simp: visit_targets_lineage simp del: visit_targets.simps(2)
        split: prod.splits option.splits)
qed

lemma cycle_loop_spec:
  assumes "search_ok adj c []"
  shows "case cycle_loop adj ns c [] of
      Some trail \<Rightarrow> closed_walk adj trail
    | None \<Rightarrow> \<exists>d. search_ok adj d [] \<and> (\<forall>x. colour c x = 2 \<or> x \<in> set ns \<longrightarrow> colour d x = 2)"
  using assms
proof (induction ns arbitrary: c)
  case (Cons n ns)
  show ?case
  proof (cases "colour c n = 0")
    case True
    obtain r d j where v: "visit_lineage n adj c [] = (r, d, j)" by (rule prod_cases3)
    with visit_lineage_spec [OF Cons.prems True] have p: "visit_post adj [n] c [] r d j" by simp
    show ?thesis
    proof (cases r)
      case None
      with p have d: "j = []" "search_ok adj d []" "\<forall>x. colour c x = 2 \<longrightarrow> colour d x = 2" "colour d n = 2"
        by (auto simp: visit_post_def)
      from Cons.IH [OF d(2)] d True v None show ?thesis
        by (fastforce split: option.splits)
    qed (use True v p in \<open>simp add: visit_post_def\<close>)
  next
    case False
    have "colour c n \<noteq> 1" "colour c n \<le> 2" using Cons.prems by (auto simp: search_ok_def)
    with False have "colour c n = 2" by simp
    with Cons.IH [OF Cons.prems] False show ?thesis by (fastforce split: option.splits)
  qed
qed auto

lemma closed_walk_cyclic:
  assumes "closed_walk adj p"
  shows "\<not> acyclic (arrow adj)"
proof -
  have "(p ! 0, p ! Suc i) \<in> (arrow adj)\<^sup>+" if "Suc i < length p" for i
    using that
  proof (induction i)
    case 0
    with assms show ?case by (auto simp: closed_walk_def walk_of_def)
  next
    case (Suc i)
    then have "(p ! Suc i, p ! Suc (Suc i)) \<in> arrow adj"
      using assms by (auto simp: closed_walk_def walk_of_def)
    with Suc show ?case by (auto intro: trancl_into_trancl)
  qed
  from this [of "length p - 2"] assms have "(p ! 0, p ! (length p - 1)) \<in> (arrow adj)\<^sup>+"
    by (auto simp: closed_walk_def numeral_2_eq_2 Suc_diff_Suc)
  moreover have "p ! 0 = p ! (length p - 1)"
    using assms by (metis closed_walk_def hd_conv_nth last_conv_nth list.size(3) not_numeral_le_zero)
  ultimately show ?thesis by (auto simp: acyclic_def)
qed

lemma directed_cycle_spec:
  "case directed_cycle adj of
     Some trail \<Rightarrow> closed_walk adj trail \<and> \<not> acyclic (arrow adj)
   | None \<Rightarrow> acyclic (arrow adj)"
proof -
  have "search_ok adj [] []" by (simp add: search_ok_def colour_def walk_of_def acyclic_def)
  from cycle_loop_spec [OF this, of "om_keys adj"] show ?thesis
  proof (cases "cycle_loop adj (om_keys adj) [] []")
    case None
    with cycle_loop_spec [OF \<open>search_ok adj [] []\<close>, of "om_keys adj"] obtain d where
      d: "search_ok adj d []" "\<forall>x \<in> set (om_keys adj). colour d x = 2" by auto
    have "x \<in> set (om_keys adj)" if "(x, y) \<in> arrow adj" for x y
      using that by (cases "om_get adj x") (auto simp: arrow_def targets_def om_keys_get)
    then have "{(x, y) \<in> arrow adj. colour d x = 2} = arrow adj" using d(2) by auto
    with d(1) None show ?thesis by (simp add: search_ok_def directed_cycle_def)
  next
    case (Some trail)
    with cycle_loop_spec [OF \<open>search_ok adj [] []\<close>, of "om_keys adj"]
    show ?thesis by (simp add: directed_cycle_def closed_walk_cyclic)
  qed
qed

text \<open>
  The cycle check of the lineage always ends. It returns no trail exactly when the
  lineage has no cycle, and a trail it returns is a closed walk of the lineage: it starts
  and ends at the same node and every step is an edge.
\<close>

theorem directed_cycle_exact:
  "case directed_cycle adj of
     Some trail \<Rightarrow> closed_walk adj trail \<and> \<not> acyclic (arrow adj)
   | None \<Rightarrow> acyclic (arrow adj)"
  by (rule directed_cycle_spec)

end
