(* ===== verification/Graph_Builder.thy ===== *)
theory Graph_Builder
  imports Structural Lineage
begin

text \<open>
  The builder of structural graphs in \<open>graph/mod.rs\<close>: limits, the receipt, the snapshot, and
  the checks of a candidate (what generated nodes come from, reciprocal lineage, no cycle).
  A failure carries the digest of the candidate and the text of the error. The lemmas show
  exactly which candidates are built.
\<close>

section \<open>Error texts\<close>

text \<open>
  The derived \<open>Debug\<close> of a \<open>NodeId\<close> or \<open>EdgeId\<close>; the bytes of an identity need no escape.
\<close>

definition debug_id :: "str \<Rightarrow> str \<Rightarrow> str" where
  "debug_id type i = type @ ''('' @ CHR 0x22 # i @ CHR 0x22 # '')''"

definition graph_error_text :: "graph_error \<Rightarrow> str" where
  "graph_error_text e = (case e of
       InvalidNodeId i \<Rightarrow> ''invalid node identity: '' @ i
     | InvalidEdgeId i \<Rightarrow> ''invalid edge identity: '' @ i
     | InvalidProvenance \<Rightarrow> ''provenance source and locator must be nonblank and at most ''
         @ dec MAX_SOURCE_BYTES @ '' and '' @ dec MAX_LOCATOR_BYTES @ '' bytes''
     | InvalidConfidence v \<Rightarrow> ''confidence must be at most 100: '' @ dec v
     | InvalidFactKey key \<Rightarrow> ''semantic key must be nonblank and at most ''
         @ dec MAX_FIELD_KEY_BYTES @ '' bytes and '' @ dec MAX_FIELD_KEY_CHARS
         @ '' characters: '' @ key
     | InvalidFactValue key v \<Rightarrow> key @ '' semantic value must be nonblank and at most ''
         @ dec MAX_VALUE_BYTES @ '' bytes: '' @ v
     | FactFieldLimitExceeded limit \<Rightarrow> ''semantic field limit exceeded: '' @ dec limit
     | FactValuesPerFieldExceeded key limit \<Rightarrow>
         ''semantic value limit exceeded for '' @ key @ '': '' @ dec limit
     | SemanticByteLimitExceeded limit actual \<Rightarrow>
         ''semantic byte limit '' @ dec limit @ '' exceeded: '' @ dec actual
     | InvalidGraphLimits \<Rightarrow> ''node and edge limits must be nonzero''
     | NodeLimitExceeded limit actual \<Rightarrow> ''node limit '' @ dec limit @ '' exceeded by '' @ dec actual
     | EdgeLimitExceeded limit actual \<Rightarrow> ''edge limit '' @ dec limit @ '' exceeded by '' @ dec actual
     | DuplicateNodeId i \<Rightarrow> ''duplicate node identity: '' @ debug_id ''NodeId'' i
     | DuplicateEdgeId i \<Rightarrow> ''duplicate edge identity: '' @ debug_id ''EdgeId'' i
     | MissingSource i \<Rightarrow> ''edge source is not a graph node: '' @ debug_id ''NodeId'' i
     | MissingTargetMustBeExplicit edge target \<Rightarrow> ''edge '' @ debug_id ''EdgeId'' edge
         @ '' references absent target '' @ debug_id ''NodeId'' target
         @ '' without MissingTarget certainty''
     | MissingTargetMustBeAbsent edge target \<Rightarrow> ''edge '' @ debug_id ''EdgeId'' edge
         @ '' marks present target '' @ debug_id ''NodeId'' target @ '' MissingTarget''
     | UnknownStructuralSchemaVersion v \<Rightarrow> ''unknown structural graph schema version: '' @ dec v
     | InvalidStructuralOrderingVersion v \<Rightarrow>
         ''unknown structural graph ordering version: '' @ dec v
     | InvalidStructuralPath path \<Rightarrow> ''invalid structural path: '' @ path
     | InvalidStructuralDigest d \<Rightarrow> ''invalid structural digest: '' @ d
     | InvalidStructuralIdentity i \<Rightarrow> ''invalid structural identity: '' @ i
     | InvalidStructuralField field value \<Rightarrow> ''invalid structural '' @ field @ '': '' @ value
     | NonCanonicalStructuralOrder field \<Rightarrow> ''noncanonical structural ordering for '' @ field
     | DuplicateStructuralNodeId i \<Rightarrow> ''duplicate structural node: '' @ i
     | DuplicateStructuralEdgeId i \<Rightarrow> ''duplicate structural edge: '' @ i
     | MissingStructuralSource i \<Rightarrow> ''missing structural edge source: '' @ i
     | MissingStructuralTarget i \<Rightarrow> ''missing structural edge target: '' @ i
     | PresentStructuralTargetMarkedMissing i \<Rightarrow> ''present structural target marked missing: '' @ i
     | InvalidStructuralIndexes \<Rightarrow> ''invalid structural indexes''
     | StructuralDigestMismatch expected actual \<Rightarrow>
         ''structural digest mismatch: expected '' @ expected @ '', got '' @ actual
     | InvalidGeneratedFromTarget edge target \<Rightarrow>
         ''generated_from edge '' @ edge @ '' targets non-source node '' @ target
     | MissingReciprocalLineage edge \<Rightarrow> ''lineage edge '' @ edge @ '' lacks reciprocal evidence''
     | StructuralLineageCycle trail \<Rightarrow> ''structural lineage cycle: '' @ join '' -> '' trail)"

section \<open>Checks of a candidate\<close>

definition nodes_by_id :: "structural_node list \<Rightarrow> (str, structural_node) omap" where
  "nodes_by_id nodes = om_of_list (map (\<lambda>n. (sn_id n, n)) nodes)"

definition ends_of :: "structural_edge_kind \<Rightarrow> structural_edge list \<Rightarrow> (str \<times> str) set" where
  "ends_of kind edges = (\<lambda>e. (se_source e, se_target e)) ` set (filter (\<lambda>e. se_kind e = kind) edges)"

definition generated_from_valid :: "(str, structural_node) omap \<Rightarrow> structural_edge \<Rightarrow> bool" where
  "generated_from_valid m e \<longleftrightarrow>
     (case om_get m (se_target e) of
        None \<Rightarrow> False | Some n \<Rightarrow> sn_generated_status n = Gs_Source)"

definition reciprocal_edge ::
  "(str, structural_node) omap \<Rightarrow> (str \<times> str) set \<Rightarrow> (str \<times> str) set \<Rightarrow> structural_edge \<Rightarrow> bool" where
  "reciprocal_edge m supersedes predecessors e \<longleftrightarrow>
     om_get m (se_target e) = None
     \<or> (case se_kind e of
          Ek_Supersedes \<Rightarrow> (se_source e, se_target e) \<in> predecessors
        | Ek_Predecessor \<Rightarrow> (se_source e, se_target e) \<in> supersedes
        | _ \<Rightarrow> True)"

definition check_candidate_edge ::
  "(str, structural_node) omap \<Rightarrow> (str \<times> str) set \<Rightarrow> (str \<times> str) set \<Rightarrow> structural_edge
   \<Rightarrow> graph_error + unit" where
  "check_candidate_edge m supersedes predecessors e =
     (if se_kind e = Ek_GeneratedFrom \<and> \<not> generated_from_valid m e
      then Inl (InvalidGeneratedFromTarget (se_id e) (se_target e))
      else if \<not> reciprocal_edge m supersedes predecessors e
      then Inl (MissingReciprocalLineage (se_id e)) else Inr ())"

definition lineage_kind :: "structural_edge_kind \<Rightarrow> bool" where
  "lineage_kind k \<longleftrightarrow> k \<in> {Ek_Lifecycle, Ek_Supersedes, Ek_Predecessor}"

definition add_lineage :: "lineage \<Rightarrow> structural_edge \<Rightarrow> lineage" where
  "add_lineage m e =
     om_put (se_source e) (insort_insert (se_target e) (targets m (se_source e))) m"

definition lineage_of :: "structural_edge list \<Rightarrow> lineage" where
  "lineage_of edges = foldl add_lineage [] (filter (\<lambda>e. lineage_kind (se_kind e)) edges)"

definition validate_structural_candidate ::
  "structural_node list \<Rightarrow> structural_edge list \<Rightarrow> graph_error + unit" where
  "validate_structural_candidate nodes edges =
     (let m = nodes_by_id nodes; supersedes = ends_of Ek_Supersedes edges;
          predecessors = ends_of Ek_Predecessor edges in
      res_bind (check_each (check_candidate_edge m supersedes predecessors) edges) (\<lambda>_.
        case directed_cycle (lineage_of edges) of
          Some trail \<Rightarrow> Inl (StructuralLineageCycle trail)
        | None \<Rightarrow> Inr ()))"

section \<open>The builder\<close>

record structural_graph_candidate =
  gc_scan_input_digest :: str
  gc_nodes :: "structural_node list"
  gc_edges :: "structural_edge list"

datatype graph_build_failure_kind = Fk_Limit | Fk_Receipt | Fk_Validation

record graph_build_failure =
  bf_kind :: graph_build_failure_kind
  bf_candidate_digest :: str
  bf_diagnostic :: str

record graph_builder =
  gb_max_nodes :: nat
  gb_max_edges :: nat
  gb_frozen_frequency_digest :: str

definition build_failure :: "graph_build_failure_kind \<Rightarrow> str \<Rightarrow> str \<Rightarrow> graph_build_failure" where
  "build_failure kind d diagnostic =
     \<lparr>bf_kind = kind, bf_candidate_digest = d, bf_diagnostic = diagnostic\<rparr>"

definition map_err :: "('e \<Rightarrow> 'f) \<Rightarrow> 'e + 'a \<Rightarrow> 'f + 'a" where
  "map_err f r = (case r of Inl e \<Rightarrow> Inl (f e) | Inr x \<Rightarrow> Inr x)"

definition build_facts :: "str list" where
  "build_facts = [''complete-candidate'', ''lineage-acyclic'', ''structural-graph-valid'']"

definition builder_build ::
  "graph_builder \<Rightarrow> structural_graph_candidate \<Rightarrow> str option \<Rightarrow> str
   \<Rightarrow> graph_build_failure + structural_graph_snapshot" where
  "builder_build b c parent operation_id =
     (let d = structural_content_digest (gc_nodes c) (gc_edges c) in
      if length (gc_nodes c) > gb_max_nodes b then
        Inl (build_failure Fk_Limit d (''structural node limit exceeded: ''
          @ dec (length (gc_nodes c)) @ '' > '' @ dec (gb_max_nodes b)))
      else if length (gc_edges c) > gb_max_edges b then
        Inl (build_failure Fk_Limit d (''structural edge limit exceeded: ''
          @ dec (length (gc_edges c)) @ '' > '' @ dec (gb_max_edges b)))
      else
        res_bind (map_err (\<lambda>e. build_failure Fk_Receipt d (graph_error_text e))
          (structural_receipt_new operation_id parent None None build_facts)) (\<lambda>receipt.
        res_bind (map_err (\<lambda>e. build_failure Fk_Validation d (graph_error_text e))
          (snapshot_new STRUCTURAL_GRAPH_SCHEMA_VERSION parent (gc_scan_input_digest c) d
            (gb_frozen_frequency_digest b) (gc_nodes c) (gc_edges c) receipt)) (\<lambda>snapshot.
        res_bind (map_err (\<lambda>e. build_failure Fk_Validation d (graph_error_text e))
          (validate_structural_candidate (ss_nodes snapshot) (ss_edges snapshot))) (\<lambda>_.
          Inr snapshot))))"

section \<open>What the checks decide\<close>

lemma om_get_of_list: "om_get (om_of_list kvs) k = map_of (rev kvs) k"
proof (induction kvs rule: rev_induct)
  case (snoc p kvs)
  then show ?case by (cases p) (simp add: om_of_list_def om_get_put)
qed (simp add: om_of_list_def)

lemma nodes_by_id_find:
  assumes "distinct (map sn_id nodes)"
  shows "om_get (nodes_by_id nodes) i = find (\<lambda>n. sn_id n = i) nodes"
proof -
  have "map_of (map (\<lambda>n. (sn_id n, n)) ns) i = find (\<lambda>n. sn_id n = i) ns" for ns
    by (induction ns) auto
  then have "om_get (nodes_by_id nodes) i = find (\<lambda>n. sn_id n = i) (rev nodes)"
    by (simp add: nodes_by_id_def om_get_of_list rev_map)
  then show ?thesis using find_mset [OF assms, of "rev nodes" i] by simp
qed

definition generated_from_sources :: "structural_node list \<Rightarrow> structural_edge list \<Rightarrow> bool" where
  "generated_from_sources nodes edges \<longleftrightarrow>
     (\<forall>e \<in> set edges. se_kind e = Ek_GeneratedFrom \<longrightarrow>
        (\<exists>n \<in> set nodes. sn_id n = se_target e \<and> sn_generated_status n = Gs_Source))"

definition evidenced_by :: "structural_edge_kind \<Rightarrow> structural_edge list \<Rightarrow> structural_edge \<Rightarrow> bool" where
  "evidenced_by k edges e \<longleftrightarrow>
     (\<exists>f \<in> set edges. se_kind f = k \<and> se_source f = se_source e \<and> se_target f = se_target e)"

definition lineage_reciprocal :: "structural_node list \<Rightarrow> structural_edge list \<Rightarrow> bool" where
  "lineage_reciprocal nodes edges \<longleftrightarrow>
     (\<forall>e \<in> set edges. se_target e \<in> sn_id ` set nodes \<longrightarrow>
        (se_kind e = Ek_Supersedes \<longrightarrow> evidenced_by Ek_Predecessor edges e)
        \<and> (se_kind e = Ek_Predecessor \<longrightarrow> evidenced_by Ek_Supersedes edges e))"

definition lineage_arrows :: "structural_edge list \<Rightarrow> (str \<times> str) set" where
  "lineage_arrows edges =
     {(se_source e, se_target e) | e. e \<in> set edges \<and> lineage_kind (se_kind e)}"

lemma in_ends_of: "(se_source e, se_target e) \<in> ends_of k edges \<longleftrightarrow> evidenced_by k edges e"
  by (force simp: ends_of_def evidenced_by_def image_iff)

lemma lineage_of_arrows: "arrow (lineage_of edges) = lineage_arrows edges"
proof -
  have t: "targets (om_put k v m) x = (if x = k then v else targets m x)" for k v m x
    by (simp add: targets_def om_get_put)
  have "arrow (add_lineage m e) = insert (se_source e, se_target e) (arrow m)" for m e
    by (auto simp: arrow_def add_lineage_def t set_insort_insert split: if_splits)
  then have "arrow (foldl add_lineage m es)
      = arrow m \<union> (\<lambda>e. (se_source e, se_target e)) ` set es" for m es
    by (induction es arbitrary: m) auto
  moreover have "arrow [] = {}" by (simp add: arrow_def targets_def)
  ultimately show ?thesis by (auto simp: lineage_of_def lineage_arrows_def)
qed

lemma find_known: "find (\<lambda>n. sn_id n = i) nodes = None \<longleftrightarrow> i \<notin> sn_id ` set nodes"
  by (auto simp: find_None_iff)

lemma candidate_checks:
  assumes d: "distinct (map sn_id nodes)"
  shows "is_ok (validate_structural_candidate nodes edges) \<longleftrightarrow>
    generated_from_sources nodes edges \<and> lineage_reciprocal nodes edges
    \<and> acyclic (lineage_arrows edges)"
proof -
  let ?m = "nodes_by_id nodes"
  let ?c = "check_candidate_edge ?m (ends_of Ek_Supersedes edges) (ends_of Ek_Predecessor edges)"
  have g: "generated_from_valid ?m e \<longleftrightarrow>
      (\<exists>n \<in> set nodes. sn_id n = se_target e \<and> sn_generated_status n = Gs_Source)" for e
  proof (cases "find (\<lambda>n. sn_id n = se_target e) nodes")
    case None
    moreover from None have "\<not> (\<exists>n \<in> set nodes. sn_id n = se_target e)"
      by (auto simp: find_None_iff)
    ultimately show ?thesis by (auto simp: generated_from_valid_def nodes_by_id_find [OF d])
  next
    case (Some n)
    have "n' \<in> set nodes \<and> sn_id n' = se_target e \<longleftrightarrow> n' = n" for n'
      using Some find_distinct [OF d, of "se_target e" n'] by auto
    then have "(\<exists>n \<in> set nodes. sn_id n = se_target e \<and> sn_generated_status n = Gs_Source)
        \<longleftrightarrow> sn_generated_status n = Gs_Source" by (metis (no_types))
    moreover have "generated_from_valid ?m e \<longleftrightarrow> sn_generated_status n = Gs_Source"
      unfolding generated_from_valid_def nodes_by_id_find [OF d] Some by simp
    ultimately show ?thesis by satx
  qed
  have r: "reciprocal_edge ?m (ends_of Ek_Supersedes edges) (ends_of Ek_Predecessor edges) e \<longleftrightarrow>
      (se_target e \<in> sn_id ` set nodes \<longrightarrow>
        (se_kind e = Ek_Supersedes \<longrightarrow> evidenced_by Ek_Predecessor edges e)
        \<and> (se_kind e = Ek_Predecessor \<longrightarrow> evidenced_by Ek_Supersedes edges e))" for e
    by (cases "se_kind e") (auto simp: reciprocal_edge_def nodes_by_id_find [OF d] find_known in_ends_of)
  have c: "?c e = Inr () \<longleftrightarrow> (se_kind e = Ek_GeneratedFrom \<longrightarrow> generated_from_valid ?m e)
      \<and> reciprocal_edge ?m (ends_of Ek_Supersedes edges) (ends_of Ek_Predecessor edges) e" for e
    by (simp add: check_candidate_edge_def)
  have e: "(\<forall>e \<in> set edges. ?c e = Inr ()) \<longleftrightarrow>
      generated_from_sources nodes edges \<and> lineage_reciprocal nodes edges"
    unfolding c r g generated_from_sources_def lineage_reciprocal_def by blast
  have "is_ok (validate_structural_candidate nodes edges) \<longleftrightarrow>
      check_each ?c edges = Inr () \<and> directed_cycle (lineage_of edges) = None"
    by (cases "check_each ?c edges")
      (simp_all add: validate_structural_candidate_def Let_def split: option.split)
  also have "\<dots> \<longleftrightarrow> (\<forall>e \<in> set edges. ?c e = Inr ()) \<and> acyclic (lineage_arrows edges)"
    using directed_cycle_spec [of "lineage_of edges"]
    by (auto simp: check_each_iff lineage_of_arrows split: option.splits)
  finally show ?thesis using e by blast
qed

section \<open>Which candidates are built\<close>

definition candidate_ok :: "graph_builder \<Rightarrow> structural_graph_candidate \<Rightarrow> str option \<Rightarrow> str \<Rightarrow> bool" where
  "candidate_ok b c parent operation_id \<longleftrightarrow>
     length (gc_nodes c) \<le> gb_max_nodes b \<and> length (gc_edges c) \<le> gb_max_edges b
     \<and> trim operation_id \<noteq> [] \<and> validate_optional_digest parent = Inr ()
     \<and> validate_digest (gc_scan_input_digest c) = Inr ()
     \<and> validate_digest (gb_frozen_frequency_digest b) = Inr ()
     \<and> structure_ok (gc_nodes c) (gc_edges c)
     \<and> generated_from_sources (gc_nodes c) (gc_edges c)
     \<and> lineage_reciprocal (gc_nodes c) (gc_edges c)
     \<and> acyclic (lineage_arrows (gc_edges c))"

lemma build_facts_normal: "normalize_strings build_facts ''validation fact'' = Inr build_facts"
proof -
  have "check_each (\<lambda>v. validate_structural_text v ''validation fact'') build_facts = Inr ()"
    unfolding build_facts_def by code_simp
  moreover have "sort build_facts = build_facts" unfolding build_facts_def by code_simp
  moreover have "dedup build_facts = build_facts" unfolding build_facts_def by code_simp
  ultimately show ?thesis by (simp add: normalize_strings_def)
qed

lemma build_receipt:
  "is_ok (structural_receipt_new op parent None None build_facts) \<longleftrightarrow>
     trim op \<noteq> [] \<and> validate_optional_digest parent = Inr ()"
  by (cases "validate_optional_digest parent")
    (simp_all add: structural_receipt_new_def validate_structural_text_def build_facts_normal
      validate_optional_digest_def)

lemma same_records:
  assumes "set ns = set ms" "set es = set fs"
  shows "generated_from_sources ns es = generated_from_sources ms fs"
    and "lineage_reciprocal ns es = lineage_reciprocal ms fs"
    and "lineage_arrows es = lineage_arrows fs"
  using assms
  by (simp_all add: generated_from_sources_def lineage_reciprocal_def evidenced_by_def lineage_arrows_def)

lemma is_ok_map_err [simp]: "is_ok (map_err f r) = is_ok r"
  by (cases r) (simp_all add: map_err_def)

lemma map_err_Inr [res_simps]: "map_err f r = Inr x \<longleftrightarrow> r = Inr x"
  by (cases r) (simp_all add: map_err_def)

lemma builder_build_ok:
  "is_ok (builder_build b c parent op) \<longleftrightarrow> candidate_ok b c parent op"
proof (cases "length (gc_nodes c) \<le> gb_max_nodes b \<and> length (gc_edges c) \<le> gb_max_edges b")
  case lim: True
  let ?d = "structural_content_digest (gc_nodes c) (gc_edges c)"
  have dv: "validate_digest ?d = Inr ()" by (simp add: structural_content_digest_def)
  show ?thesis
  proof (cases "structural_receipt_new op parent None None build_facts")
    case (Inl e)
    then show ?thesis using build_receipt [of op parent] lim
      by (auto simp: builder_build_def Let_def map_err_def candidate_ok_def)
  next
    case receipt: (Inr r)
    then have rv: "structural_receipt_validate r = Inr ()" "trim op \<noteq> []"
      "validate_optional_digest parent = Inr ()"
      using structural_receipt_new_valid [OF receipt] build_receipt [of op parent] by simp_all
    let ?s = "snapshot_new STRUCTURAL_GRAPH_SCHEMA_VERSION parent (gc_scan_input_digest c) ?d
            (gb_frozen_frequency_digest b) (gc_nodes c) (gc_edges c) r"
    have s_ok: "is_ok ?s \<longleftrightarrow> validate_digest (gc_scan_input_digest c) = Inr ()
        \<and> validate_digest (gb_frozen_frequency_digest b) = Inr ()
        \<and> structure_ok (gc_nodes c) (gc_edges c)"
      using rv dv by (auto simp: snapshot_new_fails snapshot_request_ok_def
          STRUCTURAL_GRAPH_SCHEMA_VERSION_def)
    show ?thesis
    proof (cases ?s)
      case (Inl e)
      then show ?thesis using s_ok lim receipt
        by (auto simp: builder_build_def Let_def map_err_def candidate_ok_def not_less)
    next
      case (Inr s)
      then have n: "ss_nodes s = sort_key sn_id (gc_nodes c)" "ss_edges s = sort_key se_id (gc_edges c)"
        unfolding snapshot_new_Inr by simp_all
      have ok: "structure_ok (gc_nodes c) (gc_edges c)" using s_ok Inr by simp
      then have "distinct (map sn_id (ss_nodes s))"
        using distinct_map_mset [of "ss_nodes s" "gc_nodes c" sn_id] by (simp add: n structure_ok_def)
      from candidate_checks [OF this, of "ss_edges s"]
        same_records [of "ss_nodes s" "gc_nodes c" "ss_edges s" "gc_edges c"]
      have v: "is_ok (validate_structural_candidate (ss_nodes s) (ss_edges s)) \<longleftrightarrow>
          generated_from_sources (gc_nodes c) (gc_edges c)
          \<and> lineage_reciprocal (gc_nodes c) (gc_edges c) \<and> acyclic (lineage_arrows (gc_edges c))"
        by (simp add: n)
      have "is_ok (builder_build b c parent op) \<longleftrightarrow>
          is_ok (validate_structural_candidate (ss_nodes s) (ss_edges s))"
        using lim receipt Inr
        by (cases "validate_structural_candidate (ss_nodes s) (ss_edges s)")
          (simp_all add: builder_build_def Let_def map_err_def not_less)
      then show ?thesis using v s_ok Inr lim rv by (auto simp: candidate_ok_def)
    qed
  qed
next
  case False
  then show ?thesis by (auto simp: builder_build_def Let_def candidate_ok_def not_le)
qed

text \<open>
  C40. The builder makes a snapshot exactly of the candidates within its limits whose records
  and digests are valid, whose generated nodes come from source nodes, whose supersession is
  stated in both kinds, and whose lineage has no cycle. The snapshot validates, is sealed over
  the candidate's content digest and the parent, and holds the candidate's records; a failure
  carries the candidate's content digest.
\<close>

theorem graph_builder_exact:
  "case builder_build b c parent op of
     Inr s \<Rightarrow> candidate_ok b c parent op \<and> snapshot_validate s = Inr ()
       \<and> ss_graph_digest s = structural_content_digest (gc_nodes c) (gc_edges c)
       \<and> ss_parent_digest s = parent \<and> ss_scan_input_digest s = gc_scan_input_digest c
       \<and> mset (ss_nodes s) = mset (gc_nodes c) \<and> mset (ss_edges s) = mset (gc_edges c)
   | Inl failure \<Rightarrow> \<not> candidate_ok b c parent op
       \<and> bf_candidate_digest failure = structural_content_digest (gc_nodes c) (gc_edges c)"
proof (cases "builder_build b c parent op")
  case (Inl failure)
  then have "bf_candidate_digest failure = structural_content_digest (gc_nodes c) (gc_edges c)"
    by (auto simp: builder_build_def Let_def map_err_def build_failure_def res_simps
        split: if_splits sum.splits)
  then show ?thesis using Inl builder_build_ok [of b c parent op] by simp
next
  case (Inr s)
  then obtain r where "snapshot_new STRUCTURAL_GRAPH_SCHEMA_VERSION parent (gc_scan_input_digest c)
      (structural_content_digest (gc_nodes c) (gc_edges c)) (gb_frozen_frequency_digest b)
      (gc_nodes c) (gc_edges c) r = Inr s"
    by (auto simp: builder_build_def Let_def res_simps split: if_splits)
  note n = this [unfolded snapshot_new_Inr] and v = snapshot_new_validates [OF this]
  from v show ?thesis using n Inr builder_build_ok [of b c parent op] by simp
qed

end
