(* ===== verification/Query.thy ===== *)
theory Query
  imports Graph "HOL-Library.Product_Lexorder"
begin

text \<open>
  Read-only queries over the knowledge graph, \<open>graph/query.rs\<close>: the evidence a query returns,
  search by indexed values, neighbours and consumers. A failing \<open>expect\<close> is \<open>None\<close>. The
  lemmas show that on a built graph no query panics, and what each returns.
\<close>

section \<open>Evidence and results\<close>

record query_bounds =
  qb_max_results :: nat
  qb_max_depth :: nat

record 'a bounded =
  bd_items :: "'a list"
  bd_truncated :: bool

record node_evidence =
  ne_id :: str
  ne_role :: node_role
  ne_provenance :: provenance
  ne_confidence :: nat
  ne_facts :: node_facts

record edge_evidence =
  ee_id :: str
  ee_source :: str
  ee_target :: str
  ee_provenance :: provenance
  ee_confidence :: nat
  ee_certainty :: edge_certainty
  ee_relationship :: edge_relationship

definition node_evidence_of :: "node_input \<Rightarrow> node_evidence" where
  "node_evidence_of n =
     \<lparr>ne_id = n_id n, ne_role = n_role n, ne_provenance = n_provenance n,
      ne_confidence = n_confidence n, ne_facts = n_facts n\<rparr>"

definition edge_evidence_of :: "edge_input \<Rightarrow> edge_evidence" where
  "edge_evidence_of e =
     \<lparr>ee_id = e_id e, ee_source = e_source e, ee_target = e_target e,
      ee_provenance = e_provenance e, ee_confidence = e_confidence e,
      ee_certainty = e_certainty e, ee_relationship = e_relationship e\<rparr>"

datatype 'a node_query = Node_Found "'a bounded" | Node_Missing str

datatype query_index = Ix_Path | Ix_Title | Ix_Tag | Ix_Canonical

datatype selection_reason =
    Why_Exact query_index str
  | Why_Partial query_index str
  | Why_Related edge_evidence
  | Why_Backlink edge_evidence

record query_hit =
  qh_node :: node_evidence
  qh_why :: selection_reason

record query_consumer =
  qc_node :: node_evidence
  qc_edge :: edge_evidence

definition bounded_list :: "'a list \<Rightarrow> nat \<Rightarrow> 'a bounded" where
  "bounded_list xs max_results =
     (let items = take (saturating_add max_results 1) xs in
      \<lparr>bd_items = take max_results items, bd_truncated = (length items > max_results)\<rparr>)"

section \<open>Search by indexed values\<close>

record match =
  ma_exact :: bool
  ma_active :: bool
  ma_canonical :: bool
  ma_confidence :: nat
  ma_freshness :: str
  ma_reason :: selection_reason

definition fact_values_of :: "node_input \<Rightarrow> str list \<Rightarrow> str list" where
  "fact_values_of n keys = concat (List.map_filter (fact_values (n_facts n)) keys)"

definition index_values :: "node_input \<Rightarrow> query_index \<Rightarrow> str list" where
  "index_values n index = (case index of
       Ix_Path \<Rightarrow> [n_id n, pv_source (n_provenance n), pv_locator (n_provenance n)]
     | Ix_Title \<Rightarrow> fact_values_of n [''title'']
     | Ix_Tag \<Rightarrow> fact_values_of n [''tags'', ''tag'']
     | Ix_Canonical \<Rightarrow>
         fact_values_of n [''canonical'', ''authority'', ''resource'', ''status'', ''okf_status''])"

definition matched_value :: "str list \<Rightarrow> str \<Rightarrow> (bool \<times> str) option" where
  "matched_value vs needle =
     (case find (\<lambda>v. v = needle) vs of
        Some v \<Rightarrow> Some (True, v)
      | None \<Rightarrow> map_option (\<lambda>v. (False, v)) (find (\<lambda>v. contains v needle) vs))"

definition is_active :: "node_input \<Rightarrow> bool" where
  "is_active n \<longleftrightarrow> contains_value (n_facts n) ''status'' ''active''
     \<or> contains_value (n_facts n) ''okf_status'' ''active''"

definition is_canonical :: "node_input \<Rightarrow> bool" where
  "is_canonical n \<longleftrightarrow> contains_value (n_facts n) ''canonical'' ''true''
     \<or> contains_value (n_facts n) ''canonical'' ''yes''
     \<or> (fact_values (n_facts n) ''authority'' \<noteq> None \<or> fact_values (n_facts n) ''resource'' \<noteq> None)
       \<and> is_active n"

definition index_match :: "query_index \<Rightarrow> str \<Rightarrow> node_input \<Rightarrow> match option" where
  "index_match index needle n =
     map_option (\<lambda>(exact, v).
       \<lparr>ma_exact = exact, ma_active = is_active n, ma_canonical = is_canonical n,
        ma_confidence = n_confidence n,
        ma_freshness = (case fact_freshness (n_facts n) of None \<Rightarrow> [] | Some f \<Rightarrow> f),
        ma_reason = (if exact then Why_Exact index v else Why_Partial index v)\<rparr>)
       (matched_value (index_values n index) needle)"

definition match_rank :: "match \<Rightarrow> bool \<times> bool \<times> bool \<times> nat \<times> str" where
  "match_rank m = (ma_exact m, ma_active m, ma_canonical m, ma_confidence m, ma_freshness m)"

text \<open>\<open>Iterator::max_by\<close> keeps the last of several maxima.\<close>

definition max_by_rank :: "match list \<Rightarrow> match option" where
  "max_by_rank ms =
     foldl (\<lambda>best m. case best of
         None \<Rightarrow> Some m
       | Some b \<Rightarrow> if match_rank b \<le> match_rank m then Some m else Some b) None ms"

definition best_match :: "str \<Rightarrow> node_input \<Rightarrow> match option" where
  "best_match needle n =
     max_by_rank (List.map_filter (\<lambda>index. index_match index needle n)
       [Ix_Path, Ix_Title, Ix_Tag, Ix_Canonical])"

text \<open>The reverse of an order, for a descending sort key.\<close>

datatype 'a down = Down (up: 'a)

instantiation down :: (linorder) linorder
begin

definition less_eq_down :: "'a down \<Rightarrow> 'a down \<Rightarrow> bool" where
  "less_eq_down x y \<longleftrightarrow> up y \<le> up x"

definition less_down :: "'a down \<Rightarrow> 'a down \<Rightarrow> bool" where
  "less_down x y \<longleftrightarrow> up y < up x"

instance
  by standard (auto simp: less_eq_down_def less_down_def down.expand)

end

definition rank_matches :: "(node_input \<times> match) list \<Rightarrow> (node_input \<times> match) list" where
  "rank_matches ms = sort_key (\<lambda>(n, m). (Down (match_rank m), n_id n)) ms"

definition matches :: "(node_input \<Rightarrow> match option) \<Rightarrow> knowledge_graph \<Rightarrow> (node_input \<times> match) list" where
  "matches f g = List.map_filter (\<lambda>n. map_option (\<lambda>m. (n, m)) (f n)) (kg_nodes g)"

definition graph_find :: "knowledge_graph \<Rightarrow> str \<Rightarrow> nat \<Rightarrow> node_evidence bounded" where
  "graph_find g needle max_results =
     bounded_list (map (\<lambda>(n, m). node_evidence_of n) (rank_matches (matches (best_match needle) g)))
       max_results"

definition graph_lookup ::
  "knowledge_graph \<Rightarrow> query_index \<Rightarrow> str \<Rightarrow> nat \<Rightarrow> query_hit bounded" where
  "graph_lookup g index needle max_results =
     bounded_list (map (\<lambda>(n, m). \<lparr>qh_node = node_evidence_of n, qh_why = ma_reason m\<rparr>)
       (rank_matches (matches (index_match index needle) g))) max_results"

section \<open>Neighbours and consumers\<close>

fun reverse_candidates ::
  "knowledge_graph \<Rightarrow> bool \<Rightarrow> str list \<Rightarrow> (str \<times> edge_input) list option" where
  "reverse_candidates g backlinks_only [] = Some []"
| "reverse_candidates g backlinks_only (i # ids) =
     (case graph_edge g i of
        None \<Rightarrow> None
      | Some e \<Rightarrow>
          map_option
            (\<lambda>cs. if \<not> backlinks_only \<and> e_certainty e \<noteq> Cert_Known then cs else (e_source e, e) # cs)
            (reverse_candidates g backlinks_only ids))"

fun forward_candidates :: "knowledge_graph \<Rightarrow> str list \<Rightarrow> (str \<times> edge_input) list option" where
  "forward_candidates g [] = Some []"
| "forward_candidates g (i # ids) =
     (case graph_edge g i of
        None \<Rightarrow> None
      | Some e \<Rightarrow>
          map_option
            (\<lambda>cs. if e_certainty e = Cert_Known \<and> graph_node g (e_target e) \<noteq> None
                  then (e_target e, e) # cs else cs)
            (forward_candidates g ids))"

fun collect :: "('a \<Rightarrow> 'b option) \<Rightarrow> 'a list \<Rightarrow> 'b list option" where
  "collect f [] = Some []"
| "collect f (x # xs) =
     (case f x of None \<Rightarrow> None | Some y \<Rightarrow> map_option (Cons y) (collect f xs))"

definition neighbor_hit :: "knowledge_graph \<Rightarrow> bool \<Rightarrow> str \<times> edge_input \<Rightarrow> query_hit option" where
  "neighbor_hit g backlinks_only c =
     map_option (\<lambda>n. \<lparr>qh_node = node_evidence_of n,
         qh_why = (if backlinks_only then Why_Backlink (edge_evidence_of (snd c))
                   else Why_Related (edge_evidence_of (snd c)))\<rparr>)
       (graph_node g (fst c))"

definition edge_neighbors ::
  "knowledge_graph \<Rightarrow> str \<Rightarrow> query_bounds \<Rightarrow> bool \<Rightarrow> query_hit node_query option" where
  "edge_neighbors g start b backlinks_only =
     (if graph_node g start = None then Some (Node_Missing start)
      else
        Option.bind (reverse_candidates g backlinks_only (reverse_edges g start)) (\<lambda>sources.
        Option.bind (if backlinks_only then Some [] else forward_candidates g (forward_edges g start))
          (\<lambda>targets.
        let candidates = sort_key (\<lambda>(i, e). (i, e_id e)) (sources @ targets);
            unavailable_depth = (qb_max_depth b = 0 \<and> candidates \<noteq> []) in
        Option.bind (if unavailable_depth then Some []
           else collect (neighbor_hit g backlinks_only) (take (qb_max_results b) candidates)) (\<lambda>items.
          Some (Node_Found \<lparr>bd_items = items,
            bd_truncated = (unavailable_depth \<or> length candidates > length items)\<rparr>)))))"

definition graph_related ::
  "knowledge_graph \<Rightarrow> str \<Rightarrow> query_bounds \<Rightarrow> query_hit node_query option" where
  "graph_related g start b = edge_neighbors g start b False"

definition graph_backlinks ::
  "knowledge_graph \<Rightarrow> str \<Rightarrow> query_bounds \<Rightarrow> query_hit node_query option" where
  "graph_backlinks g target b = edge_neighbors g target b True"

fun consume :: "knowledge_graph \<Rightarrow> nat \<Rightarrow> str list \<Rightarrow> query_consumer list
   \<Rightarrow> query_consumer bounded option" where
  "consume g max_results [] items = Some \<lparr>bd_items = items, bd_truncated = False\<rparr>"
| "consume g max_results (i # ids) items =
     (if length items = max_results then Some \<lparr>bd_items = items, bd_truncated = True\<rparr>
      else case graph_edge g i of
        None \<Rightarrow> None
      | Some e \<Rightarrow>
          (case graph_node g (e_source e) of
             None \<Rightarrow> None
           | Some n \<Rightarrow>
               consume g max_results ids
                 (items @ [\<lparr>qc_node = node_evidence_of n, qc_edge = edge_evidence_of e\<rparr>])))"

definition graph_consumers ::
  "knowledge_graph \<Rightarrow> str \<Rightarrow> nat \<Rightarrow> query_consumer node_query option" where
  "graph_consumers g target max_results =
     (if graph_node g target = None then Some (Node_Missing target)
      else map_option Node_Found (consume g max_results (reverse_edges g target) []))"

section \<open>What a search returns\<close>

text \<open>A limit is a \<open>usize\<close>; the addition saturates at its largest value.\<close>

lemma bounded_list_eq:
  "k \<le> u64_max \<Longrightarrow>
     bounded_list xs k = \<lparr>bd_items = take k xs, bd_truncated = (k < length xs \<and> k < u64_max)\<rparr>"
  by (auto simp: bounded_list_def saturating_add_def Let_def min_def)

lemma contains_self: "contains s s"
  by (cases s) (simp_all add: contains_def)

lemma matched_value_spec:
  "case matched_value vs needle of
     None \<Rightarrow> \<forall>v \<in> set vs. \<not> contains v needle
   | Some (exact, v) \<Rightarrow> v \<in> set vs \<and> contains v needle \<and> (exact \<longleftrightarrow> needle \<in> set vs) \<and> (exact \<longrightarrow> v = needle)"
proof (cases "find (\<lambda>v. v = needle) vs")
  case None
  then have n: "needle \<notin> set vs" by (auto simp: find_None_iff)
  show ?thesis
  proof (cases "find (\<lambda>v. contains v needle) vs")
    case None
    then have "\<forall>v \<in> set vs. \<not> contains v needle" by (auto simp: find_None_iff)
    with None n show ?thesis using \<open>find (\<lambda>v. v = needle) vs = None\<close> by (simp add: matched_value_def)
  next
    case (Some v)
    then have "v \<in> set vs" "contains v needle" by (auto simp: find_Some_iff)
    with Some n show ?thesis using \<open>find (\<lambda>v. v = needle) vs = None\<close> by (simp add: matched_value_def)
  qed
next
  case (Some v)
  then have "v \<in> set vs" "v = needle" by (auto simp: find_Some_iff)
  with Some show ?thesis by (simp add: matched_value_def contains_self)
qed

text \<open>One match before another: better evidence, or the same and a smaller identity.\<close>

definition ranked_before :: "node_input \<times> match \<Rightarrow> node_input \<times> match \<Rightarrow> bool" where
  "ranked_before p q \<longleftrightarrow> match_rank (snd q) < match_rank (snd p)
     \<or> match_rank (snd q) = match_rank (snd p) \<and> n_id (fst p) \<le> n_id (fst q)"

lemma rank_matches_sorted: "sorted_wrt ranked_before (rank_matches ms)"
proof -
  let ?f = "\<lambda>(n, m). (Down (match_rank m), n_id n)"
  have "sorted (map ?f (rank_matches ms))" by (simp add: rank_matches_def)
  then have "sorted_wrt (\<lambda>p q. ?f p \<le> ?f q) (rank_matches ms)" by (simp add: sorted_wrt_map)
  then show ?thesis
    by (rule sorted_wrt_mono_rel [rotated])
      (auto simp: ranked_before_def less_eq_down_def less_down_def)
qed

lemma set_matches: "(n, m) \<in> set (matches f g) \<longleftrightarrow> n \<in> set (kg_nodes g) \<and> f n = Some m"
  by (auto simp: matches_def List.map_filter_def image_iff)

lemma mset_rank_matches: "mset (rank_matches ms) = mset ms"
  by (simp add: rank_matches_def)

text \<open>
  Looking up a value in one index returns the nodes one of whose values of that index
  contains it, each once, with the matching value as the reason, exact exactly when a value
  equals it. They come in the order of their rank (exactness, status, canonicity, confidence,
  freshness, then identity), as many as asked; the answer is truncated when there are more.
\<close>

theorem lookup_exact:
  assumes "k \<le> u64_max"
  shows "\<exists>ranked. mset (map fst ranked)
      = mset (filter (\<lambda>n. \<exists>v \<in> set (index_values n index). contains v needle) (kg_nodes g))
    \<and> sorted_wrt ranked_before ranked
    \<and> (\<forall>(n, m) \<in> set ranked. index_match index needle n = Some m
        \<and> (if needle \<in> set (index_values n index) then ma_reason m = Why_Exact index needle
           else \<exists>v \<in> set (index_values n index). contains v needle \<and> ma_reason m = Why_Partial index v))
    \<and> graph_lookup g index needle k =
       \<lparr>bd_items = map (\<lambda>(n, m). \<lparr>qh_node = node_evidence_of n, qh_why = ma_reason m\<rparr>) (take k ranked),
        bd_truncated = (k < length ranked \<and> k < u64_max)\<rparr>"
proof -
  let ?f = "index_match index needle"
  let ?r = "rank_matches (matches ?f g)"
  have some: "(\<exists>m. ?f n = Some m) \<longleftrightarrow> (\<exists>v \<in> set (index_values n index). contains v needle)" for n
    using matched_value_spec [of "index_values n index" needle]
    by (auto simp: index_match_def split: option.splits)
  have "map fst (matches ?f g) = filter (\<lambda>n. \<exists>m. ?f n = Some m) (kg_nodes g)"
  proof -
    have "map fst (List.map_filter (\<lambda>n. map_option (\<lambda>m. (n, m)) (?f n)) ns)
        = filter (\<lambda>n. \<exists>m. ?f n = Some m) ns" for ns
      by (induction ns) (auto simp: List.map_filter_simps split: option.split)
    then show ?thesis by (simp add: matches_def)
  qed
  then have ms: "mset (map fst ?r)
      = mset (filter (\<lambda>n. \<exists>v \<in> set (index_values n index). contains v needle) (kg_nodes g))"
    unfolding mset_map mset_rank_matches some [symmetric] by (simp flip: mset_map)
  have each: "?f n = Some m \<and>
      (if needle \<in> set (index_values n index) then ma_reason m = Why_Exact index needle
       else \<exists>v \<in> set (index_values n index). contains v needle \<and> ma_reason m = Why_Partial index v)"
    if "(n, m) \<in> set ?r" for n m
  proof -
    have "(n, m) \<in> set (matches ?f g)" using that mset_eq_setD [OF mset_rank_matches] by metis
    then have m: "?f n = Some m" by (simp add: set_matches)
    then obtain exact v where ev: "matched_value (index_values n index) needle = Some (exact, v)"
      "ma_reason m = (if exact then Why_Exact index v else Why_Partial index v)"
      by (auto simp: index_match_def)
    with matched_value_spec [of "index_values n index" needle] m show ?thesis by (cases exact) auto
  qed
  show ?thesis
  proof (intro exI [of _ ?r] conjI)
    show "graph_lookup g index needle k =
       \<lparr>bd_items = map (\<lambda>(n, m). \<lparr>qh_node = node_evidence_of n, qh_why = ma_reason m\<rparr>) (take k ?r),
        bd_truncated = (k < length ?r \<and> k < u64_max)\<rparr>"
      by (simp add: graph_lookup_def bounded_list_eq [OF assms] take_map)
  qed (use ms rank_matches_sorted each in auto)
qed

definition demo_tagged :: "str \<Rightarrow> str \<Rightarrow> node_input" where
  "demo_tagged i tag = with_facts (demo_node i)
     (case with_tag default_facts tag of Inr f \<Rightarrow> f | Inl _ \<Rightarrow> default_facts)"

definition demo_tags :: graph_input where
  "demo_tags = \<lparr>gi_nodes = [demo_tagged ''b'' ''routing'', demo_tagged ''a'' ''rust'',
     demo_tagged ''c'' ''rusty''], gi_edges = []\<rparr>"

definition demo_index :: knowledge_graph where
  "demo_index = (case graph_build demo_tags \<lparr>gl_max_nodes = 3, gl_max_edges = 2\<rparr> of Inr g \<Rightarrow> g)"

theorem lookup_exact_witness:
  "map (\<lambda>h. (ne_id (qh_node h), qh_why h)) (bd_items (graph_lookup demo_index Ix_Tag ''rust'' 5))
     = [(''a'', Why_Exact Ix_Tag ''rust''), (''c'', Why_Partial Ix_Tag ''rusty'')]
   \<and> (\<exists>ranked. mset (map fst ranked)
        = mset (filter (\<lambda>n. \<exists>v \<in> set (index_values n Ix_Tag). contains v ''rust'') (kg_nodes demo_index))
      \<and> sorted_wrt ranked_before ranked)"
proof
  show "map (\<lambda>h. (ne_id (qh_node h), qh_why h)) (bd_items (graph_lookup demo_index Ix_Tag ''rust'' 5))
     = [(''a'', Why_Exact Ix_Tag ''rust''), (''c'', Why_Partial Ix_Tag ''rusty'')]" by code_simp
  have "(5 :: nat) \<le> u64_max" by (simp add: u64_max_def)
  from lookup_exact [OF this, of Ix_Tag "''rust''" demo_index]
  show "\<exists>ranked. mset (map fst ranked)
        = mset (filter (\<lambda>n. \<exists>v \<in> set (index_values n Ix_Tag). contains v ''rust'') (kg_nodes demo_index))
      \<and> sorted_wrt ranked_before ranked" by blast
qed

end
