(* ===== verification/Bfs.thy ===== *)
theory Bfs
  imports Main
begin

text \<open>
  Breadth-first search, the argument the searches over the graphs share. A search starts from
  a set, follows a successor function, keeps the nodes met and a queue of nodes with their
  depths, and expands no node at the depth limit. The invariant of its state says that a
  queued node stands at exactly its depth, and gives at the end that the nodes met are those
  within the limit.
\<close>

text \<open>\<open>y\<close> is \<open>n\<close> steps from the set, and not fewer.\<close>

definition hops :: "('a \<times> 'a) set \<Rightarrow> 'a set \<Rightarrow> nat \<Rightarrow> 'a \<Rightarrow> bool" where
  "hops R S n y \<longleftrightarrow> y \<in> (R ^^ n) `` S \<and> (\<forall>m < n. y \<notin> (R ^^ m) `` S)"

definition within_hops :: "('a \<times> 'a) set \<Rightarrow> 'a set \<Rightarrow> nat \<Rightarrow> 'a set" where
  "within_hops R S n = (\<Union>m \<le> n. (R ^^ m) `` S)"

lemma within_hops_Suc: "within_hops R S (Suc n) = within_hops R S n \<union> R `` within_hops R S n"
proof (intro equalityI subsetI)
  fix y assume "y \<in> within_hops R S (Suc n)"
  then obtain m where m: "m \<le> Suc n" "y \<in> (R ^^ m) `` S" by (auto simp: within_hops_def)
  show "y \<in> within_hops R S n \<union> R `` within_hops R S n"
  proof (cases "m \<le> n")
    case True
    with m show ?thesis by (auto simp: within_hops_def)
  next
    case False
    with m have "y \<in> (R ^^ Suc n) `` S" by (simp add: le_Suc_eq)
    then obtain x where "x \<in> (R ^^ n) `` S" "(x, y) \<in> R" by auto
    then have "x \<in> within_hops R S n" "(x, y) \<in> R" by (auto simp: within_hops_def)
    then show ?thesis by blast
  qed
next
  fix y assume "y \<in> within_hops R S n \<union> R `` within_hops R S n"
  then show "y \<in> within_hops R S (Suc n)"
  proof
    assume "y \<in> within_hops R S n"
    then show ?thesis by (auto simp: within_hops_def intro: le_SucI)
  next
    assume "y \<in> R `` within_hops R S n"
    then obtain m where "m \<le> n" "y \<in> R `` ((R ^^ m) `` S)" by (auto simp: within_hops_def)
    then have "y \<in> (R ^^ Suc m) `` S" by (simp add: relcomp_Image)
    with \<open>m \<le> n\<close> show ?thesis unfolding within_hops_def by (meson Suc_le_mono UN_I atMost_iff)
  qed
qed

lemma within_hops_0 [simp]: "within_hops R S 0 = S"
  by (simp add: within_hops_def)

lemma within_hops_rtrancl: "(\<Union>n. within_hops R S n) = R\<^sup>* `` S"
  by (auto simp: within_hops_def rtrancl_is_UN_relpow)

lemma hops_within: "hops R S n y \<longleftrightarrow> y \<in> within_hops R S n \<and> (\<forall>m < n. y \<notin> within_hops R S m)"
proof
  assume "hops R S n y"
  then show "y \<in> within_hops R S n \<and> (\<forall>m < n. y \<notin> within_hops R S m)"
    by (fastforce simp: hops_def within_hops_def)
next
  assume h: "y \<in> within_hops R S n \<and> (\<forall>m < n. y \<notin> within_hops R S m)"
  then obtain m where m: "m \<le> n" "y \<in> (R ^^ m) `` S" by (auto simp: within_hops_def)
  then have "y \<in> within_hops R S m" by (auto simp: within_hops_def)
  with h m(1) have "m = n" by (metis le_neq_implies_less)
  with h m show "hops R S n y" by (force simp: hops_def within_hops_def)
qed

locale search =
  fixes succs :: "'a \<Rightarrow> 'a list"
begin

fun ball :: "'a set \<Rightarrow> nat \<Rightarrow> 'a set" where
  "ball S 0 = S"
| "ball S (Suc n) = ball S n \<union> (\<Union>x \<in> ball S n. set (succs x))"

inductive_set reach :: "'a set \<Rightarrow> 'a set" for S where
  reach_start: "x \<in> S \<Longrightarrow> x \<in> reach S"
| reach_step: "x \<in> reach S \<Longrightarrow> y \<in> set (succs x) \<Longrightarrow> y \<in> reach S"

definition at_depth :: "'a set \<Rightarrow> nat \<Rightarrow> 'a \<Rightarrow> bool" where
  "at_depth S n x \<longleftrightarrow> x \<in> ball S n \<and> (\<forall>m < n. x \<notin> ball S m)"

lemma ball_mono: "m \<le> n \<Longrightarrow> ball S m \<subseteq> ball S n"
  by (rule lift_Suc_mono_le [of "ball S"]) auto

lemma finite_ball: "finite S \<Longrightarrow> finite (ball S n)"
  by (induction n) auto

lemma ball_reach: "ball S n \<subseteq> reach S"
  by (induction n) (auto intro: reach.intros)

lemma reach_ball: "x \<in> reach S \<Longrightarrow> \<exists>n. x \<in> ball S n"
proof (induction rule: reach.induct)
  case (reach_start x)
  then show ?case by (auto intro: exI [of _ 0])
next
  case (reach_step x y)
  then obtain n where "x \<in> ball S n" by blast
  with reach_step(2) have "y \<in> ball S (Suc n)" by auto
  then show ?case by blast
qed

lemma reach_iff_ball: "x \<in> reach S \<longleftrightarrow> (\<exists>n. x \<in> ball S n)"
  using reach_ball ball_reach by blast

lemma ball_closed:
  assumes "ball S (Suc n) \<subseteq> ball S n"
  shows "reach S = ball S n"
proof
  have "ball S k \<subseteq> ball S n" for k
  proof (induction k)
    case 0
    show ?case using ball_mono [of 0 n S] by simp
  next
    case (Suc k)
    then show ?case using assms by auto
  qed
  then show "reach S \<subseteq> ball S n" using reach_iff_ball by blast
qed (rule ball_reach)

lemma at_depth_unique: "at_depth S m x \<Longrightarrow> at_depth S n x \<Longrightarrow> m = n"
  unfolding at_depth_def by (metis linorder_neqE_nat)

lemma at_depth_exists: "x \<in> ball S n \<Longrightarrow> \<exists>m \<le> n. at_depth S m x"
proof (induction n)
  case (Suc n)
  show ?case
  proof (cases "x \<in> ball S n")
    case True
    with Suc.IH show ?thesis by (meson le_SucI)
  next
    case False
    then have "x \<notin> ball S m" if "m < Suc n" for m
      using that ball_mono [of m n S] by (auto simp: less_Suc_eq_le)
    with Suc.prems show ?thesis unfolding at_depth_def by blast
  qed
qed (simp add: at_depth_def)

lemma at_depth_le: "at_depth S m x \<Longrightarrow> x \<in> ball S n \<Longrightarrow> m \<le> n"
  unfolding at_depth_def by (metis not_le)

text \<open>The nodes met, the queue, and which of the nodes met are not yet expanded.\<close>

definition search_inv :: "'a set \<Rightarrow> nat \<Rightarrow> 'a set \<Rightarrow> ('a \<times> nat) list \<Rightarrow> bool" where
  "search_inv S limit seen queue \<longleftrightarrow>
     S \<subseteq> seen \<and> seen \<subseteq> ball S limit
     \<and> sorted (map snd queue)
     \<and> (\<forall>p \<in> set queue. snd p \<le> snd (hd queue) + 1 \<and> snd p \<le> limit
          \<and> fst p \<in> seen \<and> at_depth S (snd p) (fst p))
     \<and> (queue \<noteq> [] \<longrightarrow> ball S (snd (hd queue)) \<subseteq> seen)
     \<and> (\<forall>x \<in> seen. x \<in> fst ` set queue \<or> set (succs x) \<subseteq> seen \<or> at_depth S limit x)"

lemma search_start:
  assumes "set xs = S"
  shows "search_inv S limit S (map (\<lambda>x. (x, 0)) xs)"
proof -
  have "sorted (map snd (map (\<lambda>x. (x, 0 :: nat)) xs))" by (induction xs) auto
  moreover have "xs \<noteq> [] \<Longrightarrow> snd (hd (map (\<lambda>x. (x, 0 :: nat)) xs)) = 0" by (cases xs) auto
  moreover have "S \<subseteq> ball S limit" using ball_mono [of 0 limit S] by simp
  ultimately show ?thesis using assms unfolding search_inv_def
    by (auto simp: at_depth_def image_image)
qed

lemma search_fresh:
  assumes "search_inv S limit seen ((x, d) # queue)" "y \<in> set (succs x)" "y \<notin> seen"
  shows "at_depth S (Suc d) y"
proof -
  have "x \<in> ball S d" "ball S d \<subseteq> seen"
    using assms(1) by (auto simp: search_inv_def at_depth_def)
  with assms(2,3) have "y \<in> ball S (Suc d)" "y \<notin> ball S d" by auto
  moreover from this have "\<forall>m < Suc d. y \<notin> ball S m"
    using ball_mono [of _ d S] by (metis less_Suc_eq_le subsetD)
  ultimately show ?thesis by (simp add: at_depth_def)
qed

lemma search_head:
  assumes "search_inv S limit seen ((x, d) # queue)"
  shows "d \<le> limit" "at_depth S d x" "x \<in> seen" "seen \<subseteq> ball S limit"
  using assms by (auto simp: search_inv_def)

lemma search_expand:
  assumes inv: "search_inv S limit seen ((x, d) # queue)" and lt: "d < limit"
    and new: "set new = set (succs x) - seen"
  shows "search_inv S limit (seen \<union> set new) (queue @ map (\<lambda>y. (y, Suc d)) new)"
    (is "search_inv S limit ?seen ?queue")
proof -
  have at: "at_depth S (Suc d) y" if "y \<in> set new" for y
    using search_fresh [OF inv] that new by auto
  have s: "S \<subseteq> seen" "seen \<subseteq> ball S limit" "sorted (map snd queue)" "\<forall>p \<in> set queue. d \<le> snd p"
    "ball S d \<subseteq> seen" "at_depth S d x" "x \<in> seen"
    and q: "\<forall>p \<in> set queue. snd p \<le> Suc d \<and> snd p \<le> limit \<and> fst p \<in> seen \<and> at_depth S (snd p) (fst p)"
    and c: "\<forall>y \<in> seen. y = x \<or> y \<in> fst ` set queue \<or> set (succs y) \<subseteq> seen \<or> at_depth S limit y"
    using inv by (auto simp: search_inv_def)
  have q': "\<forall>p \<in> set ?queue. d \<le> snd p \<and> snd p \<le> Suc d \<and> snd p \<le> limit \<and> fst p \<in> ?seen
      \<and> at_depth S (snd p) (fst p)"
    using q s(4) at lt by (auto simp: image_iff)
  have srt: "sorted (map snd ?queue)"
  proof -
    have "sorted (map snd (map (\<lambda>y. (y, Suc d)) new))" by (induction new) auto
    then show ?thesis using s(3) q by (auto simp: sorted_append)
  qed
  have cl: "\<forall>y \<in> ?seen. y \<in> fst ` set ?queue \<or> set (succs y) \<subseteq> ?seen \<or> at_depth S limit y"
  proof
    fix y assume y: "y \<in> ?seen"
    show "y \<in> fst ` set ?queue \<or> set (succs y) \<subseteq> ?seen \<or> at_depth S limit y"
    proof (cases "y \<in> set new")
      case True
      then show ?thesis by (force simp: image_iff)
    next
      case False
      with y c have "y = x \<or> y \<in> fst ` set queue \<or> set (succs y) \<subseteq> seen \<or> at_depth S limit y" by blast
      then show ?thesis using new by auto
    qed
  qed
  have deep: "ball S (Suc d) \<subseteq> ?seen" if "\<forall>p \<in> set ?queue. snd p = Suc d"
  proof
    fix y assume y: "y \<in> ball S (Suc d)"
    show "y \<in> ?seen"
    proof (cases "y \<in> ball S d")
      case True
      then show ?thesis using s(5) by blast
    next
      case False
      then obtain z where z: "z \<in> ball S d" "y \<in> set (succs z)" using y by auto
      have "z \<notin> fst ` set ?queue"
      proof
        assume "z \<in> fst ` set ?queue"
        then obtain p where "p \<in> set ?queue" "fst p = z" by auto
        with that q' have "at_depth S (Suc d) z" by fastforce
        with z(1) show False by (simp add: at_depth_def)
      qed
      moreover have "\<not> at_depth S limit z" using at_depth_le [OF _ z(1)] lt by (meson not_le)
      moreover have "z \<in> ?seen" using z(1) s(5) by blast
      ultimately have "set (succs z) \<subseteq> ?seen" using cl by blast
      with z(2) show ?thesis by blast
    qed
  qed
  have hd: "(\<forall>p \<in> set ?queue. snd p \<le> snd (hd ?queue) + 1) \<and> ball S (snd (hd ?queue)) \<subseteq> ?seen"
    if ne: "?queue \<noteq> []"
  proof -
    obtain p r where pr: "?queue = p # r" using ne by (cases ?queue) auto
    then have p: "p \<in> set ?queue" by simp
    show ?thesis
    proof (cases "snd p = d")
      case True
      then show ?thesis unfolding pr using q' s(5) by (auto simp: pr)
    next
      case False
      moreover have "d \<le> snd p \<and> snd p \<le> Suc d" using q' p by blast
      ultimately have "snd p = Suc d" by simp
      moreover from this srt q' have "\<forall>p \<in> set ?queue. snd p = Suc d"
        unfolding pr by (auto intro: le_antisym)
      ultimately show ?thesis using deep by (auto simp: pr)
    qed
  qed
  have "set new \<subseteq> ball S (Suc d)" using at unfolding at_depth_def by blast
  then have "seen \<union> set new \<subseteq> ball S limit"
    using s(2) ball_mono [OF Suc_leI [OF lt], of S] by (meson Un_least order_trans)
  moreover have "S \<subseteq> ?seen" using s(1) by blast
  moreover have "\<forall>p \<in> set ?queue. snd p \<le> snd (hd ?queue) + 1 \<and> snd p \<le> limit
      \<and> fst p \<in> ?seen \<and> at_depth S (snd p) (fst p)"
  proof (intro ballI conjI)
    fix p assume p: "p \<in> set ?queue"
    then have "?queue \<noteq> []" by (metis empty_iff empty_set)
    from hd [OF this] p show "snd p \<le> snd (hd ?queue) + 1" by blast
    show "snd p \<le> limit" "fst p \<in> ?seen" "at_depth S (snd p) (fst p)" using q' p by blast+
  qed
  moreover have "?queue \<noteq> [] \<longrightarrow> ball S (snd (hd ?queue)) \<subseteq> ?seen" using hd by simp
  ultimately show ?thesis using srt cl unfolding search_inv_def by satx
qed

lemma search_at_limit:
  assumes inv: "search_inv S limit seen ((x, limit) # queue)"
  shows "search_inv S limit seen queue" "seen = ball S limit"
proof -
  have q: "\<forall>p \<in> set queue. limit \<le> snd p \<and> snd p \<le> limit" "ball S limit \<subseteq> seen" "at_depth S limit x"
    using inv by (auto simp: search_inv_def)
  show "seen = ball S limit" using inv q(2) by (auto simp: search_inv_def)
  have h: "snd (hd queue) = limit" if "queue \<noteq> []" using q(1) that by (cases queue) auto
  have "\<forall>p \<in> set queue. snd p \<le> snd (hd queue) + 1"
    using q(1) h by (cases "queue = []") auto
  moreover have "S \<subseteq> seen" "seen \<subseteq> ball S limit" "sorted (map snd queue)"
    "\<forall>p \<in> set queue. snd p \<le> limit \<and> fst p \<in> seen \<and> at_depth S (snd p) (fst p)"
    "\<forall>y \<in> seen. y \<in> fst ` set queue \<or> set (succs y) \<subseteq> seen \<or> at_depth S limit y"
    using inv q(3) by (auto simp: search_inv_def)
  ultimately show "search_inv S limit seen queue"
    unfolding search_inv_def using q(2) h by simp
qed

lemma search_end:
  assumes "search_inv S limit seen []"
  shows "seen = ball S limit"
proof
  have "ball S n \<subseteq> seen" if "n \<le> limit" for n
    using that
  proof (induction n)
    case 0
    then show ?case using assms by (simp add: search_inv_def)
  next
    case (Suc n)
    have "set (succs x) \<subseteq> seen" if "x \<in> ball S n" for x
      using assms Suc that at_depth_le [of S limit x n] by (auto simp: search_inv_def)
    with Suc show ?case by auto
  qed
  then show "ball S limit \<subseteq> seen" by simp
qed (use assms in \<open>simp add: search_inv_def\<close>)

text \<open>
  A search that also notes whether the limit cut something off: \<open>trunc\<close> is set when a node at
  the limit has a successor that was not met.
\<close>

definition search_flag :: "'a set \<Rightarrow> nat \<Rightarrow> 'a set \<Rightarrow> ('a \<times> nat) list \<Rightarrow> bool \<Rightarrow> bool" where
  "search_flag S limit seen queue trunc \<longleftrightarrow> search_inv S limit seen queue
     \<and> (if trunc then seen = ball S limit \<and> (\<exists>x \<in> seen. \<not> set (succs x) \<subseteq> seen)
           \<and> (\<forall>p \<in> set queue. snd p = limit)
         else \<forall>x \<in> seen. x \<in> fst ` set queue \<or> set (succs x) \<subseteq> seen)"

lemma flag_start: "set xs = S \<Longrightarrow> search_flag S limit S (map (\<lambda>x. (x, 0)) xs) False"
  using search_start [of xs S limit] by (force simp: search_flag_def image_iff)

lemma flag_inv: "search_flag S limit seen queue trunc \<Longrightarrow> search_inv S limit seen queue"
  by (simp add: search_flag_def)

lemma flag_uncut: "search_flag S limit seen ((x, d) # queue) trunc \<Longrightarrow> d < limit \<Longrightarrow> \<not> trunc"
  by (auto simp: search_flag_def split: if_splits)

lemma flag_expand:
  assumes "search_flag S limit seen ((x, d) # queue) trunc" "d < limit"
    "set new = set (succs x) - seen"
  shows "search_flag S limit (seen \<union> set new) (queue @ map (\<lambda>y. (y, Suc d)) new) trunc"
proof -
  have "\<not> trunc" using flag_uncut assms(1,2) by blast
  then have "\<forall>y \<in> seen. y = x \<or> y \<in> fst ` set queue \<or> set (succs y) \<subseteq> seen"
    using assms(1) by (auto simp: search_flag_def)
  moreover have "fst ` set (queue @ map (\<lambda>y. (y, Suc d)) new) = fst ` set queue \<union> set new"
    by (simp add: image_Un image_image)
  ultimately have "\<forall>y \<in> seen \<union> set new. y \<in> fst ` set (queue @ map (\<lambda>y. (y, Suc d)) new)
      \<or> set (succs y) \<subseteq> seen \<union> set new"
    unfolding assms(3) by auto
  with search_expand [OF flag_inv [OF assms(1)] assms(2,3)] \<open>\<not> trunc\<close> show ?thesis
    unfolding search_flag_def by (simp only: if_False)
qed

lemma flag_limit:
  assumes "search_flag S limit seen ((x, limit) # queue) trunc"
  shows "search_flag S limit seen queue (trunc \<or> \<not> set (succs x) \<subseteq> seen)"
proof -
  note inv = flag_inv [OF assms]
  note l = search_at_limit [OF inv]
  have q: "\<forall>p \<in> set queue. snd p = limit" "x \<in> seen"
    using inv by (fastforce simp: search_inv_def)+
  show ?thesis
  proof (cases "trunc \<or> \<not> set (succs x) \<subseteq> seen")
    case True
    then have "\<exists>x \<in> seen. \<not> set (succs x) \<subseteq> seen"
      using assms q(2) by (auto simp: search_flag_def split: if_splits)
    with True l q(1) show ?thesis unfolding search_flag_def by simp
  next
    case False
    with assms have "\<forall>y \<in> seen. y \<in> fst ` set queue \<or> set (succs y) \<subseteq> seen"
      by (auto simp: search_flag_def)
    with l(1) False show ?thesis unfolding search_flag_def by simp
  qed
qed

lemma flag_end:
  assumes "search_flag S limit seen [] trunc"
  shows "seen = ball S limit" "trunc \<longleftrightarrow> reach S \<noteq> ball S limit"
proof -
  show s: "seen = ball S limit" using search_end [OF flag_inv [OF assms]] .
  show "trunc \<longleftrightarrow> reach S \<noteq> ball S limit"
  proof (cases trunc)
    case True
    then obtain x y where "x \<in> ball S limit" "y \<in> set (succs x)" "y \<notin> ball S limit"
      using assms s by (auto simp: search_flag_def)
    then have "y \<in> reach S" using ball_reach by (blast intro: reach_step)
    with True \<open>y \<notin> ball S limit\<close> show ?thesis by blast
  next
    case False
    with assms s have "ball S (Suc limit) \<subseteq> ball S limit" by (auto simp: search_flag_def)
    with False ball_closed show ?thesis by blast
  qed
qed

text \<open>The search in terms of the successor relation.\<close>

definition succ_rel :: "('a \<times> 'a) set" where
  "succ_rel = {(x, y). y \<in> set (succs x)}"

lemma ball_hops: "ball S n = within_hops succ_rel S n"
  by (induction n) (auto simp: within_hops_Suc succ_rel_def)

lemma reach_rtrancl: "reach S = succ_rel\<^sup>* `` S"
proof -
  have "reach S = (\<Union>n. ball S n)" using reach_iff_ball by blast
  then show ?thesis by (simp add: ball_hops within_hops_rtrancl)
qed

lemma at_depth_hops: "at_depth S n x \<longleftrightarrow> hops succ_rel S n x"
  by (simp add: at_depth_def hops_within ball_hops)

end

end
