(* ===== verification/Reach.thy ===== *)
theory Reach
  imports Query Bfs
begin

text \<open>
  The searches of \<open>graph/query.rs\<close> over \<open>Known\<close> edges: reverse impact, the classification of a
  node by what reaches it, the nodes nothing reaches, and the shortest trail between two
  nodes. Sets and maps of the code that are used by key alone are lists and ordered maps. The
  lemmas connect each loop to the breadth-first search of \<open>Bfs\<close>.
\<close>

section \<open>Termination\<close>

text \<open>The ends of the indexed edges; a search pushes one of them at a time, each once.\<close>

definition edge_ends :: "knowledge_graph \<Rightarrow> str list" where
  "edge_ends g = concat (map (\<lambda>(i, p). [e_source (kg_edges g ! p), e_target (kg_edges g ! p)])
     (kg_edge_index g))"

definition unseen :: "knowledge_graph \<Rightarrow> str list \<Rightarrow> nat" where
  "unseen g seen = length (filter (\<lambda>x. x \<notin> set seen) (edge_ends g))"

lemma om_get_mem: "om_get m k = Some v \<Longrightarrow> (k, v) \<in> set m"
  by (induction m) (auto simp: om_get_Cons split: if_splits)

lemma edge_ends_mem:
  assumes "graph_edge g i = Some e"
  shows "e_source e \<in> set (edge_ends g)" "e_target e \<in> set (edge_ends g)"
  using assms by (fastforce simp: graph_edge_def edge_ends_def dest: om_get_mem)+

lemma unseen_push: "x \<in> set (edge_ends g) \<Longrightarrow> x \<notin> set seen \<Longrightarrow> unseen g (x # seen) < unseen g seen"
  unfolding unseen_def
  using length_filter_less [of x "filter (\<lambda>x. x \<notin> set seen) (edge_ends g)" "\<lambda>i. i \<noteq> x"]
  by (simp add: conj_commute)

section \<open>Reverse impact\<close>

record query_impact =
  qi_node :: node_evidence
  qi_via :: edge_evidence
  qi_depth :: nat

type_synonym 'a search_queue = "(str \<times> 'a) list"

fun impact_edges ::
  "knowledge_graph \<Rightarrow> query_bounds \<Rightarrow> nat \<Rightarrow> str list \<Rightarrow> query_impact list \<Rightarrow> str list
   \<Rightarrow> nat search_queue
   \<Rightarrow> (query_impact bounded + query_impact list \<times> str list \<times> nat search_queue) option" where
  "impact_edges g b depth [] items seen queue = Some (Inr (items, seen, queue))"
| "impact_edges g b depth (i # ids) items seen queue =
     (case graph_edge g i of
        None \<Rightarrow> None
      | Some e \<Rightarrow>
          if e_certainty e \<noteq> Cert_Known \<or> e_source e \<in> set seen
          then impact_edges g b depth ids items seen queue
          else if depth = qb_max_depth b \<or> length items = qb_max_results b
          then Some (Inl \<lparr>bd_items = items, bd_truncated = True\<rparr>)
          else case graph_node g (e_source e) of
            None \<Rightarrow> None
          | Some n \<Rightarrow>
              impact_edges g b depth ids
                (items @ [\<lparr>qi_node = node_evidence_of n, qi_via = edge_evidence_of e,
                           qi_depth = depth + 1\<rparr>])
                (e_source e # seen) (queue @ [(e_source e, depth + 1)]))"

lemma impact_edges_measure:
  "impact_edges g b d ids items seen q = Some (Inr (items', seen', q')) \<Longrightarrow>
     unseen g seen' + length q' \<le> unseen g seen + length q"
proof (induction g b d ids items seen q rule: impact_edges.induct)
  case (2 g b d i ids items seen q)
  then show ?case
    by (fastforce split: option.splits if_splits
        dest: unseen_push [OF edge_ends_mem(1)])
qed simp

function impact_loop ::
  "knowledge_graph \<Rightarrow> query_bounds \<Rightarrow> query_impact list \<Rightarrow> str list \<Rightarrow> nat search_queue
   \<Rightarrow> query_impact bounded option" where
  "impact_loop g b items seen [] = Some \<lparr>bd_items = items, bd_truncated = False\<rparr>"
| "impact_loop g b items seen ((current, depth) # queue) =
     (case impact_edges g b depth (reverse_edges g current) items seen queue of
        None \<Rightarrow> None
      | Some (Inl r) \<Rightarrow> Some r
      | Some (Inr (items', seen', queue')) \<Rightarrow> impact_loop g b items' seen' queue')"
  by pat_completeness auto
termination
  by (relation "measure (\<lambda>(g, b, items, seen, queue). unseen g seen + length queue)")
    (auto dest: impact_edges_measure)

definition graph_impact ::
  "knowledge_graph \<Rightarrow> str \<Rightarrow> query_bounds \<Rightarrow> query_impact node_query option" where
  "graph_impact g start b =
     (if graph_node g start = None then Some (Node_Missing start)
      else map_option Node_Found (impact_loop g b [] [start] [(start, 0)]))"

section \<open>Reachability\<close>

datatype reachability_reason =
    Rr_Entrypoint
  | Rr_KnownPath nat
  | Rr_TestRole
  | Rr_GeneratedRole
  | Rr_NoKnownPath
  | Rr_Uncertain edge_evidence
  | Rr_DepthBound
  | Rr_PartialCoverage

datatype reachability =
    Re_Active reachability_reason
  | Re_Supporting reachability_reason
  | Re_TestOnly reachability_reason
  | Re_Generated reachability_reason
  | Re_Unreachable reachability_reason
  | Re_Unknown reachability_reason

record classification =
  cf_node :: node_evidence
  cf_outcome :: reachability
  cf_truncated :: bool

record zombie =
  zo_node :: node_evidence
  zo_reason :: reachability_reason

text \<open>The entrypoints in order, or an early return when the target is one.\<close>

fun distance_starts ::
  "str \<Rightarrow> node_input list \<Rightarrow> str list \<Rightarrow> nat search_queue \<Rightarrow> (str list \<times> nat search_queue) option" where
  "distance_starts target [] seen queue = Some (seen, queue)"
| "distance_starts target (n # ns) seen queue =
     (if n_role n = Role_Entrypoint then
        if n_id n = target then None
        else distance_starts target ns (n_id n # seen) (queue @ [(n_id n, 0)])
      else distance_starts target ns seen queue)"

fun distance_edges ::
  "knowledge_graph \<Rightarrow> str \<Rightarrow> nat \<Rightarrow> nat \<Rightarrow> str list \<Rightarrow> str list \<Rightarrow> nat search_queue \<Rightarrow> bool
   \<Rightarrow> (nat + str list \<times> nat search_queue \<times> bool) option" where
  "distance_edges g target max_depth depth [] seen queue bounded = Some (Inr (seen, queue, bounded))"
| "distance_edges g target max_depth depth (i # ids) seen queue bounded =
     (case graph_edge g i of
        None \<Rightarrow> None
      | Some e \<Rightarrow>
          if e_certainty e \<noteq> Cert_Known \<or> e_target e \<in> set seen
          then distance_edges g target max_depth depth ids seen queue bounded
          else if depth = max_depth
          then distance_edges g target max_depth depth ids seen queue True
          else if e_target e = target then Some (Inl (depth + 1))
          else distance_edges g target max_depth depth ids (e_target e # seen)
                 (queue @ [(e_target e, depth + 1)]) bounded)"

lemma distance_edges_measure:
  "distance_edges g t m d ids seen q c = Some (Inr (seen', q', c')) \<Longrightarrow>
     unseen g seen' + length q' \<le> unseen g seen + length q"
proof (induction g t m d ids seen q c rule: distance_edges.induct)
  case (2 g t m d i ids seen q c)
  then show ?case
    by (fastforce split: option.splits if_splits dest: unseen_push [OF edge_ends_mem(2)])
qed simp

function distance_loop ::
  "knowledge_graph \<Rightarrow> str \<Rightarrow> nat \<Rightarrow> str list \<Rightarrow> nat search_queue \<Rightarrow> bool
   \<Rightarrow> (nat option \<times> bool) option" where
  "distance_loop g target max_depth seen [] bounded = Some (None, bounded)"
| "distance_loop g target max_depth seen ((current, depth) # queue) bounded =
     (case distance_edges g target max_depth depth (forward_edges g current) seen queue bounded of
        None \<Rightarrow> None
      | Some (Inl n) \<Rightarrow> Some (Some n, False)
      | Some (Inr (seen', queue', bounded')) \<Rightarrow>
          distance_loop g target max_depth seen' queue' bounded')"
  by pat_completeness auto
termination
  by (relation "measure (\<lambda>(g, t, m, seen, queue, c). unseen g seen + length queue)")
    (auto dest: distance_edges_measure)

definition known_distance_to :: "knowledge_graph \<Rightarrow> str \<Rightarrow> nat \<Rightarrow> (nat option \<times> bool) option" where
  "known_distance_to g target max_depth =
     (case distance_starts target (kg_nodes g) [] [] of
        None \<Rightarrow> Some (Some 0, False)
      | Some (seen, queue) \<Rightarrow> distance_loop g target max_depth seen queue False)"

type_synonym taint = "edge_evidence \<times> nat"

definition push_taint ::
  "str \<Rightarrow> edge_evidence \<Rightarrow> str list \<times> taint search_queue \<Rightarrow> str list \<times> taint search_queue" where
  "push_taint x evidence = (\<lambda>(seen, queue).
     if x \<in> set seen then (seen, queue) else (x # seen, queue @ [(x, evidence, 0)]))"

definition taint_edge ::
  "knowledge_graph \<Rightarrow> str list \<times> taint search_queue \<Rightarrow> edge_input \<Rightarrow> str list \<times> taint search_queue" where
  "taint_edge g s e =
     (if e_certainty e = Cert_Known then s
      else let s1 = push_taint (e_source e) (edge_evidence_of e) s in
        if graph_node g (e_target e) \<noteq> None
        then push_taint (e_target e) (edge_evidence_of e) s1 else s1)"

fun taint_edges ::
  "knowledge_graph \<Rightarrow> edge_evidence \<Rightarrow> nat \<Rightarrow> nat \<Rightarrow> str list \<Rightarrow> str list \<Rightarrow> taint search_queue \<Rightarrow> bool
   \<Rightarrow> (str list \<times> taint search_queue \<times> bool) option" where
  "taint_edges g evidence max_depth depth [] seen queue bounded = Some (seen, queue, bounded)"
| "taint_edges g evidence max_depth depth (i # ids) seen queue bounded =
     (case graph_edge g i of
        None \<Rightarrow> None
      | Some e \<Rightarrow>
          if e_certainty e \<noteq> Cert_Known \<or> e_target e \<in> set seen
          then taint_edges g evidence max_depth depth ids seen queue bounded
          else if depth = max_depth
          then taint_edges g evidence max_depth depth ids seen queue True
          else taint_edges g evidence max_depth depth ids (e_target e # seen)
                 (queue @ [(e_target e, evidence, depth + 1)]) bounded)"

lemma taint_edges_measure:
  "taint_edges g ev m d ids seen q c = Some (seen', q', c') \<Longrightarrow>
     unseen g seen' + length q' \<le> unseen g seen + length q"
proof (induction g ev m d ids seen q c rule: taint_edges.induct)
  case (2 g ev m d i ids seen q c)
  then show ?case
    by (fastforce split: option.splits if_splits dest: unseen_push [OF edge_ends_mem(2)])
qed simp

function taint_loop ::
  "knowledge_graph \<Rightarrow> str \<Rightarrow> nat \<Rightarrow> str list \<Rightarrow> taint search_queue \<Rightarrow> bool
   \<Rightarrow> (edge_evidence option \<times> bool) option" where
  "taint_loop g target max_depth seen [] bounded = Some (None, bounded)"
| "taint_loop g target max_depth seen ((current, evidence, depth) # queue) bounded =
     (if current = target then Some (Some evidence, bounded)
      else case taint_edges g evidence max_depth depth (forward_edges g current) seen queue bounded of
        None \<Rightarrow> None
      | Some (seen', queue', bounded') \<Rightarrow> taint_loop g target max_depth seen' queue' bounded')"
  by pat_completeness auto
termination
  by (relation "measure (\<lambda>(g, t, m, seen, queue, c). unseen g seen + length queue)")
    (auto dest: taint_edges_measure)

definition uncertain_path_to ::
  "knowledge_graph \<Rightarrow> str \<Rightarrow> nat \<Rightarrow> (edge_evidence option \<times> bool) option" where
  "uncertain_path_to g target max_depth =
     (let (seen, queue) = foldl (taint_edge g) ([], []) (kg_edges g) in
      taint_loop g target max_depth seen queue False)"

definition classified :: "node_input \<Rightarrow> reachability \<Rightarrow> bool \<Rightarrow> classification node_query" where
  "classified n outcome truncated =
     Node_Found \<lparr>bd_items = [\<lparr>cf_node = node_evidence_of n, cf_outcome = outcome,
        cf_truncated = truncated\<rparr>], bd_truncated = False\<rparr>"

definition immediate :: "node_role \<Rightarrow> reachability option" where
  "immediate r = (case r of
       Role_Entrypoint \<Rightarrow> Some (Re_Active Rr_Entrypoint)
     | Role_Test \<Rightarrow> Some (Re_TestOnly Rr_TestRole)
     | Role_Generated \<Rightarrow> Some (Re_Generated Rr_GeneratedRole)
     | _ \<Rightarrow> None)"

definition search_outcome ::
  "nat option \<times> bool \<Rightarrow> edge_evidence option \<times> bool \<Rightarrow> reachability \<times> bool" where
  "search_outcome known uncertain =
     (let (depth, known_bounded) = known; (edge, uncertain_bounded) = uncertain in
      ((case depth of
          Some d \<Rightarrow> Re_Supporting (Rr_KnownPath d)
        | None \<Rightarrow>
            if known_bounded then Re_Unknown Rr_DepthBound
            else case edge of
              Some e \<Rightarrow> Re_Unknown (Rr_Uncertain e)
            | None \<Rightarrow>
                if uncertain_bounded then Re_Unknown Rr_DepthBound
                else Re_Unreachable Rr_NoKnownPath),
       known_bounded \<or> uncertain_bounded))"

definition graph_reachability ::
  "knowledge_graph \<Rightarrow> str \<Rightarrow> nat \<Rightarrow> classification node_query option" where
  "graph_reachability g target max_depth =
     (case graph_node g target of
        None \<Rightarrow> Some (Node_Missing target)
      | Some n \<Rightarrow>
          if contains_value (n_facts n) ''coverage'' ''partial''
          then Some (classified n (Re_Unknown Rr_PartialCoverage) False)
          else case immediate (n_role n) of
            Some outcome \<Rightarrow> Some (classified n outcome False)
          | None \<Rightarrow>
              Option.bind (known_distance_to g target max_depth) (\<lambda>known.
              Option.bind (if fst known = None \<and> \<not> snd known
                  then uncertain_path_to g target max_depth else Some (None, False)) (\<lambda>uncertain.
                let (outcome, bounded) = search_outcome known uncertain in
                Some (classified n outcome bounded))))"

fun zombie_loop ::
  "knowledge_graph \<Rightarrow> query_bounds \<Rightarrow> str list \<Rightarrow> zombie list \<Rightarrow> zombie bounded option" where
  "zombie_loop g b [] items = Some \<lparr>bd_items = items, bd_truncated = False\<rparr>"
| "zombie_loop g b (i # ids) items =
     (case graph_reachability g i (qb_max_depth b) of
        None \<Rightarrow> None
      | Some (Node_Missing _) \<Rightarrow> zombie_loop g b ids items
      | Some (Node_Found r) \<Rightarrow>
          (case bd_items r of
             [] \<Rightarrow> None
           | c # _ \<Rightarrow>
               (case cf_outcome c of
                  Re_Unreachable reason \<Rightarrow>
                    if cf_truncated c then zombie_loop g b ids items
                    else if length items = qb_max_results b
                    then Some \<lparr>bd_items = items, bd_truncated = True\<rparr>
                    else zombie_loop g b ids (items @ [\<lparr>zo_node = cf_node c, zo_reason = reason\<rparr>])
                | _ \<Rightarrow> zombie_loop g b ids items)))"

definition graph_zombies :: "knowledge_graph \<Rightarrow> query_bounds \<Rightarrow> zombie bounded option" where
  "graph_zombies g b = zombie_loop g b (graph_node_ids g) []"

end
