(* ===== verification/Reach_Exact.thy ===== *)
theory Reach_Exact
  imports Reach
begin

text \<open>
  What the searches of the graph return on a built graph: distances, impact and reachability
  are those of the relation of \<open>Known\<close> edges, and a node is a zombie exactly when every
  search that could reach it is complete and does not.
\<close>

section \<open>Known edges\<close>

definition succ_edges :: "knowledge_graph \<Rightarrow> str list \<Rightarrow> edge_input list" where
  "succ_edges g ids = filter (\<lambda>e. e_certainty e = Cert_Known) (List.map_filter (graph_edge g) ids)"

lemma succ_edges_simps [simp]:
  "succ_edges g [] = []"
  "graph_edge g i = Some e \<Longrightarrow> succ_edges g (i # ids) =
     (if e_certainty e = Cert_Known then e # succ_edges g ids else succ_edges g ids)"
  by (simp_all add: succ_edges_def List.map_filter_simps)

definition known_succs :: "knowledge_graph \<Rightarrow> str \<Rightarrow> str list" where
  "known_succs g x = map e_target (succ_edges g (forward_edges g x))"

definition known_preds :: "knowledge_graph \<Rightarrow> str \<Rightarrow> str list" where
  "known_preds g x = map e_source (succ_edges g (reverse_edges g x))"

interpretation fwd: search "known_succs g" for g .
interpretation rev: search "known_preds g" for g .

definition known_edges :: "graph_input \<Rightarrow> (str \<times> str) set" where
  "known_edges i = {(e_source e, e_target e) | e. e \<in> set (gi_edges i) \<and> e_certainty e = Cert_Known}"

definition node_ids :: "graph_input \<Rightarrow> str set" where
  "node_ids i = n_id ` set (gi_nodes i)"

lemma built_distinct:
  assumes "graph_build i l = Inr g"
  shows "distinct (map n_id (gi_nodes i))" "distinct (map e_id (gi_edges i))"
    "\<forall>e \<in> set (gi_edges i). edge_ok (node_ids i) e"
  using graph_build_ok [of i l] assms by (simp_all add: graph_input_ok_def list_all_iff node_ids_def)

lemma built_edge:
  assumes "graph_build i l = Inr g"
  shows "graph_edge g j = Some e \<longleftrightarrow> e \<in> set (gi_edges i) \<and> e_id e = j"
  by (simp add: graph_built(2) [OF assms] find_distinct [OF built_distinct(2) [OF assms]])

lemma built_node:
  assumes "graph_build i l = Inr g"
  shows "graph_node g j = Some n \<longleftrightarrow> n \<in> set (gi_nodes i) \<and> n_id n = j"
  by (simp add: graph_built(1) [OF assms] find_distinct [OF built_distinct(1) [OF assms]])

lemma built_node_None:
  assumes "graph_build i l = Inr g"
  shows "graph_node g j = None \<longleftrightarrow> j \<notin> node_ids i"
  by (auto simp: graph_built(1) [OF assms] find_None_iff node_ids_def)

lemma built_same_edge:
  assumes "graph_build i l = Inr g" "e \<in> set (gi_edges i)" "f \<in> set (gi_edges i)" "e_id e = e_id f"
  shows "e = f"
  using built_edge [OF assms(1), of "e_id f"] assms(2-4) by (metis option.inject)

lemma built_adjacent:
  assumes "graph_build i l = Inr g"
  shows "j \<in> set (forward_edges g x) \<longleftrightarrow> (\<exists>e \<in> set (gi_edges i). e_id e = j \<and> e_source e = x)"
    and "j \<in> set (reverse_edges g x) \<longleftrightarrow> (\<exists>e \<in> set (gi_edges i). e_id e = j \<and> e_target e = x)"
  by (auto simp: graph_built(3,4) [OF assms])

lemma built_present:
  assumes "graph_build i l = Inr g"
  shows "j \<in> set (forward_edges g x) \<Longrightarrow> graph_edge g j \<noteq> None"
    and "j \<in> set (reverse_edges g x) \<Longrightarrow> graph_edge g j \<noteq> None"
  using built_adjacent [OF assms] built_edge [OF assms] by (metis option.distinct(1))+

lemma set_succ_edges:
  "e \<in> set (succ_edges g ids) \<longleftrightarrow>
     (\<exists>j \<in> set ids. graph_edge g j = Some e) \<and> e_certainty e = Cert_Known"
  by (induction ids) (auto simp: succ_edges_def List.map_filter_simps split: option.splits)

lemma built_out:
  assumes "graph_build i l = Inr g"
  shows "set (succ_edges g (forward_edges g x))
      = {e \<in> set (gi_edges i). e_source e = x \<and> e_certainty e = Cert_Known}"
    and "set (succ_edges g (reverse_edges g x))
      = {e \<in> set (gi_edges i). e_target e = x \<and> e_certainty e = Cert_Known}"
  using built_adjacent [OF assms] built_edge [OF assms] built_same_edge [OF assms]
  by (auto simp: set_succ_edges) blast+

lemma built_succ_rel:
  assumes "graph_build i l = Inr g"
  shows "fwd.succ_rel g = known_edges i" "rev.succ_rel g = (known_edges i)\<inverse>"
  using built_out [OF assms]
  by (auto simp: fwd.succ_rel_def rev.succ_rel_def known_succs_def known_preds_def known_edges_def)

lemma known_ends:
  assumes "graph_build i l = Inr g" "e \<in> set (gi_edges i)"
  shows "graph_node g (e_source e) \<noteq> None"
    and "e_certainty e = Cert_Known \<Longrightarrow> graph_node g (e_target e) \<noteq> None"
  using built_distinct(3) [OF assms(1)] assms(2) built_node_None [OF assms(1)]
  by (auto simp: edge_ok_def)

section \<open>Reverse impact\<close>

definition impact_id :: "query_impact \<Rightarrow> str" where
  "impact_id it = ne_id (qi_node it)"

text \<open>A step of impact: what was reported through an edge, at one more than its target's depth.\<close>

definition impact_of :: "knowledge_graph \<Rightarrow> str \<Rightarrow> nat \<Rightarrow> query_impact \<Rightarrow> bool" where
  "impact_of g start limit it \<longleftrightarrow> 0 < qi_depth it \<and> qi_depth it \<le> limit
     \<and> rev.at_depth g {start} (qi_depth it) (impact_id it)
     \<and> (\<exists>n e. graph_node g (impact_id it) = Some n \<and> qi_node it = node_evidence_of n
          \<and> qi_via it = edge_evidence_of e \<and> e_source e = impact_id it
          \<and> e \<in> set (succ_edges g (reverse_edges g (e_target e)))
          \<and> rev.at_depth g {start} (qi_depth it - 1) (e_target e))"

section \<open>What a walk over the edges of a node meets\<close>

fun fresh :: "('a \<Rightarrow> 'b) \<Rightarrow> 'b set \<Rightarrow> 'a list \<Rightarrow> 'a list" where
  "fresh key seen [] = []"
| "fresh key seen (x # xs) =
     (if key x \<in> seen then fresh key seen xs else x # fresh key (insert (key x) seen) xs)"

lemma fresh_spec:
  "set (fresh key seen xs) \<subseteq> set xs" "key ` set (fresh key seen xs) = key ` set xs - seen"
  "distinct (map key (fresh key seen xs))"
proof -
  show s: "set (fresh key seen xs) \<subseteq> set xs"
    by (induction key seen xs rule: fresh.induct) auto
  show k: "key ` set (fresh key seen xs) = key ` set xs - seen" for seen
    by (induction key seen xs rule: fresh.induct) auto
  show "distinct (map key (fresh key seen xs))"
  proof (induction key seen xs rule: fresh.induct)
    case (2 key seen x xs)
    have "key ` set (fresh key S xs) \<inter> S = {}" for S
      by (induction key S xs rule: fresh.induct) auto
    then have "key x \<notin> key ` set (fresh key (insert (key x) seen) xs)" by blast
    with 2 show ?case by simp
  qed simp
qed

definition impact_item :: "knowledge_graph \<Rightarrow> nat \<Rightarrow> edge_input \<Rightarrow> query_impact" where
  "impact_item g depth e =
     \<lparr>qi_node = node_evidence_of (the (graph_node g (e_source e))), qi_via = edge_evidence_of e,
      qi_depth = depth + 1\<rparr>"

text \<open>The edges of a list that the graph holds, each from a node.\<close>

definition edges_present :: "knowledge_graph \<Rightarrow> str list \<Rightarrow> bool" where
  "edges_present g ids \<longleftrightarrow>
     (\<forall>j \<in> set ids. \<exists>e. graph_edge g j = Some e \<and> graph_node g (e_source e) \<noteq> None)"

lemma edges_present_Cons:
  "edges_present g (j # ids) \<Longrightarrow>
     \<exists>e n. graph_edge g j = Some e \<and> graph_node g (e_source e) = Some n \<and> edges_present g ids"
  by (auto simp: edges_present_def)

lemma impact_edges_eq:
  assumes "edges_present g ids" "length items \<le> qb_max_results b"
  shows "impact_edges g b d ids items seen q = Some
    (let ps = fresh e_source (set seen) (succ_edges g ids) in
     if ps = [] then Inr (items, seen, q)
     else if d = qb_max_depth b then Inl \<lparr>bd_items = items, bd_truncated = True\<rparr>
     else if length items + length ps > qb_max_results b
     then Inl \<lparr>bd_items = items
       @ map (impact_item g d) (take (qb_max_results b - length items) ps), bd_truncated = True\<rparr>
     else Inr (items @ map (impact_item g d) ps, rev (map e_source ps) @ seen,
               q @ map (\<lambda>e. (e_source e, d + 1)) ps))"
  using assms
proof (induction g b d ids items seen q rule: impact_edges.induct)
  case (1 g b d items seen q)
  then show ?case by simp
next
  case (2 g b d i ids items seen q)
  obtain e n where e: "graph_edge g i = Some e" and n: "graph_node g (e_source e) = Some n"
    and ids: "edges_present g ids" using edges_present_Cons [OF "2.prems"(1)] by blast
  let ?skip = "e_certainty e \<noteq> Cert_Known \<or> e_source e \<in> set seen"
  let ?full = "d = qb_max_depth b \<or> length items = qb_max_results b"
  consider (skip) ?skip | (full) "\<not> ?skip" ?full | (push) "\<not> ?skip" "\<not> ?full" by blast
  then show ?case
  proof cases
    case skip
    then have f: "fresh e_source (set seen) (succ_edges g (i # ids))
        = fresh e_source (set seen) (succ_edges g ids)" using e by auto
    show ?thesis using "2.IH"(1) [OF e skip ids "2.prems"(2)] e skip unfolding f by simp
  next
    case full
    then show ?thesis using e n by (auto simp: Let_def)
  next
    case push
    let ?it = "\<lparr>qi_node = node_evidence_of n, qi_via = edge_evidence_of e, qi_depth = d + 1\<rparr>"
    have it: "?it = impact_item g d e" by (simp add: impact_item_def n)
    have len: "length (items @ [?it]) \<le> qb_max_results b" using push "2.prems"(2) by simp
    have f: "fresh e_source (set seen) (succ_edges g (i # ids))
        = e # fresh e_source (set (e_source e # seen)) (succ_edges g ids)" using e push(1) by auto
    have "qb_max_results b - length items = Suc (qb_max_results b - length (items @ [?it]))"
      using len by simp
    then have t: "take (qb_max_results b - length items) (e # xs)
        = e # take (qb_max_results b - length (items @ [?it])) xs" for xs by simp
    have "impact_edges g b d (i # ids) items seen q
        = impact_edges g b d ids (items @ [?it]) (e_source e # seen) (q @ [(e_source e, d + 1)])"
      using e n push by auto
    then show ?thesis
      using "2.IH"(2) [OF e push n ids len] push(2) len unfolding f
      by (auto simp: Let_def t it [symmetric])
  qed
qed

definition impact_inv ::
  "knowledge_graph \<Rightarrow> str \<Rightarrow> query_bounds \<Rightarrow> query_impact list \<Rightarrow> str list \<Rightarrow> nat search_queue \<Rightarrow> bool"
  where
  "impact_inv g start b items seen q \<longleftrightarrow>
     rev.search_flag g {start} (qb_max_depth b) (set seen) q False
     \<and> set seen = insert start (impact_id ` set items)
     \<and> distinct (start # map impact_id items)
     \<and> (\<forall>it \<in> set items. impact_of g start (qb_max_depth b) it)
     \<and> length items \<le> qb_max_results b \<and> sorted (map qi_depth items)
     \<and> (\<forall>it \<in> set items. q \<noteq> [] \<longrightarrow> qi_depth it \<le> snd (hd q) + 1)"

definition impact_result :: "knowledge_graph \<Rightarrow> str \<Rightarrow> query_bounds \<Rightarrow> query_impact bounded \<Rightarrow> bool" where
  "impact_result g start b r \<longleftrightarrow>
     distinct (start # map impact_id (bd_items r))
     \<and> (\<forall>it \<in> set (bd_items r). impact_of g start (qb_max_depth b) it)
     \<and> length (bd_items r) \<le> qb_max_results b \<and> sorted (map qi_depth (bd_items r))
     \<and> (bd_truncated r \<longleftrightarrow> insert start (impact_id ` set (bd_items r)) \<noteq> rev.reach g {start})
     \<and> (length (bd_items r) < qb_max_results b \<longrightarrow>
          insert start (impact_id ` set (bd_items r)) = rev.ball g {start} (qb_max_depth b))"

lemma impact_id_item [simp]: "graph_node g (e_source e) = Some n \<Longrightarrow> impact_id (impact_item g d e) = n_id n"
  by (simp add: impact_id_def impact_item_def node_evidence_of_def)

lemma impact_push:
  assumes inv: "impact_inv g start b items seen ((x, d) # q)" and d: "d < qb_max_depth b"
    and nodes: "\<And>j n. graph_node g j = Some n \<Longrightarrow> n_id n = j"
    and targets: "\<And>e. e \<in> set (succ_edges g (reverse_edges g x)) \<Longrightarrow>
        e_target e = x \<and> graph_node g (e_source e) \<noteq> None"
    and ps: "set ps \<subseteq> set (fresh e_source (set seen) (succ_edges g (reverse_edges g x)))"
      "distinct (map e_source ps)"
    and len: "length items + length ps \<le> qb_max_results b"
  shows "distinct (start # map impact_id (items @ map (impact_item g d) ps))"
    "\<forall>it \<in> set (items @ map (impact_item g d) ps). impact_of g start (qb_max_depth b) it"
    "sorted (map qi_depth (items @ map (impact_item g d) ps))"
    "map impact_id (map (impact_item g d) ps) = map e_source ps"
proof -
  let ?es = "succ_edges g (reverse_edges g x)"
  note fr = fresh_spec [of e_source "set seen" ?es]
  have e: "e \<in> set ?es" "e_source e \<notin> set seen" if "e \<in> set ps" for e
    using that ps fr(1,2) by (blast, auto)
  have id: "impact_id (impact_item g d e) = e_source e" if m: "e \<in> set ps" for e
  proof -
    obtain n where "graph_node g (e_source e) = Some n" using targets [OF e(1) [OF m]] by auto
    with nodes show ?thesis by (metis impact_id_item)
  qed
  then show ids: "map impact_id (map (impact_item g d) ps) = map e_source ps" by simp
  have "start \<in> set seen" "impact_id ` set items \<subseteq> set seen" "distinct (start # map impact_id items)"
    using inv by (auto simp: impact_inv_def)
  then show "distinct (start # map impact_id (items @ map (impact_item g d) ps))"
    unfolding map_append ids using ps(2) e(2) by auto
  have si: "rev.search_inv g {start} (qb_max_depth b) (set seen) ((x, d) # q)"
    using inv by (auto simp: impact_inv_def intro: rev.flag_inv)
  have "impact_of g start (qb_max_depth b) (impact_item g d e)" if "e \<in> set ps" for e
  proof -
    have "e_source e \<in> set (known_preds g x)" using e(1) [OF that] by (simp add: known_preds_def)
    then have a: "rev.at_depth g {start} (Suc d) (e_source e)"
      using rev.search_fresh [OF si] e(2) [OF that] by blast
    have t: "e_target e = x" and "graph_node g (e_source e) \<noteq> None"
      using targets [OF e(1) [OF that]] by simp_all
    then obtain n where n: "graph_node g (e_source e) = Some n" by blast
    have "e \<in> set (succ_edges g (reverse_edges g (e_target e)))" using e(1) [OF that] t by simp
    moreover have "rev.at_depth g {start} d (e_target e)" using rev.search_head(2) [OF si] t by simp
    ultimately show ?thesis
      unfolding impact_of_def id [OF that]
      using d a n by (intro conjI exI [of _ n] exI [of _ e]) (simp_all add: impact_item_def)
  qed
  then show "\<forall>it \<in> set (items @ map (impact_item g d) ps). impact_of g start (qb_max_depth b) it"
    using inv by (auto simp: impact_inv_def)
  have "sorted (map qi_depth (map (impact_item g d) ps))"
    by (induction ps) (auto simp: impact_item_def)
  then show "sorted (map qi_depth (items @ map (impact_item g d) ps))"
    using inv by (auto simp: impact_inv_def sorted_append impact_item_def)
qed

lemma in_reach: "x \<in> rev.ball g S n \<Longrightarrow> x \<in> rev.reach g S" "x \<in> fwd.ball g S n \<Longrightarrow> x \<in> fwd.reach g S"
  using rev.ball_reach fwd.ball_reach by blast+

definition nodes_ok :: "knowledge_graph \<Rightarrow> bool" where
  "nodes_ok g \<longleftrightarrow> (\<forall>j n. graph_node g j = Some n \<longrightarrow> n_id n = j)"

definition reverse_ok :: "knowledge_graph \<Rightarrow> bool" where
  "reverse_ok g \<longleftrightarrow> (\<forall>x. edges_present g (reverse_edges g x)
     \<and> (\<forall>e \<in> set (succ_edges g (reverse_edges g x)). e_target e = x \<and> graph_node g (e_source e) \<noteq> None))"

lemma impact_skip:
  assumes "impact_inv g start b items seen ((x, d) # q)" "set (known_preds g x) \<subseteq> set seen"
  shows "impact_inv g start b items seen q"
proof -
  have flag: "rev.search_flag g {start} (qb_max_depth b) (set seen) ((x, d) # q) False"
    using assms(1) unfolding impact_inv_def by blast
  note si = rev.flag_inv [OF flag]
  have "rev.search_flag g {start} (qb_max_depth b) (set seen) q False"
  proof (cases "d < qb_max_depth b")
    case True
    with rev.flag_expand [OF flag True, of "[]"] assms(2) show ?thesis by auto
  next
    case False
    with rev.search_head(1) [OF si] have "d = qb_max_depth b" by simp
    with rev.flag_limit [of g "{start}" "qb_max_depth b" "set seen" x q False] flag assms(2)
    show ?thesis by simp
  qed
  moreover have "d \<le> snd (hd q)" if "q \<noteq> []"
    using si that by (cases q) (auto simp: rev.search_inv_def)
  ultimately show ?thesis using assms(1) by (fastforce simp: impact_inv_def)
qed

lemma impact_loop_spec:
  assumes "nodes_ok g" "reverse_ok g" "impact_inv g start b items seen q"
  shows "\<exists>r. impact_loop g b items seen q = Some r \<and> impact_result g start b r"
  using assms
proof (induction g b items seen q rule: impact_loop.induct)
  case (1 g b items seen)
  then have f: "rev.search_flag g {start} (qb_max_depth b) (set seen) [] False"
    and s: "set seen = insert start (impact_id ` set items)" unfolding impact_inv_def by blast+
  from rev.flag_end [OF f] 1 s show ?case by (auto simp: impact_result_def impact_inv_def)
next
  case (2 g b items seen x d q)
  let ?S = "{start}" and ?m = "qb_max_depth b"
  let ?es = "succ_edges g (reverse_edges g x)"
  let ?ps = "fresh e_source (set seen) ?es"
  have inv: "impact_inv g start b items seen ((x, d) # q)" by fact
  have len: "length items \<le> qb_max_results b" and seen: "set seen = insert start (impact_id ` set items)"
    and flag: "rev.search_flag g ?S ?m (set seen) ((x, d) # q) False"
    using inv unfolding impact_inv_def by blast+
  note si = rev.flag_inv [OF flag]
  have nodes: "\<And>j n. graph_node g j = Some n \<Longrightarrow> n_id n = j" using "2.prems"(1) by (simp add: nodes_ok_def)
  have targets: "\<And>e. e \<in> set ?es \<Longrightarrow> e_target e = x \<and> graph_node g (e_source e) \<noteq> None"
    and present: "edges_present g (reverse_edges g x)" using "2.prems"(2) by (simp_all add: reverse_ok_def)
  note eq = impact_edges_eq [OF present len, of d seen q]
  note fr = fresh_spec [of e_source "set seen" ?es]
  have src: "e_source ` set ?ps = set (known_preds g x) - set seen"
    using fr(2) by (simp add: known_preds_def)
  have new_reach: "e_source e \<in> rev.reach g ?S" if "e \<in> set ?ps" for e
  proof -
    have "x \<in> rev.reach g ?S" using rev.search_head(3,4) [OF si] rev.ball_reach by blast
    moreover have "e_source e \<in> set (known_preds g x)" using src that by blast
    ultimately show ?thesis by (rule rev.reach_step)
  qed
  have seen_new: "e_source e \<notin> set seen" if "e \<in> set ?ps" for e using src that by blast
  consider (none) "?ps = []" | (deep) "?ps \<noteq> []" "d = ?m"
    | (full) "?ps \<noteq> []" "d \<noteq> ?m" "length items + length ?ps > qb_max_results b"
    | (push) "?ps \<noteq> []" "d \<noteq> ?m" "length items + length ?ps \<le> qb_max_results b" by linarith
  then show ?case
  proof cases
    case none
    then have r: "impact_edges g b d (reverse_edges g x) items seen q = Some (Inr (items, seen, q))"
      using eq by simp
    have "set (known_preds g x) \<subseteq> set seen" using src none by simp
    from "2.IH" [OF r refl refl refl "2.prems"(1,2) impact_skip [OF inv this]] r show ?thesis by simp
  next
    case deep
    then have r: "impact_loop g b items seen ((x, d) # q) = Some \<lparr>bd_items = items, bd_truncated = True\<rparr>"
      using eq by simp
    have s: "set seen = rev.ball g ?S ?m" using rev.search_at_limit(2) si deep(2) by blast
    obtain e where "e \<in> set ?ps" using deep(1) by (cases ?ps) auto
    with new_reach seen_new have "rev.reach g ?S \<noteq> set seen" by blast
    then have "impact_result g start b \<lparr>bd_items = items, bd_truncated = True\<rparr>"
      using inv s seen by (auto simp: impact_result_def impact_inv_def)
    with r show ?thesis by blast
  next
    case full
    let ?k = "qb_max_results b - length items"
    let ?items = "items @ map (impact_item g d) (take ?k ?ps)"
    have r: "impact_loop g b items seen ((x, d) # q) = Some \<lparr>bd_items = ?items, bd_truncated = True\<rparr>"
      using eq full by simp
    have dm: "d < ?m" using full(2) rev.search_head(1) [OF si] by simp
    have sub: "set (take ?k ?ps) \<subseteq> set ?ps" "distinct (map e_source (take ?k ?ps))"
      using fr(3) by (simp_all add: set_take_subset take_map [symmetric])
    have l: "length items + length (take ?k ?ps) = qb_max_results b" using full(3) len by simp
    note p = impact_push [OF inv dm nodes targets sub eq_imp_le [OF l]] l
    define e where "e = ?ps ! ?k"
    have k: "?k < length ?ps" using full(3) len by linarith
    then have "e \<in> set ?ps" by (simp add: e_def)
    moreover have "e_source e \<notin> e_source ` set (take ?k ?ps)"
    proof
      assume "e_source e \<in> e_source ` set (take ?k ?ps)"
      then obtain j where "j < ?k" "e_source (?ps ! j) = e_source (?ps ! ?k)"
        using k by (auto simp: e_def in_set_conv_nth)
      with fr(3) k show False by (auto simp: distinct_conv_nth)
    qed
    moreover have "insert start (impact_id ` set ?items)
        = set seen \<union> e_source ` set (take ?k ?ps)"
      using arg_cong [OF p(4), of set] seen by (auto simp: image_Un image_image)
    ultimately have "e_source e \<in> rev.reach g ?S" "e_source e \<notin> insert start (impact_id ` set ?items)"
      using new_reach seen_new by auto
    then have "impact_result g start b \<lparr>bd_items = ?items, bd_truncated = True\<rparr>"
      using p l unfolding impact_result_def by auto
    with r show ?thesis by blast
  next
    case push
    let ?items = "items @ map (impact_item g d) ?ps"
    let ?seen = "List.rev (map e_source ?ps) @ seen" and ?q = "q @ map (\<lambda>e. (e_source e, d + 1)) ?ps"
    have r: "impact_edges g b d (reverse_edges g x) items seen q = Some (Inr (?items, ?seen, ?q))"
      using eq push by (simp add: Let_def)
    have dm: "d < ?m" using push(2) rev.search_head(1) [OF si] by simp
    note p = impact_push [OF inv dm nodes targets order_refl fr(3) push(3)]
    have "rev.search_flag g ?S ?m (set seen \<union> set (map e_source ?ps))
        (q @ map (\<lambda>y. (y, Suc d)) (map e_source ?ps)) False"
      using rev.flag_expand [OF flag dm, of "map e_source ?ps"] src by simp
    moreover have "set ?seen = insert start (impact_id ` set ?items)"
      using arg_cong [OF p(4), of set] seen by (auto simp: image_Un image_image)
    moreover have "qi_depth it \<le> snd (hd ?q) + 1" if "it \<in> set ?items" "?q \<noteq> []" for it
    proof -
      have "qi_depth it \<le> d + 1" using that(1) inv by (auto simp: impact_inv_def impact_item_def)
      moreover have "\<forall>p \<in> set ?q. d \<le> snd p" using si by (auto simp: rev.search_inv_def)
      ultimately show ?thesis using hd_in_set [OF that(2)] by fastforce
    qed
    ultimately have "impact_inv g start b ?items ?seen ?q"
      using p push(3) unfolding impact_inv_def
      by (simp add: comp_def Un_commute)
    from "2.IH" [OF r refl refl refl "2.prems"(1,2) this] r show ?thesis by simp
  qed
qed

lemma built_ok:
  assumes "graph_build i l = Inr g"
  shows "nodes_ok g" "reverse_ok g"
proof -
  show "nodes_ok g" using built_node [OF assms] by (simp add: nodes_ok_def)
  have "edges_present g (reverse_edges g x)" for x
    using built_adjacent(2) [OF assms] built_edge [OF assms] known_ends(1) [OF assms]
    unfolding edges_present_def by blast
  then show "reverse_ok g"
    using built_out(2) [OF assms] known_ends(1) [OF assms] by (simp add: reverse_ok_def)
qed

lemma impact_start: "impact_inv g start b [] [start] [(start, 0)]"
  using rev.flag_start [of "[start]" "{start}" g "qb_max_depth b"] by (simp add: impact_inv_def)

text \<open>
  C13. Impact over a built graph never panics, and reports a start that is not a node. The
  reported nodes are distinct, nearest first, at most as many as asked, and each with its
  exact distance to the start against the \<open>Known\<close> edges and an edge one step nearer. The
  answer says that it is truncated exactly when some node that reaches the start is left out;
  with results to spare, the reported nodes are exactly those within the depth limit.
\<close>

theorem impact_exact:
  assumes "graph_build i l = Inr g"
  shows "case graph_impact g s b of
      None \<Rightarrow> False
    | Some (Node_Missing x) \<Rightarrow> x = s \<and> s \<notin> node_ids i
    | Some (Node_Found r) \<Rightarrow>
        (let ids = map impact_id (bd_items r); R = (known_edges i)\<inverse> in
         s \<in> node_ids i \<and> distinct ids \<and> s \<notin> set ids \<and> length ids \<le> qb_max_results b
         \<and> sorted (map qi_depth (bd_items r))
         \<and> (\<forall>it \<in> set (bd_items r). qi_depth it \<le> qb_max_depth b
              \<and> hops R {s} (qi_depth it) (impact_id it)
              \<and> (\<exists>n \<in> set (gi_nodes i). qi_node it = node_evidence_of n)
              \<and> (\<exists>e \<in> set (gi_edges i). qi_via it = edge_evidence_of e
                   \<and> e_certainty e = Cert_Known \<and> e_source e = impact_id it
                   \<and> hops R {s} (qi_depth it - 1) (e_target e)))
         \<and> (bd_truncated r \<longleftrightarrow> insert s (set ids) \<noteq> R\<^sup>* `` {s})
         \<and> (length ids < qb_max_results b \<longrightarrow>
              insert s (set ids) = within_hops R {s} (qb_max_depth b)))"
proof (cases "graph_node g s")
  case None
  then show ?thesis by (simp add: graph_impact_def built_node_None [OF assms])
next
  case (Some n)
  from impact_loop_spec [OF built_ok [OF assms] impact_start] obtain r where
    r: "impact_loop g b [] [s] [(s, 0)] = Some r" "impact_result g s b r" by blast
  have "s \<in> node_ids i" using Some built_node_None [OF assms, of s] by auto
  have it: "qi_depth it \<le> qb_max_depth b
      \<and> hops ((known_edges i)\<inverse>) {s} (qi_depth it) (impact_id it)
      \<and> (\<exists>n \<in> set (gi_nodes i). qi_node it = node_evidence_of n)
      \<and> (\<exists>e \<in> set (gi_edges i). qi_via it = edge_evidence_of e
           \<and> e_certainty e = Cert_Known \<and> e_source e = impact_id it
           \<and> hops ((known_edges i)\<inverse>) {s} (qi_depth it - 1) (e_target e))"
    if "it \<in> set (bd_items r)" for it
  proof -
    from r(2) that have "impact_of g s (qb_max_depth b) it" by (simp add: impact_result_def)
    then show ?thesis
      unfolding impact_of_def rev.at_depth_hops built_succ_rel [OF assms] built_out(2) [OF assms]
        built_node [OF assms] by blast
  qed
  from r(2) have "distinct (map impact_id (bd_items r))" "s \<notin> set (map impact_id (bd_items r))"
    "length (bd_items r) \<le> qb_max_results b" "sorted (map qi_depth (bd_items r))"
    and t: "bd_truncated r \<longleftrightarrow> insert s (set (map impact_id (bd_items r))) \<noteq> ((known_edges i)\<inverse>)\<^sup>* `` {s}"
      "length (bd_items r) < qb_max_results b \<longrightarrow>
         insert s (set (map impact_id (bd_items r))) = within_hops ((known_edges i)\<inverse>) {s} (qb_max_depth b)"
    unfolding impact_result_def rev.reach_rtrancl rev.ball_hops built_succ_rel [OF assms]
    by simp_all
  with r(1) Some it \<open>s \<in> node_ids i\<close> show ?thesis
    by (simp add: graph_impact_def Let_def)
qed

section \<open>Distance from the entrypoints\<close>

definition forward_ok :: "knowledge_graph \<Rightarrow> bool" where
  "forward_ok g \<longleftrightarrow> (\<forall>x. \<forall>j \<in> set (forward_edges g x). graph_edge g j \<noteq> None)"

definition entry_ids :: "node_input list \<Rightarrow> str list" where
  "entry_ids ns = map n_id (filter (\<lambda>n. n_role n = Role_Entrypoint) ns)"

lemma distance_starts_eq:
  "distance_starts t ns seen q =
     (if t \<in> set (entry_ids ns) then None
      else Some (List.rev (entry_ids ns) @ seen, q @ map (\<lambda>x. (x, 0)) (entry_ids ns)))"
  by (induction t ns seen q rule: distance_starts.induct) (auto simp: entry_ids_def)

lemma distance_edges_eq:
  assumes "\<forall>j \<in> set ids. graph_edge g j \<noteq> None"
  shows "distance_edges g t m d ids seen q c = Some
    (let ps = fresh e_target (set seen) (succ_edges g ids) in
     if d = m then Inr (seen, q, c \<or> ps \<noteq> [])
     else if t \<in> e_target ` set ps then Inl (d + 1)
     else Inr (List.rev (map e_target ps) @ seen, q @ map (\<lambda>e. (e_target e, d + 1)) ps, c))"
  using assms
proof (induction g t m d ids seen q c rule: distance_edges.induct)
  case (2 g t m d i ids seen q c)
  then obtain e where e: "graph_edge g i = Some e" and ids: "\<forall>j \<in> set ids. graph_edge g j \<noteq> None"
    by auto
  let ?skip = "e_certainty e \<noteq> Cert_Known \<or> e_target e \<in> set seen"
  consider (skip) ?skip | (deep) "\<not> ?skip" "d = m" | (hit) "\<not> ?skip" "d \<noteq> m" "e_target e = t"
    | (push) "\<not> ?skip" "d \<noteq> m" "e_target e \<noteq> t" by blast
  then show ?case
  proof cases
    case skip
    then have f: "fresh e_target (set seen) (succ_edges g (i # ids))
        = fresh e_target (set seen) (succ_edges g ids)" using e by auto
    show ?thesis using "2.IH"(1) [OF e skip ids] e skip unfolding f by simp
  next
    case deep
    then show ?thesis using "2.IH"(2) [OF e deep ids] e by (simp add: Let_def)
  next
    case hit
    then show ?thesis using e by (simp add: Let_def)
  next
    case push
    have f: "fresh e_target (set seen) (succ_edges g (i # ids))
        = e # fresh e_target (set (e_target e # seen)) (succ_edges g ids)" using e push(1) by auto
    show ?thesis using "2.IH"(3) [OF e push ids] e push unfolding f by (simp add: Let_def)
  qed
qed simp

definition distance_result ::
  "knowledge_graph \<Rightarrow> str set \<Rightarrow> str \<Rightarrow> nat \<Rightarrow> nat option \<times> bool \<Rightarrow> bool" where
  "distance_result g S t m r \<longleftrightarrow>
     (case fst r of
        Some n \<Rightarrow> \<not> snd r \<and> fwd.at_depth g S n t \<and> n \<le> m
      | None \<Rightarrow> t \<notin> fwd.ball g S m \<and> (snd r \<longleftrightarrow> fwd.reach g S \<noteq> fwd.ball g S m))"

lemma distance_loop_spec:
  assumes "forward_ok g" "fwd.search_flag g S m (set seen) q c" "t \<notin> set seen"
  shows "\<exists>r. distance_loop g t m seen q c = Some r \<and> distance_result g S t m r"
  using assms
proof (induction g t m seen q c rule: distance_loop.induct)
  case (1 g t m seen c)
  with fwd.flag_end [OF 1(2)] show ?case by (simp add: distance_result_def)
next
  case (2 g t m seen x d q c)
  let ?ps = "fresh e_target (set seen) (succ_edges g (forward_edges g x))"
  note flag = "2.prems"(2)
  note si = fwd.flag_inv [OF flag]
  have "\<forall>j \<in> set (forward_edges g x). graph_edge g j \<noteq> None"
    using "2.prems"(1) unfolding forward_ok_def by blast
  note eq = distance_edges_eq [OF this, of t m d seen q c]
  have new: "e_target ` set ?ps = set (known_succs g x) - set seen"
    using fresh_spec(2) [of e_target "set seen"] by (simp add: known_succs_def)
  consider (deep) "d = m" | (hit) "d \<noteq> m" "t \<in> e_target ` set ?ps" | (push) "d \<noteq> m" "t \<notin> e_target ` set ?ps"
    by blast
  then show ?case
  proof cases
    case deep
    then have r: "distance_edges g t m d (forward_edges g x) seen q c
        = Some (Inr (seen, q, c \<or> ?ps \<noteq> []))" using eq by simp
    have "?ps \<noteq> [] \<longleftrightarrow> \<not> set (known_succs g x) \<subseteq> set seen"
      using new by (metis Diff_eq_empty_iff image_is_empty set_empty)
    moreover have "fwd.search_flag g S m (set seen) q (c \<or> \<not> set (known_succs g x) \<subseteq> set seen)"
      using fwd.flag_limit flag deep by blast
    ultimately have "fwd.search_flag g S m (set seen) q (c \<or> ?ps \<noteq> [])" by simp
    from "2.IH" [OF r refl refl refl "2.prems"(1) this "2.prems"(3)] r show ?thesis by simp
  next
    case hit
    then have r: "distance_loop g t m seen ((x, d) # q) c = Some (Some (Suc d), False)"
      using eq by simp
    have "fwd.at_depth g S (Suc d) t" "t \<notin> set seen" "d < m"
      using fwd.search_fresh [OF si] fwd.search_head(1) [OF si] hit new by auto
    then have "distance_result g S t m (Some (Suc d), False)" by (simp add: distance_result_def)
    with r show ?thesis by blast
  next
    case push
    let ?seen = "List.rev (map e_target ?ps) @ seen" and ?q = "q @ map (\<lambda>e. (e_target e, d + 1)) ?ps"
    have r: "distance_edges g t m d (forward_edges g x) seen q c = Some (Inr (?seen, ?q, c))"
      using eq push by (simp add: Let_def)
    have "d < m" using push(1) fwd.search_head(1) [OF si] by simp
    from fwd.flag_expand [OF flag this, of "map e_target ?ps"] new
    have f: "fwd.search_flag g S m (set ?seen) ?q c" by (simp add: comp_def Un_commute)
    have "t \<notin> set ?seen" using "2.prems"(3) push(2) by auto
    from "2.IH" [OF r refl refl refl "2.prems"(1) f this] r show ?thesis by simp
  qed
qed

lemma known_distance_spec:
  assumes "forward_ok g"
  shows "\<exists>r. known_distance_to g t m = Some r
    \<and> distance_result g (set (entry_ids (kg_nodes g))) t m r"
proof (cases "t \<in> set (entry_ids (kg_nodes g))")
  case True
  then have "known_distance_to g t m = Some (Some 0, False)"
    by (simp add: known_distance_to_def distance_starts_eq)
  with True show ?thesis by (simp add: distance_result_def fwd.at_depth_def)
next
  case False
  let ?E = "entry_ids (kg_nodes g)"
  have "fwd.search_flag g (set ?E) m (set (List.rev ?E)) (map (\<lambda>x. (x, 0)) ?E) False"
    using fwd.flag_start [of ?E "set ?E" g m] by simp
  from distance_loop_spec [OF assms this, of t] False show ?thesis
    by (simp add: known_distance_to_def distance_starts_eq)
qed

section \<open>Paths from uncertain edges\<close>

definition taint_ends :: "knowledge_graph \<Rightarrow> edge_input \<Rightarrow> str set" where
  "taint_ends g e = (if e_certainty e = Cert_Known then {}
     else insert (e_source e) (if graph_node g (e_target e) \<noteq> None then {e_target e} else {}))"

definition tainted :: "knowledge_graph \<Rightarrow> str set" where
  "tainted g = (\<Union>e \<in> set (kg_edges g). taint_ends g e)"

definition taint_of :: "knowledge_graph \<Rightarrow> edge_evidence \<Rightarrow> str \<Rightarrow> bool" where
  "taint_of g ev x \<longleftrightarrow> (\<exists>e \<in> set (kg_edges g). ev = edge_evidence_of e \<and> x \<in> fwd.reach g (taint_ends g e))"

abbreviation steps_of :: "taint search_queue \<Rightarrow> nat search_queue" where
  "steps_of q \<equiv> map (\<lambda>(x, ev, d). (x, d)) q"

definition taint_start_ok :: "knowledge_graph \<Rightarrow> str set \<Rightarrow> str list \<times> taint search_queue \<Rightarrow> bool" where
  "taint_start_ok g S s \<longleftrightarrow> set (fst s) = S \<and> set (map fst (snd s)) = S
     \<and> steps_of (snd s) = map (\<lambda>x. (x, 0)) (map fst (snd s))
     \<and> (\<forall>(x, ev, d) \<in> set (snd s). taint_of g ev x)"

lemma push_taint_ok:
  "taint_start_ok g S s \<Longrightarrow> taint_of g ev x \<Longrightarrow> taint_start_ok g (insert x S) (push_taint x ev s)"
  by (cases s) (auto simp: taint_start_ok_def push_taint_def)

lemma taint_edge_ok:
  assumes "taint_start_ok g S s" "e \<in> set (kg_edges g)"
  shows "taint_start_ok g (S \<union> taint_ends g e) (taint_edge g s e)"
proof -
  have t: "taint_of g (edge_evidence_of e) x" if "x \<in> taint_ends g e" for x
    unfolding taint_of_def using assms(2) that fwd.reach_start by blast
  show ?thesis
  proof (cases "e_certainty e = Cert_Known")
    case False
    then have s: "taint_start_ok g (insert (e_source e) S) (push_taint (e_source e) (edge_evidence_of e) s)"
      using push_taint_ok [OF assms(1) t] by (simp add: taint_ends_def)
    show ?thesis
    proof (cases "graph_node g (e_target e) = None")
      case True
      with False s show ?thesis by (simp add: taint_edge_def taint_ends_def Let_def)
    next
      case node: False
      with False have "taint_of g (edge_evidence_of e) (e_target e)" using t by (simp add: taint_ends_def)
      from push_taint_ok [OF s this] False node show ?thesis
        by (simp add: taint_edge_def taint_ends_def Let_def insert_commute)
    qed
  qed (use assms(1) in \<open>simp add: taint_edge_def taint_ends_def\<close>)
qed

lemma taint_starts:
  "taint_start_ok g (tainted g) (foldl (taint_edge g) ([], []) (kg_edges g))"
proof -
  have "set es \<subseteq> set (kg_edges g) \<Longrightarrow> taint_start_ok g S s \<Longrightarrow>
      taint_start_ok g (S \<union> (\<Union>e \<in> set es. taint_ends g e)) (foldl (taint_edge g) s es)" for S s es
  proof (induction es arbitrary: S s)
    case (Cons e es)
    then have "taint_start_ok g (S \<union> taint_ends g e) (taint_edge g s e)" by (simp add: taint_edge_ok)
    from Cons.IH [OF _ this] Cons.prems(1) show ?case by (simp add: Un_assoc)
  qed simp
  from this [of "kg_edges g" "{}" "([], [])"] show ?thesis
    by (simp add: tainted_def taint_start_ok_def)
qed

lemma taint_edges_eq:
  assumes "\<forall>j \<in> set ids. graph_edge g j \<noteq> None"
  shows "taint_edges g ev m d ids seen q c = Some
    (let ps = fresh e_target (set seen) (succ_edges g ids) in
     if d = m then (seen, q, c \<or> ps \<noteq> [])
     else (List.rev (map e_target ps) @ seen, q @ map (\<lambda>e. (e_target e, ev, d + 1)) ps, c))"
  using assms
proof (induction g ev m d ids seen q c rule: taint_edges.induct)
  case (2 g ev m d i ids seen q c)
  then obtain e where e: "graph_edge g i = Some e" and ids: "\<forall>j \<in> set ids. graph_edge g j \<noteq> None"
    by auto
  let ?skip = "e_certainty e \<noteq> Cert_Known \<or> e_target e \<in> set seen"
  consider (skip) ?skip | (deep) "\<not> ?skip" "d = m" | (push) "\<not> ?skip" "d \<noteq> m" by blast
  then show ?case
  proof cases
    case skip
    then have f: "fresh e_target (set seen) (succ_edges g (i # ids))
        = fresh e_target (set seen) (succ_edges g ids)" using e by auto
    show ?thesis using "2.IH"(1) [OF e skip ids] e skip unfolding f by simp
  next
    case deep
    then show ?thesis using "2.IH"(2) [OF e deep ids] e by (simp add: Let_def)
  next
    case push
    have f: "fresh e_target (set seen) (succ_edges g (i # ids))
        = e # fresh e_target (set (e_target e # seen)) (succ_edges g ids)" using e push(1) by auto
    show ?thesis using "2.IH"(3) [OF e push ids] e push unfolding f by (simp add: Let_def)
  qed
qed simp

definition taint_result ::
  "knowledge_graph \<Rightarrow> str set \<Rightarrow> str \<Rightarrow> nat \<Rightarrow> edge_evidence option \<times> bool \<Rightarrow> bool" where
  "taint_result g S t m r \<longleftrightarrow>
     (case fst r of
        Some ev \<Rightarrow> taint_of g ev t \<and> t \<in> fwd.ball g S m
      | None \<Rightarrow> t \<notin> fwd.ball g S m \<and> (snd r \<longleftrightarrow> fwd.reach g S \<noteq> fwd.ball g S m))"

lemma taint_of_step: "taint_of g ev x \<Longrightarrow> y \<in> set (known_succs g x) \<Longrightarrow> taint_of g ev y"
  unfolding taint_of_def using fwd.reach_step by blast

lemma taint_loop_spec:
  assumes "forward_ok g" "fwd.search_flag g S m (set seen) (steps_of q) c"
    "t \<in> set seen \<longrightarrow> t \<in> fst ` set q" "\<forall>(x, ev, d) \<in> set q. taint_of g ev x"
  shows "\<exists>r. taint_loop g t m seen q c = Some r \<and> taint_result g S t m r"
  using assms
proof (induction g t m seen q c rule: taint_loop.induct)
  case (1 g t m seen c)
  from 1(2) have "fwd.search_flag g S m (set seen) [] c" by simp
  from fwd.flag_end [OF this] 1(3) show ?case by (simp add: taint_result_def)
next
  case (2 g t m seen x ev d q c)
  let ?ps = "fresh e_target (set seen) (succ_edges g (forward_edges g x))"
  have flag: "fwd.search_flag g S m (set seen) ((x, d) # steps_of q) c" using "2.prems"(2) by simp
  note si = fwd.flag_inv [OF flag]
  show ?case
  proof (cases "x = t")
    case True
    then have "taint_result g S t m (Some ev, c)"
      using "2.prems"(4) fwd.search_head(3,4) [OF si] by (auto simp: taint_result_def)
    with True show ?thesis by simp
  next
    case x: False
    have "\<forall>j \<in> set (forward_edges g x). graph_edge g j \<noteq> None"
      using "2.prems"(1) unfolding forward_ok_def by blast
    note eq = taint_edges_eq [OF this, of ev m d seen q c]
    have new: "e_target ` set ?ps = set (known_succs g x) - set seen"
      using fresh_spec(2) [of e_target "set seen"] by (simp add: known_succs_def)
    show ?thesis
    proof (cases "d = m")
      case True
      then have r: "taint_edges g ev m d (forward_edges g x) seen q c = Some (seen, q, c \<or> ?ps \<noteq> [])"
        using eq by simp
      have "?ps \<noteq> [] \<longleftrightarrow> \<not> set (known_succs g x) \<subseteq> set seen"
        using new by (metis Diff_eq_empty_iff image_is_empty set_empty)
      moreover have "fwd.search_flag g S m (set seen) (steps_of q) (c \<or> \<not> set (known_succs g x) \<subseteq> set seen)"
        using fwd.flag_limit flag True by blast
      ultimately have f: "fwd.search_flag g S m (set seen) (steps_of q) (c \<or> ?ps \<noteq> [])" by simp
      have t: "t \<in> set seen \<longrightarrow> t \<in> fst ` set q" "\<forall>(x, ev, d) \<in> set q. taint_of g ev x"
        using "2.prems"(3,4) x by auto
      from "2.IH" [OF x r refl refl "2.prems"(1) f t] r x show ?thesis by simp
    next
      case False
      let ?seen = "List.rev (map e_target ?ps) @ seen" and ?q = "q @ map (\<lambda>e. (e_target e, ev, d + 1)) ?ps"
      have r: "taint_edges g ev m d (forward_edges g x) seen q c = Some (?seen, ?q, c)"
        using eq False by (simp add: Let_def)
      have "d < m" using False fwd.search_head(1) [OF si] by simp
      from fwd.flag_expand [OF flag this, of "map e_target ?ps"] new
      have f: "fwd.search_flag g S m (set ?seen) (steps_of ?q) c" by (simp add: comp_def Un_commute)
      have t: "t \<in> set ?seen \<longrightarrow> t \<in> fst ` set ?q"
        using "2.prems"(3) x by (auto simp: image_Un image_image)
      have "taint_of g ev x" using "2.prems"(4) by simp
      then have "taint_of g ev (e_target e)" if "e \<in> set ?ps" for e
        using taint_of_step new that by blast
      then have "\<forall>(x, ev, d) \<in> set ?q. taint_of g ev x" using "2.prems"(4) by auto
      from "2.IH" [OF x r refl refl "2.prems"(1) f t this] r x show ?thesis by simp
    qed
  qed
qed

lemma uncertain_path_spec:
  assumes "forward_ok g"
  shows "\<exists>r. uncertain_path_to g t m = Some r \<and> taint_result g (tainted g) t m r"
proof -
  obtain seen q where s: "foldl (taint_edge g) ([], []) (kg_edges g) = (seen, q)" by fastforce
  with taint_starts [of g] have ok: "set seen = tainted g" "set (map fst q) = tainted g"
    "steps_of q = map (\<lambda>x. (x, 0)) (map fst q)" "\<forall>(x, ev, d) \<in> set q. taint_of g ev x"
    by (simp_all add: taint_start_ok_def)
  have "fwd.search_flag g (tainted g) m (set seen) (steps_of q) False"
    unfolding ok(1,3) by (rule fwd.flag_start) (rule ok(2))
  from taint_loop_spec [OF assms this, of t] ok s show ?thesis
    by (simp add: uncertain_path_to_def)
qed

section \<open>Reachability and zombies\<close>

definition entries :: "graph_input \<Rightarrow> str set" where
  "entries i = n_id ` {n \<in> set (gi_nodes i). n_role n = Role_Entrypoint}"

definition uncertain_ends :: "graph_input \<Rightarrow> edge_input \<Rightarrow> str set" where
  "uncertain_ends i e = (if e_certainty e = Cert_Known then {}
     else insert (e_source e) ({e_target e} \<inter> node_ids i))"

definition uncertain :: "graph_input \<Rightarrow> str set" where
  "uncertain i = (\<Union>e \<in> set (gi_edges i). uncertain_ends i e)"

definition partial_coverage :: "node_input \<Rightarrow> bool" where
  "partial_coverage n \<longleftrightarrow> contains_value (n_facts n) ''coverage'' ''partial''"

text \<open>Nothing reaches the node, and both searches that say so were complete.\<close>

definition dead :: "graph_input \<Rightarrow> nat \<Rightarrow> node_input \<Rightarrow> bool" where
  "dead i m n \<longleftrightarrow> \<not> partial_coverage n \<and> immediate (n_role n) = None
     \<and> (\<forall>S \<in> {entries i, uncertain i}. n_id n \<notin> (known_edges i)\<^sup>* `` S
          \<and> (known_edges i)\<^sup>* `` S = within_hops (known_edges i) S m)"

definition verdict_ok :: "graph_input \<Rightarrow> nat \<Rightarrow> node_input \<Rightarrow> reachability \<Rightarrow> bool \<Rightarrow> bool" where
  "verdict_ok i m n v truncated \<longleftrightarrow>
     (let R = known_edges i; x = n_id n in
      (v = Re_Unreachable Rr_NoKnownPath \<longleftrightarrow> dead i m n)
      \<and> (case v of
          Re_Unknown Rr_PartialCoverage \<Rightarrow> partial_coverage n
        | Re_Unknown Rr_DepthBound \<Rightarrow> truncated \<and> x \<notin> within_hops R (entries i) m
            \<and> (\<exists>S \<in> {entries i, uncertain i}. R\<^sup>* `` S \<noteq> within_hops R S m)
        | Re_Unknown (Rr_Uncertain ev) \<Rightarrow> x \<notin> R\<^sup>* `` entries i
            \<and> (\<exists>e \<in> set (gi_edges i). ev = edge_evidence_of e \<and> x \<in> R\<^sup>* `` uncertain_ends i e)
        | Re_Supporting (Rr_KnownPath d) \<Rightarrow> \<not> truncated \<and> d \<le> m \<and> hops R (entries i) d x
        | Re_Unreachable Rr_NoKnownPath \<Rightarrow> \<not> truncated
        | w \<Rightarrow> \<not> truncated \<and> immediate (n_role n) = Some w))"

lemma built_nodes: "graph_build i l = Inr g \<Longrightarrow> kg_nodes g = sort_key n_id (gi_nodes i)"
  by (erule graph_build_Inr) simp

lemma built_edges: "graph_build i l = Inr g \<Longrightarrow> kg_edges g = sort_key e_id (gi_edges i)"
  by (erule graph_build_Inr) simp

lemma built_sources:
  assumes "graph_build i l = Inr g"
  shows "set (entry_ids (kg_nodes g)) = entries i" "tainted g = uncertain i"
    "taint_ends g e = uncertain_ends i e"
proof -
  show "set (entry_ids (kg_nodes g)) = entries i"
    by (auto simp: entry_ids_def entries_def built_nodes [OF assms])
  show t: "taint_ends g e = uncertain_ends i e" for e
    by (auto simp: taint_ends_def uncertain_ends_def built_node_None [OF assms])
  show "tainted g = uncertain i"
    by (simp add: tainted_def uncertain_def t built_edges [OF assms])
qed

lemma built_forward: "graph_build i l = Inr g \<Longrightarrow> forward_ok g"
  using built_present(1) unfolding forward_ok_def by blast

lemma distance_result_built:
  assumes "graph_build i l = Inr g"
  shows "distance_result g (entries i) t m r \<longleftrightarrow>
     (case fst r of
        Some n \<Rightarrow> \<not> snd r \<and> hops (known_edges i) (entries i) n t \<and> n \<le> m
      | None \<Rightarrow> t \<notin> within_hops (known_edges i) (entries i) m
          \<and> (snd r \<longleftrightarrow> (known_edges i)\<^sup>* `` entries i \<noteq> within_hops (known_edges i) (entries i) m))"
  unfolding distance_result_def fwd.at_depth_hops fwd.ball_hops fwd.reach_rtrancl
    built_succ_rel [OF assms] ..

lemma taint_result_built:
  assumes "graph_build i l = Inr g"
  shows "taint_result g (uncertain i) t m r \<longleftrightarrow>
     (case fst r of
        Some ev \<Rightarrow> (\<exists>e \<in> set (gi_edges i). ev = edge_evidence_of e
            \<and> t \<in> (known_edges i)\<^sup>* `` uncertain_ends i e)
          \<and> t \<in> within_hops (known_edges i) (uncertain i) m
      | None \<Rightarrow> t \<notin> within_hops (known_edges i) (uncertain i) m
          \<and> (snd r \<longleftrightarrow> (known_edges i)\<^sup>* `` uncertain i \<noteq> within_hops (known_edges i) (uncertain i) m))"
  unfolding taint_result_def taint_of_def fwd.ball_hops fwd.reach_rtrancl
    built_succ_rel [OF assms] built_edges [OF assms] built_sources(3) [OF assms] set_sort ..

lemma within_reach: "x \<in> within_hops R S m \<Longrightarrow> x \<in> R\<^sup>* `` S"
  unfolding within_hops_rtrancl [symmetric] by blast

lemma hops_reach: "hops R S d x \<Longrightarrow> x \<in> R\<^sup>* `` S"
  by (auto simp: hops_within intro: within_reach)

lemma searched_verdict:
  assumes b: "graph_build i l = Inr g" and n: "\<not> partial_coverage n" "immediate (n_role n) = None"
    and known: "distance_result g (entries i) (n_id n) m known"
    and unc: "if fst known = None \<and> \<not> snd known
        then taint_result g (uncertain i) (n_id n) m unc else unc = (None, False)"
  shows "verdict_ok i m n (fst (search_outcome known unc)) (snd (search_outcome known unc))"
proof -
  let ?R = "known_edges i" and ?x = "n_id n"
  note k = known [unfolded distance_result_built [OF b]]
  consider (path) d where "known = (Some d, False)" | (deep) "known = (None, True)"
    | (whole) "known = (None, False)"
    using k by (cases known) (auto split: option.splits)
  then show ?thesis
  proof cases
    case path
    with k have h: "hops ?R (entries i) d ?x" "d \<le> m" by simp_all
    then have "\<not> dead i m n" using hops_reach [OF h(1)] by (auto simp: dead_def)
    moreover have "unc = (None, False)" using unc path by simp
    ultimately show ?thesis using h path by (simp add: verdict_ok_def search_outcome_def Let_def)
  next
    case deep
    with k have h: "?x \<notin> within_hops ?R (entries i) m" "?R\<^sup>* `` entries i \<noteq> within_hops ?R (entries i) m"
      by simp_all
    moreover have "\<not> dead i m n" using h(2) by (auto simp: dead_def)
    moreover have "unc = (None, False)" using unc deep by simp
    ultimately show ?thesis using deep by (simp add: verdict_ok_def search_outcome_def Let_def)
  next
    case whole
    with k have h: "?x \<notin> within_hops ?R (entries i) m" "?R\<^sup>* `` entries i = within_hops ?R (entries i) m"
      by simp_all
    have t: "taint_result g (uncertain i) ?x m unc" using unc whole by simp
    note u = t [unfolded taint_result_built [OF b]]
    show ?thesis
    proof (cases "fst unc")
      case (Some ev)
      with u have e: "\<exists>e \<in> set (gi_edges i). ev = edge_evidence_of e \<and> ?x \<in> ?R\<^sup>* `` uncertain_ends i e"
        and w: "?x \<in> within_hops ?R (uncertain i) m" by simp_all
      have "\<not> dead i m n" using within_reach [OF w] by (auto simp: dead_def)
      with e h Some whole show ?thesis
        by (cases unc) (simp add: verdict_ok_def search_outcome_def Let_def)
    next
      case None
      with u have w: "?x \<notin> within_hops ?R (uncertain i) m"
        "snd unc \<longleftrightarrow> ?R\<^sup>* `` uncertain i \<noteq> within_hops ?R (uncertain i) m" by simp_all
      have "dead i m n \<longleftrightarrow> \<not> snd unc" using w h n by (auto simp: dead_def)
      with w h None whole show ?thesis
        by (cases unc) (auto simp: verdict_ok_def search_outcome_def Let_def)
    qed
  qed
qed

lemma reachability_found:
  assumes b: "graph_build i l = Inr g" and n: "n \<in> set (gi_nodes i)"
  shows "\<exists>v truncated. graph_reachability g (n_id n) m = Some (classified n v truncated)
    \<and> verdict_ok i m n v truncated"
proof -
  have node: "graph_node g (n_id n) = Some n" using built_node [OF b] n by simp
  have imm: "v \<notin> {Re_Unreachable Rr_NoKnownPath}" "\<And>d. v \<noteq> Re_Supporting (Rr_KnownPath d)"
    "\<And>r. v \<noteq> Re_Unknown r" if "immediate (n_role n) = Some v" for v
    using that by (auto simp: immediate_def split: node_role.splits)
  consider (partial) "partial_coverage n" | (role) v where "\<not> partial_coverage n" "immediate (n_role n) = Some v"
    | (search) "\<not> partial_coverage n" "immediate (n_role n) = None" by blast
  then show ?thesis
  proof cases
    case partial
    then have "graph_reachability g (n_id n) m = Some (classified n (Re_Unknown Rr_PartialCoverage) False)"
      using node by (simp add: graph_reachability_def partial_coverage_def)
    moreover have "verdict_ok i m n (Re_Unknown Rr_PartialCoverage) False"
      using partial by (simp add: verdict_ok_def dead_def)
    ultimately show ?thesis by blast
  next
    case role
    then have "graph_reachability g (n_id n) m = Some (classified n v False)"
      using node by (simp add: graph_reachability_def partial_coverage_def)
    moreover have "verdict_ok i m n v False"
      using role imm [OF role(2)]
      by (cases v) (auto simp: verdict_ok_def dead_def Let_def immediate_def
          split: node_role.splits reachability_reason.splits)
    ultimately show ?thesis by blast
  next
    case search
    obtain known where k: "known_distance_to g (n_id n) m = Some known"
      "distance_result g (entries i) (n_id n) m known"
      using known_distance_spec [OF built_forward [OF b]] built_sources(1) [OF b] by metis
    obtain unc where u: "(if fst known = None \<and> \<not> snd known
        then uncertain_path_to g (n_id n) m else Some (None, False)) = Some unc"
      "if fst known = None \<and> \<not> snd known
        then taint_result g (uncertain i) (n_id n) m unc else unc = (None, False)"
      using uncertain_path_spec [OF built_forward [OF b]] built_sources(2) [OF b]
      by (cases "fst known = None \<and> \<not> snd known") (simp_all, metis)
    obtain v c where vc: "search_outcome known unc = (v, c)" by fastforce
    have "graph_reachability g (n_id n) m = Some (classified n v c)"
      using node search k(1) u(1) vc by (simp add: graph_reachability_def partial_coverage_def)
    moreover have "verdict_ok i m n v c" using searched_verdict [OF b search k(2) u(2)] vc by simp
    ultimately show ?thesis by blast
  qed
qed

text \<open>
  C12. The classification of a node of a built graph never panics. An entrypoint, test or
  generated node is classified by its role, and partial coverage leaves a node unknown.
  Otherwise a supporting node has exactly the reported distance from the entrypoints; an
  unknown one is cut by the depth limit or lies on a path from the reported uncertain edge;
  and a node is called unreachable exactly when neither an entrypoint nor an end of an
  uncertain edge reaches it, at any distance, and the depth limit cut neither search.
\<close>

theorem reachability_exact:
  assumes "graph_build i l = Inr g"
  shows "case graph_reachability g t m of
      None \<Rightarrow> False
    | Some (Node_Missing x) \<Rightarrow> x = t \<and> t \<notin> node_ids i
    | Some (Node_Found r) \<Rightarrow>
        (\<exists>n v truncated. n \<in> set (gi_nodes i) \<and> n_id n = t \<and> verdict_ok i m n v truncated
           \<and> r = \<lparr>bd_items = [\<lparr>cf_node = node_evidence_of n, cf_outcome = v,
                   cf_truncated = truncated\<rparr>], bd_truncated = False\<rparr>)"
proof (cases "graph_node g t")
  case None
  moreover from None have "t \<notin> node_ids i" using built_node_None [OF assms, of t] by simp
  ultimately show ?thesis by (simp add: graph_reachability_def)
next
  case (Some n)
  then have n: "n \<in> set (gi_nodes i)" "n_id n = t" by (simp_all add: built_node [OF assms])
  from reachability_found [OF assms n(1), of m] n show ?thesis by (auto simp: classified_def)
qed

definition zombie_of :: "node_input \<Rightarrow> zombie" where
  "zombie_of n = \<lparr>zo_node = node_evidence_of n, zo_reason = Rr_NoKnownPath\<rparr>"

lemma zombie_loop_eq:
  assumes b: "graph_build i l = Inr g" and "set ns \<subseteq> set (gi_nodes i)"
    "length items \<le> qb_max_results b"
  shows "zombie_loop g b (map n_id ns) items =
    (let zs = filter (dead i (qb_max_depth b)) ns; k = qb_max_results b - length items in
     Some \<lparr>bd_items = items @ map zombie_of (take k zs), bd_truncated = (length zs > k)\<rparr>)"
  using assms(2,3)
proof (induction ns arbitrary: items)
  case (Cons n ns)
  let ?m = "qb_max_depth b"
  obtain v c where r: "graph_reachability g (n_id n) ?m = Some (classified n v c)" "verdict_ok i ?m n v c"
    using reachability_found [OF assms(1), of n ?m] Cons.prems(1) by auto
  have v: "(\<exists>w. v = Re_Unreachable w) \<longleftrightarrow> dead i ?m n" "dead i ?m n \<Longrightarrow> v = Re_Unreachable Rr_NoKnownPath \<and> \<not> c"
    using r(2) by (auto simp: verdict_ok_def Let_def immediate_def
        split: reachability.splits reachability_reason.splits node_role.splits)
  show ?case
  proof (cases "dead i ?m n")
    case True
    with v have "v = Re_Unreachable Rr_NoKnownPath" "\<not> c" by auto
    then have step: "zombie_loop g b (map n_id (n # ns)) items =
        (if length items = qb_max_results b then Some \<lparr>bd_items = items, bd_truncated = True\<rparr>
         else zombie_loop g b (map n_id ns) (items @ [zombie_of n]))"
      using r(1) by (simp add: classified_def zombie_of_def)
    show ?thesis
    proof (cases "length items = qb_max_results b")
      case False
      then have l: "length (items @ [zombie_of n]) \<le> qb_max_results b"
        "qb_max_results b - length items = Suc (qb_max_results b - length (items @ [zombie_of n]))"
        using Cons.prems(2) by auto
      show ?thesis
        using step False Cons.IH [OF _ l(1)] Cons.prems(1) True unfolding l(2) by (simp add: Let_def)
    qed (use step True in simp)
  next
    case False
    then have "\<forall>w. v \<noteq> Re_Unreachable w" using v(1) by blast
    then have "zombie_loop g b (map n_id (n # ns)) items = zombie_loop g b (map n_id ns) items"
      using r(1) by (auto simp: classified_def split: reachability.split)
    with Cons False show ?thesis by simp
  qed
qed simp

text \<open>
  C8. The zombies of a built graph are exactly the dead nodes: in identity order, as many as
  asked, and truncated exactly when there are more. So no node that an entrypoint or an end
  of an uncertain edge reaches is ever listed, whatever the depth limit.
\<close>

theorem zombies_exact:
  assumes "graph_build i l = Inr g"
  shows "let zs = filter (dead i (qb_max_depth b)) (sort_key n_id (gi_nodes i)) in
    graph_zombies g b = Some \<lparr>bd_items = map zombie_of (take (qb_max_results b) zs),
      bd_truncated = (length zs > qb_max_results b)\<rparr>
    \<and> (\<forall>n \<in> set zs. n_id n \<notin> (known_edges i)\<^sup>* `` (entries i \<union> uncertain i))"
proof -
  have "n_id n \<notin> (known_edges i)\<^sup>* `` (entries i \<union> uncertain i)" if "dead i m n" for n m
    using that unfolding dead_def Image_Un by blast
  moreover have "graph_zombies g b = (let zs = filter (dead i (qb_max_depth b)) (sort_key n_id (gi_nodes i))
      in Some \<lparr>bd_items = map zombie_of (take (qb_max_results b) zs),
        bd_truncated = (length zs > qb_max_results b)\<rparr>)"
    using zombie_loop_eq [OF assms, of "sort_key n_id (gi_nodes i)" "[]" b]
    by (simp add: graph_zombies_def graph_node_ids_def built_nodes [OF assms] Let_def)
  ultimately show ?thesis unfolding Let_def set_filter by blast
qed


section \<open>A concrete graph\<close>

text \<open>An entrypoint that needs a library, and a node nothing needs.\<close>

definition demo_limits :: graph_limits where
  "demo_limits = \<lparr>gl_max_nodes = 3, gl_max_edges = 2\<rparr>"

definition demo_live :: graph_input where
  "demo_live = \<lparr>gi_nodes = [demo_node ''old'', demo_node ''lib'',
       node_input_new ''main'' Role_Entrypoint demo_provenance 90],
     gi_edges = [demo_edge ''ml'' ''main'' ''lib'']\<rparr>"

definition demo_live_graph :: knowledge_graph where
  "demo_live_graph = (case graph_build demo_live demo_limits of Inr g \<Rightarrow> g)"

lemma demo_live_built: "graph_build demo_live demo_limits = Inr demo_live_graph"
proof -
  have "is_ok (graph_build demo_live demo_limits)" by code_simp
  then show ?thesis unfolding demo_live_graph_def by (cases "graph_build demo_live demo_limits") auto
qed

abbreviation demo_bounds :: query_bounds where
  "demo_bounds \<equiv> \<lparr>qb_max_results = 5, qb_max_depth = 3\<rparr>"

definition demo_impact :: "query_impact bounded" where
  "demo_impact = \<lparr>bd_items = [\<lparr>qi_node = node_evidence_of (node_input_new ''main'' Role_Entrypoint demo_provenance 90),
     qi_via = edge_evidence_of (demo_edge ''ml'' ''main'' ''lib''), qi_depth = 1\<rparr>],
     bd_truncated = False\<rparr>"

theorem impact_exact_witness:
  "graph_impact demo_live_graph ''lib'' demo_bounds = Some (Node_Found demo_impact)
   \<and> hops ((known_edges demo_live)\<inverse>) {''lib''} 1 ''main''
   \<and> ((known_edges demo_live)\<inverse>)\<^sup>* `` {''lib''} = {''lib'', ''main''}"
proof -
  have r: "graph_impact demo_live_graph ''lib'' demo_bounds = Some (Node_Found demo_impact)"
    by code_simp
  have i: "bd_truncated demo_impact = False" by (simp add: demo_impact_def)
  obtain it where it: "bd_items demo_impact = [it]" "impact_id it = ''main''" "qi_depth it = 1"
    by (simp add: demo_impact_def impact_id_def node_evidence_of_def node_input_new_def)
  let ?R = "(known_edges demo_live)\<inverse>"
  from impact_exact [OF demo_live_built, of "''lib''" demo_bounds]
  have "hops ?R {''lib''} (qi_depth it) (impact_id it)" "insert ''lib'' {impact_id it} = ?R\<^sup>* `` {''lib''}"
    unfolding r Let_def by (simp_all add: it(1) i)
  with r show ?thesis by (simp add: it)
qed

theorem reachability_exact_witness:
  "graph_reachability demo_live_graph ''lib'' 3 = Some (classified (demo_node ''lib'')
       (Re_Supporting (Rr_KnownPath 1)) False)
   \<and> hops (known_edges demo_live) (entries demo_live) 1 ''lib''"
proof -
  have r: "graph_reachability demo_live_graph ''lib'' 3 = Some (classified (demo_node ''lib'')
       (Re_Supporting (Rr_KnownPath 1)) False)" by code_simp
  have n: "n_id n = ''lib'' \<Longrightarrow> n \<in> set (gi_nodes demo_live) \<Longrightarrow> n = demo_node ''lib''" for n
    by (auto simp: demo_live_def node_input_new_def demo_node_def)
  from reachability_exact [OF demo_live_built, of "''lib''" 3]
  show ?thesis unfolding r by (auto simp: classified_def verdict_ok_def Let_def dest: n)
qed

theorem zombies_exact_witness:
  "graph_zombies demo_live_graph demo_bounds
     = Some \<lparr>bd_items = [zombie_of (demo_node ''old'')], bd_truncated = False\<rparr>
   \<and> ''old'' \<notin> (known_edges demo_live)\<^sup>* `` (entries demo_live \<union> uncertain demo_live)"
proof -
  have r: "graph_zombies demo_live_graph demo_bounds
     = Some \<lparr>bd_items = [zombie_of (demo_node ''old'')], bd_truncated = False\<rparr>" by code_simp
  let ?zs = "filter (dead demo_live 3) (sort_key n_id (gi_nodes demo_live))"
  from zombies_exact [OF demo_live_built, of demo_bounds]
  have z: "map zombie_of (take 5 ?zs) = [zombie_of (demo_node ''old'')]"
    "\<forall>n \<in> set ?zs. n_id n \<notin> (known_edges demo_live)\<^sup>* `` (entries demo_live \<union> uncertain demo_live)"
    unfolding r by (simp_all add: Let_def)
  then obtain n where "n \<in> set ?zs" "zombie_of n = zombie_of (demo_node ''old'')"
    by (cases ?zs) auto
  moreover from this have "n_id n = ''old''"
    by (simp add: zombie_of_def node_evidence_of_def demo_node_def node_input_new_def)
  ultimately show ?thesis using r z(2) by metis
qed

end
