(* ===== verification/Trail.thy ===== *)
theory Trail
  imports Reach_Exact
begin

text \<open>
  The guided trail of \<open>graph/query.rs\<close>: a breadth-first search that remembers from where each
  node was reached and walks back from the target. Walking back may fail an \<open>expect\<close> or run
  forever on arbitrary maps (\<open>None\<close>); the lemmas show that it does neither and that the
  trail is a shortest one.
\<close>

section \<open>The search\<close>

record trail =
  tr_nodes :: "node_evidence list"
  tr_edges :: "edge_evidence list"
  tr_truncated :: bool

datatype trail_status =
    Trail_Found trail
  | Trail_MissingStart str
  | Trail_MissingTarget str
  | Trail_Unreachable bool

type_synonym prior_map = "(str, str \<times> str) omap"

fun trail_edges ::
  "str \<Rightarrow> query_bounds \<Rightarrow> str \<Rightarrow> nat \<Rightarrow> edge_input list \<Rightarrow> str list \<Rightarrow> prior_map \<Rightarrow> nat search_queue \<Rightarrow> bool
   \<Rightarrow> (prior_map \<times> bool) + (str list \<times> prior_map \<times> nat search_queue \<times> bool)" where
  "trail_edges target b current depth [] seen prior queue truncated =
     Inr (seen, prior, queue, truncated)"
| "trail_edges target b current depth (e # es) seen prior queue truncated =
     (if e_target e \<in> set seen
      then trail_edges target b current depth es seen prior queue truncated
      else if depth = qb_max_depth b \<or> length prior = qb_max_results b
      then trail_edges target b current depth es seen prior queue True
      else
        let prior' = om_put (e_target e) (current, e_id e) prior in
        if e_target e = target then Inl (prior', truncated)
        else trail_edges target b current depth es (e_target e # seen) prior'
               (queue @ [(e_target e, depth + 1)]) truncated)"

lemma trail_edges_measure:
  "trail_edges t b x d es seen prior q c = Inr (seen', prior', q', c') \<Longrightarrow>
     e_target ` set es \<subseteq> set (edge_ends g) \<Longrightarrow>
     unseen g seen' + length q' \<le> unseen g seen + length q"
proof (induction t b x d es seen prior q c rule: trail_edges.induct)
  case (2 t b x d e es seen prior q c)
  then show ?case
    by (fastforce split: if_splits simp: Let_def dest: unseen_push [of "e_target e"])
qed simp

definition adjacent_edges :: "knowledge_graph \<Rightarrow> str \<Rightarrow> edge_input list" where
  "adjacent_edges g x = sort_key (\<lambda>e. (e_target e, e_id e))
     (filter (\<lambda>e. e_certainty e = Cert_Known) (List.map_filter (graph_edge g) (forward_edges g x)))"

lemma adjacent_ends: "e_target ` set (adjacent_edges g x) \<subseteq> set (edge_ends g)"
  using set_succ_edges [of _ g "forward_edges g x"] edge_ends_mem(2)
  by (fastforce simp: adjacent_edges_def succ_edges_def)

function trail_loop ::
  "knowledge_graph \<Rightarrow> str \<Rightarrow> query_bounds \<Rightarrow> str list \<Rightarrow> prior_map \<Rightarrow> nat search_queue \<Rightarrow> bool
   \<Rightarrow> (prior_map \<times> bool) + bool" where
  "trail_loop g target b seen prior [] truncated = Inr truncated"
| "trail_loop g target b seen prior ((current, depth) # queue) truncated =
     (case trail_edges target b current depth (adjacent_edges g current) seen prior queue truncated of
        Inl r \<Rightarrow> Inl r
      | Inr (seen', prior', queue', truncated') \<Rightarrow>
          trail_loop g target b seen' prior' queue' truncated')"
  by pat_completeness auto
termination
  by (relation "measure (\<lambda>(g, t, b, seen, prior, queue, c). unseen g seen + length queue)")
    (auto dest: trail_edges_measure [OF _ adjacent_ends])

partial_function (option) back_path ::
  "prior_map \<Rightarrow> str \<Rightarrow> str \<Rightarrow> str list \<Rightarrow> str list \<Rightarrow> (str list \<times> str list) option" where
  "back_path prior start current nodes edges =
     (if current = start then Some (nodes, edges)
      else case om_get prior current of
        None \<Rightarrow> None
      | Some (parent, edge) \<Rightarrow> back_path prior start parent (nodes @ [parent]) (edges @ [edge]))"

declare back_path.simps [code]

definition rebuild_trail ::
  "knowledge_graph \<Rightarrow> str \<Rightarrow> str \<Rightarrow> prior_map \<Rightarrow> bool \<Rightarrow> trail option" where
  "rebuild_trail g start target prior truncated =
     Option.bind (back_path prior start target [target] []) (\<lambda>(node_ids, edge_ids).
     Option.bind (collect (\<lambda>i. map_option node_evidence_of (graph_node g i)) (List.rev node_ids)) (\<lambda>nodes.
     Option.bind (collect (\<lambda>i. map_option edge_evidence_of (graph_edge g i)) (List.rev edge_ids)) (\<lambda>edges.
       Some \<lparr>tr_nodes = nodes, tr_edges = edges, tr_truncated = truncated\<rparr>)))"

definition graph_trail ::
  "knowledge_graph \<Rightarrow> str \<Rightarrow> str \<Rightarrow> query_bounds \<Rightarrow> trail_status option" where
  "graph_trail g start target b =
     (case graph_node g start of
        None \<Rightarrow> Some (Trail_MissingStart start)
      | Some n \<Rightarrow>
          if graph_node g target = None then Some (Trail_MissingTarget target)
          else if start = target
          then Some (Trail_Found \<lparr>tr_nodes = [node_evidence_of n], tr_edges = [], tr_truncated = False\<rparr>)
          else case trail_loop g target b [start] [] [(start, 0)] False of
            Inr truncated \<Rightarrow> Some (Trail_Unreachable truncated)
          | Inl (prior, truncated) \<Rightarrow>
              map_option Trail_Found (rebuild_trail g start target prior truncated))"

section \<open>One node's edges\<close>

definition puts :: "str \<Rightarrow> edge_input list \<Rightarrow> prior_map \<Rightarrow> prior_map" where
  "puts x es prior = foldl (\<lambda>m e. om_put (e_target e) (x, e_id e) m) prior es"

fun upto :: "str \<Rightarrow> edge_input list \<Rightarrow> edge_input list" where
  "upto t [] = []"
| "upto t (e # es) = e # (if e_target e = t then [] else upto t es)"

definition admitted :: "query_bounds \<Rightarrow> nat \<Rightarrow> prior_map \<Rightarrow> edge_input list \<Rightarrow> edge_input list" where
  "admitted b d prior ps = (if d = qb_max_depth b then [] else take (qb_max_results b - length prior) ps)"

lemma trail_edges_eq:
  assumes "fst ` set prior \<subseteq> set seen" "length prior \<le> qb_max_results b"
  shows "trail_edges t b x d es seen prior q c =
    (let ps = fresh e_target (set seen) es; qs = admitted b d prior ps in
     if t \<in> e_target ` set qs then Inl (puts x (upto t qs) prior, c)
     else Inr (List.rev (map e_target qs) @ seen, puts x qs prior,
               q @ map (\<lambda>e. (e_target e, d + 1)) qs, c \<or> length qs < length ps))"
  using assms
proof (induction t b x d es seen prior q c rule: trail_edges.induct)
  case (1 t b x d seen prior q c)
  then show ?case by (simp add: admitted_def puts_def)
next
  case (2 t b x d e es seen prior q c)
  let ?full = "d = qb_max_depth b \<or> length prior = qb_max_results b"
  consider (skip) "e_target e \<in> set seen" | (full) "e_target e \<notin> set seen" ?full
    | (push) "e_target e \<notin> set seen" "\<not> ?full" by blast
  then show ?case
  proof cases
    case skip
    with "2.IH"(1) [OF skip "2.prems"] show ?thesis by simp
  next
    case full
    have nil: "admitted b d prior ps = []" for ps using full(2) "2.prems"(2) by (auto simp: admitted_def)
    from "2.IH"(2) [OF full "2.prems"] full show ?thesis by (simp add: nil)
  next
    case push
    let ?prior = "om_put (e_target e) (x, e_id e) prior"
    have "e_target e \<notin> fst ` set prior" using push(1) "2.prems"(1) by blast
    then have len: "length ?prior = Suc (length prior)" by (rule om_put_length_new)
    have keys: "fst ` set ?prior \<subseteq> set (e_target e # seen)"
      using "2.prems"(1) by (auto simp: om_put_keys)
    have room: "qb_max_results b - length prior = Suc (qb_max_results b - length ?prior)"
      "length ?prior \<le> qb_max_results b" using push(2) "2.prems"(2) len by auto
    have ad: "admitted b d prior (e # ps) = e # admitted b d ?prior ps" for ps
      using push(2) room(1) by (simp add: admitted_def)
    show ?thesis
    proof (cases "e_target e = t")
      case True
      with push ad show ?thesis by (simp add: Let_def puts_def)
    next
      case False
      from "2.IH"(3) [OF push refl False keys room(2)] False push ad show ?thesis
        by (simp add: Let_def puts_def)
    qed
  qed
qed

section \<open>Walking back\<close>

fun known_path :: "knowledge_graph \<Rightarrow> str \<Rightarrow> edge_input list \<Rightarrow> str \<Rightarrow> bool" where
  "known_path g a [] b \<longleftrightarrow> a = b"
| "known_path g a (e # es) b \<longleftrightarrow> graph_edge g (e_id e) = Some e \<and> e_certainty e = Cert_Known
     \<and> e_source e = a \<and> known_path g (e_target e) es b"

lemma known_path_append:
  "known_path g a (es @ [e]) b \<longleftrightarrow> known_path g a es (e_source e)
     \<and> graph_edge g (e_id e) = Some e \<and> e_certainty e = Cert_Known \<and> e_target e = b"
  by (induction es arbitrary: a) auto

text \<open>What the map remembers of a node: an edge from a node one step nearer to the start.\<close>

definition prior_entry :: "knowledge_graph \<Rightarrow> str \<Rightarrow> prior_map \<Rightarrow> str \<Rightarrow> str \<times> str \<Rightarrow> bool" where
  "prior_entry g s prior x v \<longleftrightarrow>
     (\<exists>e d. graph_edge g (snd v) = Some e \<and> e_id e = snd v \<and> e_certainty e = Cert_Known
        \<and> e_source e = fst v \<and> e_target e = x \<and> fwd.at_depth g {s} d (fst v)
        \<and> fwd.at_depth g {s} (Suc d) x)
     \<and> (fst v = s \<or> om_get prior (fst v) \<noteq> None)"

definition prior_ok :: "knowledge_graph \<Rightarrow> str \<Rightarrow> prior_map \<Rightarrow> bool" where
  "prior_ok g s prior \<longleftrightarrow> (\<forall>x v. om_get prior x = Some v \<longrightarrow> prior_entry g s prior x v)"

lemma start_depth: "fwd.at_depth g {s} d s \<longleftrightarrow> d = 0"
proof
  assume "fwd.at_depth g {s} d s"
  moreover have "fwd.at_depth g {s} 0 s" by (simp add: fwd.at_depth_def)
  ultimately show "d = 0" by (rule fwd.at_depth_unique)
qed (simp add: fwd.at_depth_def)

lemma back_path_spec:
  assumes "prior_ok g s prior" "fwd.at_depth g {s} d x" "x = s \<or> om_get prior x \<noteq> None"
  shows "\<exists>es. known_path g s es x \<and> length es = d
    \<and> back_path prior s x nodes edges
        = Some (nodes @ List.rev (butlast (s # map e_target es)), edges @ List.rev (map e_id es))"
  using assms(2,3)
proof (induction d arbitrary: x nodes edges)
  case 0
  then have "x = s" by (simp add: fwd.at_depth_def)
  then show ?case by (intro exI [of _ "[]"]) (simp add: back_path.simps)
next
  case (Suc d)
  then have ne: "x \<noteq> s" by (auto simp: start_depth)
  with Suc.prems obtain p j where v: "om_get prior x = Some (p, j)" by auto
  with assms(1) have en: "prior_entry g s prior x (p, j)" by (simp add: prior_ok_def)
  then obtain e d' where e: "graph_edge g j = Some e" "e_id e = j" "e_certainty e = Cert_Known"
    "e_source e = p" "e_target e = x" "fwd.at_depth g {s} d' p" "fwd.at_depth g {s} (Suc d') x"
    by (auto simp: prior_entry_def)
  have "d' = d" using fwd.at_depth_unique [OF e(7) Suc.prems(1)] by simp
  with e(6) en Suc.IH [of p "nodes @ [p]" "edges @ [j]"] obtain es where
    es: "known_path g s es p" "length es = d" "back_path prior s p (nodes @ [p]) (edges @ [j])
        = Some ((nodes @ [p]) @ List.rev (butlast (s # map e_target es)), (edges @ [j]) @ List.rev (map e_id es))"
    by (auto simp: prior_entry_def)
  have last: "butlast (s # map e_target es) @ [p] = s # map e_target es"
  proof -
    have "last (s # map e_target es) = p"
      using es(1) by (induction es arbitrary: s) auto
    then show ?thesis by (metis append_butlast_last_id list.distinct(1))
  qed
  have "back_path prior s x nodes edges = back_path prior s p (nodes @ [p]) (edges @ [j])"
    using ne v by (subst back_path.simps) simp
  also have "\<dots> = Some (nodes @ List.rev (butlast (s # map e_target (es @ [e]))),
      edges @ List.rev (map e_id (es @ [e])))"
    using es(3) e(2) arg_cong [OF last, of List.rev] by (simp add: butlast_append)
  finally show ?case
    using es(1,2) e by (intro exI [of _ "es @ [e]"]) (simp add: known_path_append)
qed

definition trail_of :: "knowledge_graph \<Rightarrow> str \<Rightarrow> edge_input list \<Rightarrow> trail" where
  "trail_of g s es =
     \<lparr>tr_nodes = map (\<lambda>i. node_evidence_of (the (graph_node g i))) (s # map e_target es),
      tr_edges = map edge_evidence_of es, tr_truncated = False\<rparr>"

lemma collect_all: "\<forall>x \<in> set xs. f x = Some (h x) \<Longrightarrow> collect f xs = Some (map h xs)"
  by (induction xs) auto

lemma rebuild_trail_eq:
  assumes b: "graph_build i l = Inr g" and "s \<in> node_ids i"
    and "prior_ok g s prior" "fwd.at_depth g {s} d t" "om_get prior t \<noteq> None"
  shows "\<exists>es. known_path g s es t \<and> length es = d
    \<and> rebuild_trail g s t prior c = Some ((trail_of g s es)\<lparr>tr_truncated := c\<rparr>)"
proof -
  from back_path_spec [OF assms(3,4), of "[t]" "[]"] assms(5) obtain es where
    es: "known_path g s es t" "length es = d" "back_path prior s t [t] []
      = Some (t # List.rev (butlast (s # map e_target es)), List.rev (map e_id es))" by auto
  have edges: "graph_edge g (e_id e) = Some e \<and> e_certainty e = Cert_Known" if "e \<in> set es" for e
    using es(1) that by (induction es arbitrary: s) auto
  have nodes: "graph_node g (e_target e) \<noteq> None" if "e \<in> set es" for e
    using known_ends(2) [OF b] edges [OF that] built_edge [OF b] by blast
  have "last (s # map e_target es) = t" using es(1) by (induction es arbitrary: s) auto
  then have "butlast (s # map e_target es) @ [t] = s # map e_target es"
    by (metis append_butlast_last_id list.distinct(1))
  then have r: "List.rev (t # List.rev (butlast (s # map e_target es))) = s # map e_target es" by simp
  have n: "collect (\<lambda>i. map_option node_evidence_of (graph_node g i)) (s # map e_target es)
      = Some (map (\<lambda>i. node_evidence_of (the (graph_node g i))) (s # map e_target es))"
  proof (intro collect_all ballI)
    fix j assume "j \<in> set (s # map e_target es)"
    then have "graph_node g j \<noteq> None" using assms(2) nodes built_node_None [OF b] by auto
    then show "map_option node_evidence_of (graph_node g j)
        = Some (node_evidence_of (the (graph_node g j)))" by auto
  qed
  have "collect (\<lambda>i. map_option edge_evidence_of (graph_edge g i)) (map e_id es)
      = Some (map (\<lambda>i. edge_evidence_of (the (graph_edge g i))) (map e_id es))"
    using edges by (intro collect_all) auto
  moreover have "map (\<lambda>i. edge_evidence_of (the (graph_edge g i))) (map e_id es) = map edge_evidence_of es"
    using edges by simp
  ultimately have "rebuild_trail g s t prior c = Some ((trail_of g s es)\<lparr>tr_truncated := c\<rparr>)"
    by (simp only: rebuild_trail_def es(3) bind.bind_lunit prod.case r n rev_rev_ident
        trail_of_def trail.simps)
  with es(1,2) show ?thesis by blast
qed

lemma prior_put:
  assumes "prior_ok g s prior" "x = s \<or> om_get prior x \<noteq> None"
    "graph_edge g (e_id e) = Some e" "e_certainty e = Cert_Known" "e_source e = x"
    "fwd.at_depth g {s} d x" "fwd.at_depth g {s} (Suc d) (e_target e)"
  shows "prior_ok g s (om_put (e_target e) (x, e_id e) prior)"
proof -
  have "prior_entry g s (om_put (e_target e) (x, e_id e) prior) y v"
    if v: "om_get (om_put (e_target e) (x, e_id e) prior) y = Some v" for y v
  proof (cases "y = e_target e")
    case True
    with v have w: "v = (x, e_id e)" by (simp add: om_get_put)
    have "x = s \<or> om_get (om_put (e_target e) (x, e_id e) prior) x \<noteq> None"
      using assms(2) by (simp add: om_get_put)
    with assms(3-7) show ?thesis
      unfolding prior_entry_def w fst_conv snd_conv True by blast
  next
    case False
    with v have "om_get prior y = Some v" by (simp add: om_get_put)
    with assms(1) have "prior_entry g s prior y v" unfolding prior_ok_def by blast
    then show ?thesis unfolding prior_entry_def by (auto simp: om_get_put)
  qed
  then show ?thesis by (simp add: prior_ok_def)
qed

lemma prior_puts:
  assumes "prior_ok g s prior" "x = s \<or> om_get prior x \<noteq> None"
    "\<forall>e \<in> set es. graph_edge g (e_id e) = Some e \<and> e_certainty e = Cert_Known \<and> e_source e = x
       \<and> fwd.at_depth g {s} (Suc d) (e_target e)" "fwd.at_depth g {s} d x"
  shows "prior_ok g s (puts x es prior)"
    "om_get (puts x es prior) y \<noteq> None \<longleftrightarrow> om_get prior y \<noteq> None \<or> y \<in> e_target ` set es"
  using assms
proof (induction es arbitrary: prior)
  case (Cons e es)
  { case 1
    let ?p = "om_put (e_target e) (x, e_id e) prior"
    have "prior_ok g s ?p" by (rule prior_put [of g s prior x e d]) (use 1 in auto)
    moreover have "x = s \<or> om_get ?p x \<noteq> None" using 1 by (simp add: om_get_put)
    ultimately show ?case using Cons.IH(1) [of ?p] 1 by (simp add: puts_def) }
  { case 2
    let ?p = "om_put (e_target e) (x, e_id e) prior"
    have "prior_ok g s ?p" by (rule prior_put [of g s prior x e d]) (use 2 in auto)
    moreover have "x = s \<or> om_get ?p x \<noteq> None" using 2 by (simp add: om_get_put)
    ultimately show ?case using Cons.IH(2) [of ?p] 2 by (auto simp: puts_def om_get_put) }
qed (simp_all add: puts_def)

section \<open>The trail found\<close>

lemma adjacent_spec:
  assumes "graph_build i l = Inr g" "e \<in> set (adjacent_edges g x)"
  shows "graph_edge g (e_id e) = Some e \<and> e_certainty e = Cert_Known \<and> e_source e = x"
proof -
  have "e \<in> set (succ_edges g (forward_edges g x))"
    using assms(2) by (simp add: adjacent_edges_def succ_edges_def)
  then show ?thesis using built_out(1) [OF assms(1)] built_edge [OF assms(1)] by blast
qed

lemma adjacent_targets: "e_target ` set (adjacent_edges g x) = set (known_succs g x)"
  by (simp add: adjacent_edges_def known_succs_def succ_edges_def)

lemma puts_keys:
  assumes "om_inv prior"
  shows "om_inv (puts x es prior)" "fst ` set (puts x es prior) = fst ` set prior \<union> e_target ` set es"
    "distinct (map e_target es) \<Longrightarrow> e_target ` set es \<inter> fst ` set prior = {}
     \<Longrightarrow> length (puts x es prior) = length prior + length es"
  using assms
proof (induction es arbitrary: prior)
  case (Cons e es)
  { case 1 then show ?case using Cons.IH(1) by (simp add: puts_def om_put_inv) }
  { case 2 then show ?case
      using Cons.IH(2) [of "om_put (e_target e) (x, e_id e) prior"] by (simp add: puts_def om_put_inv om_put_keys) }
  { case 3
    then have "length (om_put (e_target e) (x, e_id e) prior) = Suc (length prior)"
      by (intro om_put_length_new) auto
    with 3 Cons.IH(3) [of "om_put (e_target e) (x, e_id e) prior"]
    show ?case by (auto simp: puts_def om_put_inv om_put_keys) }
qed (simp_all add: puts_def)

lemma key_card: "om_inv prior \<Longrightarrow> card (fst ` set prior) = length prior"
proof -
  assume "om_inv prior"
  then have "distinct (om_keys prior)" using om_keys_sorted strict_sorted_iff by blast
  then show ?thesis unfolding om_keys_def by (metis distinct_card length_map list.set_map)
qed

lemma key_get: "k \<in> fst ` set prior \<longleftrightarrow> om_get prior k \<noteq> None"
  using om_keys_get [of prior] unfolding om_keys_def set_map by blast

definition crowded :: "knowledge_graph \<Rightarrow> str \<Rightarrow> query_bounds \<Rightarrow> bool" where
  "crowded g s b \<longleftrightarrow> qb_max_results b < card (fwd.ball g {s} (qb_max_depth b) - {s})"

definition trail_result ::
  "knowledge_graph \<Rightarrow> str \<Rightarrow> str \<Rightarrow> query_bounds \<Rightarrow> (prior_map \<times> bool) + bool \<Rightarrow> bool" where
  "trail_result g s t b r \<longleftrightarrow> (case r of
       Inl (prior, c) \<Rightarrow> \<not> c \<and> prior_ok g s prior \<and> om_get prior t \<noteq> None
         \<and> (\<exists>d \<le> qb_max_depth b. fwd.at_depth g {s} d t)
     | Inr c \<Rightarrow> (\<not> c \<longrightarrow> t \<notin> fwd.reach g {s})
         \<and> (t \<in> fwd.ball g {s} (qb_max_depth b) \<longrightarrow> crowded g s b))"

lemma trail_full:
  assumes "fst ` set prior \<subseteq> set seen" "length prior = qb_max_results b"
  shows "\<exists>c'. trail_loop g t b seen prior q c = Inr c' \<and> (c \<longrightarrow> c')"
  using assms
proof (induction g t b seen prior q c rule: trail_loop.induct)
  case (2 g t b seen prior x d q c)
  have nil: "admitted b d prior ps = []" for ps using "2.prems"(2) by (simp add: admitted_def)
  let ?c = "c \<or> 0 < length (fresh e_target (set seen) (adjacent_edges g x))"
  have r: "trail_edges t b x d (adjacent_edges g x) seen prior q c = Inr (seen, prior, q, ?c)"
    using trail_edges_eq [OF "2.prems"(1)] "2.prems"(2) by (simp add: nil puts_def)
  obtain c' where "trail_loop g t b seen prior q ?c = Inr c'" "?c \<longrightarrow> c'"
    using "2.IH" [OF r refl refl refl "2.prems"] by blast
  with r show ?case by auto
qed simp

definition trail_state ::
  "knowledge_graph \<Rightarrow> str \<Rightarrow> str \<Rightarrow> query_bounds \<Rightarrow> str list \<Rightarrow> prior_map \<Rightarrow> bool" where
  "trail_state g s t b seen prior \<longleftrightarrow> om_inv prior \<and> prior_ok g s prior
     \<and> set seen = insert s (fst ` set prior) \<and> s \<notin> fst ` set prior
     \<and> t \<notin> set seen \<and> length prior \<le> qb_max_results b"

lemma upto_spec: "set (upto t es) \<subseteq> set es" "t \<in> e_target ` set es \<Longrightarrow> t \<in> e_target ` set (upto t es)"
  by (induction es) auto

lemma trail_step:
  assumes b: "graph_build i l = Inr g" and st: "trail_state g s t b seen prior"
    and flag: "fwd.search_flag g {s} (qb_max_depth b) (set seen) ((x, d) # q) c"
    and qs: "set qs \<subseteq> set (fresh e_target (set seen) (adjacent_edges g x))" "distinct (map e_target qs)"
  shows "prior_ok g s (puts x qs prior)" "t \<notin> e_target ` set qs \<Longrightarrow> length prior + length qs \<le> qb_max_results b
    \<Longrightarrow> trail_state g s t b (List.rev (map e_target qs) @ seen) (puts x qs prior)"
    "om_get (puts x qs prior) y \<noteq> None \<longleftrightarrow> om_get prior y \<noteq> None \<or> y \<in> e_target ` set qs"
    "e \<in> set qs \<Longrightarrow> fwd.at_depth g {s} (Suc d) (e_target e)"
    "length (puts x qs prior) = length prior + length qs"
proof -
  let ?ps = "fresh e_target (set seen) (adjacent_edges g x)"
  note si = fwd.flag_inv [OF flag]
  have new: "e_target ` set ?ps = set (known_succs g x) - set seen"
    using fresh_spec(2) [of e_target "set seen" "adjacent_edges g x"] by (simp add: adjacent_targets)
  show at: "fwd.at_depth g {s} (Suc d) (e_target e)" if "e \<in> set qs" for e
    using fwd.search_fresh [OF si, of "e_target e"] that qs(1) new by blast
  have es: "\<forall>e \<in> set qs. graph_edge g (e_id e) = Some e \<and> e_certainty e = Cert_Known
      \<and> e_source e = x \<and> fwd.at_depth g {s} (Suc d) (e_target e)"
  proof
    fix e assume e: "e \<in> set qs"
    then have "e \<in> set (adjacent_edges g x)" using qs(1) fresh_spec(1) by fast
    with adjacent_spec [OF b] at [OF e] show "graph_edge g (e_id e) = Some e
      \<and> e_certainty e = Cert_Known \<and> e_source e = x \<and> fwd.at_depth g {s} (Suc d) (e_target e)"
      by simp
  qed
  have S: "om_inv prior" "prior_ok g s prior" "set seen = insert s (fst ` set prior)"
    "s \<notin> fst ` set prior" "t \<notin> set seen" using st unfolding trail_state_def by blast+
  have x: "x = s \<or> om_get prior x \<noteq> None"
    using fwd.search_head(3) [OF si] S(3) key_get [of x prior] by blast
  note P = prior_puts [OF S(2) x es fwd.search_head(2) [OF si]]
  show "prior_ok g s (puts x qs prior)" by (rule P(1))
  show "om_get (puts x qs prior) y \<noteq> None \<longleftrightarrow> om_get prior y \<noteq> None \<or> y \<in> e_target ` set qs"
    by (rule P(2))
  have disj: "e_target ` set qs \<inter> set seen = {}" using qs(1) new by blast
  then have d: "e_target ` set qs \<inter> fst ` set prior = {}" "s \<notin> e_target ` set qs" using S(3) by blast+
  show len: "length (puts x qs prior) = length prior + length qs"
    using puts_keys(3) [OF S(1) qs(2) d(1)] .
  show "trail_state g s t b (List.rev (map e_target qs) @ seen) (puts x qs prior)"
    if "t \<notin> e_target ` set qs" "length prior + length qs \<le> qb_max_results b"
    using puts_keys(1,2) [OF S(1), of x qs] P(1) S(3-5) d(2) len that
    by (auto simp: trail_state_def)
qed

lemma trail_loop_spec:
  assumes b: "graph_build i l = Inr g" and "trail_state g s t b seen prior"
    and "fwd.search_flag g {s} (qb_max_depth b) (set seen) q c"
  shows "trail_result g s t b (trail_loop g t b seen prior q c)"
  using assms
proof (induction g t b seen prior q c rule: trail_loop.induct)
  case (1 g t b seen prior c)
  then have "t \<notin> set seen" unfolding trail_state_def by blast
  with fwd.flag_end [OF 1(3)] show ?case by (simp add: trail_result_def)
next
  case (2 g t b seen prior x d q c)
  let ?S = "{s}" and ?m = "qb_max_depth b"
  let ?ps = "fresh e_target (set seen) (adjacent_edges g x)"
  let ?qs = "admitted b d prior ?ps"
  let ?c = "c \<or> length ?qs < length ?ps"
  note st = "2.prems"(2) and flag = "2.prems"(3)
  note si = fwd.flag_inv [OF flag]
  have keys: "fst ` set prior \<subseteq> set seen" "length prior \<le> qb_max_results b"
    using st unfolding trail_state_def by blast+
  note eq = trail_edges_eq [OF keys, of t x d "adjacent_edges g x" q c]
  have new: "e_target ` set ?ps = set (known_succs g x) - set seen"
    using fresh_spec(2) [of e_target "set seen" "adjacent_edges g x"] by (simp add: adjacent_targets)
  have dp: "distinct (map e_target ?ps)" by (rule fresh_spec(3))
  have qs: "set ?qs \<subseteq> set ?ps" "distinct (map e_target ?qs)" "length prior + length ?qs \<le> qb_max_results b"
    using dp keys(2) by (auto simp: admitted_def take_map [symmetric] dest: in_set_takeD)
  have short: "?qs = ?ps \<or> length ?qs < length ?ps" if "d \<noteq> ?m"
    using that by (cases "length ?ps \<le> qb_max_results b - length prior") (simp_all add: admitted_def)
  consider (hit) "t \<in> e_target ` set ?qs" | (deep) "d = ?m" | (all) "d \<noteq> ?m" "t \<notin> e_target ` set ?qs" "?qs = ?ps"
    | (full) "d \<noteq> ?m" "t \<notin> e_target ` set ?qs" "length ?qs < length ?ps"
    using short by satx
  then show ?case
  proof cases
    case hit
    then have r: "trail_loop g t b seen prior ((x, d) # q) c = Inl (puts x (upto t ?qs) prior, c)"
      using eq by simp
    have dm: "d < ?m" using hit fwd.search_head(1) [OF si] by (cases "d = ?m") (auto simp: admitted_def)
    have u: "set (upto t ?qs) \<subseteq> set ?ps" "t \<in> e_target ` set (upto t ?qs)"
      using upto_spec [of t ?qs] qs(1) hit by blast+
    have "distinct (map e_target xs) \<Longrightarrow> distinct (map e_target (upto t xs))" for xs
      using upto_spec(1) by (induction xs) (auto 4 3)
    from trail_step [OF "2.prems"(1) st flag u(1) this [OF qs(2)]] u(2) fwd.flag_uncut [OF flag dm] dm
    have "trail_result g s t b (Inl (puts x (upto t ?qs) prior, c))"
      unfolding trail_result_def by (auto intro: Suc_leI)
    with r show ?thesis by simp
  next
    case deep
    then have nil: "?qs = []" by (simp add: admitted_def)
    with eq have r: "trail_edges t b x d (adjacent_edges g x) seen prior q c
        = Inr (seen, prior, q, c \<or> 0 < length ?ps)" by (simp add: puts_def)
    have "0 < length ?ps \<longleftrightarrow> \<not> set (known_succs g x) \<subseteq> set seen"
      using new by (metis Diff_eq_empty_iff image_is_empty length_greater_0_conv set_empty)
    with fwd.flag_limit flag deep
    have "fwd.search_flag g ?S ?m (set seen) q (c \<or> 0 < length ?ps)" by simp
    from "2.IH" [OF r refl refl refl "2.prems"(1) st this] r show ?thesis by simp
  next
    case all
    have dm: "d < ?m" using all(1) fwd.search_head(1) [OF si] by simp
    let ?seen = "List.rev (map e_target ?ps) @ seen" and ?q = "q @ map (\<lambda>e. (e_target e, d + 1)) ?ps"
    have r: "trail_edges t b x d (adjacent_edges g x) seen prior q c
        = Inr (?seen, puts x ?ps prior, ?q, c)" using eq all by (simp add: Let_def)
    from fwd.flag_expand [OF flag dm, of "map e_target ?ps"] new
    have f: "fwd.search_flag g ?S ?m (set ?seen) ?q c" by (simp add: comp_def Un_commute)
    have "trail_state g s t b ?seen (puts x ?ps prior)"
      using trail_step(2) [OF "2.prems"(1) st flag order_refl dp] all qs(3) by simp
    from "2.IH" [OF r refl refl refl "2.prems"(1) this f] r show ?thesis by simp
  next
    case full
    have dm: "d < ?m" using full(1) fwd.search_head(1) [OF si] by simp
    let ?seen = "List.rev (map e_target ?qs) @ seen" and ?prior = "puts x ?qs prior"
    have r: "trail_edges t b x d (adjacent_edges g x) seen prior q c
        = Inr (?seen, ?prior, q @ map (\<lambda>e. (e_target e, d + 1)) ?qs, True)"
      using eq full by (simp add: Let_def)
    note T = trail_step [OF "2.prems"(1) st flag qs(1,2)]
    have st': "trail_state g s t b ?seen ?prior" using T(2) full(2) qs(3) by simp
    have len: "length ?prior = qb_max_results b"
      using T(5) full(1,3) keys(2) by (auto simp: admitted_def)
    have sub: "fst ` set ?prior \<subseteq> set ?seen" using st' unfolding trail_state_def by blast
    from trail_full [OF sub len, where g = g and t = t and c = True
        and q = "q @ map (\<lambda>e. (e_target e, d + 1)) ?qs"]
    have c': "trail_loop g t b ?seen ?prior (q @ map (\<lambda>e. (e_target e, d + 1)) ?qs) True = Inr True"
      by auto
    have "crowded g s b"
    proof -
      have "card (e_target ` set ?qs) < card (e_target ` set ?ps)"
        using full(3) distinct_card [OF dp] distinct_card [OF qs(2)] by simp
      then have "\<not> e_target ` set ?ps \<subseteq> e_target ` set ?qs"
        using card_mono [of "e_target ` set ?qs" "e_target ` set ?ps"] by auto
      then obtain y where y: "y \<in> e_target ` set ?ps" "y \<notin> e_target ` set ?qs" by blast
      have S: "set ?seen = insert s (fst ` set ?prior)" "s \<notin> fst ` set ?prior" "om_inv ?prior"
        using st' unfolding trail_state_def by blast+
      have "y \<notin> set seen" using y(1) new by blast
      with y(2) have "y \<notin> set ?seen" by simp
      have y_ball: "y \<in> fwd.ball g ?S ?m"
        using fwd.search_fresh [OF si, of y] y(1) new fwd.ball_mono [OF Suc_leI [OF dm], of g ?S]
        by (auto simp: fwd.at_depth_def)
      have "set ?seen \<subseteq> fwd.ball g ?S ?m"
      proof -
        have "e_target e \<in> fwd.ball g ?S ?m" if "e \<in> set ?qs" for e
          using T(4) [OF that] fwd.ball_mono [OF Suc_leI [OF dm], of g ?S] by (auto simp: fwd.at_depth_def)
        then show ?thesis using fwd.search_head(4) [OF si] by auto
      qed
      with y_ball \<open>y \<notin> set ?seen\<close> S(1,2) have "insert y (fst ` set ?prior) \<subseteq> fwd.ball g ?S ?m - {s}"
        "y \<notin> fst ` set ?prior" by auto
      then have "Suc (card (fst ` set ?prior)) \<le> card (fwd.ball g ?S ?m - {s})"
        using card_mono [of "fwd.ball g ?S ?m - {s}" "insert y (fst ` set ?prior)"] fwd.finite_ball [of ?S g ?m]
        by simp
      then show ?thesis using key_card [OF S(3)] len by (simp add: crowded_def)
    qed
    with r c' show ?thesis by (simp add: trail_result_def)
  qed
qed

fun input_path :: "graph_input \<Rightarrow> str \<Rightarrow> edge_input list \<Rightarrow> str \<Rightarrow> bool" where
  "input_path i a [] b \<longleftrightarrow> a = b"
| "input_path i a (e # es) b \<longleftrightarrow> e \<in> set (gi_edges i) \<and> e_certainty e = Cert_Known
     \<and> e_source e = a \<and> input_path i (e_target e) es b"

lemma known_path_input:
  "graph_build i l = Inr g \<Longrightarrow> known_path g a es b \<longleftrightarrow> input_path i a es b"
  by (induction es arbitrary: a) (simp_all add: built_edge)

text \<open>
  C11. A trail over a built graph is always answered. A missing end is reported. A found trail
  follows \<open>Known\<close> edges of the graph from the start to the target, no path is shorter, its
  length is within the depth limit, and it is never marked truncated. When the search gives
  up, either it says so, or the target cannot be reached at all; and it finds every target
  within the depth limit unless more nodes lie within it than results are allowed.
\<close>

theorem trail_exact:
  assumes "graph_build i l = Inr g"
  shows "case graph_trail g s t b of
      None \<Rightarrow> False
    | Some (Trail_MissingStart x) \<Rightarrow> x = s \<and> s \<notin> node_ids i
    | Some (Trail_MissingTarget x) \<Rightarrow> x = t \<and> t \<notin> node_ids i
    | Some (Trail_Found r) \<Rightarrow> (\<exists>es. input_path i s es t \<and> r = trail_of g s es
        \<and> hops (known_edges i) {s} (length es) t \<and> length es \<le> qb_max_depth b)
    | Some (Trail_Unreachable truncated) \<Rightarrow>
        (\<not> truncated \<longrightarrow> t \<notin> (known_edges i)\<^sup>* `` {s})
        \<and> (t \<in> within_hops (known_edges i) {s} (qb_max_depth b) \<longrightarrow>
             qb_max_results b < card (within_hops (known_edges i) {s} (qb_max_depth b) - {s}))"
proof (cases "graph_node g s = None \<or> graph_node g t = None \<or> s = t")
  case True
  have "hops (known_edges i) {s} 0 s" by (simp add: hops_def)
  moreover have "trail_of g s [] = \<lparr>tr_nodes = [node_evidence_of n], tr_edges = [], tr_truncated = False\<rparr>"
    if "graph_node g s = Some n" for n using that by (simp add: trail_of_def)
  ultimately show ?thesis
    using True built_node_None [OF assms, of s] built_node_None [OF assms, of t]
    by (auto simp: graph_trail_def split: option.splits intro!: exI [of _ "[]"])
next
  case False
  then obtain n where n: "graph_node g s = Some n" "graph_node g t \<noteq> None" "s \<noteq> t"
    by (cases "graph_node g s") auto
  have s: "s \<in> node_ids i" using n(1) built_node_None [OF assms, of s] by auto
  have st: "trail_state g s t b [s] []"
    using n(3) by (simp add: trail_state_def prior_ok_def om_get_def)
  have "fwd.search_flag g {s} (qb_max_depth b) (set [s]) [(s, 0)] False"
    using fwd.flag_start [of "[s]" "{s}" g "qb_max_depth b"] by simp
  note r = trail_loop_spec [OF assms st this, unfolded trail_result_def crowded_def
      fwd.reach_rtrancl fwd.ball_hops fwd.at_depth_hops built_succ_rel [OF assms]]
  show ?thesis
  proof (cases "trail_loop g t b [s] [] [(s, 0)] False")
    case (Inr c)
    with n have "graph_trail g s t b = Some (Trail_Unreachable c)"
      by (auto simp: graph_trail_def simp del: trail_loop.simps)
    with r Inr show ?thesis by simp
  next
    case (Inl p)
    obtain prior c where p: "p = (prior, c)" by (cases p)
    with r Inl obtain d where d: "\<not> c" "prior_ok g s prior" "om_get prior t \<noteq> None" "d \<le> qb_max_depth b"
      "hops (known_edges i) {s} d t" by auto
    have "fwd.at_depth g {s} d t" unfolding fwd.at_depth_hops built_succ_rel [OF assms] by (rule d(5))
    from rebuild_trail_eq [OF assms s d(2) this d(3), of c] obtain es where
      es: "known_path g s es t" "length es = d" "rebuild_trail g s t prior c
        = Some ((trail_of g s es)\<lparr>tr_truncated := c\<rparr>)" by blast
    have "(trail_of g s es)\<lparr>tr_truncated := c\<rparr> = trail_of g s es" using d(1) by (simp add: trail_of_def)
    with es Inl p n have "graph_trail g s t b = Some (Trail_Found (trail_of g s es))"
      by (auto simp: graph_trail_def simp del: trail_loop.simps)
    moreover have "input_path i s es t" using es(1) known_path_input [OF assms] by simp
    ultimately show ?thesis using d es(2) by auto
  qed
qed


theorem trail_exact_witness:
  "graph_trail demo_live_graph ''main'' ''lib'' demo_bounds
     = Some (Trail_Found (trail_of demo_live_graph ''main'' [demo_edge ''ml'' ''main'' ''lib'']))
   \<and> hops (known_edges demo_live) {''main''} 1 ''lib''"
proof -
  have r: "graph_trail demo_live_graph ''main'' ''lib'' demo_bounds
     = Some (Trail_Found (trail_of demo_live_graph ''main'' [demo_edge ''ml'' ''main'' ''lib'']))"
    by code_simp
  from trail_exact [OF demo_live_built, of "''main''" "''lib''" demo_bounds] obtain es where
    es: "hops (known_edges demo_live) {''main''} (length es) ''lib''"
      "trail_of demo_live_graph ''main'' [demo_edge ''ml'' ''main'' ''lib''] = trail_of demo_live_graph ''main'' es"
    unfolding r by auto
  from arg_cong [OF es(2), of "\<lambda>t. length (tr_edges t)"] have "length es = 1"
    by (simp add: trail_of_def)
  with es(1) r show ?thesis by simp
qed

end
