(* ===== verification/Neighbors.thy ===== *)
theory Neighbors
  imports Reach_Exact
begin

text \<open>
  Neighbours, backlinks and consumers of a node of a built graph: exactly the edges at the
  node, in the order of the node at the other end and the edge.
\<close>

lemma map_filter_mset: "mset xs = mset ys \<Longrightarrow> mset (List.map_filter f xs) = mset (List.map_filter f ys)"
proof -
  assume "mset xs = mset ys"
  moreover have "mset (List.map_filter f zs)
      = image_mset (\<lambda>x. the (f x)) (filter_mset (\<lambda>x. f x \<noteq> None) (mset zs))" for zs
    by (simp add: List.map_filter_def comp_def)
  ultimately show ?thesis by simp
qed

lemma map_filter_ids:
  assumes "graph_build i l = Inr g" "set es \<subseteq> set (gi_edges i)"
  shows "List.map_filter (graph_edge g) (map e_id es) = es"
  using assms(2)
proof (induction es)
  case (Cons e es)
  then have "graph_edge g (e_id e) = Some e" using built_edge [OF assms(1)] by auto
  with Cons show ?case by (simp add: List.map_filter_simps)
qed (simp add: List.map_filter_simps)

lemma adjacent_mset:
  assumes "graph_build i l = Inr g"
  shows "mset (List.map_filter (graph_edge g) (forward_edges g s))
      = mset (filter (\<lambda>e. e_source e = s) (gi_edges i))"
    and "mset (List.map_filter (graph_edge g) (reverse_edges g s))
      = mset (filter (\<lambda>e. e_target e = s) (gi_edges i))"
proof -
  have "mset (List.map_filter (graph_edge g) (sort (map e_id (filter P (gi_edges i)))))
      = mset (filter P (gi_edges i))" for P
    using map_filter_mset [of "sort (map e_id (filter P (gi_edges i)))" "map e_id (filter P (gi_edges i))"
        "graph_edge g"] map_filter_ids [OF assms, of "filter P (gi_edges i)"] by simp
  then show "mset (List.map_filter (graph_edge g) (forward_edges g s))
      = mset (filter (\<lambda>e. e_source e = s) (gi_edges i))"
    "mset (List.map_filter (graph_edge g) (reverse_edges g s))
      = mset (filter (\<lambda>e. e_target e = s) (gi_edges i))"
    by (simp_all add: graph_built(3,4) [OF assms])
qed

section \<open>Neighbours\<close>

lemma reverse_candidates_eq:
  "\<forall>j \<in> set ids. graph_edge g j \<noteq> None \<Longrightarrow> reverse_candidates g only ids =
     Some (map (\<lambda>e. (e_source e, e)) (filter (\<lambda>e. only \<or> e_certainty e = Cert_Known)
       (List.map_filter (graph_edge g) ids)))"
  by (induction ids) (auto simp: List.map_filter_simps)

lemma forward_candidates_eq:
  "\<forall>j \<in> set ids. graph_edge g j \<noteq> None \<Longrightarrow> forward_candidates g ids =
     Some (map (\<lambda>e. (e_target e, e)) (filter (\<lambda>e. e_certainty e = Cert_Known
       \<and> graph_node g (e_target e) \<noteq> None) (List.map_filter (graph_edge g) ids)))"
  by (induction ids) (auto simp: List.map_filter_simps)

definition neighbor_of :: "knowledge_graph \<Rightarrow> bool \<Rightarrow> str \<times> edge_input \<Rightarrow> query_hit" where
  "neighbor_of g only c =
     \<lparr>qh_node = node_evidence_of (the (graph_node g (fst c))),
      qh_why = (if only then Why_Backlink (edge_evidence_of (snd c))
                else Why_Related (edge_evidence_of (snd c)))\<rparr>"

text \<open>The edges at a node with their other ends: those that enter it, and for related nodes
  the \<open>Known\<close> ones in both directions.\<close>

definition neighbor_edges :: "graph_input \<Rightarrow> str \<Rightarrow> bool \<Rightarrow> (str \<times> edge_input) list" where
  "neighbor_edges i s only =
     map (\<lambda>e. (e_source e, e)) (filter (\<lambda>e. e_target e = s \<and> (only \<or> e_certainty e = Cert_Known)) (gi_edges i))
     @ (if only then [] else
        map (\<lambda>e. (e_target e, e)) (filter (\<lambda>e. e_source e = s \<and> e_certainty e = Cert_Known) (gi_edges i)))"

text \<open>
  Related nodes and backlinks of a built graph never panic and report a missing node.
  Otherwise the hits are exactly the edges at the node, ordered by the other end and the edge
  identity, as many as asked, truncated exactly when there are more; with a depth of zero
  nothing is returned and the answer is truncated when there was anything.
\<close>

theorem neighbors_exact:
  assumes b: "graph_build i l = Inr g"
  shows "case edge_neighbors g s bounds only of
      None \<Rightarrow> False
    | Some (Node_Missing x) \<Rightarrow> x = s \<and> s \<notin> node_ids i
    | Some (Node_Found r) \<Rightarrow> s \<in> node_ids i \<and>
        (\<exists>cs. mset cs = mset (neighbor_edges i s only) \<and> sorted (map (\<lambda>(j, e). (j, e_id e)) cs)
          \<and> r = (if qb_max_depth bounds = 0 then \<lparr>bd_items = [], bd_truncated = (cs \<noteq> [])\<rparr>
              else \<lparr>bd_items = map (neighbor_of g only) (take (qb_max_results bounds) cs),
                    bd_truncated = (length cs > qb_max_results bounds)\<rparr>))"
proof (cases "graph_node g s")
  case None
  then show ?thesis using built_node_None [OF b, of s] by (simp add: edge_neighbors_def)
next
  case (Some n)
  have s: "s \<in> node_ids i" using Some built_node_None [OF b, of s] by auto
  define sources where "sources = map (\<lambda>e. (e_source e, e))
    (filter (\<lambda>e. only \<or> e_certainty e = Cert_Known) (List.map_filter (graph_edge g) (reverse_edges g s)))"
  define targets where "targets = (if only then [] else map (\<lambda>e. (e_target e, e))
    (filter (\<lambda>e. e_certainty e = Cert_Known \<and> graph_node g (e_target e) \<noteq> None)
      (List.map_filter (graph_edge g) (forward_edges g s))))"
  define cs where "cs = sort_key (\<lambda>(j, e). (j, e_id e)) (sources @ targets)"
  have rc: "reverse_candidates g only (reverse_edges g s) = Some sources"
    using reverse_candidates_eq [of "reverse_edges g s" g only] built_present(2) [OF b]
    by (auto simp: sources_def)
  have fc: "(if only then Some [] else forward_candidates g (forward_edges g s)) = Some targets"
    using forward_candidates_eq [of "forward_edges g s" g] built_present(1) [OF b]
    by (auto simp: targets_def)
  have src: "mset sources = mset (map (\<lambda>e. (e_source e, e))
      (filter (\<lambda>e. e_target e = s \<and> (only \<or> e_certainty e = Cert_Known)) (gi_edges i)))"
    unfolding sources_def mset_map mset_filter adjacent_mset [OF b]
    by (simp add: filter_filter_mset conj_commute)
  have "filter (\<lambda>e. e_certainty e = Cert_Known \<and> graph_node g (e_target e) \<noteq> None) es
      = filter (\<lambda>e. e_certainty e = Cert_Known) es" if "set es \<subseteq> set (gi_edges i)" for es
    using that known_ends(2) [OF b] by (intro filter_cong) auto
  moreover have "set (List.map_filter (graph_edge g) (forward_edges g s)) \<subseteq> set (gi_edges i)"
    using mset_eq_setD [OF adjacent_mset(1) [OF b]] by auto
  ultimately have tgt: "mset targets = (if only then {#} else mset (map (\<lambda>e. (e_target e, e))
      (filter (\<lambda>e. e_source e = s \<and> e_certainty e = Cert_Known) (gi_edges i))))"
    unfolding targets_def
    by (simp add: adjacent_mset [OF b] filter_filter_mset conj_commute)
  have m: "mset cs = mset (neighbor_edges i s only)"
    by (simp add: cs_def neighbor_edges_def src tgt)
  have hit: "neighbor_hit g only c = Some (neighbor_of g only c)" if "c \<in> set cs" for c
  proof -
    from that have "c \<in> set (neighbor_edges i s only)" using mset_eq_setD [OF m] by simp
    then have "graph_node g (fst c) \<noteq> None"
      using known_ends [OF b] by (auto simp: neighbor_edges_def split: if_splits)
    then show ?thesis by (auto simp: neighbor_hit_def neighbor_of_def)
  qed
  have c: "collect (neighbor_hit g only) (take k cs) = Some (map (neighbor_of g only) (take k cs))" for k
  proof -
    have "collect f xs = Some (map h xs)" if "\<forall>x \<in> set xs. f x = Some (h x)"
      for f :: "str \<times> edge_input \<Rightarrow> query_hit option" and h xs
      using that by (induction xs) auto
    then show ?thesis using hit by (meson in_set_takeD)
  qed
  have srt: "sorted (map (\<lambda>(j, e). (j, e_id e)) cs)" by (simp add: cs_def)
  have len: "length sources + length targets = length cs"
    by (simp add: cs_def)
  then have nil: "sources = [] \<and> targets = [] \<longleftrightarrow> cs = []"
    by (metis add_is_0 length_0_conv)
  have "edge_neighbors g s bounds only = Some (Node_Found
      (if qb_max_depth bounds = 0 then \<lparr>bd_items = [], bd_truncated = (cs \<noteq> [])\<rparr>
       else \<lparr>bd_items = map (neighbor_of g only) (take (qb_max_results bounds) cs),
         bd_truncated = (length cs > qb_max_results bounds)\<rparr>))"
    using Some c [of "qb_max_results bounds"] len nil
    by (auto simp: edge_neighbors_def rc fc cs_def [symmetric] Let_def)
  with m s srt show ?thesis by auto
qed

section \<open>Consumers\<close>

definition consumer_of :: "knowledge_graph \<Rightarrow> edge_input \<Rightarrow> query_consumer" where
  "consumer_of g e =
     \<lparr>qc_node = node_evidence_of (the (graph_node g (e_source e))), qc_edge = edge_evidence_of e\<rparr>"

lemma consume_eq:
  assumes "edges_present g ids" "length items \<le> k"
  shows "consume g k ids items =
    (let es = List.map_filter (graph_edge g) ids in
     Some \<lparr>bd_items = items @ map (consumer_of g) (take (k - length items) es),
           bd_truncated = (length items + length es > k)\<rparr>)"
  using assms
proof (induction g k ids items rule: consume.induct)
  case (2 g k j ids items)
  obtain e n where e: "graph_edge g j = Some e" "graph_node g (e_source e) = Some n"
    and ids: "edges_present g ids" using edges_present_Cons [OF "2.prems"(1)] by blast
  show ?case
  proof (cases "length items = k")
    case False
    let ?it = "\<lparr>qc_node = node_evidence_of n, qc_edge = edge_evidence_of e\<rparr>"
    have l: "length (items @ [?it]) \<le> k" "k - length items = Suc (k - length (items @ [?it]))"
      using False "2.prems"(2) by auto
    show ?thesis using "2.IH" [OF False e ids l(1)] False e l(2)
      by (simp add: Let_def List.map_filter_simps consumer_of_def)
  qed (use e in \<open>simp add: Let_def List.map_filter_simps\<close>)
qed (simp add: List.map_filter_simps)

theorem consumers_exact:
  assumes b: "graph_build i l = Inr g"
  shows "graph_consumers g t k =
    (if t \<notin> node_ids i then Some (Node_Missing t)
     else Some (Node_Found
       (let es = sort_key e_id (filter (\<lambda>e. e_target e = t) (gi_edges i)) in
        \<lparr>bd_items = map (consumer_of g) (take k es), bd_truncated = (length es > k)\<rparr>)))"
proof -
  let ?es = "filter (\<lambda>e. e_target e = t) (gi_edges i)"
  have ids: "reverse_edges g t = map e_id (sort_key e_id ?es)"
    by (simp add: graph_built(4) [OF b] map_sort_key)
  have es: "List.map_filter (graph_edge g) (reverse_edges g t) = sort_key e_id ?es"
    unfolding ids by (rule map_filter_ids [OF b]) auto
  have "edges_present g (reverse_edges g t)" using built_ok(2) [OF b] by (simp add: reverse_ok_def)
  from consume_eq [OF this, of "[]" k] show ?thesis
    using built_node_None [OF b, of t] by (simp add: graph_consumers_def es Let_def)
qed


theorem neighbors_exact_witness:
  "map_option (\<lambda>q. case q of Node_Found r \<Rightarrow> map (\<lambda>h. ne_id (qh_node h)) (bd_items r))
      (graph_related demo_live_graph ''lib'' demo_bounds) = Some [''main'']
   \<and> (\<exists>r. edge_neighbors demo_live_graph ''lib'' demo_bounds False = Some (Node_Found r)
        \<and> (\<exists>cs. mset cs = mset (neighbor_edges demo_live ''lib'' False)
            \<and> bd_truncated r = (length cs > 5)))"
proof
  show "map_option (\<lambda>q. case q of Node_Found r \<Rightarrow> map (\<lambda>h. ne_id (qh_node h)) (bd_items r))
      (graph_related demo_live_graph ''lib'' demo_bounds) = Some [''main'']" by code_simp
  have "''lib'' \<in> node_ids demo_live" by (simp add: node_ids_def demo_live_def demo_node_def node_input_new_def)
  with neighbors_exact [OF demo_live_built, where s = "''lib''" and bounds = demo_bounds and only = False]
  show "\<exists>r. edge_neighbors demo_live_graph ''lib'' demo_bounds False = Some (Node_Found r)
        \<and> (\<exists>cs. mset cs = mset (neighbor_edges demo_live ''lib'' False)
            \<and> bd_truncated r = (length cs > 5))"
    by (auto split: option.splits node_query.splits)
qed

end
