(* ===== verification/Structural_Json.thy ===== *)
theory Structural_Json
  imports Structural
begin

text \<open>
  The canonical JSON of a structural snapshot. Each writer is proved to render a JSON tree;
  the trees determine the records, so two valid snapshots with the same digest are the same
  snapshot, or a collision of SHA-256.
\<close>

section \<open>Trees\<close>

definition j_strs :: "str list \<Rightarrow> json" where
  "j_strs xs = JArr (map JStr xs)"

definition j_provenance :: "provenance \<Rightarrow> json" where
  "j_provenance p = JObj [(''locator'', JStr (pv_locator p)), (''source'', JStr (pv_source p))]"

definition j_node :: "structural_node \<Rightarrow> json" where
  "j_node n = JObj
     [(''authority'', JStr (authority_as_str (sn_authority n))),
      (''content_digest'', JStr (sn_content_digest n)),
      (''domains'', j_strs (sn_domains n)),
      (''generated_status'', JStr (generated_status_as_str (sn_generated_status n))),
      (''id'', JStr (sn_id n)),
      (''lifecycle'', JStr (lifecycle_as_str (sn_lifecycle n))),
      (''owner'', jopt JStr (sn_owner n)),
      (''path'', JStr (sn_path n)),
      (''provenance'', JArr (map j_provenance (sn_provenance n))),
      (''source_type'', JStr (source_type_as_str (sn_source_type n)))]"

definition j_edge :: "structural_edge \<Rightarrow> json" where
  "j_edge e = JObj
     [(''certainty'', JStr (edge_certainty_as_str (se_certainty e))),
      (''id'', JStr (se_id e)),
      (''kind'', JStr (edge_kind_as_str (se_kind e))),
      (''provenance'', JArr (map j_provenance (se_provenance e))),
      (''source'', JStr (se_source e)),
      (''source_locator'', JStr (se_source_locator e)),
      (''target'', JStr (se_target e))]"

definition j_adjacency :: "structural_graph_snapshot \<Rightarrow> structural_node \<Rightarrow> json" where
  "j_adjacency s n = JObj
     [(''forward'', j_strs (snapshot_forward_edges s (sn_id n))),
      (''node_id'', JStr (sn_id n)),
      (''reverse'', j_strs (snapshot_reverse_edges s (sn_id n)))]"

definition j_index_record :: "str \<times> nat \<Rightarrow> json" where
  "j_index_record r = JObj [(''id'', JStr (fst r)), (''position'', JNum (snd r))]"

definition j_indexes :: "structural_index \<Rightarrow> json" where
  "j_indexes x = JObj
     [(''edges'', JArr (map j_index_record (si_edge_index x))),
      (''nodes'', JArr (map j_index_record (si_node_index x)))]"

definition j_receipt :: "structural_snapshot_receipt \<Rightarrow> json" where
  "j_receipt r = JObj
     [(''before_digest'', jopt JStr (sr_before_digest r)),
      (''candidate_digest'', jopt JStr (sr_candidate_digest r)),
      (''operation_id'', JStr (sr_operation_id r)),
      (''ordering_version'', JNum (sr_ordering_version r)),
      (''published_digest'', jopt JStr (sr_published_digest r)),
      (''validation_facts'', j_strs (sr_validation_facts r))]"

definition snapshot_fields :: "structural_graph_snapshot \<Rightarrow> (str \<times> json) list" where
  "snapshot_fields s =
     [(''adjacency'', JArr (map (j_adjacency s) (ss_nodes s))),
      (''case_policy'', JStr (case_policy_as_str (ss_case_policy s))),
      (''edges'', JArr (map j_edge (ss_edges s))),
      (''frozen_frequency_digest'', JStr (ss_frozen_frequency_digest s)),
      (''graph_digest'', JStr (ss_graph_digest s)),
      (''indexes'', j_indexes (ss_index s)),
      (''nodes'', JArr (map j_node (ss_nodes s))),
      (''parent_digest'', jopt JStr (ss_parent_digest s)),
      (''receipt'', j_receipt (ss_receipt s)),
      (''scan_input_digest'', JStr (ss_scan_input_digest s)),
      (''schema_version'', JNum (ss_schema_version s))]"

definition j_snapshot :: "structural_graph_snapshot \<Rightarrow> json" where
  "j_snapshot s = JObj (snapshot_fields s @ [(''snapshot_digest'', JStr (ss_snapshot_digest s))])"

section \<open>The writers render the trees\<close>

named_theorems tree_simps \<open>renderings as written texts\<close>

definition key_plain :: "str \<Rightarrow> bool" where
  "key_plain k \<longleftrightarrow> list_all (\<lambda>c. escape_char c = [c]) k"

lemma written_key: "key_plain k \<Longrightarrow> write_escaped_string k @ CHR '':'' # r = qk k @ r"
proof -
  assume "key_plain k"
  then have "concat (map escape_char k) = k" by (induction k) (auto simp: key_plain_def)
  then show ?thesis by (simp add: write_escaped_string_def qk_def)
qed

definition snapshot_keys :: "str list" where
  "snapshot_keys = [''adjacency'', ''authority'', ''before_digest'', ''candidate_digest'',
     ''case_policy'', ''certainty'', ''content_digest'', ''domains'', ''edges'', ''forward'',
     ''frozen_frequency_digest'', ''generated_status'', ''graph_digest'', ''id'', ''indexes'',
     ''kind'', ''lifecycle'', ''locator'', ''node_id'', ''nodes'', ''operation_id'',
     ''ordering_version'', ''owner'', ''parent_digest'', ''path'', ''position'', ''provenance'',
     ''published_digest'', ''receipt'', ''reverse'', ''scan_input_digest'', ''schema_version'',
     ''snapshot_digest'', ''source'', ''source_locator'', ''source_type'', ''target'',
     ''validation_facts'']"

lemma snapshot_keys_plain: "list_all key_plain snapshot_keys"
  unfolding snapshot_keys_def key_plain_def by code_simp

lemmas keys_plain = snapshot_keys_plain [unfolded snapshot_keys_def list.pred_inject]

definition members :: "(str \<times> json) list \<Rightarrow> str" where
  "members es = join '','' (map (\<lambda>e. write_escaped_string (fst e) @ '':'' @ render (snd e)) es)"

lemma members_simps [tree_simps]:
  "key_plain k \<Longrightarrow> members [(k, v)] = qk k @ render v"
  "key_plain k \<Longrightarrow> members ((k, v) # e # es) = qk k @ render v @ '','' @ members (e # es)"
  by (simp_all add: members_def written_key)

lemma write_json_from_join:
  "write_json_from i w xs = (if i > 0 \<and> xs \<noteq> [] then '','' else []) @ join '','' (map w xs)"
  by (induction xs arbitrary: i) (auto simp: join_Cons)

lemma tree_render [tree_simps]:
  "render (JObj es) = ''{'' @ members es @ ''}''"
  "render (JStr s) = write_json_string s"
  "render (JNum n) = dec n"
  "render (jopt JStr x) = write_json_option x"
  "render (JArr (map f xs)) = ''['' @ write_json_from 0 (\<lambda>x. render (f x)) xs @ '']''"
  by (simp_all add: members_def write_json_string_def bundle_escape_same jopt_def
      write_json_option_def write_json_from_join comp_def split: option.split)

declare render.simps [simp del]

lemma render_strs [tree_simps]: "render (j_strs xs) = ''['' @ write_json_strings xs @ '']''"
  by (simp add: j_strs_def tree_simps write_json_strings_def write_json_array_def)

lemma render_provenance [tree_simps]: "render (j_provenance p) = write_provenance p"
  by (simp add: j_provenance_def tree_simps keys_plain write_provenance_def)

lemma render_node [tree_simps]: "render (j_node n) = write_structural_node n"
  by (simp add: j_node_def tree_simps keys_plain write_structural_node_def write_json_array_def)

lemma render_edge [tree_simps]: "render (j_edge e) = write_structural_edge e"
  by (simp add: j_edge_def tree_simps keys_plain write_structural_edge_def write_json_array_def)

lemma render_adjacency [tree_simps]: "render (j_adjacency s n) = write_adjacency_of s n"
  by (simp add: j_adjacency_def tree_simps keys_plain write_adjacency_of_def)

lemma render_index_record [tree_simps]: "render (j_index_record r) = write_index_record r"
  by (simp add: j_index_record_def tree_simps keys_plain write_index_record_def)

lemma render_indexes [tree_simps]: "render (j_indexes (ss_index s)) = write_indexes s"
  by (simp add: j_indexes_def tree_simps keys_plain write_indexes_def write_index_records_def)

lemma render_receipt [tree_simps]: "render (j_receipt r) = write_structural_receipt r"
  by (simp add: j_receipt_def tree_simps keys_plain write_structural_receipt_def)

lemma render_snapshot_fields:
  "canonical_json_without_digest s = render (JObj (snapshot_fields s))"
  by (simp add: snapshot_fields_def tree_simps keys_plain canonical_json_without_digest_def
      write_adjacency_def write_json_array_def)

lemma members_append:
  "xs \<noteq> [] \<Longrightarrow> key_plain k \<Longrightarrow> members (xs @ [(k, v)]) = members xs @ '','' @ qk k @ render v"
  by (induction xs) (auto simp: members_def join_Cons written_key)

lemma render_snapshot: "canonical_json s = render (j_snapshot s)"
proof -
  have "canonical_json_without_digest s = (''{'' @ members (snapshot_fields s)) @ ''}''"
    by (simp add: render_snapshot_fields tree_simps)
  then have "butlast (canonical_json_without_digest s) = ''{'' @ members (snapshot_fields s)"
    by (simp add: butlast_append)
  moreover have "snapshot_fields s \<noteq> []" by (simp add: snapshot_fields_def)
  ultimately show ?thesis
    by (simp add: canonical_json_def j_snapshot_def tree_simps members_append keys_plain)
qed

section \<open>The trees determine the records\<close>

lemma jopt_JStr_inj: "jopt JStr x = jopt JStr y \<longleftrightarrow> x = y"
  by (auto simp: jopt_def split: option.splits)

lemma inj_strs: "j_strs xs = j_strs ys \<longleftrightarrow> xs = ys"
  by (auto simp: j_strs_def inj_def dest!: map_injective)

lemma inj_vocabulary:
  "edge_kind_as_str k = edge_kind_as_str k' \<longleftrightarrow> k = k'"
  "source_type_as_str t = source_type_as_str t' \<longleftrightarrow> t = t'"
  "lifecycle_as_str l = lifecycle_as_str l' \<longleftrightarrow> l = l'"
  "authority_as_str a = authority_as_str a' \<longleftrightarrow> a = a'"
  "generated_status_as_str g = generated_status_as_str g' \<longleftrightarrow> g = g'"
  "edge_certainty_as_str c = edge_certainty_as_str c' \<longleftrightarrow> c = c'"
  subgoal by (cases k; cases k'; simp add: edge_kind_as_str_def)
  subgoal by (cases t; cases t'; simp add: source_type_as_str_def)
  subgoal by (cases l; cases l'; simp add: lifecycle_as_str_def)
  subgoal by (cases a; cases a'; simp add: authority_as_str_def)
  subgoal by (cases g; cases g'; simp add: generated_status_as_str_def)
  subgoal by (cases c; cases c'; simp add: edge_certainty_as_str_def)
  done

lemma inj_records: "(\<And>x y. f x = f y \<longleftrightarrow> x = y) \<Longrightarrow> map f xs = map f ys \<longleftrightarrow> xs = ys"
  by (metis injI map_injective)

lemma inj_provenance: "j_provenance p = j_provenance q \<longleftrightarrow> p = q"
  by (cases p; cases q) (auto simp: j_provenance_def)

lemmas tree_inj = jopt_JStr_inj inj_strs inj_vocabulary inj_records [OF inj_provenance]

lemma inj_node: "j_node n = j_node m \<longleftrightarrow> n = m"
  by (cases n; cases m) (auto simp: j_node_def tree_inj)

lemma inj_edge: "j_edge e = j_edge f \<longleftrightarrow> e = f"
  by (cases e; cases f) (auto simp: j_edge_def tree_inj)

lemma inj_receipt: "j_receipt r = j_receipt q \<longleftrightarrow> r = q"
  by (cases r; cases q) (auto simp: j_receipt_def tree_inj)

lemma hash_eq: "digest a = digest b \<longleftrightarrow> sha256 a = sha256 b"
  by (auto simp: digest_def id_sha256_def dest: hex_of_bytes_inj)

lemma valid_snapshot_fields:
  assumes "snapshot_validate s = Inr ()" "snapshot_validate t = Inr ()"
    "canonical_json_without_digest s = canonical_json_without_digest t"
  shows "s = t"
proof -
  note s = iffD1 [OF snapshot_validate_iff assms(1), unfolded snapshot_new_Inr]
  note t = iffD1 [OF snapshot_validate_iff assms(2), unfolded snapshot_new_Inr]
  have "snapshot_fields s = snapshot_fields t"
    using assms(3) by (simp add: render_snapshot_fields render_inj)
  then have "ss_schema_version s = ss_schema_version t" "ss_parent_digest s = ss_parent_digest t"
    "ss_scan_input_digest s = ss_scan_input_digest t" "ss_graph_digest s = ss_graph_digest t"
    "ss_frozen_frequency_digest s = ss_frozen_frequency_digest t"
    "ss_nodes s = ss_nodes t" "ss_edges s = ss_edges t" "ss_receipt s = ss_receipt t"
    by (simp_all add: snapshot_fields_def tree_inj inj_records [OF inj_node] inj_records [OF inj_edge]
        inj_receipt)
  then have "snapshot_new (ss_schema_version s) (ss_parent_digest s) (ss_scan_input_digest s)
       (ss_graph_digest s) (ss_frozen_frequency_digest s) (ss_nodes s) (ss_edges s) (ss_receipt s)
     = Inr t"
    using assms(2) by (simp add: snapshot_validate_iff)
  with assms(1) show ?thesis by (simp add: snapshot_validate_iff)
qed

text \<open>
  C39. The canonical JSON of a snapshot is the rendering of its tree, and the digest seals the
  whole snapshot: two valid snapshots with the same digest are the same, unless their
  canonical texts are a collision of SHA-256.
\<close>

theorem snapshot_digest_seals:
  assumes "snapshot_validate s = Inr ()" "snapshot_validate t = Inr ()"
    "ss_snapshot_digest s = ss_snapshot_digest t"
  shows "canonical_json s = render (j_snapshot s)
    \<and> (s = t \<or> canonical_json_without_digest s \<noteq> canonical_json_without_digest t
         \<and> sha256 (canonical_json_without_digest s) = sha256 (canonical_json_without_digest t))"
proof -
  have "ss_snapshot_digest u = digest (canonical_json_without_digest u)"
    if "snapshot_validate u = Inr ()" for u
    using iffD1 [OF snapshot_validate_iff that] unfolding snapshot_new_Inr by simp
  then have "sha256 (canonical_json_without_digest s) = sha256 (canonical_json_without_digest t)"
    using assms by (simp flip: hash_eq)
  then show ?thesis using valid_snapshot_fields [OF assms(1,2)] render_snapshot by blast
qed

definition demo_digest :: str where "demo_digest = replicate 64 (CHR ''0'')"

definition demo_node :: structural_node where
  "demo_node = \<lparr>sn_id = structural_node_identity ''a.rs'' St_Code, sn_path = ''a.rs'',
     sn_content_digest = demo_digest, sn_source_type = St_Code, sn_domains = [''core''],
     sn_owner = None, sn_lifecycle = Lc_Current, sn_authority = Au_Canonical,
     sn_generated_status = Gs_Source, sn_provenance = []\<rparr>"

definition demo_receipt :: structural_snapshot_receipt where
  "demo_receipt = \<lparr>sr_operation_id = ''scan'', sr_before_digest = None, sr_candidate_digest = None,
     sr_published_digest = None, sr_validation_facts = [''complete''], sr_ordering_version = 1\<rparr>"

lemma demo_digest_valid: "validate_digest demo_digest = Inr ()"
  unfolding demo_digest_def by code_simp

lemma demo_node_valid: "structural_node_validate demo_node = Inr ()"
proof -
  have "validate_structural_path ''a.rs'' = Inr ()" by code_simp
  moreover have "validate_structural_text ''core'' ''domain'' = Inr ()" by code_simp
  ultimately show ?thesis
    by (simp add: structural_node_validate_def demo_node_def demo_digest_valid check_owner_def
        validate_sorted_unique_strings_def validate_sorted_unique_provenance_def)
qed

lemma demo_request_ok:
  "snapshot_request_ok 1 None demo_digest demo_digest demo_digest [demo_node] [] demo_receipt"
proof -
  have "structural_receipt_validate demo_receipt = Inr ()" unfolding demo_receipt_def by code_simp
  then show ?thesis
    by (simp add: snapshot_request_ok_def demo_digest_valid validate_optional_digest_def
        structure_ok_def demo_node_valid)
qed

theorem snapshot_digest_seals_witness:
  "case snapshot_new 1 None demo_digest demo_digest demo_digest [demo_node] [] demo_receipt of
     Inl e \<Rightarrow> False
   | Inr s \<Rightarrow> snapshot_validate s = Inr () \<and> canonical_json s = render (j_snapshot s)"
proof -
  obtain s where s: "snapshot_new 1 None demo_digest demo_digest demo_digest [demo_node] []
      demo_receipt = Inr s"
    using snapshot_new_fails [of 1 None demo_digest demo_digest demo_digest "[demo_node]" "[]"
        demo_receipt] demo_request_ok
    by (cases "snapshot_new 1 None demo_digest demo_digest demo_digest [demo_node] [] demo_receipt")
      auto
  then have v: "snapshot_validate s = Inr ()" by (rule snapshot_new_validates)
  with s snapshot_digest_seals [OF v v refl] show ?thesis by simp
qed

end
