(* ===== verification/Traversal.thy ===== *)
theory Traversal
  imports Structural_Json Bfs
begin

text \<open>
  Traversal of a structural snapshot, \<open>Traversal::run\<close> of \<open>graph/query.rs\<close>: a breadth-first
  search over the \<open>Known\<close> edges of chosen kinds, both ways, with limits on depth, nodes and
  inspected edges, that records a path to every node visited. The set of visited nodes is the
  list of its members. The lemmas show what each way to stop means.
\<close>

section \<open>Requests and receipts\<close>

definition MAX_DEPTH :: nat where "MAX_DEPTH = 64"
definition MAX_NODES :: nat where "MAX_NODES = 4096"
definition MAX_EDGES :: nat where "MAX_EDGES = 65536"

record traversal_request =
  tq_seed :: str
  tq_relationships :: "structural_edge_kind list"
  tq_max_depth :: nat
  tq_max_nodes :: nat
  tq_max_edges :: nat

datatype traversal_terminal = Tt_Complete | Tt_DepthLimit | Tt_NodeLimit | Tt_EdgeLimit

record path_step =
  ps_edge_id :: str
  ps_kind :: structural_edge_kind
  ps_source :: str
  ps_target :: str
  ps_source_locator :: str

record path_receipt =
  pr_node_id :: str
  pr_steps :: "path_step list"

record skipped_edge =
  sk_edge_id :: str
  sk_certainty :: structural_edge_certainty
  sk_reason :: str

record traversal_receipt =
  tv_snapshot_digest :: str
  tv_seed :: str
  tv_relationships :: "structural_edge_kind list"
  tv_max_depth :: nat
  tv_max_nodes :: nat
  tv_max_edges :: nat
  tv_visited_ids :: "str list"
  tv_paths :: "path_receipt list"
  tv_inspected :: nat
  tv_accepted :: nat
  tv_skipped :: "skipped_edge list"
  tv_terminal :: traversal_terminal

datatype traversal_error =
    MissingSeed str
  | EmptyRelationships
  | DuplicateRelationship structural_edge_kind
  | UnsupportedRelationship structural_edge_kind
  | InvalidLimits nat nat nat
  | ArithmeticOverflow str

text \<open>The derived order of the kinds is the order of their constructors.\<close>

definition kind_rank :: "structural_edge_kind \<Rightarrow> nat" where
  "kind_rank k = (case k of
       Ek_Ownership \<Rightarrow> 0 | Ek_Lifecycle \<Rightarrow> 1 | Ek_Supersedes \<Rightarrow> 2 | Ek_Predecessor \<Rightarrow> 3
     | Ek_Dependency \<Rightarrow> 4 | Ek_Impact \<Rightarrow> 5 | Ek_Requirement \<Rightarrow> 6 | Ek_Design \<Rightarrow> 7
     | Ek_Implementation \<Rightarrow> 8 | Ek_Validation \<Rightarrow> 9 | Ek_Domain \<Rightarrow> 10 | Ek_Architecture \<Rightarrow> 11
     | Ek_BusinessFlow \<Rightarrow> 12 | Ek_GeneratedFrom \<Rightarrow> 13 | Ek_SourceLink \<Rightarrow> 14)"

lemma kind_rank_inj: "kind_rank k = kind_rank k' \<Longrightarrow> k = k'"
  by (cases k; cases k') (simp_all add: kind_rank_def)

instantiation structural_edge_kind :: linorder
begin

definition less_eq_structural_edge_kind :: "structural_edge_kind \<Rightarrow> structural_edge_kind \<Rightarrow> bool" where
  "less_eq_structural_edge_kind x y \<longleftrightarrow> kind_rank x \<le> kind_rank y"

definition less_structural_edge_kind :: "structural_edge_kind \<Rightarrow> structural_edge_kind \<Rightarrow> bool" where
  "less_structural_edge_kind x y \<longleftrightarrow> kind_rank x < kind_rank y"

instance
  by standard
    (auto simp: less_eq_structural_edge_kind_def less_structural_edge_kind_def intro: kind_rank_inj)

end

definition traversable_structural_kind :: "structural_edge_kind \<Rightarrow> bool" where
  "traversable_structural_kind k \<longleftrightarrow>
     k \<in> {Ek_Dependency, Ek_Impact, Ek_Requirement, Ek_Design, Ek_Implementation, Ek_Validation,
          Ek_Domain, Ek_Architecture, Ek_BusinessFlow}"

fun check_relationships ::
  "structural_edge_kind list \<Rightarrow> structural_edge_kind list \<Rightarrow> traversal_error + structural_edge_kind list" where
  "check_relationships [] allowed = Inr allowed"
| "check_relationships (k # ks) allowed =
     (if \<not> traversable_structural_kind k then Inl (UnsupportedRelationship k)
      else if k \<in> set allowed then Inl (DuplicateRelationship k)
      else check_relationships ks (k # allowed))"

section \<open>The search\<close>

definition other_end :: "str \<Rightarrow> structural_edge \<Rightarrow> str" where
  "other_end x e = (if se_source e = x then se_target e else se_source e)"

definition adjacent :: "structural_graph_snapshot \<Rightarrow> str \<Rightarrow> structural_edge list" where
  "adjacent s x = List.map_filter (snapshot_edge s) (snapshot_forward_edges s x @ snapshot_reverse_edges s x)"

definition edge_order :: "structural_edge \<Rightarrow> structural_edge_kind \<times> str \<times> str \<times> str \<times> str" where
  "edge_order e = (se_kind e, se_source e, se_target e, se_source_locator e, se_id e)"

definition has_traversable_neighbor ::
  "structural_graph_snapshot \<Rightarrow> str \<Rightarrow> structural_edge_kind list \<Rightarrow> str list \<Rightarrow> bool" where
  "has_traversable_neighbor s x allowed visited =
     list_ex (\<lambda>e. se_kind e \<in> set allowed \<and> se_certainty e = Ec_Known
       \<and> (case snapshot_node s (other_end x e) of None \<Rightarrow> False | Some n \<Rightarrow> sn_id n \<notin> set visited))
       (adjacent s x)"

definition step_of :: "structural_edge \<Rightarrow> path_step" where
  "step_of e = \<lparr>ps_edge_id = se_id e, ps_kind = se_kind e, ps_source = se_source e,
     ps_target = se_target e, ps_source_locator = se_source_locator e\<rparr>"

type_synonym traversal_queue = "(str \<times> nat \<times> path_step list) list"

record traversal_state =
  ts_visited :: "str list"
  ts_queue :: traversal_queue
  ts_ids :: "str list"
  ts_paths :: "path_receipt list"
  ts_inspected :: nat
  ts_accepted :: nat
  ts_skipped :: "skipped_edge list"

definition skip_edge :: "structural_edge \<Rightarrow> str \<Rightarrow> traversal_state \<Rightarrow> traversal_state" where
  "skip_edge e reason st = st\<lparr>ts_skipped := ts_skipped st
     @ [\<lparr>sk_edge_id = se_id e, sk_certainty = se_certainty e, sk_reason = reason\<rparr>]\<rparr>"

definition accept_edge ::
  "str \<Rightarrow> nat \<Rightarrow> path_step list \<Rightarrow> structural_edge \<Rightarrow> nat \<Rightarrow> traversal_state \<Rightarrow> traversal_state" where
  "accept_edge x depth path e accepted st =
     (let y = other_end x e; next_path = path @ [step_of e] in
      st\<lparr>ts_visited := y # ts_visited st, ts_queue := ts_queue st @ [(y, depth + 1, next_path)],
         ts_ids := ts_ids st @ [y], ts_paths := ts_paths st @ [\<lparr>pr_node_id = y, pr_steps = next_path\<rparr>],
         ts_accepted := accepted\<rparr>)"

text \<open>The body of the loop over the edges: \<open>Tt_Complete\<close> goes on with the next edge.\<close>

definition inspect_edge ::
  "structural_graph_snapshot \<Rightarrow> traversal_request \<Rightarrow> structural_edge_kind list \<Rightarrow> str \<Rightarrow> nat
   \<Rightarrow> path_step list \<Rightarrow> structural_edge \<Rightarrow> traversal_state
   \<Rightarrow> traversal_error + traversal_terminal \<times> traversal_state" where
  "inspect_edge s rq allowed x depth path e st =
     (if se_kind e \<notin> set allowed then Inr (Tt_Complete, st)
      else if ts_inspected st = tq_max_edges rq then Inr (Tt_EdgeLimit, st)
      else case checked_add_u64 (ts_inspected st) 1 of
        None \<Rightarrow> Inl (ArithmeticOverflow ''inspected edges'')
      | Some inspected \<Rightarrow>
          let st1 = st\<lparr>ts_inspected := inspected\<rparr> in
          if se_certainty e \<noteq> Ec_Known then Inr (Tt_Complete, skip_edge e ''non-known'' st1)
          else if snapshot_node s (other_end x e) = None
          then Inr (Tt_Complete, skip_edge e ''missing-target'' st1)
          else if other_end x e \<in> set (ts_visited st1) then Inr (Tt_Complete, st1)
          else if length (ts_visited st1) = tq_max_nodes rq then Inr (Tt_NodeLimit, st1)
          else case checked_add_u64 (ts_accepted st1) 1 of
            None \<Rightarrow> Inl (ArithmeticOverflow ''accepted edges'')
          | Some accepted \<Rightarrow> Inr (Tt_Complete, accept_edge x depth path e accepted st1))"

fun traverse_edges ::
  "structural_graph_snapshot \<Rightarrow> traversal_request \<Rightarrow> structural_edge_kind list \<Rightarrow> str \<Rightarrow> nat
   \<Rightarrow> path_step list \<Rightarrow> structural_edge list \<Rightarrow> traversal_state
   \<Rightarrow> traversal_error + traversal_terminal \<times> traversal_state" where
  "traverse_edges s rq allowed x depth path [] st = Inr (Tt_Complete, st)"
| "traverse_edges s rq allowed x depth path (e # es) st =
     (case inspect_edge s rq allowed x depth path e st of
        Inl err \<Rightarrow> Inl err
      | Inr (t, st1) \<Rightarrow>
          if t = Tt_Complete then traverse_edges s rq allowed x depth path es st1 else Inr (t, st1))"

text \<open>The nodes of the snapshot not visited yet: a search accepts each at most once.\<close>

definition unvisited :: "structural_graph_snapshot \<Rightarrow> str list \<Rightarrow> nat" where
  "unvisited s visited = length (filter (\<lambda>i. i \<notin> set visited) (map fst (si_node_index (ss_index s))))"

lemma unvisited_push:
  assumes "snapshot_node s y \<noteq> None" "y \<notin> set visited"
  shows "unvisited s (y # visited) < unvisited s visited"
proof -
  from assms(1) have "y \<in> set (map fst (si_node_index (ss_index s)))"
    by (force simp: snapshot_node_def om_get_def dest: map_of_SomeD)
  then show ?thesis
    unfolding unvisited_def using assms(2)
      length_filter_less [of y "filter (\<lambda>i. i \<notin> set visited) (map fst (si_node_index (ss_index s)))" "\<lambda>i. i \<noteq> y"]
    by (simp add: conj_commute)
qed

lemma skip_edge_simps [simp]:
  "ts_visited (skip_edge e r st) = ts_visited st" "ts_queue (skip_edge e r st) = ts_queue st"
  "ts_ids (skip_edge e r st) = ts_ids st" "ts_paths (skip_edge e r st) = ts_paths st"
  "ts_inspected (skip_edge e r st) = ts_inspected st" "ts_accepted (skip_edge e r st) = ts_accepted st"
  "ts_skipped (skip_edge e r st) = ts_skipped st
     @ [\<lparr>sk_edge_id = se_id e, sk_certainty = se_certainty e, sk_reason = r\<rparr>]"
  by (simp_all add: skip_edge_def)

lemma accept_edge_simps [simp]:
  "ts_visited (accept_edge x d p e a st) = other_end x e # ts_visited st"
  "ts_queue (accept_edge x d p e a st) = ts_queue st @ [(other_end x e, d + 1, p @ [step_of e])]"
  "ts_ids (accept_edge x d p e a st) = ts_ids st @ [other_end x e]"
  "ts_paths (accept_edge x d p e a st) = ts_paths st
     @ [\<lparr>pr_node_id = other_end x e, pr_steps = p @ [step_of e]\<rparr>]"
  "ts_inspected (accept_edge x d p e a st) = ts_inspected st"
  "ts_accepted (accept_edge x d p e a st) = a"
  "ts_skipped (accept_edge x d p e a st) = ts_skipped st"
  by (simp_all add: accept_edge_def Let_def)

text \<open>An edge the search follows from a node.\<close>

definition usable :: "structural_graph_snapshot \<Rightarrow> structural_edge_kind list \<Rightarrow> str \<Rightarrow> structural_edge \<Rightarrow> bool" where
  "usable s allowed x e \<longleftrightarrow> se_kind e \<in> set allowed \<and> se_certainty e = Ec_Known
     \<and> snapshot_node s (other_end x e) \<noteq> None"

definition skips :: "structural_graph_snapshot \<Rightarrow> structural_edge_kind list \<Rightarrow> str \<Rightarrow> structural_edge
   \<Rightarrow> skipped_edge list" where
  "skips s allowed x e =
     (if se_kind e \<notin> set allowed then []
      else if se_certainty e \<noteq> Ec_Known
      then [\<lparr>sk_edge_id = se_id e, sk_certainty = se_certainty e, sk_reason = ''non-known''\<rparr>]
      else if snapshot_node s (other_end x e) = None
      then [\<lparr>sk_edge_id = se_id e, sk_certainty = se_certainty e, sk_reason = ''missing-target''\<rparr>]
      else [])"

lemma inspect_edge_cases:
  assumes "inspect_edge s rq allowed x d p e st = Inr (t, st')"
  obtains (pass) "t = Tt_Complete" "\<not> usable s allowed x e \<or> other_end x e \<in> set (ts_visited st)"
      "ts_visited st' = ts_visited st" "ts_queue st' = ts_queue st" "ts_ids st' = ts_ids st"
      "ts_paths st' = ts_paths st" "ts_accepted st' = ts_accepted st"
      "ts_inspected st' = ts_inspected st + (if se_kind e \<in> set allowed then 1 else 0)"
      "ts_inspected st' = ts_inspected st \<or> ts_inspected st \<noteq> tq_max_edges rq"
      "ts_skipped st' = ts_skipped st @ skips s allowed x e"
    | (accept) "t = Tt_Complete" "usable s allowed x e" "other_end x e \<notin> set (ts_visited st)"
      "length (ts_visited st) \<noteq> tq_max_nodes rq" "ts_inspected st \<noteq> tq_max_edges rq"
      "st' = accept_edge x d p e (ts_accepted st + 1) (st\<lparr>ts_inspected := ts_inspected st + 1\<rparr>)"
    | (edges) "t = Tt_EdgeLimit" "ts_inspected st = tq_max_edges rq" "st' = st"
    | (nodes) "t = Tt_NodeLimit" "usable s allowed x e" "other_end x e \<notin> set (ts_visited st)"
      "length (ts_visited st) = tq_max_nodes rq" "ts_inspected st \<noteq> tq_max_edges rq"
      "st' = st\<lparr>ts_inspected := ts_inspected st + 1\<rparr>"
proof -
  note f = assms [unfolded inspect_edge_def]
  let ?y = "other_end x e"
  consider (kind) "se_kind e \<notin> set allowed"
    | (stop) "se_kind e \<in> set allowed" "ts_inspected st = tq_max_edges rq"
    | (unknown) "se_kind e \<in> set allowed" "ts_inspected st \<noteq> tq_max_edges rq" "se_certainty e \<noteq> Ec_Known"
    | (missing) "se_kind e \<in> set allowed" "ts_inspected st \<noteq> tq_max_edges rq" "se_certainty e = Ec_Known"
        "snapshot_node s ?y = None"
    | (seen) "se_kind e \<in> set allowed" "ts_inspected st \<noteq> tq_max_edges rq" "?y \<in> set (ts_visited st)"
        "se_certainty e = Ec_Known" "snapshot_node s ?y \<noteq> None"
    | (fresh) "ts_inspected st \<noteq> tq_max_edges rq" "?y \<notin> set (ts_visited st)" "usable s allowed x e"
    unfolding usable_def by blast
  then show thesis
  proof cases
    case kind
    show thesis by (rule pass) (use f kind in \<open>simp_all add: usable_def skips_def\<close>)
  next
    case stop
    show thesis by (rule edges) (use f stop in simp_all)
  next
    case unknown
    show thesis by (rule pass) (use f unknown in \<open>auto simp: usable_def skips_def Let_def split: option.splits\<close>)
  next
    case missing
    show thesis by (rule pass) (use f missing in \<open>auto simp: usable_def skips_def Let_def split: option.splits\<close>)
  next
    case seen
    show thesis by (rule pass) (use f seen in \<open>auto simp: usable_def skips_def Let_def split: option.splits\<close>)
  next
    case fresh
    show thesis
    proof (cases "length (ts_visited st) = tq_max_nodes rq")
      case True
      show thesis by (rule nodes) (use f fresh True in \<open>auto simp: usable_def Let_def split: option.splits\<close>)
    next
      case False
      show thesis by (rule accept) (use f fresh False in \<open>auto simp: usable_def Let_def split: option.splits\<close>)
    qed
  qed
qed

lemma traverse_edges_measure:
  "traverse_edges s rq allowed x d p es st = Inr (t, st') \<Longrightarrow>
     unvisited s (ts_visited st') + length (ts_queue st') \<le> unvisited s (ts_visited st) + length (ts_queue st)"
proof (induction es arbitrary: st)
  case (Cons e es)
  then obtain t1 st1 where i: "inspect_edge s rq allowed x d p e st = Inr (t1, st1)"
    by (auto split: sum.splits)
  have m: "unvisited s (ts_visited st1) + length (ts_queue st1) \<le> unvisited s (ts_visited st) + length (ts_queue st)"
    using i
  proof (cases rule: inspect_edge_cases)
    case accept
    then show ?thesis
      using unvisited_push [of s "other_end x e" "ts_visited st"] by (simp add: usable_def)
  qed simp_all
  show ?case
  proof (cases "t1 = Tt_Complete")
    case True
    with Cons.prems i have "traverse_edges s rq allowed x d p es st1 = Inr (t, st')" by simp
    from Cons.IH [OF this] m show ?thesis by simp
  next
    case False
    with Cons.prems i m show ?thesis by simp
  qed
qed simp

function traverse_loop ::
  "structural_graph_snapshot \<Rightarrow> traversal_request \<Rightarrow> structural_edge_kind list \<Rightarrow> traversal_state
   \<Rightarrow> traversal_error + traversal_terminal \<times> traversal_state" where
  "traverse_loop s rq allowed st =
     (case ts_queue st of
        [] \<Rightarrow> Inr (Tt_Complete, st)
      | (x, depth, path) # queue \<Rightarrow>
          let st1 = st\<lparr>ts_queue := queue\<rparr> in
          if depth = tq_max_depth rq then
            if has_traversable_neighbor s x allowed (ts_visited st1) then Inr (Tt_DepthLimit, st1)
            else traverse_loop s rq allowed st1
          else case traverse_edges s rq allowed x depth path (sort_key edge_order (adjacent s x)) st1 of
            Inl e \<Rightarrow> Inl e
          | Inr (t, st') \<Rightarrow>
              if t \<noteq> Tt_Complete then Inr (t, st') else traverse_loop s rq allowed st')"
  by pat_completeness auto
termination
  by (relation "measure (\<lambda>(s, rq, allowed, st). unvisited s (ts_visited st) + length (ts_queue st))")
    (simp, simp, fastforce dest: traverse_edges_measure)

declare traverse_loop.simps [simp del]

definition traversal_start :: "str \<Rightarrow> traversal_state" where
  "traversal_start seed =
     \<lparr>ts_visited = [seed], ts_queue = [(seed, 0, [])], ts_ids = [seed],
      ts_paths = [\<lparr>pr_node_id = seed, pr_steps = []\<rparr>], ts_inspected = 0, ts_accepted = 0,
      ts_skipped = []\<rparr>"

definition traversal_run ::
  "structural_graph_snapshot \<Rightarrow> traversal_request \<Rightarrow> traversal_error + traversal_receipt" where
  "traversal_run s rq =
     (if snapshot_node s (tq_seed rq) = None then Inl (MissingSeed (tq_seed rq))
      else if tq_relationships rq = [] then Inl EmptyRelationships
      else if tq_max_depth rq = 0 \<or> tq_max_depth rq > MAX_DEPTH \<or> tq_max_nodes rq = 0
          \<or> tq_max_nodes rq > MAX_NODES \<or> tq_max_edges rq = 0 \<or> tq_max_edges rq > MAX_EDGES
      then Inl (InvalidLimits (tq_max_depth rq) (tq_max_nodes rq) (tq_max_edges rq))
      else
        res_bind (check_relationships (tq_relationships rq) []) (\<lambda>allowed.
        res_bind (traverse_loop s rq allowed (traversal_start (tq_seed rq))) (\<lambda>(terminal, st).
          Inr \<lparr>tv_snapshot_digest = ss_snapshot_digest s, tv_seed = tq_seed rq,
               tv_relationships = tq_relationships rq, tv_max_depth = tq_max_depth rq,
               tv_max_nodes = tq_max_nodes rq, tv_max_edges = tq_max_edges rq,
               tv_visited_ids = ts_ids st, tv_paths = ts_paths st, tv_inspected = ts_inspected st,
               tv_accepted = ts_accepted st, tv_skipped = ts_skipped st,
               tv_terminal = terminal\<rparr>)))"


section \<open>One node's edges\<close>

definition within_limits :: "traversal_request \<Rightarrow> traversal_state \<Rightarrow> bool" where
  "within_limits rq st \<longleftrightarrow> tq_max_nodes rq \<le> MAX_NODES \<and> tq_max_edges rq \<le> MAX_EDGES
     \<and> length (ts_visited st) \<le> tq_max_nodes rq \<and> ts_inspected st \<le> tq_max_edges rq
     \<and> length (ts_visited st) = Suc (ts_accepted st) \<and> ts_accepted st \<le> ts_inspected st"

text \<open>What walking over the edges of a node does, with the edges accepted.\<close>

definition accepted_from ::
  "structural_graph_snapshot \<Rightarrow> structural_edge_kind list \<Rightarrow> str \<Rightarrow> nat \<Rightarrow> path_step list
   \<Rightarrow> structural_edge list \<Rightarrow> traversal_state \<Rightarrow> structural_edge list \<Rightarrow> traversal_state \<Rightarrow> bool" where
  "accepted_from s allowed x d p es st new st' \<longleftrightarrow>
     (\<forall>e \<in> set new. e \<in> set es \<and> usable s allowed x e \<and> other_end x e \<notin> set (ts_visited st))
     \<and> distinct (map (other_end x) new)
     \<and> ts_visited st' = List.rev (map (other_end x) new) @ ts_visited st
     \<and> ts_queue st' = ts_queue st @ map (\<lambda>e. (other_end x e, d + 1, p @ [step_of e])) new
     \<and> ts_ids st' = ts_ids st @ map (other_end x) new
     \<and> ts_paths st' = ts_paths st
         @ map (\<lambda>e. \<lparr>pr_node_id = other_end x e, pr_steps = p @ [step_of e]\<rparr>) new
     \<and> (\<forall>k \<in> set (ts_skipped st') - set (ts_skipped st). \<exists>e \<in> set es. k \<in> set (skips s allowed x e))"

definition stopped_by ::
  "structural_graph_snapshot \<Rightarrow> traversal_request \<Rightarrow> structural_edge_kind list \<Rightarrow> str
   \<Rightarrow> structural_edge list \<Rightarrow> traversal_terminal \<Rightarrow> traversal_state \<Rightarrow> bool" where
  "stopped_by s rq allowed x es t st \<longleftrightarrow> (case t of
       Tt_Complete \<Rightarrow> \<forall>e \<in> set es. usable s allowed x e \<longrightarrow> other_end x e \<in> set (ts_visited st)
     | Tt_DepthLimit \<Rightarrow> False
     | Tt_NodeLimit \<Rightarrow> length (ts_visited st) = tq_max_nodes rq
         \<and> (\<exists>e \<in> set es. usable s allowed x e \<and> other_end x e \<notin> set (ts_visited st))
     | Tt_EdgeLimit \<Rightarrow> ts_inspected st = tq_max_edges rq)"

lemma inspect_edge_ok:
  "within_limits rq st \<Longrightarrow> \<exists>t st'. inspect_edge s rq allowed x d p e st = Inr (t, st')"
  by (auto simp: inspect_edge_def within_limits_def Let_def MAX_NODES_def MAX_EDGES_def u64_max_def
      checked_add_u64_def)

lemma accepted_refl: "accepted_from s allowed x d p es st [] st"
  by (simp add: accepted_from_def)

lemma accepted_Cons:
  assumes "accepted_from s allowed x d p es (accept_edge x d p e a st) new st'"
    "usable s allowed x e" "other_end x e \<notin> set (ts_visited st)"
  shows "accepted_from s allowed x d p (e # es) st (e # new) st'"
  using assms unfolding accepted_from_def by (auto simp: image_iff)

lemma accepted_pass:
  assumes "accepted_from s allowed x d p es st1 new st'"
    "ts_visited st1 = ts_visited st" "ts_queue st1 = ts_queue st" "ts_ids st1 = ts_ids st"
    "ts_paths st1 = ts_paths st" "ts_skipped st1 = ts_skipped st @ skips s allowed x e"
  shows "accepted_from s allowed x d p (e # es) st new st'"
  using assms unfolding accepted_from_def by auto

lemma traverse_edges_spec:
  assumes "within_limits rq st"
  shows "\<exists>t st' new. traverse_edges s rq allowed x d p es st = Inr (t, st') \<and> within_limits rq st'
    \<and> accepted_from s allowed x d p es st new st' \<and> stopped_by s rq allowed x es t st'"
  using assms
proof (induction es arbitrary: st)
  case Nil
  then show ?case using accepted_refl [of s allowed x d p "[]" st] by (fastforce simp: stopped_by_def)
next
  case (Cons e es)
  obtain t1 st1 where i: "inspect_edge s rq allowed x d p e st = Inr (t1, st1)"
    using inspect_edge_ok [OF Cons.prems] by blast
  from i show ?case
  proof (cases rule: inspect_edge_cases)
    case pass
    have w: "within_limits rq st1" using Cons.prems pass by (auto simp: within_limits_def split: if_splits)
    obtain t st' new where r: "traverse_edges s rq allowed x d p es st1 = Inr (t, st')" "within_limits rq st'"
      "accepted_from s allowed x d p es st1 new st'" "stopped_by s rq allowed x es t st'"
      using Cons.IH [OF w] by blast
    have "set (ts_visited st) \<subseteq> set (ts_visited st')" using r(3) pass by (auto simp: accepted_from_def)
    with r(4) pass(2) have "stopped_by s rq allowed x (e # es) t st'"
      by (auto simp: stopped_by_def split: traversal_terminal.splits)
    moreover have "accepted_from s allowed x d p (e # es) st new st'"
      by (rule accepted_pass [OF r(3)]) (use pass in simp_all)
    ultimately show ?thesis using i r(1,2) pass(1) by auto
  next
    case accept
    have w: "within_limits rq st1" using Cons.prems accept by (auto simp: within_limits_def)
    obtain t st' new where r: "traverse_edges s rq allowed x d p es st1 = Inr (t, st')" "within_limits rq st'"
      "accepted_from s allowed x d p es st1 new st'" "stopped_by s rq allowed x es t st'"
      using Cons.IH [OF w] by blast
    have "accepted_from s allowed x d p (e # es) (st\<lparr>ts_inspected := ts_inspected st + 1\<rparr>) (e # new) st'"
      by (rule accepted_Cons [OF r(3) [unfolded accept(6)]]) (use accept in simp_all)
    then have a: "accepted_from s allowed x d p (e # es) st (e # new) st'" by (simp add: accepted_from_def)
    then have "other_end x e \<in> set (ts_visited st')" by (simp add: accepted_from_def)
    with r(4) have "stopped_by s rq allowed x (e # es) t st'"
      by (auto simp: stopped_by_def split: traversal_terminal.splits)
    with a show ?thesis using i r(1,2) accept(1) by auto
  next
    case edges
    then have "stopped_by s rq allowed x (e # es) t1 st1" by (simp add: stopped_by_def)
    with edges i Cons.prems accepted_refl show ?thesis by fastforce
  next
    case nodes
    then have "stopped_by s rq allowed x (e # es) t1 st1" by (simp add: stopped_by_def)
    moreover have "accepted_from s allowed x d p (e # es) st [] st1" using nodes by (simp add: accepted_from_def)
    moreover have "within_limits rq st1" using nodes Cons.prems by (auto simp: within_limits_def)
    ultimately show ?thesis using i nodes(1) by fastforce
  qed
qed


section \<open>The whole search\<close>

definition walk_succs :: "structural_graph_snapshot \<Rightarrow> structural_edge_kind list \<Rightarrow> str \<Rightarrow> str list" where
  "walk_succs s allowed x = map (other_end x) (filter (usable s allowed x) (adjacent s x))"

interpretation walk: search "walk_succs s allowed" for s allowed .

fun step_path ::
  "structural_graph_snapshot \<Rightarrow> structural_edge_kind list \<Rightarrow> str \<Rightarrow> path_step list \<Rightarrow> str \<Rightarrow> bool" where
  "step_path s allowed a [] b \<longleftrightarrow> a = b"
| "step_path s allowed a (k # ks) b \<longleftrightarrow>
     (\<exists>e \<in> set (adjacent s a). usable s allowed a e \<and> k = step_of e \<and> step_path s allowed (other_end a e) ks b)"

lemma step_path_snoc:
  "step_path s allowed a ks b \<Longrightarrow> e \<in> set (adjacent s b) \<Longrightarrow> usable s allowed b e \<Longrightarrow>
     step_path s allowed a (ks @ [step_of e]) (other_end b e)"
  by (induction ks arbitrary: a) auto

text \<open>Every visited node has its path, as long as its distance, and every skipped edge its reason.\<close>

definition trace_ok ::
  "structural_graph_snapshot \<Rightarrow> structural_edge_kind list \<Rightarrow> str \<Rightarrow> nat \<Rightarrow> traversal_state \<Rightarrow> bool" where
  "trace_ok s allowed seed limit st \<longleftrightarrow>
     distinct (ts_visited st) \<and> ts_ids st = List.rev (ts_visited st) \<and> hd (ts_ids st) = seed
     \<and> ts_ids st \<noteq> [] \<and> map pr_node_id (ts_paths st) = ts_ids st
     \<and> (\<forall>q \<in> set (ts_paths st). length (pr_steps q) \<le> limit
          \<and> walk.at_depth s allowed {seed} (length (pr_steps q)) (pr_node_id q)
          \<and> step_path s allowed seed (pr_steps q) (pr_node_id q))
     \<and> (\<forall>(x, d, p) \<in> set (ts_queue st). d = length p \<and> \<lparr>pr_node_id = x, pr_steps = p\<rparr> \<in> set (ts_paths st))
     \<and> (\<forall>k \<in> set (ts_skipped st). \<exists>x e. e \<in> set (adjacent s x) \<and> x \<in> set (ts_visited st)
          \<and> k \<in> set (skips s allowed x e))"

definition queued :: "traversal_queue \<Rightarrow> (str \<times> nat) list" where
  "queued = map (\<lambda>(x, d, p). (x, d))"

definition nodes_named :: "structural_graph_snapshot \<Rightarrow> bool" where
  "nodes_named s \<longleftrightarrow> (\<forall>i n. snapshot_node s i = Some n \<longrightarrow> sn_id n = i)"

lemma has_traversable_neighbor_iff:
  assumes "nodes_named s"
  shows "has_traversable_neighbor s x allowed visited \<longleftrightarrow> \<not> set (walk_succs s allowed x) \<subseteq> set visited"
  using assms unfolding has_traversable_neighbor_def walk_succs_def nodes_named_def usable_def
  by (fastforce simp: list_ex_iff split: option.splits)

lemma trace_ball:
  assumes "trace_ok s allowed seed limit st"
  shows "set (ts_visited st) \<subseteq> walk.ball s allowed {seed} limit"
proof
  fix y assume "y \<in> set (ts_visited st)"
  have m: "map pr_node_id (ts_paths st) = List.rev (ts_visited st)"
    using assms unfolding trace_ok_def by metis
  have "y \<in> set (map pr_node_id (ts_paths st))" unfolding m using \<open>y \<in> _\<close> by simp
  then obtain q where "q \<in> set (ts_paths st)" "pr_node_id q = y" by auto
  with assms have "walk.at_depth s allowed {seed} (length (pr_steps q)) y" "length (pr_steps q) \<le> limit"
    unfolding trace_ok_def by blast+
  then show "y \<in> walk.ball s allowed {seed} limit"
    using walk.ball_mono unfolding walk.at_depth_def by blast
qed

lemma trace_step:
  assumes t: "trace_ok s allowed seed limit st" and q: "ts_queue st = (x, d, p) # q0"
    and inv: "walk.search_inv s allowed {seed} limit (set (ts_visited st)) (queued (ts_queue st))"
    and lt: "d < limit"
    and a: "accepted_from s allowed x d p (sort_key edge_order (adjacent s x)) (st\<lparr>ts_queue := q0\<rparr>) new st'"
  shows "trace_ok s allowed seed limit st'"
proof -
  have new: "e \<in> set (adjacent s x)" "usable s allowed x e" "other_end x e \<notin> set (ts_visited st)"
    if "e \<in> set new" for e using a that unfolding accepted_from_def by auto
  have inv': "walk.search_inv s allowed {seed} limit (set (ts_visited st)) ((x, d) # queued q0)"
    using inv q by (simp add: queued_def)
  have x: "d = length p" "\<lparr>pr_node_id = x, pr_steps = p\<rparr> \<in> set (ts_paths st)"
    using t q unfolding trace_ok_def by auto
  have px: "step_path s allowed seed p x" using t x(2) unfolding trace_ok_def by fastforce
  have deep: "walk.at_depth s allowed {seed} (Suc d) (other_end x e)" if "e \<in> set new" for e
    using walk.search_fresh [OF inv', of "other_end x e"] new [OF that] by (auto simp: walk_succs_def)
  have paths: "\<forall>q \<in> set (ts_paths st'). length (pr_steps q) \<le> limit
      \<and> walk.at_depth s allowed {seed} (length (pr_steps q)) (pr_node_id q)
      \<and> step_path s allowed seed (pr_steps q) (pr_node_id q)"
  proof
    fix r assume "r \<in> set (ts_paths st')"
    then consider "r \<in> set (ts_paths st)"
      | e where "e \<in> set new" "r = \<lparr>pr_node_id = other_end x e, pr_steps = p @ [step_of e]\<rparr>"
      using a unfolding accepted_from_def by auto
    then show "length (pr_steps r) \<le> limit
      \<and> walk.at_depth s allowed {seed} (length (pr_steps r)) (pr_node_id r)
      \<and> step_path s allowed seed (pr_steps r) (pr_node_id r)"
    proof cases
      case 1
      then show ?thesis using t unfolding trace_ok_def by blast
    next
      case 2
      then show ?thesis using deep [OF 2(1)] step_path_snoc [OF px new(1,2) [OF 2(1)]] lt x(1) by simp
    qed
  qed
  have ids: "distinct (ts_visited st')" "ts_ids st' = List.rev (ts_visited st')" "hd (ts_ids st') = seed"
    "ts_ids st' \<noteq> []" "map pr_node_id (ts_paths st') = ts_ids st'"
  proof -
    have a': "ts_visited st' = List.rev (map (other_end x) new) @ ts_visited st"
      "distinct (map (other_end x) new)" "ts_ids st' = ts_ids st @ map (other_end x) new"
      "ts_paths st' = ts_paths st @ map (\<lambda>e. \<lparr>pr_node_id = other_end x e, pr_steps = p @ [step_of e]\<rparr>) new"
      using a unfolding accepted_from_def by simp_all
    have t': "distinct (ts_visited st)" "ts_ids st = List.rev (ts_visited st)" "hd (ts_ids st) = seed"
      "ts_ids st \<noteq> []" "map pr_node_id (ts_paths st) = ts_ids st"
      using t unfolding trace_ok_def by blast+
    show "distinct (ts_visited st')" using a'(1,2) t'(1) new(3) by auto
    show "ts_ids st' = List.rev (ts_visited st')" using a'(1,3) t'(2) by simp
    show "hd (ts_ids st') = seed" "ts_ids st' \<noteq> []" using a'(3) t'(3,4) by simp_all
    show "map pr_node_id (ts_paths st') = ts_ids st'" using a'(3,4) t'(5) by (simp add: comp_def)
  qed
  have queue: "\<forall>(x, d, p) \<in> set (ts_queue st'). d = length p
      \<and> \<lparr>pr_node_id = x, pr_steps = p\<rparr> \<in> set (ts_paths st')"
    using t a q x(1) unfolding trace_ok_def accepted_from_def by auto
  have xv: "x \<in> set (ts_visited st)"
    using walk.search_head(3) [OF inv'] .
  have skipped: "\<forall>k \<in> set (ts_skipped st'). \<exists>x e. e \<in> set (adjacent s x) \<and> x \<in> set (ts_visited st')
      \<and> k \<in> set (skips s allowed x e)"
  proof
    fix k assume k: "k \<in> set (ts_skipped st')"
    have sub: "set (ts_visited st) \<subseteq> set (ts_visited st')" using a by (auto simp: accepted_from_def)
    show "\<exists>x e. e \<in> set (adjacent s x) \<and> x \<in> set (ts_visited st') \<and> k \<in> set (skips s allowed x e)"
    proof (cases "k \<in> set (ts_skipped st)")
      case True
      then show ?thesis using t sub unfolding trace_ok_def by blast
    next
      case False
      then obtain e where "e \<in> set (adjacent s x)" "k \<in> set (skips s allowed x e)"
        using a k unfolding accepted_from_def by auto
      then show ?thesis using xv sub by blast
    qed
  qed
  show ?thesis unfolding trace_ok_def using ids paths queue skipped by blast
qed

definition walk_stop ::
  "structural_graph_snapshot \<Rightarrow> traversal_request \<Rightarrow> structural_edge_kind list \<Rightarrow> str
   \<Rightarrow> traversal_terminal \<Rightarrow> traversal_state \<Rightarrow> bool" where
  "walk_stop s rq allowed seed t st \<longleftrightarrow>
     (let seen = set (ts_visited st); ball = walk.ball s allowed {seed} (tq_max_depth rq);
          reach = walk.reach s allowed {seed} in
      case t of
        Tt_Complete \<Rightarrow> seen = reach
      | Tt_DepthLimit \<Rightarrow> seen = ball \<and> seen \<noteq> reach
          \<and> (\<exists>q \<in> set (ts_paths st). length (pr_steps q) = tq_max_depth rq)
      | Tt_NodeLimit \<Rightarrow> length (ts_visited st) = tq_max_nodes rq \<and> seen \<noteq> ball
      | Tt_EdgeLimit \<Rightarrow> ts_inspected st = tq_max_edges rq)"

lemma queued_append [simp]: "queued (xs @ ys) = queued xs @ queued ys"
  and queued_map [simp]: "queued (map (\<lambda>e. (f e, d, h e)) es) = map (\<lambda>y. (y, d)) (map f es)"
  by (simp_all add: queued_def)

lemma traverse_loop_spec:
  assumes "nodes_named s" "within_limits rq st" "trace_ok s allowed seed (tq_max_depth rq) st"
    "walk.search_flag s allowed {seed} (tq_max_depth rq) (set (ts_visited st)) (queued (ts_queue st)) False"
  shows "\<exists>t st'. traverse_loop s rq allowed st = Inr (t, st') \<and> within_limits rq st'
    \<and> trace_ok s allowed seed (tq_max_depth rq) st' \<and> walk_stop s rq allowed seed t st'"
  using assms
proof (induction s rq allowed st rule: traverse_loop.induct)
  case (1 s rq allowed st)
  let ?m = "tq_max_depth rq"
  note named = "1.prems"(1) and lim = "1.prems"(2) and trace = "1.prems"(3) and flag = "1.prems"(4)
  note unf = traverse_loop.simps [of s rq allowed st]
  show ?case
  proof (cases "ts_queue st")
    case Nil
    then have "walk_stop s rq allowed seed Tt_Complete st"
      using walk.flag_end [of s allowed "{seed}" ?m "set (ts_visited st)" False] flag
      by (auto simp: walk_stop_def queued_def)
    with Nil unf lim trace show ?thesis by simp
  next
    case (Cons h q0)
    obtain x d p where h: "h = (x, d, p)" by (cases h)
    let ?st = "st\<lparr>ts_queue := q0\<rparr>"
    have q: "ts_queue st = (x, d, p) # q0" using Cons h by simp
    have flag': "walk.search_flag s allowed {seed} ?m (set (ts_visited st)) ((x, d) # queued q0) False"
      using flag q by (simp add: queued_def)
    note inv = walk.flag_inv [OF flag']
    have lim0: "within_limits rq ?st" using lim by (simp add: within_limits_def)
    have trace0: "trace_ok s allowed seed ?m ?st" using trace q unfolding trace_ok_def by auto
    note hn = has_traversable_neighbor_iff [OF named, of x allowed "ts_visited st"]
    show ?thesis
    proof (cases "d = ?m")
      case True
      note fl = walk.flag_limit [OF flag' [unfolded True]]
      show ?thesis
      proof (cases "has_traversable_neighbor s x allowed (ts_visited st)")
        case True
        with fl hn have "walk.search_flag s allowed {seed} ?m (set (ts_visited st)) (queued q0) True" by simp
        then have ball: "set (ts_visited st) = walk.ball s allowed {seed} ?m"
          by (simp add: walk.search_flag_def)
        have "x \<in> walk.reach s allowed {seed}"
          using walk.search_head(3,4) [OF inv] walk.ball_reach by blast
        moreover obtain y where "y \<in> set (walk_succs s allowed x)" "y \<notin> set (ts_visited st)"
          using True hn by blast
        ultimately have "set (ts_visited st) \<noteq> walk.reach s allowed {seed}"
          using walk.reach_step by blast
        moreover have "d = length p" "\<lparr>pr_node_id = x, pr_steps = p\<rparr> \<in> set (ts_paths st)"
          using trace q unfolding trace_ok_def by auto
        ultimately have "walk_stop s rq allowed seed Tt_DepthLimit ?st"
          using ball \<open>d = ?m\<close> by (force simp: walk_stop_def)
        with unf q \<open>d = ?m\<close> True lim0 trace0 show ?thesis by simp
      next
        case False
        with fl hn have "walk.search_flag s allowed {seed} ?m (set (ts_visited ?st)) (queued (ts_queue ?st)) False"
          by simp
        with "1.IH"(1) [OF q refl refl refl \<open>d = ?m\<close> _ named lim0 trace0] False
        show ?thesis using unf q \<open>d = ?m\<close> by simp
      qed
    next
      case False
      then have lt: "d < ?m" using walk.search_head(1) [OF inv] by simp
      let ?es = "sort_key edge_order (adjacent s x)"
      obtain t st' new where r: "traverse_edges s rq allowed x d p ?es ?st = Inr (t, st')" "within_limits rq st'"
        "accepted_from s allowed x d p ?es ?st new st'" "stopped_by s rq allowed x ?es t st'"
        using traverse_edges_spec [OF lim0] by blast
      have trace': "trace_ok s allowed seed ?m st'"
        by (rule trace_step [OF trace q walk.flag_inv [OF flag] lt r(3)])
      have vis: "set (ts_visited st') = set (ts_visited st) \<union> set (map (other_end x) new)"
        and queue: "queued (ts_queue st') = queued q0 @ map (\<lambda>y. (y, Suc d)) (map (other_end x) new)"
        and sub: "set (map (other_end x) new) \<subseteq> set (walk_succs s allowed x) - set (ts_visited st)"
        using r(3) by (auto simp: accepted_from_def walk_succs_def)
      show ?thesis
      proof (cases "t = Tt_Complete")
        case True
        with r(4) have "set (walk_succs s allowed x) \<subseteq> set (ts_visited st')"
          by (auto simp: stopped_by_def walk_succs_def)
        with sub vis have "set (map (other_end x) new) = set (walk_succs s allowed x) - set (ts_visited st)"
          by blast
        from walk.flag_expand [OF flag' lt this]
        have "walk.search_flag s allowed {seed} ?m (set (ts_visited st')) (queued (ts_queue st')) False"
          unfolding vis queue .
        with "1.IH"(2) [OF q refl refl refl False r(1) refl _ named r(2) trace'] True
        show ?thesis using unf q False r(1) by simp
      next
        case stop: False
        have "walk_stop s rq allowed seed t st'"
        proof (cases t)
          case Tt_NodeLimit
          with r(4) obtain e where e: "e \<in> set (adjacent s x)" "usable s allowed x e"
            "other_end x e \<notin> set (ts_visited st')" "length (ts_visited st') = tq_max_nodes rq"
            by (auto simp: stopped_by_def)
          then have "other_end x e \<in> set (walk_succs s allowed x)" "other_end x e \<notin> set (ts_visited st)"
            using vis by (auto simp: walk_succs_def)
          from walk.search_fresh [OF inv this]
          have "other_end x e \<in> walk.ball s allowed {seed} ?m"
            using walk.ball_mono [OF Suc_leI [OF lt], of s allowed "{seed}"]
            unfolding walk.at_depth_def by blast
          with e Tt_NodeLimit show ?thesis by (auto simp: walk_stop_def)
        qed (use r(4) stop in \<open>auto simp: walk_stop_def stopped_by_def\<close>)
        with unf q False r trace' stop show ?thesis by simp
      qed
    qed
  qed
qed


section \<open>In terms of the records\<close>

text \<open>Neighbours along a \<open>Known\<close> edge of one of the kinds, in either direction.\<close>

definition undirected :: "structural_edge list \<Rightarrow> structural_edge_kind list \<Rightarrow> (str \<times> str) set" where
  "undirected edges kinds = {(x, y). \<exists>e \<in> set edges. se_kind e \<in> set kinds \<and> se_certainty e = Ec_Known
     \<and> (se_source e = x \<and> se_target e = y \<or> se_source e = y \<and> se_target e = x)}"

fun edge_path ::
  "structural_edge list \<Rightarrow> structural_edge_kind list \<Rightarrow> str \<Rightarrow> path_step list \<Rightarrow> str \<Rightarrow> bool" where
  "edge_path edges kinds a [] b \<longleftrightarrow> a = b"
| "edge_path edges kinds a (k # ks) b \<longleftrightarrow>
     (\<exists>e \<in> set edges. se_kind e \<in> set kinds \<and> se_certainty e = Ec_Known
        \<and> (se_source e = a \<or> se_target e = a) \<and> k = step_of e
        \<and> edge_path edges kinds (other_end a e) ks b)"

definition traversal_request_ok :: "structural_node list \<Rightarrow> traversal_request \<Rightarrow> bool" where
  "traversal_request_ok nodes rq \<longleftrightarrow> tq_seed rq \<in> sn_id ` set nodes
     \<and> tq_relationships rq \<noteq> [] \<and> distinct (tq_relationships rq)
     \<and> list_all traversable_structural_kind (tq_relationships rq)
     \<and> tq_max_depth rq \<in> {1..MAX_DEPTH} \<and> tq_max_nodes rq \<in> {1..MAX_NODES}
     \<and> tq_max_edges rq \<in> {1..MAX_EDGES}"

lemma check_relationships_Inr:
  "check_relationships ks allowed = Inr a \<longleftrightarrow> list_all traversable_structural_kind ks
     \<and> distinct ks \<and> set ks \<inter> set allowed = {} \<and> a = List.rev ks @ allowed"
  by (induction ks arbitrary: allowed) auto

lemma check_relationships_Inl:
  "check_relationships ks allowed = Inl e \<Longrightarrow> e \<noteq> ArithmeticOverflow w"
  by (induction ks arbitrary: allowed) (auto split: if_splits)

lemma new_structure: "snapshot_new v p sc g f nodes edges r = Inr s \<Longrightarrow> structure_ok nodes edges"
  unfolding snapshot_new_Inr snapshot_request_ok_def by simp

lemma new_node_None:
  "snapshot_new v p sc g f nodes edges r = Inr s \<Longrightarrow> snapshot_node s i = None \<longleftrightarrow> i \<notin> sn_id ` set nodes"
  using snapshot_lookups(1) [of v p sc g f nodes edges r s i] by (auto simp: find_None_iff)

lemma new_named: "snapshot_new v p sc g f nodes edges r = Inr s \<Longrightarrow> nodes_named s"
  unfolding nodes_named_def using snapshot_lookups(1) [of v p sc g f nodes edges r s]
  by (auto simp: find_Some_iff)

lemma new_edge:
  "snapshot_new v p sc g f nodes edges r = Inr s \<Longrightarrow> e \<in> set edges \<Longrightarrow> snapshot_edge s (se_id e) = Some e"
  using new_structure [of v p sc g f nodes edges r s] snapshot_lookups(2) [of v p sc g f nodes edges r s]
  by (simp add: structure_ok_def find_distinct)

lemma new_adjacent:
  assumes new: "snapshot_new v p sc g f nodes edges r = Inr s"
  shows "set (adjacent s x) = {e \<in> set edges. se_source e = x \<or> se_target e = x}"
proof -
  have ids: "set (snapshot_forward_edges s x) = se_id ` {e \<in> set edges. se_source e = x}"
    "set (snapshot_reverse_edges s x) = se_id ` {e \<in> set edges. se_target e = x}"
    using arg_cong [OF snapshot_lookups(3) [OF new, of x], of set_mset]
      arg_cong [OF snapshot_lookups(4) [OF new, of x], of set_mset] by simp_all
  have "set (adjacent s x) = {e. \<exists>i \<in> set (snapshot_forward_edges s x) \<union> set (snapshot_reverse_edges s x).
      snapshot_edge s i = Some e}"
    by (force simp: adjacent_def List.map_filter_def)
  also have "\<dots> = {e \<in> set edges. se_source e = x \<or> se_target e = x}"
    unfolding ids using new_edge [OF new] by force
  finally show ?thesis .
qed

lemma new_usable:
  assumes new: "snapshot_new v p sc g f nodes edges r = Inr s" and "e \<in> set (adjacent s x)"
  shows "usable s allowed x e \<longleftrightarrow> se_kind e \<in> set allowed \<and> se_certainty e = Ec_Known"
  using assms(2) new_structure [OF new] new_node_None [OF new]
  unfolding new_adjacent [OF new] usable_def
  by (auto simp: structure_ok_def structural_edge_ok_def list_all_iff other_end_def)

lemma new_rel:
  assumes new: "snapshot_new v p sc g f nodes edges r = Inr s"
  shows "walk.succ_rel s allowed = undirected edges allowed"
proof -
  have "set (walk_succs s allowed x) = other_end x ` {e \<in> set (adjacent s x). se_kind e \<in> set allowed
      \<and> se_certainty e = Ec_Known}" for x
    unfolding walk_succs_def using new_usable [OF new] by auto
  then show ?thesis
    unfolding walk.succ_rel_def new_adjacent [OF new] undirected_def
    by (auto simp: other_end_def image_iff)
qed

lemma new_path:
  assumes new: "snapshot_new v p sc g f nodes edges r = Inr s"
  shows "step_path s allowed a ks b \<longleftrightarrow> edge_path edges allowed a ks b"
proof (induction ks arbitrary: a)
  case (Cons k ks)
  have "e \<in> set (adjacent s a) \<and> usable s allowed a e \<longleftrightarrow> e \<in> set edges \<and> se_kind e \<in> set allowed
      \<and> se_certainty e = Ec_Known \<and> (se_source e = a \<or> se_target e = a)" for e
    using new_usable [OF new, of e a allowed] unfolding new_adjacent [OF new] by auto
  with Cons show ?case unfolding step_path.simps edge_path.simps Bex_def by metis
qed simp

lemma new_skips:
  assumes "snapshot_new v p sc g f nodes edges r = Inr s"
    "e \<in> set (adjacent s x)" "k \<in> set (skips s allowed x e)"
  shows "se_kind e \<in> set allowed \<and> se_certainty e \<noteq> Ec_Known
     \<and> k = \<lparr>sk_edge_id = se_id e, sk_certainty = se_certainty e, sk_reason = ''non-known''\<rparr>"
  using assms(3) new_usable [OF assms(1,2), of allowed] by (auto simp: skips_def usable_def split: if_splits)

lemma undirected_cong: "set ks = set ks' \<Longrightarrow> undirected edges ks = undirected edges ks'"
  by (simp add: undirected_def)

lemma edge_path_cong: "set ks = set ks' \<Longrightarrow> edge_path edges ks a ps b = edge_path edges ks' a ps b"
  by (induction ps arbitrary: a) simp_all


text \<open>A valid request is served, by the state the loop ends in.\<close>

lemma traversal_served:
  assumes new: "snapshot_new v p sc g f nodes edges r = Inr s" and ok: "traversal_request_ok nodes rq"
  shows "\<exists>t st. traversal_run s rq = Inr
      \<lparr>tv_snapshot_digest = ss_snapshot_digest s, tv_seed = tq_seed rq,
       tv_relationships = tq_relationships rq, tv_max_depth = tq_max_depth rq,
       tv_max_nodes = tq_max_nodes rq, tv_max_edges = tq_max_edges rq, tv_visited_ids = ts_ids st,
       tv_paths = ts_paths st, tv_inspected = ts_inspected st, tv_accepted = ts_accepted st,
       tv_skipped = ts_skipped st, tv_terminal = t\<rparr>
    \<and> within_limits rq st
    \<and> trace_ok s (List.rev (tq_relationships rq)) (tq_seed rq) (tq_max_depth rq) st
    \<and> walk_stop s rq (List.rev (tq_relationships rq)) (tq_seed rq) t st"
proof -
  let ?seed = "tq_seed rq" and ?ks = "tq_relationships rq"
  let ?a = "List.rev ?ks" and ?st = "traversal_start (tq_seed rq)" and ?m = "tq_max_depth rq"
  have ck: "check_relationships ?ks [] = Inr ?a"
    using ok by (simp add: check_relationships_Inr traversal_request_ok_def)
  have lim: "within_limits rq ?st"
    using ok by (auto simp: within_limits_def traversal_start_def traversal_request_ok_def)
  have tr: "trace_ok s ?a ?seed ?m ?st"
    by (simp add: trace_ok_def traversal_start_def walk.at_depth_def)
  have fl: "walk.search_flag s ?a {?seed} ?m (set (ts_visited ?st)) (queued (ts_queue ?st)) False"
    using walk.flag_start [of "[?seed]" "{?seed}" s ?a ?m] by (simp add: traversal_start_def queued_def)
  obtain t st where l: "traverse_loop s rq ?a ?st = Inr (t, st)" "within_limits rq st"
    "trace_ok s ?a ?seed ?m st" "walk_stop s rq ?a ?seed t st"
    using traverse_loop_spec [OF new_named [OF new] lim tr fl] by blast
  have "traversal_run s rq = Inr
      \<lparr>tv_snapshot_digest = ss_snapshot_digest s, tv_seed = ?seed, tv_relationships = ?ks,
       tv_max_depth = ?m, tv_max_nodes = tq_max_nodes rq,
       tv_max_edges = tq_max_edges rq, tv_visited_ids = ts_ids st, tv_paths = ts_paths st,
       tv_inspected = ts_inspected st, tv_accepted = ts_accepted st, tv_skipped = ts_skipped st,
       tv_terminal = t\<rparr>"
    using ok ck l(1) by (auto simp: traversal_run_def traversal_request_ok_def new_node_None [OF new])
  with l(2-4) show ?thesis by blast
qed

text \<open>
  C9. Over a new snapshot a traversal succeeds exactly for a request within the limits whose
  seed is a node and whose kinds are traversable and distinct, and never overflows. It visits
  nodes once, the seed first, within the limits, each with a path of existing edges as long
  as its distance; what it skips are edges that are not \<open>Known\<close>. When it says complete, the
  nodes visited are all those the seed reaches; at the depth limit, all those within that
  depth, and more can be reached; at the node limit, as many as allowed and not all of those.
\<close>

theorem traversal_exact:
  assumes new: "snapshot_new v p sc g f nodes edges r = Inr s"
  shows "case traversal_run s rq of
     Inl e \<Rightarrow> \<not> traversal_request_ok nodes rq \<and> (\<forall>w. e \<noteq> ArithmeticOverflow w)
   | Inr t \<Rightarrow> traversal_request_ok nodes rq \<and>
      (let R = undirected edges (tq_relationships rq); ids = tv_visited_ids t;
           near = within_hops R {tq_seed rq} (tq_max_depth rq) in
       distinct ids \<and> hd ids = tq_seed rq \<and> set ids \<subseteq> near
       \<and> length ids \<le> tq_max_nodes rq \<and> length ids = tv_accepted t + 1
       \<and> tv_accepted t \<le> tv_inspected t \<and> tv_inspected t \<le> tq_max_edges rq
       \<and> map pr_node_id (tv_paths t) = ids
       \<and> (\<forall>q \<in> set (tv_paths t). hops R {tq_seed rq} (length (pr_steps q)) (pr_node_id q)
            \<and> edge_path edges (tq_relationships rq) (tq_seed rq) (pr_steps q) (pr_node_id q))
       \<and> (\<forall>k \<in> set (tv_skipped t). \<exists>e \<in> set edges. se_kind e \<in> set (tq_relationships rq)
            \<and> se_certainty e \<noteq> Ec_Known \<and> (se_source e \<in> set ids \<or> se_target e \<in> set ids)
            \<and> k = \<lparr>sk_edge_id = se_id e, sk_certainty = se_certainty e, sk_reason = ''non-known''\<rparr>)
       \<and> (case tv_terminal t of
            Tt_Complete \<Rightarrow> set ids = R\<^sup>* `` {tq_seed rq}
          | Tt_DepthLimit \<Rightarrow> set ids = near \<and> set ids \<noteq> R\<^sup>* `` {tq_seed rq}
          | Tt_NodeLimit \<Rightarrow> length ids = tq_max_nodes rq \<and> set ids \<noteq> near
          | Tt_EdgeLimit \<Rightarrow> tv_inspected t = tq_max_edges rq))"
proof (cases "traversal_request_ok nodes rq")
  case False
  have "\<exists>e. traversal_run s rq = Inl e \<and> (\<forall>w. e \<noteq> ArithmeticOverflow w)"
  proof (cases "check_relationships (tq_relationships rq) []")
    case (Inl e)
    then show ?thesis using check_relationships_Inl [OF Inl] by (auto simp: traversal_run_def)
  next
    case (Inr a)
    with False show ?thesis
      by (auto simp: traversal_run_def traversal_request_ok_def new_node_None [OF new] check_relationships_Inr)
  qed
  with False show ?thesis by auto
next
  case True
  let ?seed = "tq_seed rq" and ?ks = "tq_relationships rq"
  let ?a = "List.rev ?ks" and ?m = "tq_max_depth rq"
  obtain t st rc where rc: "rc = \<lparr>tv_snapshot_digest = ss_snapshot_digest s, tv_seed = ?seed,
      tv_relationships = ?ks, tv_max_depth = ?m, tv_max_nodes = tq_max_nodes rq,
      tv_max_edges = tq_max_edges rq, tv_visited_ids = ts_ids st, tv_paths = ts_paths st,
      tv_inspected = ts_inspected st, tv_accepted = ts_accepted st, tv_skipped = ts_skipped st,
      tv_terminal = t\<rparr>" and run: "traversal_run s rq = Inr rc"
    and l: "within_limits rq st" "trace_ok s ?a ?seed ?m st" "walk_stop s rq ?a ?seed t st"
    using traversal_served [OF new True] by blast
  have R: "walk.succ_rel s ?a = undirected edges ?ks"
    unfolding new_rel [OF new] by (rule undirected_cong) simp
  note T = l(2) [unfolded trace_ok_def walk.at_depth_hops R new_path [OF new]]
  have P: "edge_path edges ?a a ps b = edge_path edges ?ks a ps b" for a ps b
    by (rule edge_path_cong) simp
  have vis: "ts_ids st = List.rev (ts_visited st)" using T by blast
  have "set (ts_ids st) \<subseteq> within_hops (undirected edges ?ks) {?seed} ?m"
    using trace_ball [OF l(2)] unfolding walk.ball_hops R vis by simp
  moreover have "\<exists>e \<in> set edges. se_kind e \<in> set ?ks \<and> se_certainty e \<noteq> Ec_Known
        \<and> (se_source e \<in> set (ts_ids st) \<or> se_target e \<in> set (ts_ids st))
        \<and> k = \<lparr>sk_edge_id = se_id e, sk_certainty = se_certainty e, sk_reason = ''non-known''\<rparr>"
    if k: "k \<in> set (ts_skipped st)" for k
  proof -
    obtain x e where e: "e \<in> set (adjacent s x)" "x \<in> set (ts_visited st)" "k \<in> set (skips s ?a x e)"
      using T k by blast
    with new_skips [OF new e(1,3)] show ?thesis unfolding new_adjacent [OF new] vis by auto
  qed
  moreover have "case t of
            Tt_Complete \<Rightarrow> set (ts_ids st) = (undirected edges ?ks)\<^sup>* `` {?seed}
          | Tt_DepthLimit \<Rightarrow> set (ts_ids st) = within_hops (undirected edges ?ks) {?seed} ?m
              \<and> set (ts_ids st) \<noteq> (undirected edges ?ks)\<^sup>* `` {?seed}
          | Tt_NodeLimit \<Rightarrow> length (ts_ids st) = tq_max_nodes rq
              \<and> set (ts_ids st) \<noteq> within_hops (undirected edges ?ks) {?seed} ?m
          | Tt_EdgeLimit \<Rightarrow> ts_inspected st = tq_max_edges rq"
    using l(3) unfolding walk_stop_def walk.ball_hops walk.reach_rtrancl R vis
    by (cases t) (auto simp: Let_def)
  moreover have "\<forall>q \<in> set (ts_paths st). hops (undirected edges ?ks) {?seed} (length (pr_steps q)) (pr_node_id q)
            \<and> edge_path edges ?ks ?seed (pr_steps q) (pr_node_id q)"
    using T unfolding P by blast
  moreover have "distinct (ts_ids st)" "hd (ts_ids st) = ?seed" "map pr_node_id (ts_paths st) = ts_ids st"
    using T vis by auto
  moreover have "length (ts_ids st) \<le> tq_max_nodes rq" "length (ts_ids st) = ts_accepted st + 1"
    "ts_inspected st \<le> tq_max_edges rq" "ts_accepted st \<le> ts_inspected st"
    using l(1) unfolding within_limits_def vis by simp_all
  moreover have sel: "tv_visited_ids rc = ts_ids st" "tv_paths rc = ts_paths st" "tv_accepted rc = ts_accepted st"
    "tv_inspected rc = ts_inspected st" "tv_skipped rc = ts_skipped st" "tv_terminal rc = t"
    by (simp_all add: rc)
  ultimately show ?thesis
    unfolding run sum.case Let_def sel using True by simp
qed

definition demo_loop :: structural_edge where
  "demo_loop = \<lparr>se_id = structural_edge_identity Ek_Dependency (sn_id demo_node) (sn_id demo_node) ''self'',
     se_kind = Ek_Dependency, se_source = sn_id demo_node, se_target = sn_id demo_node,
     se_source_locator = ''self'', se_provenance = [], se_certainty = Ec_Known\<rparr>"

definition demo_traversal :: traversal_request where
  "demo_traversal = \<lparr>tq_seed = sn_id demo_node, tq_relationships = [Ek_Dependency, Ek_Design],
     tq_max_depth = 2, tq_max_nodes = 4, tq_max_edges = 9\<rparr>"

theorem traversal_exact_witness:
  "case snapshot_new 1 None demo_digest demo_digest demo_digest [demo_node] [demo_loop] demo_receipt of
     Inl e \<Rightarrow> False
   | Inr s \<Rightarrow> (case traversal_run s demo_traversal of
        Inl e \<Rightarrow> False
      | Inr t \<Rightarrow> tv_visited_ids t = [sn_id demo_node] \<and> tv_terminal t \<noteq> Tt_NodeLimit)"
proof -
  have d: "validate_digest (sn_id demo_node) = Inr ()"
    by (simp add: demo_node_def structural_node_identity_def digest_valid)
  have "validate_structural_text ''self'' ''source locator'' = Inr ()" by code_simp
  then have e: "structural_edge_validate demo_loop = Inr ()"
    using d by (simp add: structural_edge_validate_def demo_loop_def validate_sorted_unique_provenance_def)
  then have "snapshot_request_ok 1 None demo_digest demo_digest demo_digest [demo_node] [demo_loop] demo_receipt"
    using demo_request_ok by (simp add: snapshot_request_ok_def structure_ok_def structural_edge_ok_def demo_loop_def)
  then obtain s where s: "snapshot_new 1 None demo_digest demo_digest demo_digest [demo_node] [demo_loop]
      demo_receipt = Inr s"
    using snapshot_new_fails [of 1 None demo_digest demo_digest demo_digest "[demo_node]" "[demo_loop]"
        demo_receipt]
    by (cases "snapshot_new 1 None demo_digest demo_digest demo_digest [demo_node] [demo_loop] demo_receipt")
      auto
  have ok: "traversal_request_ok [demo_node] demo_traversal"
    by (simp add: traversal_request_ok_def demo_traversal_def traversable_structural_kind_def
        MAX_DEPTH_def MAX_NODES_def MAX_EDGES_def)
  have "within_hops (undirected [demo_loop] ks) {sn_id demo_node} n \<subseteq> {sn_id demo_node}" for ks n
    by (induction n) (auto simp: within_hops_Suc undirected_def demo_loop_def)
  then have near: "within_hops (undirected [demo_loop] (tq_relationships demo_traversal)) {tq_seed demo_traversal} n
      \<subseteq> {sn_id demo_node}" for n by (simp add: demo_traversal_def)
  note run = traversal_exact [OF s, of demo_traversal]
  with ok obtain t where t: "traversal_run s demo_traversal = Inr t"
    by (cases "traversal_run s demo_traversal") auto
  have "distinct (tv_visited_ids t)" "hd (tv_visited_ids t) = sn_id demo_node"
    "set (tv_visited_ids t) \<subseteq> {sn_id demo_node}" "length (tv_visited_ids t) = tv_accepted t + 1"
    "tv_terminal t = Tt_NodeLimit \<longrightarrow> length (tv_visited_ids t) = 4"
    using run near [of 2] unfolding t Let_def by (auto simp: demo_traversal_def)
  moreover from this have "tv_visited_ids t = [sn_id demo_node]"
    by (cases "tv_visited_ids t"; cases "tl (tv_visited_ids t)") auto
  ultimately show ?thesis using s t by auto
qed

end
