(* ===== verification/Ranking.thy ===== *)
theory Ranking
  imports Structural_Json Query Traversal
begin

text \<open>
  Stage ranking over a structural snapshot, \<open>StageRanker\<close> of \<open>graph/query.rs\<close>: every node gets
  a key of ten parts, authority before relevance before use, and the first eligible ones are
  selected. Sets of kinds, domains and identities are lists of which only membership is used.
  A failing \<open>expect\<close> is \<open>None\<close>. The lemmas show that the ranking of a new snapshot is total,
  complete and in order.
\<close>

section \<open>Stages, evidence classes and requests\<close>

definition MAX_RANKING_SEED_BYTES :: nat where "MAX_RANKING_SEED_BYTES = 256"
definition MAX_RANKING_SELECTION :: nat where "MAX_RANKING_SELECTION = 4096"
definition MAX_RANKING_CANDIDATES :: nat where "MAX_RANKING_CANDIDATES = 1000000"
definition MAX_REQUIRED_DOMAINS :: nat where "MAX_REQUIRED_DOMAINS = 64"
definition MAX_REQUIRED_DOMAIN_BYTES :: nat where "MAX_REQUIRED_DOMAIN_BYTES = 128"
definition FREQUENCY_CAP_BASIS_POINTS :: nat where "FREQUENCY_CAP_BASIS_POINTS = 500"

datatype sdlc_stage =
    Sg_LegacyReconstruction | Sg_RequirementsReconciliation | Sg_ReplacementSpecification
  | Sg_Design | Sg_RegisterDriverContract | Sg_Implementation | Sg_ValidationRelease

datatype evidence_class =
  Cl_Requirement | Cl_Design | Cl_Implementation | Cl_Validation | Cl_Architecture | Cl_BusinessFlow

datatype ranking_error =
    EmptySeed
  | SeedTooLong nat
  | InvalidSelectionLimit nat
  | TooManyRequiredDomains nat
  | InvalidRequiredDomain str
  | DuplicateRequiredDomain str
  | DuplicateEvidenceClass evidence_class
  | UnknownStage str
  | UnknownEvidenceClass str
  | MalformedFrequencyDigest str
  | InvalidFrequencyValue str int
  | FrequencyDigestMismatch str str
  | UnknownFrequencyNode str
  | CandidateLimitExceeded nat

definition stage_as_str :: "sdlc_stage \<Rightarrow> str" where
  "stage_as_str g = (case g of
       Sg_LegacyReconstruction \<Rightarrow> ''legacy-reconstruction''
     | Sg_RequirementsReconciliation \<Rightarrow> ''requirements-reconciliation''
     | Sg_ReplacementSpecification \<Rightarrow> ''replacement-specification''
     | Sg_Design \<Rightarrow> ''design''
     | Sg_RegisterDriverContract \<Rightarrow> ''register-driver-contract''
     | Sg_Implementation \<Rightarrow> ''implementation''
     | Sg_ValidationRelease \<Rightarrow> ''validation-release'')"

definition stage_parse :: "str \<Rightarrow> ranking_error + sdlc_stage" where
  "stage_parse v =
     (if v = ''legacy-reconstruction'' then Inr Sg_LegacyReconstruction
      else if v = ''requirements-reconciliation'' then Inr Sg_RequirementsReconciliation
      else if v = ''replacement-specification'' then Inr Sg_ReplacementSpecification
      else if v = ''design'' then Inr Sg_Design
      else if v = ''register-driver-contract'' then Inr Sg_RegisterDriverContract
      else if v = ''implementation'' then Inr Sg_Implementation
      else if v = ''validation-release'' then Inr Sg_ValidationRelease
      else Inl (UnknownStage v))"

definition stage_evidence_kind :: "sdlc_stage \<Rightarrow> structural_edge_kind" where
  "stage_evidence_kind g = (case g of
       Sg_LegacyReconstruction \<Rightarrow> Ek_Architecture
     | Sg_RequirementsReconciliation \<Rightarrow> Ek_Requirement
     | Sg_ReplacementSpecification \<Rightarrow> Ek_Requirement
     | Sg_Design \<Rightarrow> Ek_Design
     | Sg_RegisterDriverContract \<Rightarrow> Ek_Design
     | Sg_Implementation \<Rightarrow> Ek_Implementation
     | Sg_ValidationRelease \<Rightarrow> Ek_Validation)"

definition class_as_str :: "evidence_class \<Rightarrow> str" where
  "class_as_str c = (case c of
       Cl_Requirement \<Rightarrow> ''requirement'' | Cl_Design \<Rightarrow> ''design''
     | Cl_Implementation \<Rightarrow> ''implementation'' | Cl_Validation \<Rightarrow> ''validation''
     | Cl_Architecture \<Rightarrow> ''architecture'' | Cl_BusinessFlow \<Rightarrow> ''business-flow'')"

definition class_parse :: "str \<Rightarrow> ranking_error + evidence_class" where
  "class_parse v =
     (if v = ''requirement'' then Inr Cl_Requirement
      else if v = ''design'' then Inr Cl_Design
      else if v = ''implementation'' then Inr Cl_Implementation
      else if v = ''validation'' then Inr Cl_Validation
      else if v = ''architecture'' then Inr Cl_Architecture
      else if v = ''business-flow'' then Inr Cl_BusinessFlow
      else Inl (UnknownEvidenceClass v))"

definition class_edge_kind :: "evidence_class \<Rightarrow> structural_edge_kind" where
  "class_edge_kind c = (case c of
       Cl_Requirement \<Rightarrow> Ek_Requirement | Cl_Design \<Rightarrow> Ek_Design
     | Cl_Implementation \<Rightarrow> Ek_Implementation | Cl_Validation \<Rightarrow> Ek_Validation
     | Cl_Architecture \<Rightarrow> Ek_Architecture | Cl_BusinessFlow \<Rightarrow> Ek_BusinessFlow)"

record ranking_limits =
  rl_selection_limit :: nat

definition ranking_limits_new :: "nat \<Rightarrow> ranking_error + ranking_limits" where
  "ranking_limits_new k =
     (if k = 0 \<or> k > MAX_RANKING_SELECTION then Inl (InvalidSelectionLimit k)
      else Inr \<lparr>rl_selection_limit = k\<rparr>)"

record stage_ranking_request =
  rq_seed :: str
  rq_stage :: sdlc_stage
  rq_required_domains :: "str list"
  rq_required_evidence_classes :: "evidence_class list"
  rq_limits :: ranking_limits

fun check_domains :: "str list \<Rightarrow> str list \<Rightarrow> ranking_error + unit" where
  "check_domains [] seen = Inr ()"
| "check_domains (d # ds) seen =
     (if d = [] \<or> length d > MAX_REQUIRED_DOMAIN_BYTES then Inl (InvalidRequiredDomain d)
      else if d \<in> set seen then Inl (DuplicateRequiredDomain d)
      else check_domains ds (d # seen))"

fun check_classes :: "evidence_class list \<Rightarrow> evidence_class list \<Rightarrow> ranking_error + unit" where
  "check_classes [] seen = Inr ()"
| "check_classes (c # cs) seen =
     (if c \<in> set seen then Inl (DuplicateEvidenceClass c) else check_classes cs (c # seen))"

definition stage_request_new ::
  "str \<Rightarrow> sdlc_stage \<Rightarrow> str list \<Rightarrow> evidence_class list \<Rightarrow> ranking_limits
   \<Rightarrow> ranking_error + stage_ranking_request" where
  "stage_request_new seed stage domains classes limits =
     (if seed = [] then Inl EmptySeed
      else if length seed > MAX_RANKING_SEED_BYTES then Inl (SeedTooLong (length seed))
      else if length domains > MAX_REQUIRED_DOMAINS then Inl (TooManyRequiredDomains (length domains))
      else
        res_bind (check_domains domains []) (\<lambda>_.
        res_bind (check_classes classes []) (\<lambda>_.
          Inr \<lparr>rq_seed = seed, rq_stage = stage, rq_required_domains = domains,
               rq_required_evidence_classes = classes, rq_limits = limits\<rparr>)))"

section \<open>Frozen frequencies\<close>

record frozen_frequency_value =
  fv_raw :: nat
  fv_capped :: nat
  fv_cap_applied :: bool

record frozen_frequency =
  fr_aggregate_digest :: str
  fr_values :: "(str, frozen_frequency_value) omap"

definition is_lowercase_sha256 :: "str \<Rightarrow> bool" where
  "is_lowercase_sha256 v \<longleftrightarrow> length v = 64
     \<and> list_all (\<lambda>c. is_ascii_digit c \<or> 97 \<le> code c \<and> code c \<le> 102) v"

fun frequency_values ::
  "(str \<times> int) list \<Rightarrow> (str, frozen_frequency_value) omap
   \<Rightarrow> ranking_error + (str, frozen_frequency_value) omap" where
  "frequency_values [] m = Inr m"
| "frequency_values ((node_id, raw) # rest) m =
     (if raw < 0 then Inl (InvalidFrequencyValue node_id raw)
      else frequency_values rest
        (om_put node_id \<lparr>fv_raw = nat raw, fv_capped = min (nat raw) FREQUENCY_CAP_BASIS_POINTS,
           fv_cap_applied = (nat raw > FREQUENCY_CAP_BASIS_POINTS)\<rparr> m))"

definition frequency_new :: "str \<Rightarrow> (str, int) omap \<Rightarrow> ranking_error + frozen_frequency" where
  "frequency_new aggregate raw =
     (if \<not> is_lowercase_sha256 aggregate then Inl (MalformedFrequencyDigest aggregate)
      else res_bind (frequency_values raw []) (\<lambda>m.
        Inr \<lparr>fr_aggregate_digest = aggregate, fr_values = m\<rparr>))"

definition frequency_value :: "frozen_frequency \<Rightarrow> str \<Rightarrow> frozen_frequency_value" where
  "frequency_value f i = (case om_get (fr_values f) i of
       Some v \<Rightarrow> v | None \<Rightarrow> \<lparr>fv_raw = 0, fv_capped = 0, fv_cap_applied = False\<rparr>)"

section \<open>Keys\<close>

datatype eligibility_key = El_Eligible | El_Ineligible

datatype authority_key =
    Ak_CanonicalOwned | Ak_ApprovedOwned | Ak_CanonicalUnowned | Ak_ApprovedUnowned
  | Ak_SupportingOwned | Ak_SupportingUnowned | Ak_UnknownOwned | Ak_UnknownUnowned

datatype revision_key = Rk_Current | Rk_Predecessor | Rk_Superseded | Rk_Draft | Rk_Archive | Rk_Rejected

datatype artifact_key = Fk_Source | Fk_GeneratedOrPreextracted | Fk_Archive | Fk_Rejected

datatype distance_key = Dk_Seed | Dk_Direct | Dk_Absent

datatype relevance_key = Vk_None | Vk_Partial | Vk_Exact

text \<open>The derived orders: the position of the constructor.\<close>

definition eligibility_rank :: "eligibility_key \<Rightarrow> nat" where
  "eligibility_rank k = (case k of El_Eligible \<Rightarrow> 0 | El_Ineligible \<Rightarrow> 1)"

definition authority_rank :: "authority_key \<Rightarrow> nat" where
  "authority_rank k = (case k of
       Ak_CanonicalOwned \<Rightarrow> 0 | Ak_ApprovedOwned \<Rightarrow> 1 | Ak_CanonicalUnowned \<Rightarrow> 2
     | Ak_ApprovedUnowned \<Rightarrow> 3 | Ak_SupportingOwned \<Rightarrow> 4 | Ak_SupportingUnowned \<Rightarrow> 5
     | Ak_UnknownOwned \<Rightarrow> 6 | Ak_UnknownUnowned \<Rightarrow> 7)"

definition revision_rank :: "revision_key \<Rightarrow> nat" where
  "revision_rank k = (case k of Rk_Current \<Rightarrow> 0 | Rk_Predecessor \<Rightarrow> 1 | Rk_Superseded \<Rightarrow> 2
     | Rk_Draft \<Rightarrow> 3 | Rk_Archive \<Rightarrow> 4 | Rk_Rejected \<Rightarrow> 5)"

definition artifact_rank :: "artifact_key \<Rightarrow> nat" where
  "artifact_rank k = (case k of Fk_Source \<Rightarrow> 0 | Fk_GeneratedOrPreextracted \<Rightarrow> 1 | Fk_Archive \<Rightarrow> 2
     | Fk_Rejected \<Rightarrow> 3)"

definition distance_rank :: "distance_key \<Rightarrow> nat" where
  "distance_rank k = (case k of Dk_Seed \<Rightarrow> 0 | Dk_Direct \<Rightarrow> 1 | Dk_Absent \<Rightarrow> 2)"

definition relevance_rank :: "relevance_key \<Rightarrow> nat" where
  "relevance_rank k = (case k of Vk_None \<Rightarrow> 0 | Vk_Partial \<Rightarrow> 1 | Vk_Exact \<Rightarrow> 2)"

record stage_rank_key =
  rk_eligibility :: eligibility_key
  rk_authority :: authority_key
  rk_revision :: revision_key
  rk_artifact :: artifact_key
  rk_distance :: distance_key
  rk_relevance :: relevance_key
  rk_required_contribution :: nat
  rk_frequency :: nat
  rk_canonical_path :: str
  rk_node_id :: str

definition rank_order ::
  "stage_rank_key \<Rightarrow> nat \<times> nat \<times> nat \<times> nat \<times> nat \<times> nat down \<times> nat down \<times> nat down \<times> str \<times> str" where
  "rank_order k =
     (eligibility_rank (rk_eligibility k), authority_rank (rk_authority k),
      revision_rank (rk_revision k), artifact_rank (rk_artifact k), distance_rank (rk_distance k),
      Down (relevance_rank (rk_relevance k)), Down (rk_required_contribution k),
      Down (rk_frequency k), rk_canonical_path k, rk_node_id k)"

record frequency_receipt =
  fq_raw :: nat
  fq_capped :: nat
  fq_cap_applied :: bool
  fq_aggregate_digest :: str
  fq_rank_key_position :: nat

datatype omission_reason = Om_SelectionLimit | Om_LifecycleConflict

datatype ranking_decision = De_Selected | De_Omitted omission_reason

record ranking_item =
  ri_node_id :: str
  ri_canonical_path :: str
  ri_rank_key :: stage_rank_key
  ri_frequency :: frequency_receipt
  ri_decision :: ranking_decision

record missing_evidence =
  me_missing :: bool
  me_domains :: "str list"
  me_evidence_classes :: "evidence_class list"

datatype not_run = NotRun

record traversal_not_run =
  nr_status :: not_run
  nr_limits :: not_run

record ranking_receipt =
  rr_snapshot_digest :: str
  rr_seed :: str
  rr_stage :: sdlc_stage
  rr_required_domains :: "str list"
  rr_required_evidence_classes :: "evidence_class list"
  rr_candidate_count :: nat
  rr_requested_selection_limit :: nat
  rr_selected :: "ranking_item list"
  rr_omitted :: "ranking_item list"
  rr_traversal :: traversal_not_run
  rr_conflicts_visible :: bool
  rr_conflict_ids :: "str list"
  rr_missing :: missing_evidence


section \<open>Ranking\<close>

record stage_ranker =
  sk_snapshot :: structural_graph_snapshot
  sk_request :: stage_ranking_request
  sk_frequency :: frozen_frequency

definition ranker_new ::
  "structural_graph_snapshot \<Rightarrow> stage_ranking_request \<Rightarrow> frozen_frequency \<Rightarrow> ranking_error + stage_ranker" where
  "ranker_new s rq f =
     (if length (ss_nodes s) > MAX_RANKING_CANDIDATES
      then Inl (CandidateLimitExceeded (length (ss_nodes s)))
      else if ss_frozen_frequency_digest s \<noteq> fr_aggregate_digest f
      then Inl (FrequencyDigestMismatch (ss_frozen_frequency_digest s) (fr_aggregate_digest f))
      else case find (\<lambda>i. snapshot_node s i = None) (map fst (fr_values f)) of
        Some i \<Rightarrow> Inl (UnknownFrequencyNode i)
      | None \<Rightarrow> Inr \<lparr>sk_snapshot = s, sk_request = rq, sk_frequency = f\<rparr>)"

definition seed_node_ids :: "structural_graph_snapshot \<Rightarrow> str \<Rightarrow> str list" where
  "seed_node_ids s seed = map sn_id (filter (\<lambda>n. sn_id n = seed \<or> sn_path n = seed) (ss_nodes s))"

definition adjacent_to_seed :: "str list \<Rightarrow> str \<Rightarrow> structural_edge \<Rightarrow> bool" where
  "adjacent_to_seed seeds i e \<longleftrightarrow> i \<in> set seeds
     \<or> se_source e = i \<and> se_target e \<in> set seeds
     \<or> se_target e = i \<and> se_source e \<in> set seeds"

definition direct_edge_kinds ::
  "structural_graph_snapshot \<Rightarrow> str list \<Rightarrow> str \<Rightarrow> structural_edge_kind list option" where
  "direct_edge_kinds s seeds i =
     map_option (\<lambda>es. map se_kind (filter (\<lambda>e. se_certainty e = Ec_Known \<and> adjacent_to_seed seeds i e) es))
       (collect (snapshot_edge s) (snapshot_forward_edges s i @ snapshot_reverse_edges s i))"

definition authority_key_of :: "structural_node \<Rightarrow> authority_key" where
  "authority_key_of n = (case (sn_authority n, sn_owner n \<noteq> None) of
       (Au_Canonical, True) \<Rightarrow> Ak_CanonicalOwned
     | (Au_Approved, True) \<Rightarrow> Ak_ApprovedOwned
     | (Au_Canonical, False) \<Rightarrow> Ak_CanonicalUnowned
     | (Au_Approved, False) \<Rightarrow> Ak_ApprovedUnowned
     | (Au_Supporting, True) \<Rightarrow> Ak_SupportingOwned
     | (Au_Supporting, False) \<Rightarrow> Ak_SupportingUnowned
     | (Au_Unknown, True) \<Rightarrow> Ak_UnknownOwned
     | (Au_Unknown, False) \<Rightarrow> Ak_UnknownUnowned)"

definition is_predecessor :: "structural_graph_snapshot \<Rightarrow> str \<Rightarrow> bool" where
  "is_predecessor s i = list_ex (\<lambda>e.
     if se_certainty e \<noteq> Ec_Known \<or> se_kind e \<notin> {Ek_Predecessor, Ek_Supersedes} then False
     else if se_source e \<noteq> i \<and> se_target e \<noteq> i then False
     else case snapshot_node s (if se_source e = i then se_target e else se_source e) of
        None \<Rightarrow> False
      | Some n \<Rightarrow> sn_lifecycle n = Lc_Current) (ss_edges s)"

definition revision_key_of :: "structural_graph_snapshot \<Rightarrow> structural_node \<Rightarrow> revision_key" where
  "revision_key_of s n = (case sn_lifecycle n of
       Lc_Current \<Rightarrow> Rk_Current
     | Lc_Superseded \<Rightarrow> if is_predecessor s (sn_id n) then Rk_Predecessor else Rk_Superseded
     | Lc_Draft \<Rightarrow> Rk_Draft
     | Lc_Archive \<Rightarrow> Rk_Archive
     | Lc_Rejected \<Rightarrow> Rk_Rejected)"

definition artifact_key_of :: "structural_node \<Rightarrow> artifact_key" where
  "artifact_key_of n = (case sn_lifecycle n of
       Lc_Archive \<Rightarrow> Fk_Archive
     | Lc_Rejected \<Rightarrow> Fk_Rejected
     | _ \<Rightarrow> if sn_generated_status n = Gs_Source then Fk_Source else Fk_GeneratedOrPreextracted)"

definition relevance_key_of :: "structural_node \<Rightarrow> str \<Rightarrow> relevance_key" where
  "relevance_key_of n seed =
     (if sn_id n = seed \<or> sn_path n = seed \<or> sn_owner n = Some seed \<or> seed \<in> set (sn_domains n)
      then Vk_Exact
      else if contains (sn_id n) seed \<or> contains (sn_path n) seed
          \<or> (case sn_owner n of None \<Rightarrow> False | Some owner \<Rightarrow> contains owner seed)
          \<or> list_ex (\<lambda>d. contains d seed) (sn_domains n)
      then Vk_Partial else Vk_None)"

text \<open>The sum is cast to \<open>u16\<close>.\<close>

definition required_contribution ::
  "stage_ranking_request \<Rightarrow> structural_node \<Rightarrow> structural_edge_kind list \<Rightarrow> nat" where
  "required_contribution rq n kinds =
     (length (filter (\<lambda>d. d \<in> set (sn_domains n)) (rq_required_domains rq))
      + length (filter (\<lambda>c. class_edge_kind c \<in> set kinds) (rq_required_evidence_classes rq))
      + (if stage_evidence_kind (rq_stage rq) \<in> set kinds then 1 else 0)) mod 2 ^ 16"

definition candidate_receipt ::
  "structural_graph_snapshot \<Rightarrow> stage_ranking_request \<Rightarrow> frozen_frequency \<Rightarrow> str list
   \<Rightarrow> structural_node \<Rightarrow> ranking_item option" where
  "candidate_receipt s rq f seeds n =
     map_option (\<lambda>kinds.
       let v = frequency_value f (sn_id n) in
       \<lparr>ri_node_id = sn_id n, ri_canonical_path = sn_path n,
        ri_rank_key =
          \<lparr>rk_eligibility = (if sn_lifecycle n = Lc_Current then El_Eligible else El_Ineligible),
           rk_authority = authority_key_of n, rk_revision = revision_key_of s n,
           rk_artifact = artifact_key_of n,
           rk_distance = (if sn_id n \<in> set seeds then Dk_Seed
             else if kinds = [] then Dk_Absent else Dk_Direct),
           rk_relevance = relevance_key_of n (rq_seed rq),
           rk_required_contribution = required_contribution rq n kinds,
           rk_frequency = fv_capped v, rk_canonical_path = sn_path n, rk_node_id = sn_id n\<rparr>,
        ri_frequency =
          \<lparr>fq_raw = fv_raw v, fq_capped = fv_capped v, fq_cap_applied = fv_cap_applied v,
           fq_aggregate_digest = fr_aggregate_digest f, fq_rank_key_position = 8\<rparr>,
        ri_decision = De_Selected\<rparr>)
       (direct_edge_kinds s seeds (sn_id n))"

fun select_loop ::
  "nat \<Rightarrow> ranking_item list \<Rightarrow> ranking_item list \<Rightarrow> ranking_item list
   \<Rightarrow> ranking_item list \<times> ranking_item list" where
  "select_loop limit [] selected omitted = (selected, omitted)"
| "select_loop limit (item # items) selected omitted =
     (if rk_eligibility (ri_rank_key item) = El_Eligible \<and> length selected < limit
      then select_loop limit items (selected @ [item\<lparr>ri_decision := De_Selected\<rparr>]) omitted
      else select_loop limit items selected
        (omitted @ [item\<lparr>ri_decision := De_Omitted
           (if rk_eligibility (ri_rank_key item) = El_Ineligible then Om_LifecycleConflict
            else Om_SelectionLimit)\<rparr>]))"

fun covered_loop ::
  "structural_graph_snapshot \<Rightarrow> str list \<Rightarrow> ranking_item list \<Rightarrow> str list \<Rightarrow> structural_edge_kind list
   \<Rightarrow> (str list \<times> structural_edge_kind list) option" where
  "covered_loop s seeds [] domains kinds = Some (domains, kinds)"
| "covered_loop s seeds (item # items) domains kinds =
     (case snapshot_node s (ri_node_id item) of
        None \<Rightarrow> None
      | Some n \<Rightarrow>
          (case direct_edge_kinds s seeds (sn_id n) of
             None \<Rightarrow> None
           | Some ks \<Rightarrow> covered_loop s seeds items (domains @ sn_domains n) (kinds @ ks)))"

definition missing_evidence_decision ::
  "structural_graph_snapshot \<Rightarrow> stage_ranking_request \<Rightarrow> str list \<Rightarrow> ranking_item list
   \<Rightarrow> missing_evidence option" where
  "missing_evidence_decision s rq seeds selected =
     map_option (\<lambda>(covered_domains, covered_kinds).
       let domains = filter (\<lambda>d. d \<notin> set covered_domains) (rq_required_domains rq);
           classes = filter (\<lambda>c. class_edge_kind c \<notin> set covered_kinds) (rq_required_evidence_classes rq) in
       \<lparr>me_missing = (domains \<noteq> [] \<or> classes \<noteq> []), me_domains = domains, me_evidence_classes = classes\<rparr>)
       (covered_loop s seeds selected [] [])"

definition rank :: "stage_ranker \<Rightarrow> ranking_receipt option" where
  "rank k =
     (let s = sk_snapshot k; rq = sk_request k; limit = rl_selection_limit (rq_limits rq);
          seeds = seed_node_ids s (rq_seed rq) in
      Option.bind (collect (candidate_receipt s rq (sk_frequency k) seeds) (ss_nodes s)) (\<lambda>unsorted.
        let candidates = sort_key (rank_order \<circ> ri_rank_key) unsorted;
            (selected, omitted) = select_loop limit candidates [] [];
            conflicts = map ri_node_id
              (filter (\<lambda>it. ri_decision it = De_Omitted Om_LifecycleConflict) omitted) in
        map_option (\<lambda>missing.
          \<lparr>rr_snapshot_digest = ss_snapshot_digest s, rr_seed = rq_seed rq, rr_stage = rq_stage rq,
           rr_required_domains = rq_required_domains rq,
           rr_required_evidence_classes = rq_required_evidence_classes rq,
           rr_candidate_count = length (ss_nodes s), rr_requested_selection_limit = limit,
           rr_selected = selected, rr_omitted = omitted,
           rr_traversal = \<lparr>nr_status = NotRun, nr_limits = NotRun\<rparr>,
           rr_conflicts_visible = (conflicts \<noteq> []), rr_conflict_ids = conflicts,
           rr_missing = missing\<rparr>)
          (missing_evidence_decision s rq seeds selected)))"


section \<open>Evidence on the records\<close>

text \<open>The nodes a seed names, and the kinds of the \<open>Known\<close> edges at a node that touch a seed.\<close>

definition seeds_of :: "structural_node list \<Rightarrow> str \<Rightarrow> str set" where
  "seeds_of nodes seed = sn_id ` {n \<in> set nodes. sn_id n = seed \<or> sn_path n = seed}"

definition link_kinds :: "structural_edge list \<Rightarrow> str set \<Rightarrow> str \<Rightarrow> structural_edge_kind set" where
  "link_kinds edges seeds i = se_kind ` {e \<in> set edges. se_certainty e = Ec_Known
     \<and> i \<in> {se_source e, se_target e} \<and> {se_source e, se_target e} \<inter> seeds \<noteq> {}}"

definition replaced :: "structural_node list \<Rightarrow> structural_edge list \<Rightarrow> str \<Rightarrow> bool" where
  "replaced nodes edges i \<longleftrightarrow> (\<exists>e \<in> set edges. \<exists>m \<in> set nodes. se_certainty e = Ec_Known
     \<and> se_kind e \<in> {Ek_Predecessor, Ek_Supersedes} \<and> sn_lifecycle m = Lc_Current
     \<and> (se_source e = i \<and> se_target e = sn_id m \<or> se_target e = i \<and> se_source e = sn_id m))"

definition capped :: "(str, int) omap \<Rightarrow> str \<Rightarrow> nat" where
  "capped raw i = (case om_get raw i of None \<Rightarrow> 0 | Some v \<Rightarrow> min (nat v) FREQUENCY_CAP_BASIS_POINTS)"

definition expected_key ::
  "structural_node list \<Rightarrow> structural_edge list \<Rightarrow> stage_ranking_request \<Rightarrow> (str, int) omap
   \<Rightarrow> structural_node \<Rightarrow> stage_rank_key" where
  "expected_key nodes edges rq raw n =
     (let seeds = seeds_of nodes (rq_seed rq); kinds = link_kinds edges seeds (sn_id n) in
      \<lparr>rk_eligibility = (if sn_lifecycle n = Lc_Current then El_Eligible else El_Ineligible),
       rk_authority = authority_key_of n,
       rk_revision = (case sn_lifecycle n of
           Lc_Current \<Rightarrow> Rk_Current
         | Lc_Superseded \<Rightarrow> if replaced nodes edges (sn_id n) then Rk_Predecessor else Rk_Superseded
         | Lc_Draft \<Rightarrow> Rk_Draft | Lc_Archive \<Rightarrow> Rk_Archive | Lc_Rejected \<Rightarrow> Rk_Rejected),
       rk_artifact = artifact_key_of n,
       rk_distance = (if sn_id n \<in> seeds then Dk_Seed else if kinds = {} then Dk_Absent else Dk_Direct),
       rk_relevance = relevance_key_of n (rq_seed rq),
       rk_required_contribution =
         length (filter (\<lambda>d. d \<in> set (sn_domains n)) (rq_required_domains rq))
         + length (filter (\<lambda>c. class_edge_kind c \<in> kinds) (rq_required_evidence_classes rq))
         + (if stage_evidence_kind (rq_stage rq) \<in> kinds then 1 else 0),
       rk_frequency = capped raw (sn_id n),
       rk_canonical_path = sn_path n, rk_node_id = sn_id n\<rparr>)"

lemma collect_some: "\<forall>x \<in> set xs. f x \<noteq> None \<Longrightarrow> collect f xs = Some (List.map_filter f xs)"
  by (induction xs) (auto simp: List.map_filter_simps)

lemma collect_map: "\<forall>x \<in> set xs. f x = Some (h x) \<Longrightarrow> collect f xs = Some (map h xs)"
  by (induction xs) auto

lemma new_direct_kinds:
  assumes new: "snapshot_new v p sc g d nodes edges r = Inr s"
  shows "\<exists>ks. direct_edge_kinds s seeds i = Some ks \<and> set ks = link_kinds edges (set seeds) i"
proof -
  have "snapshot_edge s j \<noteq> None"
    if "j \<in> set (snapshot_forward_edges s i @ snapshot_reverse_edges s i)" for j
  proof -
    have "set (snapshot_forward_edges s i @ snapshot_reverse_edges s i) \<subseteq> se_id ` set edges"
      using mset_eq_setD [OF snapshot_lookups(3) [OF new, of i]]
        mset_eq_setD [OF snapshot_lookups(4) [OF new, of i]] by auto
    with that obtain e where "e \<in> set edges" "j = se_id e" by blast
    with new_edge [OF new] show ?thesis by simp
  qed
  then have "collect (snapshot_edge s) (snapshot_forward_edges s i @ snapshot_reverse_edges s i)
      = Some (adjacent s i)" unfolding adjacent_def by (intro collect_some) blast
  moreover have "se_kind ` {e \<in> set (adjacent s i). se_certainty e = Ec_Known \<and> adjacent_to_seed seeds i e}
      = link_kinds edges (set seeds) i"
    unfolding new_adjacent [OF new] link_kinds_def adjacent_to_seed_def by (rule arg_cong [of _ _ "image se_kind"]) auto
  ultimately show ?thesis by (simp add: direct_edge_kinds_def)
qed

lemma new_nodes: "snapshot_new v p sc g d nodes edges r = Inr s \<Longrightarrow>
    ss_nodes s = sort_key sn_id nodes \<and> ss_edges s = sort_key se_id edges"
  unfolding snapshot_new_Inr by simp

lemma new_seeds:
  "snapshot_new v p sc g d nodes edges r = Inr s \<Longrightarrow> set (seed_node_ids s seed) = seeds_of nodes seed"
  using new_nodes [of v p sc g d nodes edges r s] by (auto simp: seed_node_ids_def seeds_of_def)

lemma new_node: "snapshot_new v p sc g d nodes edges r = Inr s \<Longrightarrow> n \<in> set nodes \<Longrightarrow>
    snapshot_node s (sn_id n) = Some n"
  using new_structure [of v p sc g d nodes edges r s] snapshot_lookups(1) [of v p sc g d nodes edges r s]
  by (simp add: structure_ok_def find_distinct)

lemma new_predecessor:
  assumes new: "snapshot_new v p sc g d nodes edges r = Inr s"
  shows "is_predecessor s i = replaced nodes edges i"
proof -
  have n: "snapshot_node s j = Some m \<longleftrightarrow> m \<in> set nodes \<and> sn_id m = j" for j m
    using new_structure [OF new] by (simp add: snapshot_lookups(1) [OF new] structure_ok_def find_distinct)
  have "is_predecessor s i \<longleftrightarrow> (\<exists>e \<in> set edges. se_certainty e = Ec_Known
      \<and> se_kind e \<in> {Ek_Predecessor, Ek_Supersedes} \<and> (se_source e = i \<or> se_target e = i)
      \<and> (\<exists>m. snapshot_node s (if se_source e = i then se_target e else se_source e) = Some m
          \<and> sn_lifecycle m = Lc_Current))" (is "_ \<longleftrightarrow> ?r")
  proof -
    have "(if a then False else if b then False else case x of None \<Rightarrow> False | Some m \<Rightarrow> P m)
        \<longleftrightarrow> \<not> a \<and> \<not> b \<and> (\<exists>m. x = Some m \<and> P m)" for a b and x :: "structural_node option" and P
      by (cases x) simp_all
    moreover have "set (ss_edges s) = set edges" using new_nodes [OF new] by simp
    ultimately show ?thesis unfolding is_predecessor_def list_ex_iff by (intro bex_cong) simp_all
  qed
  also have "?r \<longleftrightarrow> (\<exists>e \<in> set edges. se_certainty e = Ec_Known
      \<and> se_kind e \<in> {Ek_Predecessor, Ek_Supersedes} \<and> (\<exists>m \<in> set nodes. sn_lifecycle m = Lc_Current
        \<and> (se_source e = i \<and> se_target e = sn_id m \<or> se_target e = i \<and> se_source e = sn_id m)))"
    unfolding n
  proof (rule bex_cong [OF refl])
    fix e
    have "(se_source e = i \<or> se_target e = i)
        \<and> (\<exists>m. m \<in> set nodes \<and> sn_id m = (if se_source e = i then se_target e else se_source e)
            \<and> sn_lifecycle m = Lc_Current)
      \<longleftrightarrow> (\<exists>m \<in> set nodes. sn_lifecycle m = Lc_Current
        \<and> (se_source e = i \<and> se_target e = sn_id m \<or> se_target e = i \<and> se_source e = sn_id m))"
      by (cases "se_source e = i") auto
    then show "(se_certainty e = Ec_Known \<and> se_kind e \<in> {Ek_Predecessor, Ek_Supersedes}
        \<and> (se_source e = i \<or> se_target e = i)
        \<and> (\<exists>m. (m \<in> set nodes \<and> sn_id m = (if se_source e = i then se_target e else se_source e))
            \<and> sn_lifecycle m = Lc_Current)) \<longleftrightarrow> (se_certainty e = Ec_Known
        \<and> se_kind e \<in> {Ek_Predecessor, Ek_Supersedes} \<and> (\<exists>m \<in> set nodes. sn_lifecycle m = Lc_Current
        \<and> (se_source e = i \<and> se_target e = sn_id m \<or> se_target e = i \<and> se_source e = sn_id m)))"
      unfolding conj_assoc by blast
  qed
  also have "\<dots> = replaced nodes edges i" unfolding replaced_def by blast
  finally show ?thesis .
qed

section \<open>Requests and frequencies\<close>

lemma check_classes_distinct: "check_classes cs seen = Inr u \<Longrightarrow> distinct cs \<and> set cs \<inter> set seen = {}"
proof (induction cs arbitrary: seen)
  case (Cons c cs)
  then have "c \<notin> set seen" "check_classes cs (c # seen) = Inr u" by (auto split: if_splits)
  with Cons.IH [OF this(2)] show ?case by auto
qed simp

lemma class_card: "finite (A :: evidence_class set) \<and> card A \<le> 6"
proof -
  have u: "(UNIV :: evidence_class set)
      = {Cl_Requirement, Cl_Design, Cl_Implementation, Cl_Validation, Cl_Architecture, Cl_BusinessFlow}"
    using evidence_class.exhaust by auto
  have f: "finite (UNIV :: evidence_class set)" unfolding u by simp
  have "card (UNIV :: evidence_class set) \<le> 6" unfolding u by simp
  with card_mono [OF f, of A] finite_subset [OF subset_UNIV f, of A] show ?thesis by simp
qed

lemma contribution_fits:
  assumes "stage_request_new seed stage ds cs lim = Inr rq"
  shows "length (filter P (rq_required_domains rq)) + length (filter Q (rq_required_evidence_classes rq)) + 1 < 2 ^ 16"
proof -
  have r: "rq_required_domains rq = ds" "rq_required_evidence_classes rq = cs" "length ds \<le> 64" "distinct cs"
    using assms by (auto simp: stage_request_new_def res_simps MAX_REQUIRED_DOMAINS_def
        dest: check_classes_distinct split: if_splits)
  then have "length cs \<le> 6" using class_card [of "set cs"] by (simp flip: distinct_card)
  moreover have "length (filter P ds) \<le> length ds" "length (filter Q cs) \<le> length cs" by simp_all
  ultimately have "length (filter P ds) + length (filter Q cs) + 1 \<le> 71" using r(3) by linarith
  with r show ?thesis by simp
qed

lemma frequency_values_get:
  "frequency_values xs m = Inr m' \<Longrightarrow> distinct (map fst xs) \<Longrightarrow>
     om_get m' i = (case map_of xs i of
        None \<Rightarrow> om_get m i
      | Some v \<Rightarrow> Some \<lparr>fv_raw = nat v, fv_capped = min (nat v) FREQUENCY_CAP_BASIS_POINTS,
          fv_cap_applied = (nat v > FREQUENCY_CAP_BASIS_POINTS)\<rparr>)"
proof (induction xs m rule: frequency_values.induct)
  case (2 j v xs m)
  moreover from "2.prems"(2) have "map_of xs j = None" by (simp add: map_of_eq_None_iff)
  ultimately show ?case by (auto simp: om_get_put split: if_splits option.splits)
qed simp

lemma frequency_new_value:
  assumes "frequency_new a raw = Inr f" "om_inv raw"
  shows "fv_capped (frequency_value f i) = capped raw i"
proof -
  have "distinct (map fst raw)" using assms(2) unfolding om_inv_def strict_sorted_iff by blast
  moreover obtain m where "frequency_values raw [] = Inr m" "fr_values f = m"
    using assms(1) by (auto simp: frequency_new_def res_simps split: if_splits)
  ultimately show ?thesis
    using frequency_values_get [of raw "[]" m i]
    by (simp add: frequency_value_def capped_def om_get_def split: option.splits)
qed

lemma frequency_keys:
  assumes "frequency_values xs m = Inr m'"
  shows "fst ` set m' = fst ` set m \<union> fst ` set xs"
  using assms by (induction xs m rule: frequency_values.induct) (auto simp: om_put_keys split: if_splits)


section \<open>What a ranking selects\<close>

definition ranked_as ::
  "structural_node list \<Rightarrow> structural_edge list \<Rightarrow> stage_ranking_request \<Rightarrow> (str, int) omap
   \<Rightarrow> structural_node \<Rightarrow> ranking_item \<Rightarrow> bool" where
  "ranked_as nodes edges rq raw n it \<longleftrightarrow> ri_node_id it = sn_id n \<and> ri_canonical_path it = sn_path n
     \<and> ri_rank_key it = expected_key nodes edges rq raw n
     \<and> fq_capped (ri_frequency it) = capped raw (sn_id n)"

lemma candidate_exact:
  assumes new: "snapshot_new v p sc g d nodes edges r = Inr s"
    and rq: "stage_request_new seed stage ds cs lim = Inr rq"
    and f: "om_inv raw" "frequency_new a raw = Inr f"
  shows "\<exists>it. candidate_receipt s rq f (seed_node_ids s (rq_seed rq)) n = Some it
    \<and> ranked_as nodes edges rq raw n it"
proof -
  let ?seeds = "seed_node_ids s (rq_seed rq)"
  obtain ks where ks: "direct_edge_kinds s ?seeds (sn_id n) = Some ks"
    "set ks = link_kinds edges (seeds_of nodes (rq_seed rq)) (sn_id n)"
    using new_direct_kinds [OF new, of ?seeds "sn_id n"] new_seeds [OF new] by auto
  have "required_contribution rq n ks
      = length (filter (\<lambda>d. d \<in> set (sn_domains n)) (rq_required_domains rq))
      + length (filter (\<lambda>c. class_edge_kind c \<in> set ks) (rq_required_evidence_classes rq))
      + (if stage_evidence_kind (rq_stage rq) \<in> set ks then 1 else 0)"
    using contribution_fits [OF rq, of "\<lambda>d. d \<in> set (sn_domains n)" "\<lambda>c. class_edge_kind c \<in> set ks"]
    unfolding required_contribution_def by (intro mod_less) (auto split: if_splits)
  moreover have "revision_key_of s n = (case sn_lifecycle n of
           Lc_Current \<Rightarrow> Rk_Current
         | Lc_Superseded \<Rightarrow> if replaced nodes edges (sn_id n) then Rk_Predecessor else Rk_Superseded
         | Lc_Draft \<Rightarrow> Rk_Draft | Lc_Archive \<Rightarrow> Rk_Archive | Lc_Rejected \<Rightarrow> Rk_Rejected)"
    unfolding revision_key_of_def new_predecessor [OF new] ..
  moreover have "ks = [] \<longleftrightarrow> link_kinds edges (seeds_of nodes (rq_seed rq)) (sn_id n) = {}"
    using ks(2) by auto
  ultimately show ?thesis
    using frequency_new_value [OF f(2,1), of "sn_id n"]
    by (simp add: candidate_receipt_def ks ranked_as_def expected_key_def Let_def new_seeds [OF new])
qed

fun passed :: "('a \<Rightarrow> bool) \<Rightarrow> nat \<Rightarrow> 'a list \<Rightarrow> 'a list" where
  "passed P k [] = []"
| "passed P k (x # xs) = (if P x \<and> 0 < k then passed P (k - 1) xs else x # passed P k xs)"

lemma passed_eq: "distinct xs \<Longrightarrow> passed P k xs = filter (\<lambda>x. x \<notin> set (take k (filter P xs))) xs"
proof (induction P k xs rule: passed.induct)
  case (2 P k x xs)
  have x: "x \<notin> set (take j (filter P xs))" for j
    using "2.prems" by (meson distinct.simps(2) filter_is_subset in_set_takeD subsetD)
  show ?case
  proof (cases "P x \<and> 0 < k")
    case True
    then obtain j where "k = Suc j" by (cases k) auto
    with True 2 show ?thesis by (auto intro: filter_cong)
  next
    case False
    then have "take k (filter P (x # xs)) = take k (filter P xs)" by (cases k) auto
    moreover have "passed P k (x # xs) = x # passed P k xs" using False by simp
    ultimately show ?thesis using "2.IH"(2) [OF False] "2.prems" x [of k] by simp
  qed
qed simp

lemma passed_map: "passed P k (map h xs) = map h (passed (\<lambda>x. P (h x)) k xs)"
  by (induction xs arbitrary: k) simp_all

definition eligible :: "ranking_item \<Rightarrow> bool" where
  "eligible it \<longleftrightarrow> rk_eligibility (ri_rank_key it) = El_Eligible"

definition omitted_item :: "ranking_item \<Rightarrow> ranking_item" where
  "omitted_item it = it\<lparr>ri_decision := De_Omitted
     (if eligible it then Om_SelectionLimit else Om_LifecycleConflict)\<rparr>"

lemma ineligible_iff: "rk_eligibility k = El_Ineligible \<longleftrightarrow> rk_eligibility k \<noteq> El_Eligible"
  by (cases "rk_eligibility k") simp_all

lemma select_loop_eq:
  "length selected \<le> k \<Longrightarrow> select_loop k items selected omitted =
     (selected @ map (\<lambda>it. it\<lparr>ri_decision := De_Selected\<rparr>) (take (k - length selected) (filter eligible items)),
      omitted @ map omitted_item (passed eligible (k - length selected) items))"
proof (induction k items selected omitted rule: select_loop.induct)
  case (2 k it items selected omitted)
  show ?case
  proof (cases "eligible it \<and> length selected < k")
    case True
    then have "k - length selected = Suc (k - Suc (length selected))" by linarith
    with True "2.IH"(1) show ?thesis by (simp add: eligible_def)
  next
    case False
    then have "take (k - length selected) (filter eligible (it # items))
        = take (k - length selected) (filter eligible items)" by auto
    with False "2.IH"(2) "2.prems" show ?thesis
      by (auto simp: eligible_def omitted_item_def ineligible_iff)
  qed
qed simp

lemma covered_loop_eq:
  assumes "\<forall>it \<in> set items. \<exists>n ks. snapshot_node s (ri_node_id it) = Some n
      \<and> direct_edge_kinds s seeds (sn_id n) = Some ks \<and> set ks = K n"
  shows "\<exists>ds ks. covered_loop s seeds items domains kinds = Some (ds, ks)
    \<and> set ds = set domains \<union> (\<Union>it \<in> set items. set (sn_domains (the (snapshot_node s (ri_node_id it)))))
    \<and> set ks = set kinds \<union> (\<Union>it \<in> set items. K (the (snapshot_node s (ri_node_id it))))"
  using assms
proof (induction items arbitrary: domains kinds)
  case (Cons it items)
  then obtain n ks where n: "snapshot_node s (ri_node_id it) = Some n"
    "direct_edge_kinds s seeds (sn_id n) = Some ks" "set ks = K n" by auto
  have "\<forall>it \<in> set items. \<exists>n ks. snapshot_node s (ri_node_id it) = Some n
      \<and> direct_edge_kinds s seeds (sn_id n) = Some ks \<and> set ks = K n" using Cons.prems by simp
  from Cons.IH [OF this, of "domains @ sn_domains n" "kinds @ ks"] n show ?case by auto
qed simp

lemma insort_key_map: "insort_key h (f x) (map f xs) = map f (insort_key (\<lambda>x. h (f x)) x xs)"
  by (induction xs) auto

lemma sort_key_map: "sort_key h (map f xs) = map f (sort_key (\<lambda>x. h (f x)) xs)"
  by (induction xs) (simp_all add: insort_key_map)


abbreviation is_current :: "structural_node \<Rightarrow> bool" where
  "is_current n \<equiv> sn_lifecycle n = Lc_Current"

lemma rank_order_inj: "rank_order j = rank_order k \<Longrightarrow> rk_node_id j = rk_node_id k"
  by (simp add: rank_order_def)

lemma ranker_new_cases:
  assumes "snapshot_new v p sc g d nodes edges r = Inr s" "frequency_new a raw = Inr f"
  shows "ranker_new s rq f = Inr k \<longleftrightarrow> length nodes \<le> MAX_RANKING_CANDIDATES \<and> a = d
    \<and> fst ` set raw \<subseteq> sn_id ` set nodes \<and> k = \<lparr>sk_snapshot = s, sk_request = rq, sk_frequency = f\<rparr>"
proof -
  have s: "length (ss_nodes s) = length nodes" "ss_frozen_frequency_digest s = d"
    using assms(1) unfolding snapshot_new_Inr by simp_all
  have fa: "fr_aggregate_digest f = a" and "frequency_values raw [] = Inr (fr_values f)"
    using assms(2) by (auto simp: frequency_new_def res_simps split: if_splits)
  from frequency_keys [OF this(2)] have f: "fst ` set (fr_values f) = fst ` set raw" by simp
  have "find (\<lambda>i. snapshot_node s i = None) (map fst (fr_values f)) = None
      \<longleftrightarrow> fst ` set raw \<subseteq> sn_id ` set nodes"
    unfolding find_None_iff new_node_None [OF assms(1)] set_map f by blast
  then show ?thesis unfolding ranker_new_def s fa by (auto split: option.splits)
qed

text \<open>The receipt of a ranking, as a function of the records and their order.\<close>

definition ranked_receipt ::
  "structural_node list \<Rightarrow> structural_edge list \<Rightarrow> stage_ranking_request \<Rightarrow> (str, int) omap
   \<Rightarrow> structural_node list \<Rightarrow> ranking_receipt \<Rightarrow> bool" where
  "ranked_receipt nodes edges rq raw order rc \<longleftrightarrow> mset order = mset nodes
     \<and> sorted_wrt (\<lambda>m n. rank_order (expected_key nodes edges rq raw m)
         < rank_order (expected_key nodes edges rq raw n)) order
     \<and> (let chosen = take (rl_selection_limit (rq_limits rq)) (filter is_current order);
            rest = filter (\<lambda>n. n \<notin> set chosen) order in
        list_all2 (\<lambda>n it. ranked_as nodes edges rq raw n it \<and> ri_decision it = De_Selected)
          chosen (rr_selected rc)
        \<and> list_all2 (\<lambda>n it. ranked_as nodes edges rq raw n it
            \<and> ri_decision it = De_Omitted (if is_current n then Om_SelectionLimit else Om_LifecycleConflict))
          rest (rr_omitted rc)
        \<and> rr_conflict_ids rc = map sn_id (filter (\<lambda>n. \<not> is_current n) order)
        \<and> me_domains (rr_missing rc) = filter (\<lambda>d. \<forall>n \<in> set chosen. d \<notin> set (sn_domains n))
            (rq_required_domains rq)
        \<and> me_evidence_classes (rr_missing rc) = filter (\<lambda>c. \<forall>n \<in> set chosen.
            class_edge_kind c \<notin> link_kinds edges (seeds_of nodes (rq_seed rq)) (sn_id n))
            (rq_required_evidence_classes rq))"

lemma stage_request_fields:
  "stage_request_new seed stage ds cs lim = Inr rq \<Longrightarrow> rq_seed rq = seed \<and> rq_required_domains rq = ds
     \<and> rq_required_evidence_classes rq = cs \<and> rq_limits rq = lim"
  by (auto simp: stage_request_new_def res_simps split: if_splits)

lemma ranker_ranks:
  assumes new: "snapshot_new v p sc g d nodes edges r = Inr s"
    and rq: "stage_request_new seed stage ds cs lim = Inr rq"
    and f: "om_inv raw" "frequency_new a raw = Inr f"
    and k: "ranker_new s rq f = Inr k"
  shows "\<exists>rc order. rank k = Some rc \<and> ranked_receipt nodes edges rq raw order rc
    \<and> rr_snapshot_digest rc = ss_snapshot_digest s \<and> rr_seed rc = seed
    \<and> rr_candidate_count rc = length nodes \<and> rr_requested_selection_limit rc = rl_selection_limit lim
    \<and> rr_conflicts_visible rc = (rr_conflict_ids rc \<noteq> [])"
proof -
  have ok: "k = \<lparr>sk_snapshot = s, sk_request = rq, sk_frequency = f\<rparr>"
    using k unfolding ranker_new_cases [OF new f(2)] by blast
  have q: "rq_seed rq = seed" "rq_required_domains rq = ds" "rq_required_evidence_classes rq = cs"
    "rq_limits rq = lim"
    using stage_request_fields [OF rq] by blast+
  let ?seeds = "seed_node_ids s seed" and ?key = "expected_key nodes edges rq raw"
    and ?K = "link_kinds edges (seeds_of nodes seed)" and ?lim = "rl_selection_limit lim"
  define it where "it n = the (candidate_receipt s rq f ?seeds n)" for n
  have it: "candidate_receipt s rq f ?seeds n = Some (it n)" "ranked_as nodes edges rq raw n (it n)" for n
    using candidate_exact [OF new rq f, of n] unfolding q it_def by auto
  have key: "ri_rank_key (it n) = ?key n" "ri_node_id (it n) = sn_id n" for n
    using it(2) by (simp_all add: ranked_as_def)
  have el: "eligible (it n) \<longleftrightarrow> is_current n" for n
    unfolding eligible_def key by (simp add: expected_key_def Let_def)
  define order where "order = sort_key (\<lambda>n. rank_order (?key n)) (ss_nodes s)"
  have ms: "mset order = mset nodes" using new_nodes [OF new] by (simp add: order_def)
  have dn: "distinct (map sn_id nodes)" using new_structure [OF new] by (simp add: structure_ok_def)
  then have d: "distinct (map sn_id order)" using distinct_map_mset [OF ms, of sn_id] by simp
  then have dord: "distinct order" by (simp add: distinct_map)
  have inj: "rank_order (?key m) = rank_order (?key n) \<Longrightarrow> sn_id m = sn_id n" for m n
    using rank_order_inj [of "?key m" "?key n"] by (simp add: expected_key_def Let_def)
  have "distinct (map (\<lambda>n. rank_order (?key n)) order)"
    using d unfolding distinct_map inj_on_def using inj by blast
  moreover have "sorted (map (\<lambda>n. rank_order (?key n)) order)" by (simp add: order_def)
  ultimately have strict: "sorted_wrt (\<lambda>m n. rank_order (?key m) < rank_order (?key n)) order"
    using strict_sorted_iff [of "map (\<lambda>n. rank_order (?key n)) order"] by (simp add: sorted_wrt_map)
  define chosen where "chosen = take ?lim (filter is_current order)"
  define rest where "rest = filter (\<lambda>n. n \<notin> set chosen) order"
  let ?sel = "map (\<lambda>n. (it n)\<lparr>ri_decision := De_Selected\<rparr>) chosen"
    and ?om = "map (\<lambda>n. omitted_item (it n)) rest"
  have cand: "sort_key (rank_order \<circ> ri_rank_key) (map it (ss_nodes s)) = map it order"
    by (simp add: sort_key_map key order_def)
  have loop: "select_loop ?lim (map it order) [] [] = (?sel, ?om)"
    unfolding rest_def chosen_def passed_eq [OF dord, symmetric]
    by (simp add: select_loop_eq passed_map el filter_map comp_def take_map)
  have sub: "set chosen \<subseteq> set nodes"
    using mset_eq_setD [OF ms] set_take_subset [of ?lim "filter is_current order"]
    unfolding chosen_def by auto
  have cov: "\<forall>x \<in> set ?sel. \<exists>n ks. snapshot_node s (ri_node_id x) = Some n
      \<and> direct_edge_kinds s ?seeds (sn_id n) = Some ks \<and> set ks = ?K (sn_id n)"
  proof
    fix x assume "x \<in> set ?sel"
    then obtain n where n: "n \<in> set chosen" "ri_node_id x = sn_id n" by (auto simp: key)
    then have "snapshot_node s (ri_node_id x) = Some n" using sub new_node [OF new, of n] by auto
    moreover obtain ks where "direct_edge_kinds s ?seeds (sn_id n) = Some ks" "set ks = ?K (sn_id n)"
      using new_direct_kinds [OF new, of ?seeds "sn_id n"] unfolding new_seeds [OF new] by blast
    ultimately show "\<exists>n ks. snapshot_node s (ri_node_id x) = Some n
      \<and> direct_edge_kinds s ?seeds (sn_id n) = Some ks \<and> set ks = ?K (sn_id n)" by blast
  qed
  have node: "the (snapshot_node s (ri_node_id x)) = n"
    if "x = (it n)\<lparr>ri_decision := De_Selected\<rparr>" "n \<in> set chosen" for x n
    using that sub new_node [OF new] by (auto simp: key)
  obtain cd ck where c: "covered_loop s ?seeds ?sel [] [] = Some (cd, ck)"
    "set cd = (\<Union>n \<in> set chosen. set (sn_domains n))" "set ck = (\<Union>n \<in> set chosen. ?K (sn_id n))"
    using covered_loop_eq [OF cov, of "[]" "[]"] node by auto
  define conf where "conf = map ri_node_id (filter (\<lambda>it. ri_decision it = De_Omitted Om_LifecycleConflict) ?om)"
  have conf: "conf = map sn_id (filter (\<lambda>n. \<not> is_current n) order)"
  proof -
    have "n \<notin> set chosen" if "\<not> is_current n" for n
      using that set_take_subset [of ?lim "filter is_current order"] unfolding chosen_def by auto
    then have "filter (\<lambda>n. \<not> is_current n) rest = filter (\<lambda>n. \<not> is_current n) order"
      unfolding rest_def filter_filter by (intro filter_cong) auto
    then show ?thesis
      by (simp add: conf_def filter_map comp_def omitted_item_def el key)
  qed
  have miss: "missing_evidence_decision s rq ?seeds ?sel = Some m \<Longrightarrow>
      me_domains m = filter (\<lambda>d. \<forall>n \<in> set chosen. d \<notin> set (sn_domains n)) ds
      \<and> me_evidence_classes m = filter (\<lambda>c. \<forall>n \<in> set chosen. class_edge_kind c \<notin> ?K (sn_id n)) cs" for m
    by (auto simp: missing_evidence_decision_def c q Let_def)
  obtain m where m: "missing_evidence_decision s rq ?seeds ?sel = Some m"
    by (simp add: missing_evidence_decision_def c Let_def)
  have nil: "filter (\<lambda>it. ri_decision it = De_Omitted Om_LifecycleConflict) ?om = [] \<longleftrightarrow> conf = []"
    by (simp add: conf_def)
  obtain rc where rc: "rank k = Some rc" "rr_selected rc = ?sel" "rr_omitted rc = ?om"
    "rr_conflict_ids rc = conf" "rr_missing rc = m"
    and fields: "rr_snapshot_digest rc = ss_snapshot_digest s" "rr_seed rc = seed"
    "rr_candidate_count rc = length nodes" "rr_requested_selection_limit rc = ?lim"
    "rr_conflicts_visible rc = (conf \<noteq> [])"
  proof -
    have "collect (candidate_receipt s rq f ?seeds) (ss_nodes s) = Some (map it (ss_nodes s))"
      using it(1) by (intro collect_map) blast
    with loop m cand show thesis
      by (intro that [of "the (rank k)"])
        (simp_all add: rank_def ok q Let_def conf_def [symmetric] new_nodes [OF new] nil)
  qed
  have "list_all2 (\<lambda>n x. ranked_as nodes edges rq raw n x \<and> ri_decision x = De_Selected) chosen ?sel"
    using it(2) by (simp add: list_all2_conv_all_nth ranked_as_def)
  moreover have "list_all2 (\<lambda>n x. ranked_as nodes edges rq raw n x
      \<and> ri_decision x = De_Omitted (if is_current n then Om_SelectionLimit else Om_LifecycleConflict)) rest ?om"
    using it(2) by (simp add: list_all2_conv_all_nth ranked_as_def omitted_item_def el)
  ultimately have "ranked_receipt nodes edges rq raw order rc"
    unfolding ranked_receipt_def Let_def q chosen_def [symmetric] rest_def [symmetric]
    using ms strict rc(2-5) conf miss [OF m] by simp
  with rc fields show ?thesis by blast
qed

text \<open>
  C10. A ranker over a new snapshot is made exactly when the snapshot is not too large and the
  frequencies are those it froze, of its own nodes. Then ranking never panics: all nodes in
  strict order of their keys, of which the selected ones are the first current nodes, as many
  as asked, and the omitted ones the others, each with its key and the reason. The conflicts
  are the nodes that are not current, and what is reported missing are exactly the required
  domains and evidence classes that no selected node has.
\<close>

theorem ranking_exact:
  assumes new: "snapshot_new v p sc g d nodes edges r = Inr s"
    and rq: "stage_request_new seed stage ds cs lim = Inr rq"
    and f: "om_inv raw" "frequency_new a raw = Inr f"
  shows "case ranker_new s rq f of
     Inl e \<Rightarrow> MAX_RANKING_CANDIDATES < length nodes \<or> a \<noteq> d \<or> \<not> fst ` set raw \<subseteq> sn_id ` set nodes
   | Inr k \<Rightarrow> length nodes \<le> MAX_RANKING_CANDIDATES \<and> a = d \<and> fst ` set raw \<subseteq> sn_id ` set nodes
      \<and> (\<exists>rc order. rank k = Some rc \<and> mset order = mset nodes
        \<and> sorted_wrt (\<lambda>m n. rank_order (expected_key nodes edges rq raw m)
            < rank_order (expected_key nodes edges rq raw n)) order
        \<and> (let chosen = take (rl_selection_limit lim) (filter is_current order);
               rest = filter (\<lambda>n. n \<notin> set chosen) order in
           list_all2 (\<lambda>n it. ranked_as nodes edges rq raw n it \<and> ri_decision it = De_Selected)
             chosen (rr_selected rc)
           \<and> list_all2 (\<lambda>n it. ranked_as nodes edges rq raw n it
               \<and> ri_decision it = De_Omitted (if is_current n then Om_SelectionLimit else Om_LifecycleConflict))
             rest (rr_omitted rc)
           \<and> rr_conflict_ids rc = map sn_id (filter (\<lambda>n. \<not> is_current n) order)
           \<and> me_domains (rr_missing rc) = filter (\<lambda>d. \<forall>n \<in> set chosen. d \<notin> set (sn_domains n)) ds
           \<and> me_evidence_classes (rr_missing rc) = filter (\<lambda>c. \<forall>n \<in> set chosen.
               class_edge_kind c \<notin> link_kinds edges (seeds_of nodes seed) (sn_id n)) cs))"
proof (cases "ranker_new s rq f")
  case (Inl e)
  then show ?thesis
    using ranker_new_cases [OF new f(2), of rq "\<lparr>sk_snapshot = s, sk_request = rq, sk_frequency = f\<rparr>"]
    by auto
next
  case (Inr k)
  then have ok: "length nodes \<le> MAX_RANKING_CANDIDATES" "a = d" "fst ` set raw \<subseteq> sn_id ` set nodes"
    unfolding ranker_new_cases [OF new f(2)] by blast+
  obtain rc order where "rank k = Some rc" "ranked_receipt nodes edges rq raw order rc"
    using ranker_ranks [OF new rq f Inr] by blast
  moreover have q: "rq_seed rq = seed" "rq_required_domains rq = ds" "rq_required_evidence_classes rq = cs"
    "rq_limits rq = lim"
    using stage_request_fields [OF rq] by blast+
  ultimately show ?thesis
    using ok unfolding ranked_receipt_def q Inr sum.case by blast
qed

definition demo_ranking :: stage_ranking_request where
  "demo_ranking = \<lparr>rq_seed = ''a.rs'', rq_stage = Sg_Design, rq_required_domains = [''core'', ''net''],
     rq_required_evidence_classes = [Cl_Design], rq_limits = \<lparr>rl_selection_limit = 2\<rparr>\<rparr>"

theorem ranking_exact_witness:
  "stage_request_new ''a.rs'' Sg_Design [''core'', ''net''] [Cl_Design] \<lparr>rl_selection_limit = 2\<rparr>
     = Inr demo_ranking
   \<and> (\<exists>s k rc. snapshot_new 1 None demo_digest demo_digest demo_digest [demo_node] [] demo_receipt = Inr s
       \<and> ranker_new s demo_ranking \<lparr>fr_aggregate_digest = demo_digest, fr_values = []\<rparr> = Inr k
       \<and> rank k = Some rc \<and> map ri_node_id (rr_selected rc) = [sn_id demo_node]
       \<and> me_domains (rr_missing rc) = [''net''])"
proof
  let ?f = "\<lparr>fr_aggregate_digest = demo_digest, fr_values = []\<rparr>"
  show rq: "stage_request_new ''a.rs'' Sg_Design [''core'', ''net''] [Cl_Design] \<lparr>rl_selection_limit = 2\<rparr>
     = Inr demo_ranking" by code_simp
  have f: "frequency_new demo_digest [] = Inr ?f" by code_simp
  obtain s where s: "snapshot_new 1 None demo_digest demo_digest demo_digest [demo_node] [] demo_receipt = Inr s"
    using snapshot_new_fails [of 1 None demo_digest demo_digest demo_digest "[demo_node]" "[]"
        demo_receipt] demo_request_ok
    by (cases "snapshot_new 1 None demo_digest demo_digest demo_digest [demo_node] [] demo_receipt")
      auto
  note r = ranking_exact [OF s rq om_inv_Nil f]
  obtain k where k: "ranker_new s demo_ranking ?f = Inr k"
    using r by (cases "ranker_new s demo_ranking ?f") (auto simp: MAX_RANKING_CANDIDATES_def)
  obtain rc order where o1: "rank k = Some rc" "mset order = mset [demo_node]"
    and o2: "let chosen = take 2 (filter is_current order) in
       list_all2 (\<lambda>n it. ranked_as [demo_node] [] demo_ranking [] n it \<and> ri_decision it = De_Selected)
         chosen (rr_selected rc)
       \<and> me_domains (rr_missing rc) = filter (\<lambda>d. \<forall>n \<in> set chosen. d \<notin> set (sn_domains n)) [''core'', ''net'']"
    using r unfolding k sum.case Let_def ranking_limits.simps by blast
  have order: "order = [demo_node]" using o1(2) by simp
  have cur: "is_current demo_node" "sn_domains demo_node = [''core'']" by (simp_all add: demo_node_def)
  have "map ri_node_id (rr_selected rc) = [sn_id demo_node]" "me_domains (rr_missing rc) = [''net'']"
    using o2 unfolding order Let_def by (auto simp: cur list_all2_Cons1 ranked_as_def)
  with s k o1(1) show "\<exists>s k rc. snapshot_new 1 None demo_digest demo_digest demo_digest [demo_node] [] demo_receipt = Inr s
       \<and> ranker_new s demo_ranking ?f = Inr k
       \<and> rank k = Some rc \<and> map ri_node_id (rr_selected rc) = [sn_id demo_node]
       \<and> me_domains (rr_missing rc) = [''net'']" by (intro exI conjI)
qed

end
