(* ===== verification/Spec2Isabelle.thy ===== *)
theory Spec2Isabelle
  imports Content_Identity Result_Store Sql_Safety Descriptor Ignore Receipt_Json Agent_Properties Packet Graph_Builder
    Trail Neighbors Ranking
begin

text \<open>
  Bran: a verification development of the repository's core, \<open>src/crates/bran-core\<close>.

  The program scans a repository of documents into normalized records, holds them in an
  immutable knowledge graph, compiles declared views over the graph, packs a view and its
  evidence into a bounded context packet, and runs one agent invocation on such a packet
  through ports that only see admitted payloads; the answer is stored by content identifier
  and reported by a receipt. This development follows that path from the parsers to the
  receipt.

  Theories and the files they model (all below \<open>src/crates/bran-core/src\<close>).

  \<^item> Prelude: Rust strings and byte slices (a list of bytes), results (\<open>'e + 'a\<close>), sorted
    maps and sets of the standard library, decimal numbers, and the locale \<open>ordered_dict\<close>
    which the map model interprets.
  \<^item> Yaml_Schema (\<open>schema.rs\<close>), Frontmatter (\<open>frontmatter.rs\<close>): normalized values with their
    tagged canonical encoding, and the parser of the frontmatter subset: fences, tokens,
    nested mappings and sequences. Printing and parsing is the identity.
  \<^item> Ignore (\<open>scan/ignore.rs\<close>), Content_Identity (\<open>scan/digest.rs\<close>): the ignore matcher against
    a specification on path components, and the weak content identity.
  \<^item> Graph_Model (\<open>graph/model.rs\<close>), Graph (\<open>graph/mod.rs\<close>): identities, semantic facts with
    their bounds, and \<open>KnowledgeGraph::build\<close> with its lookups and adjacency.
  \<^item> Structural, Structural_Json (\<open>graph/model.rs\<close>, second half), Lineage, Graph_Builder
    (\<open>graph/mod.rs\<close>): snapshots sealed by a digest of their canonical JSON, the cycle check,
    and the builder of candidates.
  \<^item> View (\<open>view/mod.rs\<close>): declarations, filters, ordering, grouping and the two ceilings.
  \<^item> Packet_Types, Packet_Closure, Packet (\<open>packet/mod.rs\<close>): evidence, dependency expansion and
    \<open>PacketAssembler::assemble\<close> with its accounting.
  \<^item> Sha256, Result_Id, Result_Store (\<open>agent/result_store.rs\<close>): the repository's SHA-256, content
    identifiers, and the bounded in-memory store. The contract of the store is the locale
    \<open>result_store_port\<close>, interpreted on the memory store.
  \<^item> Dlp, Sqz (\<open>adapters/sqz.rs\<close>): data-loss findings and the compression policy.
  \<^item> Agent_Profile (\<open>agent/mod.rs\<close>), Agent_Runtime (\<open>agent/runtime.rs\<close>), Delegate
    (\<open>agent/delegate.rs\<close>), Receipt and Receipt_Json (\<open>agent/receipt.rs\<close>), Coordinator,
    Coordinator_Safety (\<open>agent/coordinator.rs\<close>), Synthetic (\<open>agent/synthetic.rs\<close>), Agent_Runs
    and Agent_Properties: registries, the invocation lifecycle, grounding contracts, receipts
    and their bytes and JSON, the coordinator and the properties of a whole invocation.
  \<^item> Sql_Gate, Sql_Safety (\<open>database/sql.rs\<close>), Descriptor (\<open>database/mod.rs\<close>): the gate every SQL
    text passes, and the descriptors of the two database ports.
  \<^item> Json: abstract JSON trees, the specification the hand-written writers are compared with.

  State and errors. A struct is a \<open>record\<close> or a \<open>datatype\<close> with the fields of the code, an
  enum a \<open>datatype\<close>; a method that takes \<open>&mut self\<close> returns the new state beside its result,
  also when it fails. Every \<open>Err\<close> of the code is an \<open>Inl\<close> with the code's variant, and a panic
  a branch of its own: \<open>None\<close> where a counter or an \<open>expect\<close> could panic, \<open>PacketPanic\<close> in the
  assembler. That they do not occur is proved where it is claimed. Counters that the code keeps
  in \<open>usize\<close> or \<open>u64\<close> are naturals with the overflow checks of the code at 64 bits; hashes and
  SHA-256 use machine words.

  Termination and bounds. Loops are structural recursions or functions with a proved measure
  (the lexer, the parser's levels, eviction, dependency expansion, the cycle check); nothing is
  modelled by fuel. The model has no bound on recursion depth where the code recurses on its
  stack (nested frontmatter, the cycle check).

  Parameters. The ports of the coordinator (provider, SQZ, result store, clock) are records of
  functions or a locale; what the code relies on from them is an assumption of the locale and
  is discharged for the program's own adapters. The file system is a function from paths to
  metadata and contents; a path is the Unix text of the code. Latencies are the port's answers.

  What the theorems show, by group: an invocation reaches no port before every gate is open,
  always ends with a receipt, and a Complete receipt is stored, grounded, within its budget and
  free of findings; SQL that passes the gate names only allowed relations; packets are exactly
  accounted, keep required evidence and close over dependencies; graphs, views and snapshots are
  built exactly from well-formed input; parsers and encoders are round trips; the store, the
  registries, the facts and the contracts keep their invariants.

  Not modelled: the query algorithms over the graph (\<open>graph/query.rs\<close>), repository policy and
  profile validation (\<open>policy.rs\<close>, \<open>profile.rs\<close>), bundles, metadata, export, migration, repair and
  derived state (\<open>bundle.rs\<close>, \<open>metadata\<close>, \<open>export\<close>, \<open>migration.rs\<close>, \<open>repair\<close>,
  \<open>derived_state.rs\<close>), the scanner's traversal and transactions (\<open>scan/mod.rs\<close>,
  \<open>scan/transaction.rs\<close>), SCIP import, the public boundary check, the connected and provider
  adapters and the database back ends, which are I/O around the modelled values; the packet
  validator and the structural packets of \<open>packet/mod.rs\<close>; the crates \<open>bran-document\<close>,
  \<open>bran-tui\<close> and \<open>bran-cli\<close>, and the build task.
\<close>

end
